(* ===== verification/Cordis_Prelude.thy ===== *)
theory Cordis_Prelude
  imports Main "HOL-Library.Word"
begin

text \<open>
  Shared vocabulary of the development.  The theory fixes how the recurring Rust
  building blocks are written in HOL and proves the generic facts every component uses:

  \<^item> \<open>std::collections::HashMap\<close> is an association list with distinct keys
    (\<open>hm_insert\<close>, \<open>hm_remove\<close>, lookup by \<open>map_of\<close>).  The iteration order of a
    \<open>HashMap\<close> is unspecified; the list order is one possible order and no property
    of the development depends on it.
  \<^item> \<open>std::collections::BTreeMap\<close> is an association list sorted by key (\<open>bt_insert\<close>);
    iteration is in key order.
  \<^item> \<open>u64\<close> is \<open>64 word\<close>; \<open>checked_add(1)\<close> is \<open>checked_succ\<close>, with \<open>None\<close> where
    the code calls \<open>expect\<close> and panics.
  \<^item> \<open>Arc\<close> allocation identities (\<open>Arc::ptr_eq\<close>) are natural numbers handed out by
    one counter that only grows.

  The interfaces several components share are locales: \<open>key_store\<close> (what a map
  promises), \<open>exact_claim\<close> (an occurrence is claimed at most once), \<open>id_allocator\<close>
  (identities are never handed out twice), and \<open>invariant_system\<close> (an invariant kept
  by every step holds in every reachable state).
\<close>

named_theorems store_simps \<open>lookup equations of the stores\<close>
named_theorems wf_intros \<open>well-formedness is preserved by every operation\<close>

type_synonym u64 = "64 word"

type_synonym ident = nat \<comment> \<open>an allocation identity, compared by \<open>Arc::ptr_eq\<close>\<close>
type_synonym fid = ident \<comment> \<open>the identity of one Fiber allocation\<close>
type_synonym type_id = nat \<comment> \<open>\<open>std::any::TypeId\<close>\<close>
type_synonym realm_key = u64 \<comment> \<open>\<open>RealmKey\<close>, the storage key of a Service realm\<close>

subsection \<open>Lists\<close>

lemma filter_eq_self_iff: "filter P xs = xs \<longleftrightarrow> (\<forall>x \<in> set xs. P x)"
  by (induction xs) (auto, metis impossible_Cons length_filter_le)

lemma count_list_distinct_le_1: "distinct xs \<Longrightarrow> count_list xs x \<le> 1"
  by (induction xs) (auto simp: count_list_0_iff)

lemma hd_filter_dropWhile: "filter P xs \<noteq> [] \<Longrightarrow> hd (filter P xs) = hd (dropWhile (\<lambda>x. \<not> P x) xs)"
  by (induction xs) auto

lemma map_filter_append: "List.map_filter f (xs @ ys) = List.map_filter f xs @ List.map_filter f ys"
  by (simp add: List.map_filter_def)

lemma find_SomeD: "find P xs = Some x \<Longrightarrow> x \<in> set xs \<and> P x"
  by (induction xs) (auto split: if_splits)

lemma count_list_distinct: "distinct xs \<Longrightarrow> count_list xs x = (if x \<in> set xs then 1 else 0)"
  by (induction xs) auto

subsection \<open>Hash maps\<close>

type_synonym ('k, 'v) hashmap = "('k \<times> 'v) list"

fun hm_insert :: "'k \<Rightarrow> 'v \<Rightarrow> ('k, 'v) hashmap \<Rightarrow> ('k, 'v) hashmap" where
  "hm_insert k v [] = [(k, v)]"
| "hm_insert k v ((k', v') # m) =
     (if k = k' then (k, v) # m else (k', v') # hm_insert k v m)"

definition hm_remove :: "'k \<Rightarrow> ('k, 'v) hashmap \<Rightarrow> ('k, 'v) hashmap" where
  "hm_remove k m = filter (\<lambda>p. fst p \<noteq> k) m"

definition hm_wf :: "('k, 'v) hashmap \<Rightarrow> bool" where
  "hm_wf m \<longleftrightarrow> distinct (map fst m)"

lemma map_of_hm_insert [simp, store_simps]:
  "map_of (hm_insert k v m) = (map_of m)(k \<mapsto> v)"
  by (induction m) (auto simp: fun_eq_iff)

lemma map_of_hm_remove [simp, store_simps]:
  "map_of (hm_remove k m) = (map_of m)(k := None)"
  by (induction m) (auto simp: hm_remove_def fun_eq_iff)

lemma keys_hm_insert [simp]: "fst ` set (hm_insert k v m) = insert k (fst ` set m)"
  by (simp flip: dom_map_of_conv_image_fst)

lemma keys_hm_remove [simp]: "fst ` set (hm_remove k m) = fst ` set m - {k}"
  by (auto simp: hm_remove_def)

lemma set_hm_remove: "set (hm_remove k m) = {p \<in> set m. fst p \<noteq> k}"
  by (auto simp: hm_remove_def)

lemma set_hm_insert_subset: "set (hm_insert k v m) \<subseteq> insert (k, v) (set m)"
  by (induction m) (auto split: if_splits)

lemma hm_wf_empty [simp, wf_intros]: "hm_wf []"
  by (simp add: hm_wf_def)

lemma hm_wf_insert [simp, wf_intros]: "hm_wf m \<Longrightarrow> hm_wf (hm_insert k v m)"
  unfolding hm_wf_def
proof (induction m)
  case Nil
  then show ?case by simp
next
  case (Cons p m)
  obtain k' v' where p: "p = (k', v')" by force
  have "set (map fst (hm_insert k v m)) = insert k (set (map fst m))"
    by simp
  with Cons p show ?case by (auto simp del: set_map)
qed

lemma hm_wf_remove [simp, wf_intros]: "hm_wf m \<Longrightarrow> hm_wf (hm_remove k m)"
  by (simp add: hm_wf_def hm_remove_def distinct_map_filter)

lemma hm_remove_absent: "map_of m k = None \<Longrightarrow> hm_remove k m = m"
  by (auto simp: hm_remove_def map_of_eq_None_iff intro!: filter_True)

lemma hm_insert_fresh: "map_of m k = None \<Longrightarrow> hm_insert k v m = m @ [(k, v)]"
  by (induction m) (auto split: if_splits)

lemma hm_wf_lookup: "hm_wf m \<Longrightarrow> map_of m k = Some v \<longleftrightarrow> (k, v) \<in> set m"
  by (simp add: hm_wf_def)

lemma hm_wf_set_insert: "hm_wf m \<Longrightarrow> set (hm_insert k v m) = insert (k, v) (set (hm_remove k m))"
proof (induction m)
  case Nil
  then show ?case by (simp add: hm_remove_def)
next
  case (Cons p m)
  obtain k' v' where p: "p = (k', v')" by force
  show ?case
  proof (cases "k = k'")
    case True
    with Cons.prems p have "\<forall>q \<in> set m. fst q \<noteq> k"
      by (force simp: hm_wf_def)
    with True p show ?thesis by (auto simp: set_hm_remove)
  next
    case False
    with Cons p show ?thesis by (auto simp: hm_wf_def set_hm_remove)
  qed
qed

subsection \<open>Ordered maps\<close>

type_synonym ('k, 'v) btree = "('k \<times> 'v) list"

fun bt_insert :: "'k::linorder \<Rightarrow> 'v \<Rightarrow> ('k, 'v) btree \<Rightarrow> ('k, 'v) btree" where
  "bt_insert k v [] = [(k, v)]"
| "bt_insert k v ((k', v') # m) =
     (if k < k' then (k, v) # (k', v') # m
      else if k = k' then (k, v) # m
      else (k', v') # bt_insert k v m)"

definition bt_wf :: "('k::linorder, 'v) btree \<Rightarrow> bool" where
  "bt_wf m \<longleftrightarrow> sorted_wrt (<) (map fst m)"

lemma map_of_bt_insert [simp, store_simps]:
  "map_of (bt_insert k v m) = (map_of m)(k \<mapsto> v)"
  by (induction m) (auto simp: fun_eq_iff)

lemma keys_bt_insert [simp]: "fst ` set (bt_insert k v m) = insert k (fst ` set m)"
  by (simp flip: dom_map_of_conv_image_fst)

lemma bt_wf_empty [simp, wf_intros]: "bt_wf []"
  by (simp add: bt_wf_def)

lemma bt_wf_insert [simp, wf_intros]: "bt_wf m \<Longrightarrow> bt_wf (bt_insert k v m)"
  unfolding bt_wf_def
proof (induction m)
  case Nil
  then show ?case by simp
next
  case (Cons p m)
  obtain k' v' where p: "p = (k', v')" by force
  have "set (map fst (bt_insert k v m)) = insert k (set (map fst m))"
    by simp
  with Cons p show ?case by (auto simp del: set_map)
qed

lemma bt_wf_remove [simp, wf_intros]: "bt_wf m \<Longrightarrow> bt_wf (hm_remove k m)"
  unfolding bt_wf_def hm_remove_def
  by (induction m) auto

lemma bt_wf_distinct: "bt_wf m \<Longrightarrow> distinct (map fst m)"
  unfolding bt_wf_def by (induction m) auto

lemma bt_insert_greatest: "\<forall>k' \<in> fst ` set m. k' < k \<Longrightarrow> bt_insert k v m = m @ [(k, v)]"
  by (induction m) (auto dest: less_not_sym)

subsection \<open>What a map promises\<close>

locale key_store =
  fixes empty :: "'m"
    and lookup :: "'m \<Rightarrow> 'k \<Rightarrow> 'v option"
    and insert_entry :: "'k \<Rightarrow> 'v \<Rightarrow> 'm \<Rightarrow> 'm"
    and remove_entry :: "'k \<Rightarrow> 'm \<Rightarrow> 'm"
    and wf :: "'m \<Rightarrow> bool"
  assumes lookup_empty: "lookup empty k = None"
    and lookup_insert: "wf m \<Longrightarrow> lookup (insert_entry k v m) = (lookup m)(k \<mapsto> v)"
    and lookup_remove: "wf m \<Longrightarrow> lookup (remove_entry k m) = (lookup m)(k := None)"
    and wf_empty: "wf empty"
    and wf_insert: "wf m \<Longrightarrow> wf (insert_entry k v m)"
    and wf_remove: "wf m \<Longrightarrow> wf (remove_entry k m)"
begin

lemma lookup_insert_other: "wf m \<Longrightarrow> k' \<noteq> k \<Longrightarrow> lookup (insert_entry k v m) k' = lookup m k'"
  by (simp add: lookup_insert)

lemma insert_then_remove:
  "wf m \<Longrightarrow> lookup (remove_entry k (insert_entry k v m)) = (lookup m)(k := None)"
  by (simp add: lookup_insert lookup_remove wf_insert)

lemma remove_twice:
  "wf m \<Longrightarrow> lookup (remove_entry k (remove_entry k m)) = lookup (remove_entry k m)"
  by (simp add: lookup_remove wf_remove)

lemma insert_commute:
  "wf m \<Longrightarrow> k \<noteq> k' \<Longrightarrow>
   lookup (insert_entry k v (insert_entry k' v' m)) = lookup (insert_entry k' v' (insert_entry k v m))"
  by (simp add: lookup_insert wf_insert fun_upd_twist)

end

interpretation hash_store: key_store "[]" map_of hm_insert hm_remove hm_wf
  by unfold_locales simp_all

interpretation tree_store: key_store "[]" map_of bt_insert hm_remove bt_wf
  by unfold_locales simp_all

subsection \<open>Identity allocation\<close>

text \<open>
  \<open>AtomicU64::fetch_update(checked_add(1)).expect(..) + 1\<close>: the new value of the
  counter is the identity; at the end of the identity space the code panics, which is
  \<open>None\<close> here.
\<close>

definition checked_succ :: "u64 \<Rightarrow> u64 option" where
  "checked_succ c = (if c = - 1 then None else Some (c + 1))"

lemma unat_checked_succ: "checked_succ c = Some d \<Longrightarrow> unat d = Suc (unat c)"
  by (auto simp: checked_succ_def unatSuc add_eq_0_iff add.commute [of c] split: if_splits)

lemma word_less_succ: "a \<le> (b :: u64) \<Longrightarrow> b \<noteq> - 1 \<Longrightarrow> a < b + 1"
proof -
  assume "a \<le> b" and "b \<noteq> - 1"
  then have "unat (b + 1) = Suc (unat b)" by (simp add: unatSuc add_eq_0_iff add.commute [of b])
  with \<open>a \<le> b\<close> show ?thesis by (simp add: word_le_nat_alt word_less_nat_alt)
qed

lemma checked_succ_None [simp]: "checked_succ c = None \<longleftrightarrow> c = - 1"
  by (simp add: checked_succ_def)

lemma checked_succ_neq_0: "checked_succ c = Some d \<Longrightarrow> d \<noteq> 0"
  using unat_checked_succ by fastforce

fun alloc_run :: "('c \<Rightarrow> ('i \<times> 'c) option) \<Rightarrow> nat \<Rightarrow> 'c \<Rightarrow> ('i list \<times> 'c) option" where
  "alloc_run alloc 0 c = Some ([], c)"
| "alloc_run alloc (Suc n) c =
     (case alloc c of
        None \<Rightarrow> None
      | Some (i, c') \<Rightarrow>
          (case alloc_run alloc n c' of
             None \<Rightarrow> None
           | Some (is, c'') \<Rightarrow> Some (i # is, c'')))"

locale id_allocator =
  fixes alloc :: "'c \<Rightarrow> ('i \<times> 'c) option"
    and rank :: "'i \<Rightarrow> nat"
    and used :: "'c \<Rightarrow> nat"
  assumes alloc_rank: "alloc c = Some (i, c') \<Longrightarrow> used c < rank i"
    and alloc_used: "alloc c = Some (i, c') \<Longrightarrow> rank i \<le> used c'"
begin

lemma alloc_run_ranks:
  "alloc_run alloc n c = Some (is, c') \<Longrightarrow>
   sorted_wrt (<) (map rank is) \<and> (\<forall>i \<in> set is. used c < rank i \<and> rank i \<le> used c') \<and> used c \<le> used c'"
proof (induction n arbitrary: c "is")
  case 0
  then show ?case by simp
next
  case (Suc n)
  then obtain i d js where a: "alloc c = Some (i, d)" and r: "alloc_run alloc n d = Some (js, c')"
    and "is": "is = i # js"
    by (auto split: option.splits prod.splits)
  from Suc.IH [OF r] alloc_rank [OF a] alloc_used [OF a] "is"
  show ?case by fastforce
qed

lemma alloc_run_distinct: "alloc_run alloc n c = Some (is, c') \<Longrightarrow> distinct is"
proof -
  assume "alloc_run alloc n c = Some (is, c')"
  then have "sorted_wrt (<) (map rank is)" using alloc_run_ranks by blast
  then have "distinct (map rank is)" by (metis strict_sorted_iff)
  then show ?thesis by (rule distinct_map [THEN iffD1, THEN conjunct1])
qed

end

subsection \<open>Exact claims\<close>

text \<open>
  Several stores hand out a token for one occurrence and let several parties compete for
  it: the claim is won by whoever removes the occurrence first.  \<open>run_claims\<close> runs a
  sequence of claims in the order in which they take the store's lock.
\<close>

fun run_claims :: "('t \<Rightarrow> 's \<Rightarrow> bool \<times> 's) \<Rightarrow> 't list \<Rightarrow> 's \<Rightarrow> ('t \<times> bool) list \<times> 's" where
  "run_claims claim [] s = ([], s)"
| "run_claims claim (t # ts) s =
     (let (won, s') = claim t s; (rest, s'') = run_claims claim ts s'
      in ((t, won) # rest, s''))"

definition winners :: "('t \<times> bool) list \<Rightarrow> 't list" where
  "winners rs = map fst (filter snd rs)"

lemma winners_simps [simp]:
  "winners [] = []"
  "winners ((t, True) # rs) = t # winners rs"
  "winners ((t, False) # rs) = winners rs"
  by (simp_all add: winners_def)

locale exact_claim =
  fixes present :: "'t \<Rightarrow> 's \<Rightarrow> bool"
    and claim :: "'t \<Rightarrow> 's \<Rightarrow> bool \<times> 's"
    and wf :: "'s \<Rightarrow> bool"
  assumes claim_wins: "wf s \<Longrightarrow> fst (claim t s) \<longleftrightarrow> present t s"
    and claim_present: "wf s \<Longrightarrow> present u (snd (claim t s)) \<longleftrightarrow> present u s \<and> u \<noteq> t"
    and claim_wf: "wf s \<Longrightarrow> wf (snd (claim t s))"
begin

lemma run_claims_winners:
  "wf s \<Longrightarrow> run_claims claim ts s = (rs, s') \<Longrightarrow>
   wf s' \<and> distinct (winners rs) \<and> set (winners rs) = {t \<in> set ts. present t s} \<and>
   (\<forall>u. present u s' \<longleftrightarrow> present u s \<and> u \<notin> set ts)"
proof (induction ts arbitrary: s rs)
  case Nil
  then show ?case by auto
next
  case (Cons t ts)
  obtain won s1 where c: "claim t s = (won, s1)" by force
  obtain rest where r: "run_claims claim ts s1 = (rest, s')" and rs: "rs = (t, won) # rest"
    using Cons.prems(2) c by (auto split: prod.splits)
  have wf1: "wf s1" using claim_wf [OF Cons.prems(1), of t] c by simp
  have won: "won \<longleftrightarrow> present t s" using claim_wins [OF Cons.prems(1), of t] c by simp
  have pres: "present u s1 \<longleftrightarrow> present u s \<and> u \<noteq> t" for u
    using claim_present [OF Cons.prems(1), of u t] c by simp
  from Cons.IH [OF wf1 r] won pres rs show ?case
    by (cases won) auto
qed

lemma claimed_at_most_once:
  assumes "wf s" and "run_claims claim ts s = (rs, s')"
  shows "count_list (winners rs) t \<le> 1"
proof -
  have "distinct (winners rs)" using run_claims_winners [OF assms] by blast
  then show ?thesis by (rule count_list_distinct_le_1)
qed

end

subsection \<open>Reachability\<close>

inductive reach :: "('s \<Rightarrow> bool) \<Rightarrow> ('s \<Rightarrow> 's \<Rightarrow> bool) \<Rightarrow> 's \<Rightarrow> bool" for init step where
  reach_init: "init s \<Longrightarrow> reach init step s"
| reach_step: "reach init step s \<Longrightarrow> step s t \<Longrightarrow> reach init step t"

locale invariant_system =
  fixes init :: "'s \<Rightarrow> bool"
    and step :: "'s \<Rightarrow> 's \<Rightarrow> bool"
    and inv :: "'s \<Rightarrow> bool"
  assumes init_inv: "init s \<Longrightarrow> inv s"
    and step_inv: "inv s \<Longrightarrow> step s t \<Longrightarrow> inv t"
begin

lemma reach_inv: "reach init step s \<Longrightarrow> inv s"
  by (induction rule: reach.induct) (auto intro: init_inv step_inv)

end

end
