(* ===== verification/Effect_Journal.thy ===== *)
theory Effect_Journal
  imports Cordis_Prelude
begin

text \<open>
  The cleanup journal of one Fiber generation (\<open>crates/cordis-core/src/effect.rs\<close>):
  cleanup obligations, their normalised failures, the keyed journal
  \<open>DisposableList\<close> with its exact one-time claims, and the LIFO drain.

  A stored cleanup is a boxed closure in the code.  Here it is the first-order value
  \<open>cleanup_run\<close> that names what the closure does; the framework's own cleanups are the
  constructors after \<open>UserCleanup\<close>, each with exactly the values the closure captures.
\<close>

section \<open>Cleanup obligations and their failures\<close>

datatype cleanup_run =
    UserCleanup ident
  | WithdrawPublication realm_key string ident
  | RemoveListener string ident
  | RemoveUpdateHook type_id ident
  | RemoveExporter u64
  | RemoveObserver u64
  | JoinTask ident

record cleanup =
  run :: cleanup_run
  async_cleanup :: bool

definition sync_cleanup :: "cleanup_run \<Rightarrow> cleanup" where
  "sync_cleanup f = \<lparr>run = f, async_cleanup = False\<rparr>"

definition fut_cleanup :: "cleanup_run \<Rightarrow> cleanup" where
  "fut_cleanup f = \<lparr>run = f, async_cleanup = True\<rparr>"

datatype effect_failure_kind = EffectReturnedError | EffectPanic

record effect_failure =
  ef_kind :: effect_failure_kind
  ef_diagnostic :: string

definition effect_failure_returned :: "string \<Rightarrow> effect_failure" where
  "effect_failure_returned d = \<lparr>ef_kind = EffectReturnedError, ef_diagnostic = d\<rparr>"

definition effect_failure_panicked :: "string \<Rightarrow> effect_failure" where
  "effect_failure_panicked d = \<lparr>ef_kind = EffectPanic, ef_diagnostic = d\<rparr>"

definition effect_failure_display :: "effect_failure \<Rightarrow> string" where
  "effect_failure_display f =
     (case ef_kind f of
        EffectReturnedError \<Rightarrow> ''returned an error: '' @ ef_diagnostic f
      | EffectPanic \<Rightarrow> ''panicked: '' @ ef_diagnostic f)"

text \<open>
  What a user cleanup may return: \<open>()\<close> or \<open>Result<(), E>\<close>, where the error is already
  its \<open>Display\<close> text.  \<open>into_outcome\<close> is the sealed adapter \<open>CleanupResult\<close>.
\<close>

datatype cleanup_return = ReturnUnit | ReturnResult "string + unit"

fun into_outcome :: "cleanup_return \<Rightarrow> effect_failure + unit" where
  "into_outcome ReturnUnit = Inr ()"
| "into_outcome (ReturnResult (Inr ())) = Inr ()"
| "into_outcome (ReturnResult (Inl e)) = Inl (effect_failure_returned e)"

text \<open>A closure or future that runs to its end either produces its output or unwinds.\<close>

datatype 'a completion = Finished 'a | Unwound string

fun execute_cleanup :: "(effect_failure + unit) completion \<Rightarrow> effect_failure option" where
  "execute_cleanup (Finished (Inr ())) = None"
| "execute_cleanup (Finished (Inl failure)) = Some failure"
| "execute_cleanup (Unwound payload) = Some (effect_failure_panicked payload)"

section \<open>The journal\<close>

type_synonym token = u64

record journal =
  jr_sn :: u64
  jr_map :: "(token, cleanup) btree"

definition journal_new :: journal where
  "journal_new = \<lparr>jr_sn = 0, jr_map = []\<rparr>"

definition journal_push :: "cleanup \<Rightarrow> journal \<Rightarrow> token \<times> journal" where
  "journal_push c j =
     (let sn = jr_sn j + 1
      in (sn, j\<lparr>jr_sn := sn, jr_map := bt_insert sn c (jr_map j)\<rparr>))"

definition journal_remove :: "token \<Rightarrow> journal \<Rightarrow> cleanup option \<times> journal" where
  "journal_remove t j = (map_of (jr_map j) t, j\<lparr>jr_map := hm_remove t (jr_map j)\<rparr>)"

definition journal_tokens :: "journal \<Rightarrow> token list" where
  "journal_tokens j = map fst (jr_map j)"

text \<open>Manual control: \<open>EffectRegistration::disarm\<close> reports whether the claim was won.\<close>

definition journal_claim :: "token \<Rightarrow> journal \<Rightarrow> bool \<times> journal" where
  "journal_claim t j = (case journal_remove t j of (c, j') \<Rightarrow> (c \<noteq> None, j'))"

definition owned :: "token \<Rightarrow> journal \<Rightarrow> bool" where
  "owned t j \<longleftrightarrow> map_of (jr_map j) t \<noteq> None"

definition journal_wf :: "journal \<Rightarrow> bool" where
  "journal_wf j \<longleftrightarrow> bt_wf (jr_map j) \<and> (\<forall>t \<in> set (journal_tokens j). t \<le> jr_sn j)"

subsection \<open>Outcome delivery\<close>

text \<open>
  The claimed cleanup runs in a detached task and sends its outcome through a one-shot
  channel.  When the receiver is gone the sender reports a failure itself, otherwise the
  receiver has it.  The result is what the receiver got (\<open>None\<close> when it is gone) and the
  failures reported by the sender.
\<close>

definition send_outcome ::
  "bool \<Rightarrow> effect_failure option \<Rightarrow> effect_failure option option \<times> effect_failure list"
where
  "send_outcome receiver_waits outcome =
     (if receiver_waits then (Some outcome, [])
      else (None, case outcome of Some failure \<Rightarrow> [failure] | None \<Rightarrow> []))"

text \<open>\<open>Fiber::run_cleanup_contained\<close>: the reports one drained cleanup leaves behind.\<close>

definition run_cleanup_contained ::
  "bool \<Rightarrow> (effect_failure + unit) completion \<Rightarrow> effect_failure list"
where
  "run_cleanup_contained drain_waits result =
     (case send_outcome drain_waits (execute_cleanup result) of
        (received, reported) \<Rightarrow>
          reported @ (case received of Some (Some failure) \<Rightarrow> [failure] | _ \<Rightarrow> []))"

text \<open>
  \<open>EffectRegistration::dispose\<close>: the answer of the caller (\<open>None\<close> when it abandoned the
  wait), the failures reported, and the journal.  \<open>owner_alive\<close> is the upgrade of the weak
  owner, \<open>complete\<close> what running the cleanup ends in.
\<close>

definition registration_dispose ::
  "bool \<Rightarrow> bool \<Rightarrow> (cleanup \<Rightarrow> (effect_failure + unit) completion) \<Rightarrow> token \<Rightarrow> journal \<Rightarrow>
   (effect_failure + bool) option \<times> effect_failure list \<times> journal"
where
  "registration_dispose owner_alive caller_waits complete t j =
     (if \<not> owner_alive then (Some (Inr False), [], j)
      else case journal_remove t j of
        (None, j1) \<Rightarrow> (Some (Inr False), [], j1)
      | (Some c, j1) \<Rightarrow>
          (case send_outcome caller_waits (execute_cleanup (complete c)) of
             (Some None, reported) \<Rightarrow> (Some (Inr True), reported, j1)
           | (Some (Some failure), reported) \<Rightarrow> (Some (Inl failure), reported, j1)
           | (None, reported) \<Rightarrow> (None, reported, j1)))"

definition registration_disarm :: "bool \<Rightarrow> token \<Rightarrow> journal \<Rightarrow> bool \<times> journal" where
  "registration_disarm owner_alive t j =
     (if \<not> owner_alive then (False, j)
      else case journal_remove t j of (c, j1) \<Rightarrow> (c \<noteq> None, j1))"

subsection \<open>The drain\<close>

text \<open>
  \<open>run_tokens_contained\<close>: the tokens of the snapshot are taken in reverse order, each
  claimed before its cleanup runs, and skipped when somebody else claimed it.  The
  parameter \<open>env\<close> is the run of one cleanup: how it ends, and everything that happens to
  the journal meanwhile (the cleanup's own effects, the manual claims of other tasks).
  The result lists the cleanups that were run, in order, with the reports they caused.
\<close>

type_synonym cleanup_env = "cleanup \<Rightarrow> journal \<Rightarrow> (effect_failure + unit) completion \<times> journal"

fun run_tokens ::
  "cleanup_env \<Rightarrow> token list \<Rightarrow> journal \<Rightarrow> (token \<times> cleanup \<times> effect_failure list) list \<times> journal"
where
  "run_tokens env [] j = ([], j)"
| "run_tokens env (t # ts) j =
     (case journal_remove t j of
        (None, j1) \<Rightarrow> run_tokens env ts j1
      | (Some c, j1) \<Rightarrow>
          (case env c j1 of (result, j2) \<Rightarrow>
             (case run_tokens env ts j2 of (executed, j3) \<Rightarrow>
                ((t, c, run_cleanup_contained True result) # executed, j3))))"

definition run_tokens_contained ::
  "cleanup_env \<Rightarrow> token list \<Rightarrow> journal \<Rightarrow> (token \<times> cleanup \<times> effect_failure list) list \<times> journal"
where
  "run_tokens_contained env tokens j = run_tokens env (rev tokens) j"

definition drain_disposables ::
  "cleanup_env \<Rightarrow> journal \<Rightarrow> (token \<times> cleanup \<times> effect_failure list) list \<times> journal"
where
  "drain_disposables env j = run_tokens_contained env (journal_tokens j) j"

section \<open>Properties of the journal\<close>

lemma journal_new_wf [simp, wf_intros]: "journal_wf journal_new"
  by (simp add: journal_new_def journal_wf_def journal_tokens_def)

lemma journal_remove_wf [simp, wf_intros]:
  "journal_wf j \<Longrightarrow> journal_wf (snd (journal_remove t j))"
  by (auto simp: journal_wf_def journal_remove_def journal_tokens_def hm_remove_def
      bt_wf_remove [unfolded hm_remove_def])

lemma journal_push_snoc:
  assumes "journal_wf j" and "jr_sn j \<noteq> - 1"
  shows "jr_map (snd (journal_push c j)) = jr_map j @ [(jr_sn j + 1, c)]"
proof -
  have "\<forall>t \<in> fst ` set (jr_map j). t < jr_sn j + 1"
    using assms by (auto simp: journal_wf_def journal_tokens_def intro!: word_less_succ)
  then show ?thesis by (simp add: journal_push_def Let_def bt_insert_greatest)
qed

lemma journal_push_wf [simp, wf_intros]:
  assumes "journal_wf j" and "jr_sn j \<noteq> - 1"
  shows "journal_wf (snd (journal_push c j))"
proof -
  have "t \<le> jr_sn j + 1" if "t \<in> set (journal_tokens j)" for t
    using that assms by (auto simp: journal_wf_def intro: word_less_succ less_imp_le)
  moreover have "bt_wf (jr_map (snd (journal_push c j)))"
    using assms by (simp add: journal_push_def Let_def journal_wf_def)
  ultimately show ?thesis
    by (auto simp: journal_wf_def journal_push_def Let_def journal_tokens_def)
qed

lemma journal_push_tokens:
  assumes "journal_wf j" and "jr_sn j \<noteq> - 1"
  shows "journal_tokens (snd (journal_push c j)) = journal_tokens j @ [fst (journal_push c j)]"
  using journal_push_snoc [OF assms]
  by (simp add: journal_tokens_def) (simp add: journal_push_def Let_def)

lemma journal_push_fresh:
  assumes "journal_wf j" and "jr_sn j \<noteq> - 1"
  shows "\<not> owned (fst (journal_push c j)) j"
proof -
  have "t < jr_sn j + 1" if "t \<in> set (journal_tokens j)" for t
    using that assms by (auto simp: journal_wf_def intro: word_less_succ)
  then have "jr_sn j + 1 \<notin> fst ` set (jr_map j)"
    by (force simp: journal_tokens_def)
  then show ?thesis
    by (simp add: owned_def journal_push_def Let_def map_of_eq_None_iff)
qed

lemma owned_push: "owned t (snd (journal_push c j)) \<longleftrightarrow> t = fst (journal_push c j) \<or> owned t j"
  by (auto simp: owned_def journal_push_def Let_def)

lemma owned_tokens: "owned t j \<longleftrightarrow> t \<in> set (journal_tokens j)"
  by (auto simp: owned_def journal_tokens_def map_of_eq_None_iff)

lemma journal_claim_eq:
  "journal_claim t j = (owned t j, j\<lparr>jr_map := hm_remove t (jr_map j)\<rparr>)"
  by (simp add: journal_claim_def journal_remove_def owned_def)

lemma owned_claim: "owned u (snd (journal_claim t j)) \<longleftrightarrow> owned u j \<and> u \<noteq> t"
  by (auto simp: journal_claim_eq owned_def)

interpretation journal_claims: exact_claim owned journal_claim journal_wf
proof
  show "journal_wf (snd (journal_claim t j))" if "journal_wf j" for t j
    using journal_remove_wf [OF that, of t] by (simp add: journal_claim_def case_prod_beta)
qed (simp_all add: journal_claim_eq owned_def)

text \<open>What a drain leaves behind and what it ran, when the environment only claims.\<close>

definition only_claims :: "cleanup_env \<Rightarrow> bool" where
  "only_claims env \<longleftrightarrow> (\<forall>c j t. map_of (jr_map (snd (env c j))) t \<in> {None, map_of (jr_map j) t})"

lemma only_claims_owned: "only_claims env \<Longrightarrow> owned t (snd (env c j)) \<Longrightarrow> owned t j"
  unfolding only_claims_def owned_def by (metis insertE singletonD)

lemma only_claims_lookup:
  "only_claims env \<Longrightarrow> map_of (jr_map (snd (env c j))) t = Some d \<Longrightarrow> map_of (jr_map j) t = Some d"
  unfolding only_claims_def by (metis insertE option.distinct(1) singletonD)

lemma run_tokens_skip:
  "map_of (jr_map j) t = None \<Longrightarrow> run_tokens env (t # ts) j = run_tokens env ts j"
  by (simp add: journal_remove_def hm_remove_absent)

lemma run_tokens_take:
  "map_of (jr_map j) t = Some c \<Longrightarrow>
   run_tokens env (t # ts) j =
     (let e = env c (j\<lparr>jr_map := hm_remove t (jr_map j)\<rparr>); r = run_tokens env ts (snd e)
      in ((t, c, run_cleanup_contained True (fst e)) # fst r, snd r))"
  by (simp add: journal_remove_def case_prod_beta Let_def)

lemmas run_tokens_steps = run_tokens_skip run_tokens_take

lemma run_tokens_only_removes:
  assumes "only_claims env"
  shows "map_of (jr_map (snd (run_tokens env ts j))) t = Some d \<Longrightarrow>
         map_of (jr_map j) t = Some d \<and> t \<notin> set ts"
proof (induction ts arbitrary: j)
  case Nil
  then show ?case by simp
next
  case (Cons u ts)
  show ?case
  proof (cases "map_of (jr_map j) u")
    case None
    with Cons.prems have "map_of (jr_map (snd (run_tokens env ts j))) t = Some d"
      by (simp add: run_tokens_skip del: run_tokens.simps)
    from Cons.IH [OF this] None show ?thesis by auto
  next
    case (Some c)
    let ?j = "j\<lparr>jr_map := hm_remove u (jr_map j)\<rparr>"
    from Cons.prems Some have "map_of (jr_map (snd (run_tokens env ts (snd (env c ?j))))) t = Some d"
      by (simp add: run_tokens_take Let_def del: run_tokens.simps)
    from Cons.IH [OF this] only_claims_lookup [OF assms, of c ?j t d]
    show ?thesis by (auto split: if_splits)
  qed
qed

lemma run_tokens_ran:
  assumes "only_claims env"
  shows "(t, c, rs) \<in> set (fst (run_tokens env ts j)) \<Longrightarrow> t \<in> set ts \<and> map_of (jr_map j) t = Some c"
proof (induction ts arbitrary: j)
  case Nil
  then show ?case by simp
next
  case (Cons u ts)
  show ?case
  proof (cases "map_of (jr_map j) u")
    case None
    with Cons show ?thesis
      by (simp add: run_tokens_skip del: run_tokens.simps)
  next
    case (Some d)
    let ?j = "j\<lparr>jr_map := hm_remove u (jr_map j)\<rparr>"
    from Cons.prems Some consider "t = u" "c = d"
      | "(t, c, rs) \<in> set (fst (run_tokens env ts (snd (env d ?j))))"
      by (auto simp: run_tokens_take Let_def simp del: run_tokens.simps)
    then show ?thesis
    proof cases
      case 1
      with Some show ?thesis by simp
    next
      case 2
      from Cons.IH [OF this] only_claims_lookup [OF assms, of d ?j t c]
      show ?thesis by (auto split: if_splits)
    qed
  qed
qed

lemma run_tokens_subseq: "\<exists>P. map fst (fst (run_tokens env ts j)) = nths ts P"
proof (induction ts arbitrary: j)
  case Nil
  then show ?case by simp
next
  case (Cons t ts)
  show ?case
  proof (cases "map_of (jr_map j) t")
    case None
    obtain P where "map fst (fst (run_tokens env ts (j\<lparr>jr_map := hm_remove t (jr_map j)\<rparr>))) = nths ts P"
      using Cons by blast
    with None have "map fst (fst (run_tokens env (t # ts) j)) = nths (t # ts) (Suc ` P)"
      by (simp add: journal_remove_def nths_Cons inj_image_mem_iff)
    then show ?thesis by blast
  next
    case (Some c)
    obtain P where P: "map fst (fst (run_tokens env ts (snd (env c (j\<lparr>jr_map := hm_remove t (jr_map j)\<rparr>))))) = nths ts P"
      using Cons by blast
    with Some have "map fst (fst (run_tokens env (t # ts) j)) = nths (t # ts) (insert 0 (Suc ` P))"
      by (simp add: run_tokens_take Let_def nths_Cons inj_image_mem_iff del: run_tokens.simps)
    then show ?thesis by blast
  qed
qed

lemma sorted_wrt_nths: "sorted_wrt R xs \<Longrightarrow> sorted_wrt R (nths xs P)"
  by (induction xs arbitrary: P) (auto simp: nths_Cons dest!: in_set_nthsD)

text \<open>With an environment that claims nothing, every remaining obligation is run.\<close>

lemma run_tokens_all:
  assumes "\<forall>t \<in> set ts. owned t j" and "distinct ts" and "\<forall>c j. snd (env c j) = j"
  shows "map (\<lambda>(t, c, _). (t, Some c)) (fst (run_tokens env ts j)) =
           map (\<lambda>t. (t, map_of (jr_map j) t)) ts"
  using assms(1,2)
proof (induction ts arbitrary: j)
  case Nil
  then show ?case by simp
next
  case (Cons t ts)
  let ?j = "j\<lparr>jr_map := hm_remove t (jr_map j)\<rparr>"
  from Cons.prems obtain c where c: "map_of (jr_map j) t = Some c"
    by (auto simp: owned_def)
  have "\<forall>u \<in> set ts. owned u ?j"
    using Cons.prems by (auto simp: owned_def)
  moreover have "distinct ts" using Cons.prems by simp
  ultimately have "map (\<lambda>(t, c, _). (t, Some c)) (fst (run_tokens env ts ?j)) =
                   map (\<lambda>t. (t, map_of (jr_map ?j) t)) ts"
    by (rule Cons.IH)
  moreover have "map (\<lambda>t. (t, map_of (jr_map ?j) t)) ts = map (\<lambda>t. (t, map_of (jr_map j) t)) ts"
    using Cons.prems by auto
  ultimately show ?case
    using c assms(3) by (simp add: run_tokens_take Let_def del: run_tokens.simps)
qed

lemma run_cleanup_contained_once:
  "run_cleanup_contained waits result =
     (case execute_cleanup result of Some failure \<Rightarrow> [failure] | None \<Rightarrow> [])"
  by (cases "execute_cleanup result") (simp_all add: run_cleanup_contained_def send_outcome_def)

lemma run_tokens_executes:
  assumes "\<And>c j. map_of (jr_map (snd (env c j))) t = map_of (jr_map j) t"
  shows "t \<in> set ts \<Longrightarrow> map_of (jr_map j) t = Some c \<Longrightarrow>
         \<exists>reports. (t, c, reports) \<in> set (fst (run_tokens env ts j))"
proof (induction ts arbitrary: j)
  case Nil
  then show ?case by simp
next
  case (Cons u ts)
  show ?case
  proof (cases "map_of (jr_map j) u")
    case None
    with Cons.prems have "t \<in> set ts" by auto
    with None Cons show ?thesis by (simp add: run_tokens_skip del: run_tokens.simps)
  next
    case (Some d)
    let ?j = "j\<lparr>jr_map := hm_remove u (jr_map j)\<rparr>"
    show ?thesis
    proof (cases "t = u")
      case True
      with Some Cons.prems show ?thesis by (auto simp: run_tokens_take Let_def simp del: run_tokens.simps)
    next
      case False
      with Cons.prems assms have "map_of (jr_map (snd (env d ?j))) t = Some c" by simp
      with Cons False obtain reports
        where "(t, c, reports) \<in> set (fst (run_tokens env ts (snd (env d ?j))))" by auto
      with Some show ?thesis by (auto simp: run_tokens_take Let_def simp del: run_tokens.simps)
    qed
  qed
qed

lemma journal_tokens_sorted: "journal_wf j \<Longrightarrow> sorted_wrt (<) (journal_tokens j)"
  by (simp add: journal_wf_def bt_wf_def journal_tokens_def)

lemmas drain_defs = drain_disposables_def run_tokens_contained_def

lemma drain_all:
  assumes wf: "journal_wf j" and env: "\<forall>c j. snd (env c j) = j"
  shows "map (\<lambda>(t, c, _). (t, c)) (fst (drain_disposables env j)) = rev (jr_map j)"
proof -
  have d: "distinct (map fst (jr_map j))" using wf by (simp add: journal_wf_def bt_wf_distinct)
  have "map (\<lambda>(t, c, _). (t, Some c)) (fst (run_tokens env (rev (journal_tokens j)) j)) =
        map (\<lambda>t. (t, map_of (jr_map j) t)) (rev (journal_tokens j))"
    using d env by (intro run_tokens_all) (simp_all add: owned_tokens, simp add: journal_tokens_def)
  also have "\<dots> = map (apsnd Some) (rev (jr_map j))"
    using d by (auto simp: journal_tokens_def rev_map simp del: distinct_map intro!: arg_cong [where f = rev] map_of_is_SomeI)
  also have "map (\<lambda>(t, c, _). (t, Some c)) xs = map (apsnd Some) (map (\<lambda>(t, c, _). (t, c)) xs)"
    for xs :: "(token \<times> cleanup \<times> effect_failure list) list"
    by auto
  finally have "map (apsnd Some) (map (\<lambda>(t, c, _). (t, c)) (fst (run_tokens env (rev (journal_tokens j)) j))) =
      map (apsnd Some) (rev (jr_map j))" .
  moreover have "inj (apsnd Some :: token \<times> cleanup \<Rightarrow> token \<times> cleanup option)"
    by (auto simp: inj_def apsnd_def)
  ultimately show ?thesis by (simp only: inj_map_eq_map drain_defs)
qed

section \<open>The properties\<close>

text \<open>
  Every cleanup occurrence is claimed at most once.  Whatever the order in which manual
  control and the drain compete, the winning claims are pairwise distinct, they are
  exactly the requested occurrences the journal owned, and only those leave it.
\<close>

theorem journal_claims_exact:
  assumes "journal_wf j" and "run_claims journal_claim ts j = (rs, j')"
  shows "journal_wf j' \<and> distinct (winners rs) \<and> set (winners rs) = {t \<in> set ts. owned t j} \<and>
         (\<forall>u. owned u j' \<longleftrightarrow> owned u j \<and> u \<notin> set ts)"
  using assms by (rule journal_claims.run_claims_winners)

definition demo_journal :: journal where
  "demo_journal =
     snd (journal_push (fut_cleanup (UserCleanup 2)) (snd (journal_push (sync_cleanup (UserCleanup 1)) journal_new)))"

lemma demo_journal_wf: "journal_wf demo_journal"
  by (simp add: demo_journal_def journal_push_def journal_new_def journal_wf_def bt_wf_def
      journal_tokens_def Let_def)

theorem journal_claims_exact_witness:
  "winners (fst (run_claims journal_claim [2, 5, 2] demo_journal)) = [2] \<and>
   distinct (winners (fst (run_claims journal_claim [2, 5, 2] demo_journal)))"
proof
  show "winners (fst (run_claims journal_claim [2, 5, 2] demo_journal)) = [2]"
    by (simp add: demo_journal_def journal_push_def journal_new_def journal_claim_def
        journal_remove_def hm_remove_def Let_def)
  show "distinct (winners (fst (run_claims journal_claim [2, 5, 2] demo_journal)))"
    using journal_claims_exact [OF demo_journal_wf prod.collapse [symmetric], of "[2, 5, 2]"] by blast
qed

text \<open>
  The generation drain runs cleanups in strict reverse commit order, each one an
  obligation of the journal with its own cleanup; no occurrence of the snapshot is owned
  afterwards; and an occurrence nobody else claims is run, however the other cleanups end.
\<close>

theorem drain_reverse_order_attempts_all:
  assumes wf: "journal_wf j" and env: "only_claims env"
    and drain: "drain_disposables env j = (executed, j')"
  shows "sorted_wrt (>) (map fst executed) \<and>
         (\<forall>(t, c, _) \<in> set executed. map_of (jr_map j) t = Some c) \<and>
         (\<forall>t. \<not> owned t j') \<and>
         (\<forall>t c. map_of (jr_map j) t = Some c \<longrightarrow>
            (\<forall>d k. map_of (jr_map (snd (env d k))) t = map_of (jr_map k) t) \<longrightarrow>
            (\<exists>reports. (t, c, reports) \<in> set executed))"
proof -
  let ?ts = "rev (journal_tokens j)"
  have run: "run_tokens env ?ts j = (executed, j')" using drain by (simp add: drain_defs)
  obtain P where "map fst executed = nths ?ts P"
    using run_tokens_subseq [of env ?ts j] run by auto
  moreover have "sorted_wrt (>) ?ts"
    using journal_tokens_sorted [OF wf] by (simp add: sorted_wrt_rev)
  ultimately have "sorted_wrt (>) (map fst executed)" by (simp add: sorted_wrt_nths)
  moreover have "\<forall>(t, c, _) \<in> set executed. map_of (jr_map j) t = Some c"
    using run_tokens_ran [OF env, where ts = ?ts and j = j] run by auto
  moreover have "\<not> owned t j'" for t
  proof
    assume "owned t j'"
    then obtain d where "map_of (jr_map (snd (run_tokens env ?ts j))) t = Some d"
      using run by (auto simp: owned_def)
    from run_tokens_only_removes [OF env this] owned_tokens [of t j] show False
      by (auto simp: owned_def)
  qed
  moreover have "\<exists>reports. (t, c, reports) \<in> set executed"
    if "map_of (jr_map j) t = Some c" and "\<forall>d k. map_of (jr_map (snd (env d k))) t = map_of (jr_map k) t" for t c
  proof -
    have "t \<in> set ?ts" using that(1) owned_tokens [of t j] by (simp add: owned_def)
    with run_tokens_executes [of env t ?ts j c] that run show ?thesis by auto
  qed
  ultimately show ?thesis by blast
qed

theorem drain_reverse_order_attempts_all_witness:
  "map fst (fst (drain_disposables (\<lambda>_ j. (Unwound ''boom'', j)) demo_journal)) = [2, 1] \<and>
   sorted_wrt (>) (map fst (fst (drain_disposables (\<lambda>_ j. (Unwound ''boom'', j)) demo_journal)))"
proof
  show "map fst (fst (drain_disposables (\<lambda>_ j. (Unwound ''boom'', j)) demo_journal)) = [2, 1]"
    by (simp add: demo_journal_def journal_push_def journal_new_def drain_defs journal_tokens_def
        journal_remove_def hm_remove_def Let_def)
  have "only_claims (\<lambda>_ j. (Unwound ''boom'', j))" by (simp add: only_claims_def)
  from drain_reverse_order_attempts_all [OF demo_journal_wf this prod.collapse [symmetric]]
  show "sorted_wrt (>) (map fst (fst (drain_disposables (\<lambda>_ j. (Unwound ''boom'', j)) demo_journal)))"
    by blast
qed

text \<open>
  A cleanup failure is delivered exactly once.  A manual dispose that wins its claim
  either answers its waiting caller with the failure or reports it, never both and never
  neither; a cleanup that succeeds delivers nothing; a lost claim runs nothing.
\<close>

theorem dispose_delivers_failure_once:
  "registration_dispose alive waits complete t j =
     (if alive \<and> owned t j then
        (let outcome = execute_cleanup (complete (the (map_of (jr_map j) t)));
             j' = j\<lparr>jr_map := hm_remove t (jr_map j)\<rparr>
         in case outcome of
              None \<Rightarrow> (if waits then Some (Inr True) else None, [], j')
            | Some failure \<Rightarrow> (if waits then (Some (Inl failure), [], j') else (None, [failure], j')))
      else (Some (Inr False), [], j))"
  by (cases "map_of (jr_map j) t"; cases "execute_cleanup (complete (the (map_of (jr_map j) t)))")
    (auto simp: registration_dispose_def journal_remove_def owned_def send_outcome_def hm_remove_absent)

end
