(* ===== verification/Caller_Driven.thy ===== *)
theory Caller_Driven
  imports Effect_Journal
begin

text \<open>
  Framework-owned committed work (\<open>crates/cordis-core/src/effect.rs\<close>, from
  \<open>completion_runtime\<close> on): \<open>DetachedWork\<close>, \<open>CallerDriven\<close>, \<open>hand_off\<close> and \<open>detach\<close>.

  A future is a value of an arbitrary type with a \<open>poll\<close> function, which is a parameter of
  every operation: polling yields a result and the future afterwards.  The executors are
  the environment: \<open>cd_step\<close> runs one poll or drop at a time in any order.
\<close>

section \<open>Futures and executors\<close>

datatype poll_result = PollPending | PollReady | PollUnwind string

type_synonym 'f poller = "'f \<Rightarrow> poll_result \<times> 'f"

datatype runtime_flavor = CurrentThread | MultiThread

record 'f detached_work =
  dw_work :: "'f option"
  dw_transfer_on_drop :: bool

definition detached_poll :: "'f poller \<Rightarrow> 'f detached_work \<Rightarrow> poll_result \<times> 'f detached_work" where
  "detached_poll poll d =
     (case dw_work d of
        None \<Rightarrow> (PollUnwind ''live detached work owns its future'', d\<lparr>dw_transfer_on_drop := False\<rparr>)
      | Some w \<Rightarrow>
          (case poll w of
             (PollPending, w') \<Rightarrow> (PollPending, \<lparr>dw_work = Some w', dw_transfer_on_drop = True\<rparr>)
           | (PollReady, w') \<Rightarrow> (PollReady, \<lparr>dw_work = None, dw_transfer_on_drop = False\<rparr>)
           | (PollUnwind p, w') \<Rightarrow> (PollUnwind p, \<lparr>dw_work = Some w', dw_transfer_on_drop = False\<rparr>)))"

text \<open>Dropping the wrapper yields the future that moves to the completion runtime.\<close>

definition detached_drop :: "'f detached_work \<Rightarrow> 'f option" where
  "detached_drop d = (if dw_transfer_on_drop d then dw_work d else None)"

datatype 'f placement = Nowhere | OnOrigin "'f detached_work" | OnCompletion 'f

definition detach :: "runtime_flavor option \<Rightarrow> 'f \<Rightarrow> 'f placement" where
  "detach current w =
     (case current of
        Some MultiThread \<Rightarrow> OnOrigin \<lparr>dw_work = Some w, dw_transfer_on_drop = True\<rparr>
      | Some CurrentThread \<Rightarrow> OnCompletion w
      | None \<Rightarrow> OnCompletion w)"

section \<open>The caller-driven owner\<close>

datatype 'f caller_driven_stage =
    Inline 'f bool \<comment> \<open>the work and \<open>transfer_on_drop\<close>\<close>
  | HandedOff
  | StageFinished

datatype relay = RelayEmpty | RelaySent "string + unit"

record 'f owner =
  ow_stage :: "'f caller_driven_stage"
  ow_placed :: "'f placement"
  ow_relay :: relay
  ow_caller :: bool \<comment> \<open>the caller still holds its future\<close>
  ow_report :: bool \<comment> \<open>a \<open>PanicReport\<close> was given\<close>
  ow_relayed :: bool \<comment> \<open>the detached task relays its outcome (\<open>hand_off\<close>)\<close>
  ow_reports :: "string list" \<comment> \<open>panics reported because nobody waits\<close>
  ow_polls :: nat \<comment> \<open>how often the work was polled\<close>
  ow_ended :: bool \<comment> \<open>the work was polled to its end\<close>

definition caller_driven_new :: "bool \<Rightarrow> 'f \<Rightarrow> 'f owner" where
  "caller_driven_new report w =
     \<lparr>ow_stage = Inline w True, ow_placed = Nowhere, ow_relay = RelayEmpty, ow_caller = True,
      ow_report = report, ow_relayed = False, ow_reports = [], ow_polls = 0, ow_ended = False\<rparr>"

text \<open>\<open>CallerDriven::poll\<close>; \<open>current\<close> is the flavor of the runtime the caller polls on.\<close>

definition poll_relay :: "'f owner \<Rightarrow> poll_result \<times> 'f owner" where
  "poll_relay s =
     (case ow_relay s of
        RelayEmpty \<Rightarrow> (PollPending, s)
      | RelaySent (Inr _) \<Rightarrow> (PollReady, s\<lparr>ow_stage := StageFinished\<rparr>)
      | RelaySent (Inl payload) \<Rightarrow> (PollUnwind payload, s\<lparr>ow_stage := StageFinished\<rparr>))"

definition caller_driven_poll ::
  "'f poller \<Rightarrow> runtime_flavor option \<Rightarrow> 'f owner \<Rightarrow> poll_result \<times> 'f owner"
where
  "caller_driven_poll poll current s =
     (case ow_stage s of
        Inline w _ \<Rightarrow>
          (case poll w of
             (PollReady, _) \<Rightarrow>
               (PollReady, s\<lparr>ow_stage := StageFinished, ow_polls := Suc (ow_polls s), ow_ended := True\<rparr>)
           | (PollUnwind p, w') \<Rightarrow>
               (PollUnwind p, s\<lparr>ow_stage := Inline w' False, ow_polls := Suc (ow_polls s), ow_ended := True\<rparr>)
           | (PollPending, w') \<Rightarrow>
               poll_relay (s\<lparr>ow_stage := HandedOff, ow_placed := detach current w', ow_relayed := True,
                 ow_polls := Suc (ow_polls s)\<rparr>))
      | HandedOff \<Rightarrow> poll_relay s
      | StageFinished \<Rightarrow> (PollReady, s))"

definition caller_driven_drop :: "runtime_flavor option \<Rightarrow> 'f owner \<Rightarrow> 'f owner" where
  "caller_driven_drop current s =
     (case ow_stage s of
        Inline w True \<Rightarrow> s\<lparr>ow_stage := StageFinished, ow_placed := detach current w, ow_caller := False\<rparr>
      | _ \<Rightarrow> s\<lparr>ow_caller := False\<rparr>)"

text \<open>
  The body of the task that \<open>hand_off\<close> detaches: the outcome of the work is caught and
  relayed; when the caller is gone a panic is reported, where a report was given.  Work
  that the caller's drop detached is not wrapped: nobody is told how it ended.
\<close>

definition hand_off_end :: "string + unit \<Rightarrow> 'f owner \<Rightarrow> 'f owner" where
  "hand_off_end result s =
     (if \<not> ow_relayed s then s
      else if ow_caller s then s\<lparr>ow_relay := RelaySent result\<rparr>
      else (case result of
              Inl payload \<Rightarrow> if ow_report s then s\<lparr>ow_reports := ow_reports s @ [payload]\<rparr> else s
            | Inr _ \<Rightarrow> s))"

definition executor_poll :: "'f poller \<Rightarrow> 'f owner \<Rightarrow> 'f owner" where
  "executor_poll poll s =
     (case ow_placed s of
        Nowhere \<Rightarrow> s
      | OnOrigin d \<Rightarrow>
          (let s1 = s\<lparr>ow_polls := Suc (ow_polls s)\<rparr> in
           case detached_poll poll d of
             (PollPending, d') \<Rightarrow> s1\<lparr>ow_placed := OnOrigin d'\<rparr>
           | (PollReady, _) \<Rightarrow> hand_off_end (Inr ()) (s1\<lparr>ow_placed := Nowhere, ow_ended := True\<rparr>)
           | (PollUnwind p, _) \<Rightarrow> hand_off_end (Inl p) (s1\<lparr>ow_placed := Nowhere, ow_ended := True\<rparr>))
      | OnCompletion w \<Rightarrow>
          (let s1 = s\<lparr>ow_polls := Suc (ow_polls s)\<rparr> in
           case poll w of
             (PollPending, w') \<Rightarrow> s1\<lparr>ow_placed := OnCompletion w'\<rparr>
           | (PollReady, _) \<Rightarrow> hand_off_end (Inr ()) (s1\<lparr>ow_placed := Nowhere, ow_ended := True\<rparr>)
           | (PollUnwind p, _) \<Rightarrow> hand_off_end (Inl p) (s1\<lparr>ow_placed := Nowhere, ow_ended := True\<rparr>)))"

text \<open>The origin runtime shuts down and drops the task it still holds.\<close>

definition origin_shutdown :: "'f owner \<Rightarrow> 'f owner" where
  "origin_shutdown s =
     (case ow_placed s of
        OnOrigin d \<Rightarrow>
          (case detached_drop d of
             Some w \<Rightarrow> s\<lparr>ow_placed := OnCompletion w\<rparr>
           | None \<Rightarrow> s\<lparr>ow_placed := Nowhere\<rparr>)
      | _ \<Rightarrow> s)"

datatype owner_event =
    CallerPolls "runtime_flavor option"
  | CallerDrops "runtime_flavor option"
  | ExecutorPolls
  | OriginShutsDown

text \<open>
  One step.  A poll that unwinds leaves through the frame that owns the future, which drops
  it (\<open>CallerDriven\<close> is only ever awaited in place).
\<close>

fun cd_step :: "'f poller \<Rightarrow> owner_event \<Rightarrow> 'f owner \<Rightarrow> 'f owner" where
  "cd_step poll (CallerPolls current) s =
     (if ow_caller s then
        (case caller_driven_poll poll current s of
           (PollUnwind _, s') \<Rightarrow> caller_driven_drop current s'
         | (_, s') \<Rightarrow> s')
      else s)"
| "cd_step poll (CallerDrops current) s = (if ow_caller s then caller_driven_drop current s else s)"
| "cd_step poll ExecutorPolls s = executor_poll poll s"
| "cd_step poll OriginShutsDown s = origin_shutdown s"

definition cd_run :: "'f poller \<Rightarrow> owner_event list \<Rightarrow> 'f owner \<Rightarrow> 'f owner" where
  "cd_run poll es s = fold (cd_step poll) es s"

section \<open>Committed work is never lost\<close>

fun placed_work :: "'f placement \<Rightarrow> 'f option" where
  "placed_work Nowhere = None"
| "placed_work (OnOrigin d) = (if dw_transfer_on_drop d then dw_work d else None)"
| "placed_work (OnCompletion w) = Some w"

fun inline_work :: "'f caller_driven_stage \<Rightarrow> 'f option" where
  "inline_work (Inline w True) = Some w"
| "inline_work _ = None"

text \<open>
  While the work has not ended exactly one party owns it: the caller, inline and with the
  right to transfer it, or an executor.  What the owner holds is the original future after
  exactly the polls counted.
\<close>

definition cd_inv :: "'f poller \<Rightarrow> 'f \<Rightarrow> 'f owner \<Rightarrow> bool" where
  "cd_inv poll w0 s \<longleftrightarrow>
     (let now = ((snd \<circ> poll) ^^ ow_polls s) w0 in
      if ow_ended s then ow_placed s = Nowhere \<and> inline_work (ow_stage s) = None \<and>
        (\<forall>w b. ow_stage s = Inline w b \<longrightarrow> \<not> ow_caller s)
      else (\<exists>w. ow_stage s = Inline w True \<and> w = now \<and> ow_placed s = Nowhere \<and> ow_caller s
                \<and> ow_relay s = RelayEmpty) \<or>
           (inline_work (ow_stage s) = None \<and> (\<forall>w b. ow_stage s \<noteq> Inline w b) \<and>
            placed_work (ow_placed s) = Some now \<and> ow_relay s = RelayEmpty))"

lemma cd_inv_new: "cd_inv poll w (caller_driven_new report w)"
  by (simp add: cd_inv_def caller_driven_new_def Let_def)

lemma placed_work_detach [simp]: "placed_work (detach current w) = Some w"
  by (auto simp: detach_def split: option.splits runtime_flavor.splits)

lemma hand_off_end_fields [simp]:
  "ow_placed (hand_off_end r s) = ow_placed s" "ow_stage (hand_off_end r s) = ow_stage s"
  "ow_ended (hand_off_end r s) = ow_ended s" "ow_polls (hand_off_end r s) = ow_polls s"
  by (simp_all add: hand_off_end_def split: sum.splits)

lemma poll_relay_fields [simp]:
  "ow_placed (snd (poll_relay s)) = ow_placed s" "ow_ended (snd (poll_relay s)) = ow_ended s"
  "ow_polls (snd (poll_relay s)) = ow_polls s" "ow_relay (snd (poll_relay s)) = ow_relay s"
  by (auto simp: poll_relay_def split: relay.splits sum.splits)

lemma poll_relay_stage:
  "ow_stage (snd (poll_relay s)) \<in> {ow_stage s, StageFinished}"
  by (auto simp: poll_relay_def split: relay.splits sum.splits)

lemma poll_relay_empty: "ow_relay s = RelayEmpty \<Longrightarrow> poll_relay s = (PollPending, s)"
  by (simp add: poll_relay_def)

lemmas cd_cases = option.splits prod.splits poll_result.splits caller_driven_stage.splits
  placement.splits bool.splits

lemma caller_driven_drop_fields [simp]:
  "ow_ended (caller_driven_drop current s) = ow_ended s"
  "ow_polls (caller_driven_drop current s) = ow_polls s"
  "ow_relay (caller_driven_drop current s) = ow_relay s"
  "\<not> ow_caller (caller_driven_drop current s)"
  by (auto simp: caller_driven_drop_def split: caller_driven_stage.splits bool.splits)

lemma cd_inv_drop: "cd_inv poll w0 s \<Longrightarrow> cd_inv poll w0 (caller_driven_drop current s)"
  by (auto simp: cd_inv_def caller_driven_drop_def Let_def split: caller_driven_stage.splits bool.splits)

lemma poll_relay_inv: "cd_inv poll w0 s \<Longrightarrow> ow_stage s = HandedOff \<Longrightarrow> cd_inv poll w0 (snd (poll_relay s))"
  using poll_relay_stage [of s] by (auto simp: cd_inv_def Let_def split: if_splits)

lemma cd_inv_caller_polls:
  assumes "cd_inv poll w0 s"
  shows "cd_inv poll w0 (cd_step poll (CallerPolls current) s)"
proof (cases "ow_caller s")
  case caller: True
  show ?thesis
  proof (cases "ow_stage s")
    case (Inline w b)
    with assms caller have live: "\<not> ow_ended s" by (auto simp: cd_inv_def Let_def)
    with assms Inline have w: "w = ((snd \<circ> poll) ^^ ow_polls s) w0" "b" "ow_relay s = RelayEmpty"
      "ow_placed s = Nowhere"
      by (auto simp: cd_inv_def Let_def)
    obtain r w' where p: "poll w = (r, w')" by force
    show ?thesis
      using Inline live w p caller
      by (cases r) (simp_all add: cd_inv_def caller_driven_poll_def caller_driven_drop_def Let_def poll_relay_empty)
  next
    case HandedOff
    have "cd_inv poll w0 (snd (poll_relay s))" by (rule poll_relay_inv [OF assms HandedOff])
    with HandedOff caller show ?thesis
      by (auto simp: caller_driven_poll_def intro: cd_inv_drop split: prod.splits poll_result.splits)
  next
    case StageFinished
    with assms show ?thesis by (simp add: caller_driven_poll_def)
  qed
qed (use assms in simp)

lemma cd_inv_executor_poll:
  assumes "cd_inv poll w0 s"
  shows "cd_inv poll w0 (executor_poll poll s)"
proof (cases "ow_placed s")
  case Nowhere
  with assms show ?thesis by (simp add: executor_poll_def)
next
  case (OnCompletion w)
  with assms have "\<not> ow_ended s" and "w = ((snd \<circ> poll) ^^ ow_polls s) w0"
    and "inline_work (ow_stage s) = None" and "\<forall>w b. ow_stage s \<noteq> Inline w b" and "ow_relay s = RelayEmpty"
    by (auto simp: cd_inv_def Let_def split: if_splits)
  with OnCompletion show ?thesis
    by (cases "poll w"; cases "fst (poll w)") (simp_all add: executor_poll_def cd_inv_def Let_def)
next
  case (OnOrigin d)
  with assms have *: "\<not> ow_ended s" "dw_transfer_on_drop d" "dw_work d = Some (((snd \<circ> poll) ^^ ow_polls s) w0)"
    "inline_work (ow_stage s) = None" "\<forall>w b. ow_stage s \<noteq> Inline w b" "ow_relay s = RelayEmpty"
    by (auto simp: cd_inv_def Let_def split: if_splits)
  obtain r w' where p: "poll (((snd \<circ> poll) ^^ ow_polls s) w0) = (r, w')" by force
  from OnOrigin * p show ?thesis
    by (cases r) (simp_all add: executor_poll_def detached_poll_def cd_inv_def Let_def)
qed

lemma cd_inv_shutdown: "cd_inv poll w0 s \<Longrightarrow> cd_inv poll w0 (origin_shutdown s)"
  by (auto simp: cd_inv_def origin_shutdown_def detached_drop_def Let_def
      split: placement.splits option.splits if_splits)

lemma cd_inv_step: "cd_inv poll w0 s \<Longrightarrow> cd_inv poll w0 (cd_step poll e s)"
  by (cases e) (simp_all add: cd_inv_executor_poll cd_inv_shutdown cd_inv_drop cd_inv_caller_polls del: cd_step.simps(1))

interpretation cd: invariant_system
  "\<lambda>s. \<exists>report. s = caller_driven_new report w0" "\<lambda>s t. \<exists>e. t = cd_step poll e s" "cd_inv poll w0"
  for w0 :: 'f and poll
  by unfold_locales (auto intro: cd_inv_new cd_inv_step)

lemma cd_run_reach:
  "reach (\<lambda>s. \<exists>report. s = caller_driven_new report w0) (\<lambda>s t. \<exists>e. t = cd_step poll e s)
     (cd_run poll es (caller_driven_new report w0))"
proof (induction es rule: rev_induct)
  case Nil
  then show ?case by (auto simp: cd_run_def intro: reach_init)
next
  case (snoc e es)
  then show ?case by (auto simp: cd_run_def intro: reach_step)
qed

lemmas cd_run_inv = cd.reach_inv [OF cd_run_reach]

text \<open>An executor that keeps polling ends the work whenever enough polls end it.\<close>

lemma executor_poll_progress:
  assumes "cd_inv poll w0 s" and "\<not> ow_ended s" and "placed_work (ow_placed s) \<noteq> None"
  shows "ow_polls (executor_poll poll s) = Suc (ow_polls s) \<and>
         (ow_ended (executor_poll poll s) \<longleftrightarrow> fst (poll (((snd \<circ> poll) ^^ ow_polls s) w0)) \<noteq> PollPending) \<and>
         (\<not> ow_ended (executor_poll poll s) \<longrightarrow> placed_work (ow_placed (executor_poll poll s)) \<noteq> None)"
proof -
  let ?now = "((snd \<circ> poll) ^^ ow_polls s) w0"
  obtain r w' where p: "poll ?now = (r, w')" by force
  have now: "placed_work (ow_placed s) = Some ?now"
    using assms by (auto simp: cd_inv_def Let_def)
  show ?thesis
  proof (cases "ow_placed s")
    case Nowhere
    with now show ?thesis by simp
  next
    case (OnOrigin d)
    with now have "dw_work d = Some ?now" by (simp split: if_splits)
    with OnOrigin p assms(2) show ?thesis
      by (cases r) (simp_all add: executor_poll_def detached_poll_def Let_def)
  next
    case (OnCompletion w)
    with now p assms(2) show ?thesis
      by (cases r) (simp_all add: executor_poll_def Let_def)
  qed
qed

lemma executor_polls_end:
  assumes "cd_inv poll w0 s" and "\<not> ow_ended s" and "placed_work (ow_placed s) \<noteq> None"
    and "fst (poll (((snd \<circ> poll) ^^ (ow_polls s + k)) w0)) \<noteq> PollPending"
  shows "ow_ended (cd_run poll (replicate (Suc k) ExecutorPolls) s)"
  using assms
proof (induction k arbitrary: s)
  case 0
  with executor_poll_progress [of poll w0 s] show ?case by (simp add: cd_run_def comp_def)
next
  case (Suc k)
  let ?s = "executor_poll poll s"
  have run: "cd_run poll (replicate (Suc (Suc k)) ExecutorPolls) s = cd_run poll (replicate (Suc k) ExecutorPolls) ?s"
    by (simp add: cd_run_def)
  note prog = executor_poll_progress [OF Suc.prems(1-3)]
  show ?case
  proof (cases "ow_ended ?s")
    case False
    have polls: "ow_polls ?s + k = ow_polls s + Suc k" using prog by simp
    have later: "fst (poll (((snd \<circ> poll) ^^ (ow_polls ?s + k)) w0)) \<noteq> PollPending"
      using Suc.prems(4) unfolding polls .
    from prog False have placed: "placed_work (ow_placed ?s) \<noteq> None" by blast
    show ?thesis unfolding run
      by (rule Suc.IH [OF cd_inv_executor_poll [OF Suc.prems(1)] False placed later])
  next
    case True
    have stay: "ow_ended t \<Longrightarrow> ow_placed t = Nowhere \<Longrightarrow> cd_run poll (replicate n ExecutorPolls) t = t" for n t
      by (induction n) (simp_all add: cd_run_def executor_poll_def)
    have "ow_placed ?s = Nowhere"
      using cd_inv_executor_poll [OF Suc.prems(1)] True by (simp add: cd_inv_def Let_def)
    with stay True show ?thesis unfolding run by metis
  qed
qed

section \<open>The properties\<close>

text \<open>
  C22: Committed lifecycle work is never lost and never run twice.  After any sequence of
  caller polls, caller drops, executor polls and runtime shutdowns, work that has not ended
  has exactly one owner, and what this owner holds is the committed future after exactly
  the polls it was given; work that has ended has no owner left to poll it again.
\<close>

theorem committed_work_single_owner:
  "let s = cd_run poll es (caller_driven_new report w); now = ((snd \<circ> poll) ^^ ow_polls s) w
   in if ow_ended s then inline_work (ow_stage s) = None \<and> ow_placed s = Nowhere
      else (inline_work (ow_stage s) = Some now \<and> placed_work (ow_placed s) = None \<and> ow_caller s) \<or>
           (inline_work (ow_stage s) = None \<and> placed_work (ow_placed s) = Some now)"
  using cd_run_inv [of poll w es report] by (auto simp: cd_inv_def Let_def)

text \<open>
  C23: Completion does not depend on the caller.  Once the work has left the caller, at its
  first \<open>Pending\<close> or because the caller dropped it, polling by the executors alone brings
  it to its end as soon as it has an end, also after the origin runtime has shut down.
\<close>

theorem abandoned_work_completes:
  assumes "s = cd_run poll es (caller_driven_new report w)"
    and "\<not> ow_ended s" and "inline_work (ow_stage s) = None"
    and "fst (poll (((snd \<circ> poll) ^^ (ow_polls s + k)) w)) \<noteq> PollPending"
  shows "ow_ended (cd_run poll (replicate (Suc k) ExecutorPolls) s) \<and>
         ow_ended (cd_run poll (OriginShutsDown # replicate (Suc k) ExecutorPolls) s)"
proof -
  have inv: "cd_inv poll w s" unfolding assms(1) by (rule cd_run_inv)
  have placed: "placed_work (ow_placed s) \<noteq> None"
    using inv assms(2,3) by (auto simp: cd_inv_def Let_def)
  let ?t = "origin_shutdown s"
  have "ow_polls ?t = ow_polls s" "ow_ended ?t = ow_ended s" "placed_work (ow_placed ?t) \<noteq> None"
    using placed by (auto simp: origin_shutdown_def detached_drop_def split: placement.splits option.splits if_splits)
  then have "ow_ended (cd_run poll (replicate (Suc k) ExecutorPolls) ?t)"
    using assms cd_inv_shutdown [OF inv] by (intro executor_polls_end) auto
  moreover have "ow_ended (cd_run poll (replicate (Suc k) ExecutorPolls) s)"
    using assms placed inv by (intro executor_polls_end) auto
  ultimately show ?thesis by (simp add: cd_run_def)
qed

definition countdown :: "nat poller" where
  "countdown n = (if n = 0 then (PollReady, 0) else (PollPending, n - 1))"

theorem abandoned_work_completes_witness:
  "ow_ended (cd_run countdown (replicate 3 ExecutorPolls)
     (cd_run countdown [CallerPolls (Some MultiThread), CallerDrops None] (caller_driven_new True 3)))"
proof -
  let ?s = "cd_run countdown [CallerPolls (Some MultiThread), CallerDrops None] (caller_driven_new True 3)"
  have s: "ow_polls ?s = 1" "\<not> ow_ended ?s" "inline_work (ow_stage ?s) = None"
    by (simp_all add: cd_run_def caller_driven_new_def caller_driven_poll_def countdown_def poll_relay_def
        caller_driven_drop_def detach_def)
  have "fst (countdown (((snd \<circ> countdown) ^^ (ow_polls ?s + 2)) 3)) \<noteq> PollPending"
    by (simp only: s) (simp add: countdown_def numeral_eq_Suc)
  from abandoned_work_completes [OF refl s(2,3) this] show ?thesis by (simp add: numeral_eq_Suc)
qed

end
