(* ===== verification/Context_Axes.thy ===== *)
theory Context_Axes
  imports Cordis_Prelude
begin

text \<open>
  The immutable Context view (\<open>crates/cordis-core/src/context.rs\<close>): the Runtime's realm
  counter, the isolate axis (Service name to realm), the Scope axis (event reachability) and
  the intercept axis (Service configuration layers), with every derivation of the code.

  The persistent layers are linked lists with an \<open>outer\<close> pointer, as in the code.  A Scope
  node is compared by pointer; its identity is the first field.  The counter of a Runtime is
  passed explicitly by the operations that allocate; \<open>None\<close> is the panic at the end of the
  identity space.
\<close>

section \<open>Realm keys\<close>

definition default_realm :: realm_key where
  "default_realm = 0"

record sn_counters =
  sn_realm :: u64

definition next_realm_key :: "sn_counters \<Rightarrow> (realm_key \<times> sn_counters) option" where
  "next_realm_key sn = map_option (\<lambda>k. (k, sn\<lparr>sn_realm := k\<rparr>)) (checked_succ (sn_realm sn))"

record service_realm =
  sr_membership :: ident
  sr_key :: realm_key

definition realm_belongs_to :: "service_realm \<Rightarrow> ident \<Rightarrow> bool" where
  "realm_belongs_to r membership \<longleftrightarrow> sr_membership r = membership"

section \<open>The three axes\<close>

datatype isolate_layer = IsolateLayer (il_map: "(string, realm_key) hashmap") (il_outer: "isolate_layer option")

fun isolate_lookup :: "isolate_layer \<Rightarrow> string \<Rightarrow> realm_key option" where
  "isolate_lookup (IsolateLayer m outer) key =
     (case map_of m key of
        Some k \<Rightarrow> Some k
      | None \<Rightarrow> (case outer of None \<Rightarrow> None | Some layer \<Rightarrow> isolate_lookup layer key))"

datatype scope_node = ScopeNode (sn_id: ident) (sn_parent: "scope_node option")

fun scope_reaches :: "scope_node \<Rightarrow> scope_node \<Rightarrow> bool" where
  "scope_reaches (ScopeNode i parent) head =
     (if i = sn_id head then True
      else (case parent of None \<Rightarrow> False | Some p \<Rightarrow> scope_reaches p head))"

definition scope_derive :: "ident \<Rightarrow> scope_node option \<Rightarrow> scope_node" where
  "scope_derive fresh parent = ScopeNode fresh parent"

record scope =
  sc_membership :: ident
  sc_layer :: "scope_node option"

definition scope_belongs_to :: "scope \<Rightarrow> ident \<Rightarrow> bool" where
  "scope_belongs_to s membership \<longleftrightarrow> sc_membership s = membership"

text \<open>
  A type-erased configuration layer.  Rust tags it with the \<open>TypeId\<close> of the Service
  contract and, inside \<open>Any\<close>, with the \<open>TypeId\<close> of the layer.
\<close>

record configured_layer =
  cl_service_type :: type_id
  cl_value_type :: type_id
  cl_value :: ident

datatype intercept_layer =
  InterceptLayer (ic_name: string) (ic_configured: configured_layer) (ic_outer: "intercept_layer option")

text \<open>A \<open>ConfigurableService\<close> implementation: user code, given as a record of what the code calls.\<close>

record ('r, 'e) configurable_service =
  cs_name :: string
  cs_type :: type_id
  cs_layer_type :: type_id
  cs_compose :: "ident option \<Rightarrow> ident list \<Rightarrow> ident option \<Rightarrow> 'e + 'r"

definition configured_layer_new :: "('r, 'e) configurable_service \<Rightarrow> ident \<Rightarrow> configured_layer" where
  "configured_layer_new S v = \<lparr>cl_service_type = cs_type S, cl_value_type = cs_layer_type S, cl_value = v\<rparr>"

definition configured_matches :: "('r, 'e) configurable_service \<Rightarrow> configured_layer \<Rightarrow> bool" where
  "configured_matches S l \<longleftrightarrow> cl_service_type l = cs_type S"

definition downcast_ref :: "type_id \<Rightarrow> configured_layer \<Rightarrow> ident option" where
  "downcast_ref L l = (if cl_value_type l = L then Some (cl_value l) else None)"

section \<open>The Context\<close>

record root_ids =
  rt_sn :: sn_counters
  rt_realm_membership :: ident
  rt_scope_membership :: ident
  rt_root_fiber :: fid

record ctx =
  cx_fiber :: fid
  cx_isolate :: "isolate_layer option"
  cx_scope :: "scope_node option"
  cx_intercept :: "intercept_layer option"

definition with_fiber :: "fid \<Rightarrow> ctx \<Rightarrow> ctx" where
  "with_fiber f ctx =
     \<lparr>cx_fiber = f, cx_isolate = cx_isolate ctx, cx_scope = cx_scope ctx, cx_intercept = cx_intercept ctx\<rparr>"

definition context_root :: "root_ids \<Rightarrow> ctx" where
  "context_root root =
     \<lparr>cx_fiber = rt_root_fiber root, cx_isolate = None, cx_scope = None, cx_intercept = None\<rparr>"

definition isolate_key :: "ctx \<Rightarrow> string \<Rightarrow> realm_key" where
  "isolate_key ctx name =
     (case (case cx_isolate ctx of None \<Rightarrow> None | Some layer \<Rightarrow> isolate_lookup layer name) of
        Some key \<Rightarrow> key
      | None \<Rightarrow> default_realm)"

definition derive_isolate :: "(string, realm_key) hashmap \<Rightarrow> ctx \<Rightarrow> ctx" where
  "derive_isolate m ctx = ctx\<lparr>cx_isolate := Some (IsolateLayer m (cx_isolate ctx))\<rparr>"

definition new_service_realm :: "root_ids \<Rightarrow> (service_realm \<times> root_ids) option" where
  "new_service_realm root =
     (case next_realm_key (rt_sn root) of
        None \<Rightarrow> None
      | Some (k, sn) \<Rightarrow>
          Some (\<lparr>sr_membership = rt_realm_membership root, sr_key = k\<rparr>, root\<lparr>rt_sn := sn\<rparr>))"

definition with_isolated_service :: "string \<Rightarrow> ctx \<Rightarrow> root_ids \<Rightarrow> (ctx \<times> root_ids) option" where
  "with_isolated_service name ctx root =
     (case next_realm_key (rt_sn root) of
        None \<Rightarrow> None
      | Some (k, sn) \<Rightarrow> Some (derive_isolate (hm_insert name k []) ctx, root\<lparr>rt_sn := sn\<rparr>))"

datatype realm_mapping_error = DuplicateService string | ForeignRealm string

fun first_duplicate :: "string list \<Rightarrow> string list \<Rightarrow> string option" where
  "first_duplicate seen [] = None"
| "first_duplicate seen (n # ns) = (if n \<in> set seen then Some n else first_duplicate (n # seen) ns)"

fun first_foreign :: "ident \<Rightarrow> (string \<times> service_realm) list \<Rightarrow> string option" where
  "first_foreign membership [] = None"
| "first_foreign membership ((n, r) # ps) =
     (if realm_belongs_to r membership then first_foreign membership ps else Some n)"

definition realm_map :: "(string \<times> service_realm) list \<Rightarrow> (string, realm_key) hashmap" where
  "realm_map pairs = fold (\<lambda>(n, r). hm_insert n (sr_key r)) pairs []"

definition with_service_realms ::
  "root_ids \<Rightarrow> (string \<times> service_realm) list \<Rightarrow> ctx \<Rightarrow> realm_mapping_error + ctx"
where
  "with_service_realms root pairs ctx =
     (case first_duplicate [] (map fst pairs) of
        Some n \<Rightarrow> Inl (DuplicateService n)
      | None \<Rightarrow>
          (case first_foreign (rt_realm_membership root) pairs of
             Some n \<Rightarrow> Inl (ForeignRealm n)
           | None \<Rightarrow> Inr (derive_isolate (realm_map pairs) ctx)))"

definition context_scope :: "root_ids \<Rightarrow> ctx \<Rightarrow> scope" where
  "context_scope root ctx = \<lparr>sc_membership = rt_scope_membership root, sc_layer = cx_scope ctx\<rparr>"

definition with_child_scope :: "ident \<Rightarrow> ctx \<Rightarrow> ctx" where
  "with_child_scope fresh ctx = ctx\<lparr>cx_scope := Some (scope_derive fresh (cx_scope ctx))\<rparr>"

definition with_configured_intercept :: "string \<Rightarrow> configured_layer \<Rightarrow> ctx \<Rightarrow> ctx" where
  "with_configured_intercept name configured ctx =
     ctx\<lparr>cx_intercept := Some (InterceptLayer name configured (cx_intercept ctx))\<rparr>"

definition with_intercept :: "('r, 'e) configurable_service \<Rightarrow> ident \<Rightarrow> ctx \<Rightarrow> ctx" where
  "with_intercept S layer ctx = with_configured_intercept (cs_name S) (configured_layer_new S layer) ctx"

fun collect_configured :: "string \<Rightarrow> intercept_layer option \<Rightarrow> configured_layer list" where
  "collect_configured name None = []"
| "collect_configured name (Some (InterceptLayer n c outer)) =
     (if n = name then c # collect_configured name outer else collect_configured name outer)"

datatype 'e config_resolution_error = ContractMismatch string | ComposeFailed 'e

text \<open>\<open>None\<close> is the panic of a layer whose contract matches but whose type does not.\<close>

definition resolve_config ::
  "('r, 'e) configurable_service \<Rightarrow> ident option \<Rightarrow> ident option \<Rightarrow> ctx \<Rightarrow>
   ('e config_resolution_error + 'r) option"
where
  "resolve_config S base head ctx =
     (let configured = rev (collect_configured (cs_name S) (cx_intercept ctx)) in
      if list_ex (\<lambda>layer. \<not> configured_matches S layer) configured
      then Some (Inl (ContractMismatch (cs_name S)))
      else (case those (map (downcast_ref (cs_layer_type S)) configured) of
              None \<Rightarrow> None
            | Some layers \<Rightarrow>
                Some (case cs_compose S base layers head of
                        Inl e \<Rightarrow> Inl (ComposeFailed e)
                      | Inr r \<Rightarrow> Inr r)))"

section \<open>Lemmas\<close>

lemma next_realm_key_Some:
  "next_realm_key sn = Some (k, sn') \<Longrightarrow> sn' = sn\<lparr>sn_realm := k\<rparr> \<and> unat k = Suc (unat (sn_realm sn))"
  by (auto simp: next_realm_key_def dest: unat_checked_succ)

interpretation realm_keys: id_allocator next_realm_key unat "\<lambda>sn. unat (sn_realm sn)"
  by unfold_locales (auto dest!: next_realm_key_Some)

lemma first_duplicate_None:
  "first_duplicate seen ns = None \<longleftrightarrow> distinct ns \<and> set ns \<inter> set seen = {}"
  by (induction ns arbitrary: seen) auto

lemma first_duplicate_Some:
  "first_duplicate seen ns = Some n \<Longrightarrow>
   \<exists>pre post. ns = pre @ n # post \<and> distinct pre \<and> set pre \<inter> set seen = {} \<and> n \<in> set pre \<union> set seen"
proof (induction ns arbitrary: seen)
  case Nil
  then show ?case by simp
next
  case (Cons m ns)
  show ?case
  proof (cases "m \<in> set seen")
    case True
    with Cons.prems have "m = n" by simp
    with True show ?thesis by (intro exI [of _ "[]"] exI [of _ ns]) simp
  next
    case False
    with Cons obtain pre post where "ns = pre @ n # post" "distinct pre" "set pre \<inter> set (m # seen) = {}"
      "n \<in> set pre \<union> set (m # seen)" by force
    with False show ?thesis by (intro exI [of _ "m # pre"] exI [of _ post]) auto
  qed
qed

lemma first_foreign_None:
  "first_foreign membership ps = None \<longleftrightarrow> (\<forall>(n, r) \<in> set ps. realm_belongs_to r membership)"
  by (induction ps) (auto split: if_splits)

lemma first_foreign_Some:
  "first_foreign membership ps = Some n \<Longrightarrow>
   \<exists>pre r post. ps = pre @ (n, r) # post \<and> \<not> realm_belongs_to r membership \<and>
     (\<forall>(m, q) \<in> set pre. realm_belongs_to q membership)"
proof (induction ps)
  case Nil
  then show ?case by simp
next
  case (Cons p ps)
  obtain m q where p: "p = (m, q)" by force
  show ?case
  proof (cases "realm_belongs_to q membership")
    case False
    with Cons.prems p show ?thesis by (intro exI [of _ "[]"]) auto
  next
    case True
    with Cons p obtain pre r post where "ps = pre @ (n, r) # post" "\<not> realm_belongs_to r membership"
      "\<forall>(m, q) \<in> set pre. realm_belongs_to q membership" by auto
    with True p show ?thesis by (intro exI [of _ "p # pre"] exI [of _ r] exI [of _ post]) auto
  qed
qed

lemma map_of_fold_hm_insert:
  "map_of (fold (\<lambda>(n, r). hm_insert n (f r)) ps m) = map_of m ++ map_of (rev (map (\<lambda>(n, r). (n, f r)) ps))"
  by (induction ps arbitrary: m) (auto simp: map_add_def fun_eq_iff split: option.splits)

lemma map_of_realm_map:
  "distinct (map fst pairs) \<Longrightarrow> map_of (realm_map pairs) n = map_option sr_key (map_of pairs n)"
proof -
  assume d: "distinct (map fst pairs)"
  have "map_of (realm_map pairs) = map_of (rev (map (\<lambda>(n, r). (n, sr_key r)) pairs))"
    by (simp add: realm_map_def map_of_fold_hm_insert)
  also have "\<dots> = map_of (map (\<lambda>(n, r). (n, sr_key r)) pairs)"
    using d by (subst map_of_inject_set) (simp_all add: comp_def case_prod_beta' rev_map [symmetric])
  finally show ?thesis by (simp add: map_of_map)
qed

lemma isolate_key_derive:
  "isolate_key (derive_isolate m ctx) n = (case map_of m n of Some k \<Rightarrow> k | None \<Rightarrow> isolate_key ctx n)"
  by (simp add: isolate_key_def derive_isolate_def split: option.splits)

fun scope_ids :: "scope_node option \<Rightarrow> ident list" where
  "scope_ids None = []"
| "scope_ids (Some (ScopeNode i parent)) = i # scope_ids parent"

lemma scope_reaches_iff: "scope_reaches n h \<longleftrightarrow> sn_id h \<in> set (scope_ids (Some n))"
  by (induction n h rule: scope_reaches.induct) (auto split: option.splits)

fun scope_chain :: "scope_node option \<Rightarrow> scope_node list" where
  "scope_chain None = []"
| "scope_chain (Some (ScopeNode i parent)) = ScopeNode i parent # scope_chain parent"

lemma those_map_Some: "\<forall>x \<in> set xs. f x = Some (g x) \<Longrightarrow> those (map f xs) = Some (map g xs)"
  by (induction xs) auto

lemma scope_chain_ids: "map sn_id (scope_chain s) = scope_ids s"
  by (induction s rule: scope_chain.induct) auto

text \<open>A Context's configuration layers for one Service were built for its declared type.\<close>

definition declared_layers :: "('r, 'e) configurable_service \<Rightarrow> ctx \<Rightarrow> bool" where
  "declared_layers S ctx \<longleftrightarrow>
     (\<forall>c \<in> set (collect_configured (cs_name S) (cx_intercept ctx)).
        configured_matches S c \<longrightarrow> cl_value_type c = cs_layer_type S)"

lemma declared_layers_with_intercept:
  "declared_layers S ctx \<Longrightarrow> declared_layers S (with_intercept S v ctx)"
  by (auto simp: declared_layers_def with_intercept_def with_configured_intercept_def configured_layer_new_def)

lemma resolve_config_declared:
  assumes "declared_layers S c"
  shows "resolve_config S base head c =
      Some (if \<exists>l \<in> set (collect_configured (cs_name S) (cx_intercept c)). cl_service_type l \<noteq> cs_type S
            then Inl (ContractMismatch (cs_name S))
            else (case cs_compose S base (map cl_value (rev (collect_configured (cs_name S) (cx_intercept c)))) head of
                    Inl e \<Rightarrow> Inl (ComposeFailed e) | Inr r \<Rightarrow> Inr r))"
proof (cases "\<exists>l \<in> set (collect_configured (cs_name S) (cx_intercept c)). cl_service_type l \<noteq> cs_type S")
  case True
  then show ?thesis by (auto simp: resolve_config_def Let_def list_ex_iff configured_matches_def)
next
  case False
  with assms have "\<forall>l \<in> set (rev (collect_configured (cs_name S) (cx_intercept c))).
      downcast_ref (cs_layer_type S) l = Some (cl_value l)"
    by (auto simp: declared_layers_def configured_matches_def downcast_ref_def)
  from those_map_Some [OF this] False show ?thesis
    by (auto simp: resolve_config_def Let_def list_ex_iff configured_matches_def)
qed

section \<open>The properties\<close>

text \<open>
  Realm keys are unforgeable within a Runtime.  However many keys a Runtime allocates,
  they are pairwise distinct, in allocation order, and none is the default realm 0; the
  counter panics rather than hand out a key twice.
\<close>

theorem realm_keys_distinct:
  assumes "alloc_run next_realm_key n sn = Some (ks, sn')"
  shows "sorted_wrt (<) ks \<and> distinct ks \<and> default_realm \<notin> set ks"
proof -
  note ranks = realm_keys.alloc_run_ranks [OF assms]
  then have "sorted_wrt (<) ks"
    by (auto simp: sorted_wrt_map word_less_nat_alt elim: sorted_wrt_mono_rel [rotated])
  moreover have "default_realm \<notin> set ks" using ranks by (force simp: default_realm_def)
  ultimately show ?thesis using realm_keys.alloc_run_distinct [OF assms] by blast
qed

theorem realm_keys_distinct_witness:
  "alloc_run next_realm_key (Suc (Suc (Suc 0))) \<lparr>sn_realm = 0\<rparr> = Some ([1, 2, 3], \<lparr>sn_realm = 3\<rparr>) \<and>
   distinct [1, 2, 3 :: realm_key]"
proof -
  have run: "alloc_run next_realm_key (Suc (Suc (Suc 0))) \<lparr>sn_realm = 0\<rparr> = Some ([1, 2, 3], \<lparr>sn_realm = 3\<rparr>)"
    by (simp add: next_realm_key_def checked_succ_def)
  from realm_keys_distinct [OF run] run show ?thesis by blast
qed

text \<open>
  Realm mapping is validated as one batch before anything is derived.  The error names
  the first Service that occurs twice; only a batch without duplicates can fail for a
  foreign realm, and then names its first foreign row; otherwise each named Service resolves
  to its own realm, every other name resolves as before, and the other axes are untouched.
\<close>

theorem with_service_realms_outcome:
  "case with_service_realms root pairs ctx of
     Inl (DuplicateService n) \<Rightarrow>
       \<exists>pre post. map fst pairs = pre @ n # post \<and> distinct pre \<and> n \<in> set pre
   | Inl (ForeignRealm n) \<Rightarrow>
       distinct (map fst pairs) \<and>
       (\<exists>pre r post. pairs = pre @ (n, r) # post \<and> sr_membership r \<noteq> rt_realm_membership root \<and>
          sr_membership ` snd ` set pre \<subseteq> {rt_realm_membership root})
   | Inr ctx' \<Rightarrow>
       distinct (map fst pairs) \<and>
       sr_membership ` snd ` set pairs \<subseteq> {rt_realm_membership root} \<and>
       (\<forall>n. isolate_key ctx' n =
          (case map_of pairs n of Some r \<Rightarrow> sr_key r | None \<Rightarrow> isolate_key ctx n)) \<and>
       cx_fiber ctx' = cx_fiber ctx \<and> cx_scope ctx' = cx_scope ctx \<and> cx_intercept ctx' = cx_intercept ctx"
proof (cases "first_duplicate [] (map fst pairs)")
  case (Some n)
  then have eq: "with_service_realms root pairs ctx = Inl (DuplicateService n)"
    by (simp add: with_service_realms_def)
  show ?thesis using first_duplicate_Some [OF Some] by (simp add: eq)
next
  case None
  then have d: "distinct (map fst pairs)" by (simp add: first_duplicate_None)
  show ?thesis
  proof (cases "first_foreign (rt_realm_membership root) pairs")
    case (Some n)
    with None have eq: "with_service_realms root pairs ctx = Inl (ForeignRealm n)"
      by (simp add: with_service_realms_def)
    from first_foreign_Some [OF Some] obtain pre r post where
      "pairs = pre @ (n, r) # post" "sr_membership r \<noteq> rt_realm_membership root"
      "sr_membership ` snd ` set pre \<subseteq> {rt_realm_membership root}"
      unfolding realm_belongs_to_def by fastforce
    with d show ?thesis unfolding eq by simp blast
  next
    case none: None
    with None have eq: "with_service_realms root pairs ctx = Inr (derive_isolate (realm_map pairs) ctx)"
      by (simp add: with_service_realms_def)
    from none have own: "sr_membership ` snd ` set pairs \<subseteq> {rt_realm_membership root}"
      by (auto simp: first_foreign_None realm_belongs_to_def)
    have keys: "isolate_key (derive_isolate (realm_map pairs) ctx) n =
        (case map_of pairs n of Some r \<Rightarrow> sr_key r | None \<Rightarrow> isolate_key ctx n)" for n
      by (simp add: isolate_key_derive map_of_realm_map [OF d] split: option.splits)
    show ?thesis unfolding eq using d own by (simp add: keys) (simp add: derive_isolate_def)
  qed
qed

text \<open>
  \<open>with_isolated_service\<close> gives the named Service a realm no earlier allocation of the
  Runtime has, changes the resolution of no other name, and leaves Fiber, Scope and
  intercept exactly as they were.
\<close>

theorem with_isolated_service_private:
  assumes "with_isolated_service name ctx root = Some (ctx', root')"
  shows "sn_realm (rt_sn root) < isolate_key ctx' name \<and>
         isolate_key ctx' name \<le> sn_realm (rt_sn root') \<and>
         (\<forall>n. n \<noteq> name \<longrightarrow> isolate_key ctx' n = isolate_key ctx n) \<and>
         cx_fiber ctx' = cx_fiber ctx \<and> cx_scope ctx' = cx_scope ctx \<and> cx_intercept ctx' = cx_intercept ctx"
proof -
  obtain k where k: "next_realm_key (rt_sn root) = Some (k, rt_sn root')"
    and ctx': "ctx' = derive_isolate (hm_insert name k []) ctx"
    using assms by (auto simp: with_isolated_service_def split: option.splits)
  show ?thesis
    using next_realm_key_Some [OF k] unfolding ctx'
    by (simp add: isolate_key_derive word_less_nat_alt word_le_nat_alt) (simp add: derive_isolate_def)
qed

definition demo_root :: root_ids where
  "demo_root = \<lparr>rt_sn = \<lparr>sn_realm = 4\<rparr>, rt_realm_membership = 0, rt_scope_membership = 1, rt_root_fiber = 2\<rparr>"

theorem with_isolated_service_private_witness:
  "(case with_isolated_service ''cache'' (context_root demo_root) demo_root of
      None \<Rightarrow> False
    | Some (ctx', root') \<Rightarrow> sn_realm (rt_sn demo_root) < isolate_key ctx' ''cache'')"
proof -
  have "with_isolated_service ''cache'' (context_root demo_root) demo_root =
        Some (derive_isolate [(''cache'', 5)] (context_root demo_root), demo_root\<lparr>rt_sn := \<lparr>sn_realm = 5\<rparr>\<rparr>)"
    by (simp add: with_isolated_service_def next_realm_key_def demo_root_def checked_succ_def)
  from with_isolated_service_private [OF this] this show ?thesis by simp
qed

text \<open>
  A Scope reaches exactly the Scopes on its own chain.  A freshly derived child reaches
  itself and whatever its parent reaches, and no Scope that existed before reaches it; so
  siblings never reach each other.
\<close>

theorem child_scope_reachability:
  assumes "fresh \<notin> set (scope_ids (Some other))"
  shows "(scope_reaches (scope_derive fresh parent) h \<longleftrightarrow>
            sn_id h = fresh \<or> (\<exists>p. parent = Some p \<and> scope_reaches p h)) \<and>
         \<not> scope_reaches other (scope_derive fresh parent)"
  using assms by (cases parent) (auto simp: scope_reaches_iff scope_derive_def)

theorem child_scope_reachability_witness:
  "\<not> scope_reaches (ScopeNode 2 (Some (ScopeNode 1 None))) (scope_derive 3 (Some (ScopeNode 1 None))) \<and>
   scope_reaches (scope_derive 3 (Some (ScopeNode 1 None))) (ScopeNode 1 None)"
  using child_scope_reachability
    [of 3 "ScopeNode 2 (Some (ScopeNode 1 None))" "Some (ScopeNode 1 None)" "ScopeNode 1 None"]
  by simp

text \<open>
  Configuration resolution composes exactly the layers whose Service name matches, from
  the outermost to the innermost, and refuses when one of them belongs to another contract
  of that name; when the layers carry their contract's declared type it never panics.
\<close>

theorem resolve_config_outer_to_inner:
  assumes "declared_layers S ctx"
  shows "let layers = rev (collect_configured (cs_name S) (cx_intercept ctx));
             answer = (\<lambda>values. Some (
               if \<exists>c \<in> set layers. cl_service_type c \<noteq> cs_type S then Inl (ContractMismatch (cs_name S))
               else (case cs_compose S base values head of Inl e \<Rightarrow> Inl (ComposeFailed e) | Inr r \<Rightarrow> Inr r)))
         in resolve_config S base head ctx = answer (map cl_value layers) \<and>
            resolve_config S base head (with_intercept S v ctx) = answer (map cl_value layers @ [v])"
  using resolve_config_declared [OF assms] resolve_config_declared [OF declared_layers_with_intercept [OF assms, of v]]
  by (simp add: with_intercept_def with_configured_intercept_def configured_layer_new_def Let_def)

definition demo_service :: "(ident list, unit) configurable_service" where
  "demo_service = \<lparr>cs_name = ''http'', cs_type = 7, cs_layer_type = 8, cs_compose = (\<lambda>_ ls _. Inr ls)\<rparr>"

theorem resolve_config_outer_to_inner_witness:
  "resolve_config demo_service None None
     (with_intercept demo_service 2 (with_intercept demo_service 1 (context_root demo_root))) = Some (Inr [1, 2])"
proof -
  have "declared_layers demo_service (with_intercept demo_service 1 (context_root demo_root))"
    by (intro declared_layers_with_intercept) (simp add: declared_layers_def context_root_def)
  from resolve_config_outer_to_inner [OF this, of None None 2] show ?thesis
    by (simp add: Let_def with_intercept_def with_configured_intercept_def configured_layer_new_def
        context_root_def demo_service_def)
qed

end
