(* ===== verification/Plugin_Contract.thy ===== *)
theory Plugin_Contract
  imports Context_Axes Effect_Journal "HOL-Library.List_Lexorder" "HOL-Library.Char_ord"
begin

text \<open>
  The Plugin contract (\<open>crates/cordis-core/src/plugin.rs\<close>) and the spawn-time record of a
  Fiber (\<open>crates/cordis-core/src/fiber/spawn_state.rs\<close>): normalised dependency declarations,
  the sealed behaviour with its retained input, candidate replacement for update and era
  swap, and the installed creation recipe.

  Plugins, inputs and type-erased values are identities.  An \<open>Arc<dyn SealedPlugin>\<close> is
  shared, so sealed plugins live in a heap keyed by identity (\<open>seals\<close>).
\<close>

section \<open>Dependency declarations\<close>

record inject_entry =
  ie_name :: string
  ie_configured :: "configured_layer option"

type_synonym inject_spec = "(string, inject_entry) btree"

definition inject_none :: inject_spec where
  "inject_none = []"

definition inject_require :: "string \<Rightarrow> inject_spec \<Rightarrow> inject_spec" where
  "inject_require name spec = bt_insert name \<lparr>ie_name = name, ie_configured = None\<rparr> spec"

definition inject_require_configured ::
  "('r, 'e) configurable_service \<Rightarrow> ident \<Rightarrow> inject_spec \<Rightarrow> inject_spec"
where
  "inject_require_configured S layer spec =
     bt_insert (cs_name S) \<lparr>ie_name = cs_name S, ie_configured = Some (configured_layer_new S layer)\<rparr> spec"

definition inject_overlay :: "inject_spec \<Rightarrow> inject_spec \<Rightarrow> inject_spec" where
  "inject_overlay spec over = fold (\<lambda>(k, e). bt_insert k e) over spec"

definition inject_entries :: "inject_spec \<Rightarrow> inject_entry list" where
  "inject_entries spec = map snd spec"

definition inject_wf :: "inject_spec \<Rightarrow> bool" where
  "inject_wf spec \<longleftrightarrow> bt_wf spec \<and> (\<forall>(k, e) \<in> set spec. ie_name e = k)"

section \<open>Sealed plugins\<close>

record typed_plugin =
  tp_contract :: type_id
  tp_input_type :: type_id
  tp_state :: "(ident \<times> ident) option" \<comment> \<open>behaviour and retained input\<close>

record prepared_change =
  pc_contract :: type_id
  pc_input_type :: type_id
  pc_input :: ident

record prepared_plugin =
  pp_plugin :: typed_plugin
  pp_name :: string
  pp_inject :: inject_spec
  pp_contract :: type_id

text \<open>What the code calls on the user's \<open>Plugin\<close> type.\<close>

record plugin_type =
  pt_contract :: type_id
  pt_input_type :: type_id
  pt_name :: "ident \<Rightarrow> string"
  pt_inject :: "ident \<Rightarrow> inject_spec"

definition prepared_plugin_from_input :: "plugin_type \<Rightarrow> ident \<Rightarrow> ident \<Rightarrow> prepared_plugin" where
  "prepared_plugin_from_input P plugin input =
     \<lparr>pp_plugin = \<lparr>tp_contract = pt_contract P, tp_input_type = pt_input_type P, tp_state = Some (plugin, input)\<rparr>,
      pp_name = pt_name P plugin, pp_inject = pt_inject P plugin, pp_contract = pt_contract P\<rparr>"

definition with_inject_overlay :: "inject_spec \<Rightarrow> prepared_plugin \<Rightarrow> prepared_plugin" where
  "with_inject_overlay over p = p\<lparr>pp_inject := inject_overlay (pp_inject p) over\<rparr>"

definition prepared_change_from_input :: "plugin_type \<Rightarrow> ident \<Rightarrow> prepared_change" where
  "prepared_change_from_input P input =
     \<lparr>pc_contract = pt_contract P, pc_input_type = pt_input_type P, pc_input = input\<rparr>"

datatype plugin_failure_kind = PluginReturnedError | PluginPanic

record plugin_failure =
  pf_kind :: plugin_failure_kind
  pf_diagnostic :: string

definition plugin_failure_returned :: "string \<Rightarrow> plugin_failure" where
  "plugin_failure_returned d = \<lparr>pf_kind = PluginReturnedError, pf_diagnostic = d\<rparr>"

definition plugin_failure_panicked :: "string \<Rightarrow> plugin_failure" where
  "plugin_failure_panicked d = \<lparr>pf_kind = PluginPanic, pf_diagnostic = d\<rparr>"

text \<open>
  \<open>apply_boxed\<close>: lease the state, run the user's apply on it, normalise its error; the
  lease puts the state back when the frame ends, also when it unwinds.  The outer \<open>Unwound\<close>
  of a missing state is the \<open>expect\<close> of the code.
\<close>

definition lease_take :: "typed_plugin \<Rightarrow> ((ident \<times> ident) \<times> typed_plugin) option" where
  "lease_take p = (case tp_state p of None \<Rightarrow> None | Some st \<Rightarrow> Some (st, p\<lparr>tp_state := None\<rparr>))"

definition lease_drop :: "ident \<times> ident \<Rightarrow> typed_plugin \<Rightarrow> typed_plugin" where
  "lease_drop st p = p\<lparr>tp_state := Some st\<rparr>"

definition apply_boxed ::
  "(ident \<Rightarrow> ident \<Rightarrow> (string + unit) completion) \<Rightarrow> typed_plugin \<Rightarrow>
   (plugin_failure + unit) completion \<times> typed_plugin"
where
  "apply_boxed user p =
     (case lease_take p of
        None \<Rightarrow> (Unwound ''the lifecycle arbiter serializes Plugin apply'', p)
      | Some ((plugin, input), leased) \<Rightarrow>
          (case user plugin input of
             Finished (Inr _) \<Rightarrow> (Finished (Inr ()), lease_drop (plugin, input) leased)
           | Finished (Inl e) \<Rightarrow>
               (Finished (Inl (plugin_failure_returned e)), lease_drop (plugin, input) leased)
           | Unwound payload \<Rightarrow> (Unwound payload, lease_drop (plugin, input) leased)))"

text \<open>\<open>Inl\<close> hands the change back; \<open>Inr\<close> is the superseded input.\<close>

definition swap_input :: "prepared_change \<Rightarrow> typed_plugin \<Rightarrow> (prepared_change + ident) \<times> typed_plugin" where
  "swap_input change p =
     (if pc_contract change \<noteq> tp_contract p then (Inl change, p)
      else if pc_input_type change \<noteq> tp_input_type p then (Inl change, p)
      else (case tp_state p of
              Some (plugin, current) \<Rightarrow> (Inr current, p\<lparr>tp_state := Some (plugin, pc_input change)\<rparr>)
            | None \<Rightarrow> (Inl change, p)))"

text \<open>\<open>Inr\<close> is the fresh seal; the second component is the source seal afterwards.\<close>

definition into_successor ::
  "prepared_change \<Rightarrow> typed_plugin \<Rightarrow> (prepared_change + typed_plugin) \<times> typed_plugin"
where
  "into_successor change p =
     (if pc_contract change \<noteq> tp_contract p then (Inl change, p)
      else if pc_input_type change \<noteq> tp_input_type p then (Inl change, p)
      else (case tp_state p of
              Some (plugin, _) \<Rightarrow>
                (Inr \<lparr>tp_contract = tp_contract p, tp_input_type = tp_input_type p,
                      tp_state = Some (plugin, pc_input change)\<rparr>,
                 p\<lparr>tp_state := None\<rparr>)
            | None \<Rightarrow> (Inl change, p)))"

section \<open>The spawn-time record\<close>

datatype plugin_key = TypedKey type_id | AnonymousKey ident

record stored =
  st_plugin :: ident \<comment> \<open>the shared seal\<close>
  st_name :: string
  st_inject :: inject_spec
  st_scope :: ctx
  st_plugin_key :: plugin_key
  st_spawning_ctx :: ctx
  st_effective_input :: ident

record era_recipe =
  er_plugin :: ident
  er_name :: string
  er_inject :: inject_spec
  er_plugin_key :: plugin_key
  er_spawning_ctx :: ctx

type_synonym spawn_state = "stored option"
type_synonym seals = "ident \<Rightarrow> typed_plugin option"

datatype spawn_state_error = SpawnStateError

definition spawn_state_install ::
  "ident \<Rightarrow> ident \<Rightarrow> string \<Rightarrow> inject_spec \<Rightarrow> ctx \<Rightarrow> plugin_key \<Rightarrow> ctx \<Rightarrow> spawn_state \<Rightarrow>
   (spawn_state_error + unit) \<times> spawn_state"
where
  "spawn_state_install fresh plugin name inject scope key spawning s =
     (case s of
        Some _ \<Rightarrow> (Inl SpawnStateError, s)
      | None \<Rightarrow>
          (Inr (), Some \<lparr>st_plugin = plugin, st_name = name, st_inject = inject, st_scope = scope,
             st_plugin_key = key, st_spawning_ctx = spawning, st_effective_input = fresh\<rparr>))"

definition spawn_state_contract :: "spawn_state \<Rightarrow> type_id option" where
  "spawn_state_contract s =
     (case s of
        None \<Rightarrow> None
      | Some st \<Rightarrow> (case st_plugin_key st of TypedKey c \<Rightarrow> Some c | AnonymousKey _ \<Rightarrow> None))"

definition commit_change ::
  "ident \<Rightarrow> prepared_change \<Rightarrow> seals \<Rightarrow> spawn_state \<Rightarrow>
   (spawn_state_error + ident) \<times> seals \<times> spawn_state"
where
  "commit_change fresh change seals s =
     (case s of
        None \<Rightarrow> (Inl SpawnStateError, seals, s)
      | Some st \<Rightarrow>
          (case seals (st_plugin st) of
             None \<Rightarrow> (Inl SpawnStateError, seals, s)
           | Some p \<Rightarrow>
               (case swap_input change p of
                  (Inl _, _) \<Rightarrow> (Inl SpawnStateError, seals, s)
                | (Inr superseded, p') \<Rightarrow>
                    (Inr superseded, seals(st_plugin st \<mapsto> p'),
                     Some (st\<lparr>st_effective_input := fresh\<rparr>)))))"

definition context_for :: "fid \<Rightarrow> spawn_state \<Rightarrow> ctx option" where
  "context_for f s = (case s of None \<Rightarrow> None | Some st \<Rightarrow> Some (with_fiber f (st_scope st)))"

definition effective_input :: "spawn_state \<Rightarrow> spawn_state_error + ident" where
  "effective_input s = (case s of None \<Rightarrow> Inl SpawnStateError | Some st \<Rightarrow> Inr (st_effective_input st))"

definition apply_snapshot :: "spawn_state \<Rightarrow> spawn_state_error + (ident \<times> ctx)" where
  "apply_snapshot s =
     (case s of None \<Rightarrow> Inl SpawnStateError | Some st \<Rightarrow> Inr (st_plugin st, st_scope st))"

definition spawn_state_era_recipe :: "spawn_state \<Rightarrow> spawn_state_error + era_recipe" where
  "spawn_state_era_recipe s =
     (case s of
        None \<Rightarrow> Inl SpawnStateError
      | Some st \<Rightarrow>
          Inr \<lparr>er_plugin = st_plugin st, er_name = st_name st, er_inject = st_inject st,
               er_plugin_key = st_plugin_key st, er_spawning_ctx = st_spawning_ctx st\<rparr>)"

section \<open>Lemmas\<close>

lemma inject_wf_none [simp, wf_intros]: "inject_wf inject_none"
  by (simp add: inject_wf_def inject_none_def)

lemma set_bt_insert_subset: "set (bt_insert k v m) \<subseteq> insert (k, v) (set m)"
  by (induction m) (auto split: if_splits)

lemma inject_wf_bt_insert: "inject_wf spec \<Longrightarrow> ie_name e = k \<Longrightarrow> inject_wf (bt_insert k e spec)"
  using set_bt_insert_subset [of k e spec] by (fastforce simp: inject_wf_def)

lemma inject_wf_require [simp, wf_intros]: "inject_wf spec \<Longrightarrow> inject_wf (inject_require n spec)"
  by (simp add: inject_require_def inject_wf_bt_insert)

lemma inject_wf_require_configured [simp, wf_intros]:
  "inject_wf spec \<Longrightarrow> inject_wf (inject_require_configured S l spec)"
  by (simp add: inject_require_configured_def inject_wf_bt_insert)

lemma fold_bt_insert_wf:
  "inject_wf spec \<Longrightarrow> \<forall>(k, e) \<in> set over. ie_name e = k \<Longrightarrow> inject_wf (fold (\<lambda>(k, e). bt_insert k e) over spec)"
  by (induction over arbitrary: spec) (auto intro: inject_wf_bt_insert)

lemma inject_wf_overlay [simp, wf_intros]:
  "inject_wf spec \<Longrightarrow> inject_wf over \<Longrightarrow> inject_wf (inject_overlay spec over)"
  unfolding inject_overlay_def by (rule fold_bt_insert_wf) (auto simp: inject_wf_def)

lemma map_of_fold_bt_insert:
  "map_of (fold (\<lambda>(k, e). bt_insert k e) over spec) = map_of spec ++ map_of (rev over)"
  by (induction over arbitrary: spec) (auto simp: map_add_def fun_eq_iff split: option.splits)

lemma map_of_rev_distinct: "distinct (map fst m) \<Longrightarrow> map_of (rev m) = map_of m"
  by (subst map_of_inject_set) (simp_all add: rev_map [symmetric])

lemma map_of_inject_overlay:
  "inject_wf over \<Longrightarrow> map_of (inject_overlay spec over) = map_of spec ++ map_of over"
  by (simp add: inject_overlay_def map_of_fold_bt_insert map_of_rev_distinct bt_wf_distinct inject_wf_def)

section \<open>The properties\<close>

text \<open>
  A dependency declaration is normalised: the overlay keeps one row per Service, in name
  order, each row under its own name; a row of the overlay replaces the declared row of the
  same Service and every other row survives.
\<close>

theorem inject_overlay_normalised:
  assumes "inject_wf spec" and "inject_wf over"
  shows "map_of (inject_overlay spec over) = map_of spec ++ map_of over \<and>
         sorted_wrt (<) (map ie_name (inject_entries (inject_overlay spec over))) \<and>
         set (map ie_name (inject_entries (inject_overlay spec over))) = fst ` set spec \<union> fst ` set over"
proof -
  have wf: "inject_wf (inject_overlay spec over)" using assms by simp
  have names: "map ie_name (inject_entries s) = map fst s" if "inject_wf s" for s
    using that by (auto simp: inject_wf_def inject_entries_def)
  have "fst ` set (inject_overlay spec over) = fst ` set spec \<union> fst ` set over"
    using map_of_inject_overlay [OF assms(2), of spec]
    by (simp flip: dom_map_of_conv_image_fst) (simp add: Un_commute)
  then show ?thesis
    using wf map_of_inject_overlay [OF assms(2), of spec]
    by (simp add: names [OF wf] del: set_map) (simp add: inject_wf_def bt_wf_def)
qed

theorem inject_overlay_normalised_witness:
  "map ie_name (inject_entries
     (inject_overlay (inject_require ''b'' inject_none) (inject_require ''a'' inject_none))) = [''a'', ''b''] \<and>
   sorted_wrt (<) (map ie_name (inject_entries
     (inject_overlay (inject_require ''b'' inject_none) (inject_require ''a'' inject_none))))"
proof
  show "map ie_name (inject_entries
     (inject_overlay (inject_require ''b'' inject_none) (inject_require ''a'' inject_none))) = [''a'', ''b'']"
    by code_simp
  show "sorted_wrt (<) (map ie_name (inject_entries
     (inject_overlay (inject_require ''b'' inject_none) (inject_require ''a'' inject_none))))"
    using inject_overlay_normalised [of "inject_require ''b'' inject_none" "inject_require ''a'' inject_none"]
    by simp
qed

text \<open>
  A prepared change is accepted exactly when it was sealed for this contract and input
  type and the behaviour is at home.  A refusal hands the same change back and alters
  nothing.  An accepted update keeps the behaviour and installs exactly the candidate; an
  accepted era swap moves the behaviour, with the candidate, into a fresh seal and leaves the
  source empty, so a second swap of the source is refused.
\<close>

theorem prepared_change_acceptance:
  "let fits = (pc_contract change = tp_contract p \<and> pc_input_type change = tp_input_type p) in
   (case tp_state p of
      Some (plugin, current) \<Rightarrow>
        if fits then
          swap_input change p = (Inr current, p\<lparr>tp_state := Some (plugin, pc_input change)\<rparr>) \<and>
          (\<exists>fresh. into_successor change p = (Inr fresh, p\<lparr>tp_state := None\<rparr>) \<and>
             tp_state fresh = Some (plugin, pc_input change) \<and> tp_contract fresh = tp_contract p) \<and>
          fst (into_successor other (snd (into_successor change p))) = Inl other \<and>
          fst (swap_input other (snd (into_successor change p))) = Inl other
        else swap_input change p = (Inl change, p) \<and> into_successor change p = (Inl change, p)
    | None \<Rightarrow> swap_input change p = (Inl change, p) \<and> into_successor change p = (Inl change, p))"
  by (auto simp: swap_input_def into_successor_def Let_def split: option.splits)

text \<open>
  Committing a change to an installed Fiber changes the identity of its effective input
  exactly when the change is accepted; a refused change leaves the record and every sealed
  plugin as they were.  Other sealed plugins are never touched.
\<close>

theorem commit_change_effective_input:
  "case commit_change fresh change seals s of
     (Inl _, seals', s') \<Rightarrow> seals' = seals \<and> s' = s
   | (Inr superseded, seals', s') \<Rightarrow>
       (\<exists>st p plugin. s = Some st \<and> seals (st_plugin st) = Some p \<and> tp_state p = Some (plugin, superseded) \<and>
          pc_contract change = tp_contract p \<and>
          s' = Some (st\<lparr>st_effective_input := fresh\<rparr>) \<and>
          seals' = seals(st_plugin st \<mapsto> p\<lparr>tp_state := Some (plugin, pc_input change)\<rparr>))"
  by (auto simp: commit_change_def swap_input_def split: option.splits if_splits)

end
