(* ===== verification/Inertia_Slot.thy ===== *)
theory Inertia_Slot
  imports Cordis_Prelude
begin

text \<open>
  The settle protocol of one Fiber (\<open>crates/cordis-core/src/fiber/inertia.rs\<close>): the state of
  \<open>InertiaSlot\<close> with its atomic operations, and the concurrent protocol they are composed to
  (claims, kicks, the guarded release \<open>exit_recheck\<close>, the four kinds of pass).

  One step of the protocol is one atomic access of the code, or one section under a lock.
  The passes that hold the slot are a list of program counters: nothing in the model prevents
  two holders, so that there is at most one is a theorem.  \<open>compute_target\<close> reads the
  publications edge by edge, as the code does, so a probe can be torn by a mutation.

  The revision counters are \<open>u64\<close>; a mutation is a step only while the counter is below its
  maximum, that is for the first \<open>2^64 - 1\<close> commits of a Fiber.
\<close>

section \<open>The slot\<close>

type_synonym dependency_edge = "string \<times> realm_key"

record semantic_target =
  tg_input :: ident
  tg_assignments :: "(dependency_edge \<times> ident option) list"

definition has_missing :: "semantic_target \<Rightarrow> bool" where
  "has_missing t \<longleftrightarrow> list_ex (\<lambda>(_, publication). publication = None) (tg_assignments t)"

definition INERTIA_IDLE :: u64 where "INERTIA_IDLE = 0"
definition INERTIA_ACTIVE :: u64 where "INERTIA_ACTIVE = 1"
definition INERTIA_RELEASING :: u64 where "INERTIA_RELEASING = 2"

lemma inertia_distinct [simp]:
  "INERTIA_IDLE \<noteq> INERTIA_ACTIVE" "INERTIA_IDLE \<noteq> INERTIA_RELEASING"
  "INERTIA_ACTIVE \<noteq> INERTIA_IDLE" "INERTIA_ACTIVE \<noteq> INERTIA_RELEASING"
  "INERTIA_RELEASING \<noteq> INERTIA_IDLE" "INERTIA_RELEASING \<noteq> INERTIA_ACTIVE"
  by (simp_all add: INERTIA_IDLE_def INERTIA_ACTIVE_def INERTIA_RELEASING_def)

record inertia_slot =
  sl_inertia :: u64
  sl_target :: "semantic_target option"
  sl_committed :: u64
  sl_settled :: u64
  sl_creation_owned :: bool

definition slot_new :: inertia_slot where
  "slot_new = \<lparr>sl_inertia = INERTIA_IDLE, sl_target = None, sl_committed = 0, sl_settled = 0,
     sl_creation_owned = False\<rparr>"

definition set_creation_owned :: "bool \<Rightarrow> inertia_slot \<Rightarrow> inertia_slot" where
  "set_creation_owned b s = s\<lparr>sl_creation_owned := b\<rparr>"

definition take_creation_ownership :: "inertia_slot \<Rightarrow> bool \<times> inertia_slot" where
  "take_creation_ownership s = (sl_creation_owned s, s\<lparr>sl_creation_owned := False\<rparr>)"

definition record_target :: "semantic_target \<Rightarrow> inertia_slot \<Rightarrow> inertia_slot" where
  "record_target t s = s\<lparr>sl_target := Some t\<rparr>"

definition pin_inactive :: "inertia_slot \<Rightarrow> inertia_slot" where
  "pin_inactive s = s\<lparr>sl_target := None\<rparr>"

definition mark_pending_if_untouched :: "semantic_target \<Rightarrow> inertia_slot \<Rightarrow> inertia_slot" where
  "mark_pending_if_untouched t s = (if sl_target s = None then s\<lparr>sl_target := Some t\<rparr> else s)"

definition compare_exchange :: "u64 \<Rightarrow> u64 \<Rightarrow> inertia_slot \<Rightarrow> (u64 + unit) \<times> inertia_slot" where
  "compare_exchange old new s =
     (if sl_inertia s = old then (Inr (), s\<lparr>sl_inertia := new\<rparr>) else (Inl (sl_inertia s), s))"

definition try_claim :: "inertia_slot \<Rightarrow> bool \<times> inertia_slot" where
  "try_claim s =
     (case compare_exchange INERTIA_IDLE INERTIA_ACTIVE s of
        (Inr _, s') \<Rightarrow> (True, s')
      | (Inl _, s') \<Rightarrow> (False, s'))"

definition commit_recheck :: "inertia_slot \<Rightarrow> inertia_slot" where
  "commit_recheck s = s\<lparr>sl_committed := sl_committed s + 1\<rparr>"

definition has_committed_recheck :: "inertia_slot \<Rightarrow> bool" where
  "has_committed_recheck s \<longleftrightarrow> sl_committed s \<noteq> sl_settled s"

definition abandon :: "inertia_slot \<Rightarrow> inertia_slot" where
  "abandon s = s\<lparr>sl_inertia := INERTIA_IDLE\<rparr>"

definition is_idle :: "inertia_slot \<Rightarrow> bool" where
  "is_idle s \<longleftrightarrow> sl_inertia s = INERTIA_IDLE"

section \<open>The concurrent protocol\<close>

datatype pass = InitialPass | ConvergencePass | RestartPass | UpdatePass ident | DisposePass

datatype purpose = ForPass | ForCell | ForLive | ForProbe

text \<open>Where a pass that holds the slot stands.\<close>

datatype holder =
    Claimed pass
  | KickOwner
  | ReadRevision pass
  | Compute purpose pass "semantic_target option" u64 "(dependency_edge \<times> ident option) list" "dependency_edge list"
  | Settling pass semantic_target u64
  | StoreReleasing pass semantic_target u64
  | Judge pass semantic_target u64 semantic_target
  | Acknowledge pass semantic_target u64
  | SwapIdle pass semantic_target u64
  | Teardown
  | TornDown

datatype kicker = KickCheck | KickLoad | KickReleasing | KickIdle | KickDone

record protocol =
  p_slot :: inertia_slot
  p_input :: ident
  p_world :: "dependency_edge \<Rightarrow> ident option"
  p_alive :: bool
  p_disposing :: bool
  p_holders :: "holder list"
  p_kickers :: "kicker list"
  p_epilogue :: bool \<comment> \<open>the initial pass has released but not yet run its last idle check\<close>
  p_panicked :: bool
  p_converged :: "semantic_target option" \<comment> \<open>the target of the last clean release\<close>
  p_declined :: bool \<comment> \<open>a kick found the slot idle but no executor\<close>

definition live_target :: "dependency_edge list \<Rightarrow> protocol \<Rightarrow> semantic_target" where
  "live_target edges s =
     \<lparr>tg_input = p_input s, tg_assignments = map (\<lambda>e. (e, p_world s e)) edges\<rparr>"

definition on_slot :: "(inertia_slot \<Rightarrow> inertia_slot) \<Rightarrow> protocol \<Rightarrow> protocol" where
  "on_slot f s = s\<lparr>p_slot := f (p_slot s)\<rparr>"

text \<open>After the target of a pass is computed.\<close>

definition computed ::
  "purpose \<Rightarrow> pass \<Rightarrow> semantic_target option \<Rightarrow> u64 \<Rightarrow> semantic_target \<Rightarrow> protocol \<Rightarrow> holder option \<times> protocol"
where
  "computed why p settled revn t s =
     (case why of
        ForPass \<Rightarrow>
          (Some (Settling p t revn), if p = InitialPass then s else on_slot (record_target t) s)
      | ForCell \<Rightarrow> (Some (ReadRevision ConvergencePass), on_slot (record_target t) s)
      | ForLive \<Rightarrow>
          (if settled \<noteq> Some t then (Some (ReadRevision p), on_slot (record_target t) s)
           else (Some (StoreReleasing p t revn), s))
      | ForProbe \<Rightarrow>
          (case settled of
             Some old \<Rightarrow> (Some (Judge p old revn t), s)
           | None \<Rightarrow> (None, s\<lparr>p_panicked := True\<rparr>)))"

text \<open>
  One step of a holder.  \<open>failed\<close> is whether a settle in flight ends in a failed apply.  The
  result is the holder afterwards, \<open>None\<close> when it gave the slot back.
\<close>

fun holder_step :: "dependency_edge list \<Rightarrow> bool \<Rightarrow> holder \<Rightarrow> protocol \<Rightarrow> holder option \<times> protocol" where
  "holder_step edges failed (Claimed p) s =
     (case p of
        DisposePass \<Rightarrow>
          if p_disposing s then (None, on_slot abandon s)
          else (Some Teardown, s\<lparr>p_disposing := True\<rparr>)
      | UpdatePass input \<Rightarrow>
          if \<not> p_alive s then (None, on_slot abandon s)
          else (Some (ReadRevision p), s\<lparr>p_input := input\<rparr>)
      | InitialPass \<Rightarrow>
          if \<not> p_alive s then (None, on_slot abandon s)
          else (Some (ReadRevision p), on_slot (set_creation_owned True) s)
      | _ \<Rightarrow>
          if \<not> p_alive s then (None, on_slot abandon s)
          else (Some (ReadRevision p), s))"
| "holder_step edges failed KickOwner s =
     (case sl_target (p_slot s) of
        Some settled \<Rightarrow> (Some (StoreReleasing ConvergencePass settled (sl_committed (p_slot s))), s)
      | None \<Rightarrow> (Some (Compute ForCell ConvergencePass None (sl_committed (p_slot s)) [] edges), s))"
| "holder_step edges failed (ReadRevision p) s =
     (let revn = sl_committed (p_slot s) in
      if p = ConvergencePass then
        (case sl_target (p_slot s) of
           Some t \<Rightarrow> (Some (Settling p t revn), s)
         | None \<Rightarrow> (None, s\<lparr>p_panicked := True\<rparr>))
      else (Some (Compute ForPass p None revn [] edges), s))"
| "holder_step edges failed (Compute why p settled revn acc (e # es)) s =
     (Some (Compute why p settled revn (acc @ [(e, p_world s e)]) es), s)"
| "holder_step edges failed (Compute why p settled revn acc []) s =
     computed why p settled revn \<lparr>tg_input = p_input s, tg_assignments = acc\<rparr> s"
| "holder_step edges failed (Settling p t revn) s =
     (case p of
        ConvergencePass \<Rightarrow> (Some (Compute ForLive p (Some t) revn [] edges), s)
      | InitialPass \<Rightarrow>
          if has_missing t then (Some (StoreReleasing p t revn), on_slot (mark_pending_if_untouched t) s)
          else if failed then (Some Teardown, on_slot (record_target t) (s\<lparr>p_disposing := True\<rparr>))
          else (Some (StoreReleasing p t revn), on_slot (record_target t) s)
      | _ \<Rightarrow> (Some (StoreReleasing p t revn), s))"
| "holder_step edges failed (StoreReleasing p t revn) s =
     (Some (Compute ForProbe p (Some t) revn [] edges),
      on_slot (\<lambda>sl. sl\<lparr>sl_inertia := INERTIA_RELEASING\<rparr>) s)"
| "holder_step edges failed (Judge p t revn live) s =
     (let observed = sl_committed (p_slot s) in
      if live \<noteq> t then
        (Some (ReadRevision p),
         on_slot (\<lambda>sl. (record_target live sl)\<lparr>sl_inertia := INERTIA_ACTIVE\<rparr>) s)
      else if observed \<noteq> revn then (Some (StoreReleasing p t observed), s)
      else (Some (Acknowledge p t revn), s))"
| "holder_step edges failed (Acknowledge p t revn) s =
     (Some (SwapIdle p t revn), on_slot (\<lambda>sl. sl\<lparr>sl_settled := revn\<rparr>) s)"
| "holder_step edges failed (SwapIdle p t revn) s =
     (case compare_exchange INERTIA_RELEASING INERTIA_IDLE (p_slot s) of
        (Inr _, sl) \<Rightarrow>
          (None, s\<lparr>p_slot := sl, p_converged := Some t, p_epilogue := (p_epilogue s \<or> p = InitialPass)\<rparr>)
      | (Inl other, sl) \<Rightarrow>
          if other = INERTIA_ACTIVE then (Some (StoreReleasing p t (sl_committed (p_slot s))), s)
          else (None, s\<lparr>p_panicked := True\<rparr>))"
| "holder_step edges failed Teardown s =
     (Some TornDown, on_slot pin_inactive (s\<lparr>p_alive := False\<rparr>))"
| "holder_step edges failed TornDown s =
     (None, on_slot (set_creation_owned False \<circ> abandon) s)"

text \<open>One step of a kick; \<open>executor\<close> is whether a runtime is current on its thread.\<close>

fun kick_step :: "bool \<Rightarrow> kicker \<Rightarrow> protocol \<Rightarrow> kicker \<times> protocol" where
  "kick_step executor KickCheck s =
     (if \<not> p_alive s \<or> \<not> has_committed_recheck (p_slot s) then (KickDone, s) else (KickLoad, s))"
| "kick_step executor KickLoad s =
     (let w = sl_inertia (p_slot s) in
      if w = INERTIA_ACTIVE then (KickDone, s)
      else if w = INERTIA_RELEASING then (KickReleasing, s)
      else if w = INERTIA_IDLE then
        (if executor then (KickIdle, s) else (KickDone, s\<lparr>p_declined := True\<rparr>))
      else (KickDone, s\<lparr>p_panicked := True\<rparr>))"
| "kick_step executor KickReleasing s =
     (case compare_exchange INERTIA_RELEASING INERTIA_ACTIVE (p_slot s) of
        (Inr _, sl) \<Rightarrow> (KickDone, s\<lparr>p_slot := sl\<rparr>)
      | (Inl _, sl) \<Rightarrow> (KickLoad, s))"
| "kick_step executor KickIdle s =
     (case try_claim (p_slot s) of
        (True, sl) \<Rightarrow>
          (KickDone, s\<lparr>p_slot := sl, p_holders := p_holders s @ [KickOwner], p_declined := False\<rparr>)
      | (False, sl) \<Rightarrow> (KickLoad, s))"
| "kick_step executor KickDone s = (KickDone, s)"

datatype slot_event =
    Claim pass
  | HolderMoves nat bool
  | CancelCreation nat
  | KickMoves nat bool
  | Mutate dependency_edge "ident option"
  | Epilogue

definition claim_step :: "pass \<Rightarrow> protocol \<Rightarrow> protocol" where
  "claim_step p s =
     (case try_claim (p_slot s) of
        (True, sl) \<Rightarrow> s\<lparr>p_slot := sl, p_holders := p_holders s @ [Claimed p], p_declined := False\<rparr>
      | (False, _) \<Rightarrow> s)"

definition replace_holder :: "nat \<Rightarrow> holder option \<Rightarrow> protocol \<Rightarrow> protocol" where
  "replace_holder i h s =
     (case h of
        Some h' \<Rightarrow> s\<lparr>p_holders := (p_holders s)[i := h']\<rparr>
      | None \<Rightarrow> s\<lparr>p_holders := take i (p_holders s) @ drop (Suc i) (p_holders s)\<rparr>)"

text \<open>
  A Service mutation and its recheck commit are one section under the ServiceStore lock; the
  kick follows later.  The last case is the end of \<open>initial_spawn_pass\<close>:
  \<open>if !self.is_idle() { self.abandon() }\<close> after the release has already been published.
\<close>

fun protocol_step :: "dependency_edge list \<Rightarrow> slot_event \<Rightarrow> protocol \<Rightarrow> protocol" where
  "protocol_step edges (Claim p) s = (if p = ConvergencePass then s else claim_step p s)"
| "protocol_step edges (HolderMoves i failed) s =
     (if i < length (p_holders s)
      then (case holder_step edges failed (p_holders s ! i) s of (h, s') \<Rightarrow> replace_holder i h s')
      else s)"
| "protocol_step edges (CancelCreation i) s =
     (if i < length (p_holders s) then
        (case p_holders s ! i of
           Settling InitialPass t revn \<Rightarrow>
             (case take_creation_ownership (p_slot s) of
                (True, sl) \<Rightarrow> replace_holder i (Some Teardown) (s\<lparr>p_slot := sl, p_disposing := True\<rparr>)
              | (False, _) \<Rightarrow> s)
         | _ \<Rightarrow> s)
      else s)"
| "protocol_step edges (KickMoves i executor) s =
     (if i < length (p_kickers s)
      then (case kick_step executor (p_kickers s ! i) s of (k, s') \<Rightarrow> s'\<lparr>p_kickers := (p_kickers s')[i := k]\<rparr>)
      else s)"
| "protocol_step edges (Mutate e publication) s =
     (if sl_committed (p_slot s) = - 1 then s
      else on_slot commit_recheck
        (s\<lparr>p_world := (p_world s)(e := publication), p_kickers := p_kickers s @ [KickCheck]\<rparr>))"
| "protocol_step edges Epilogue s =
     (if p_epilogue s
      then (let s1 = s\<lparr>p_epilogue := False\<rparr> in
            on_slot (set_creation_owned False) (if is_idle (p_slot s) then s1 else on_slot abandon s1))
      else s)"

definition protocol_init :: "ident \<Rightarrow> (dependency_edge \<Rightarrow> ident option) \<Rightarrow> protocol" where
  "protocol_init input world =
     \<lparr>p_slot = slot_new, p_input = input, p_world = world, p_alive = True, p_disposing = False,
      p_holders = [], p_kickers = [], p_epilogue = False, p_panicked = False,
      p_converged = None, p_declined = False\<rparr>"

text \<open>
  A run in which nobody claims the slot between the initial pass's release and the idle check
  that ends the pass.
\<close>

definition guarded_step :: "dependency_edge list \<Rightarrow> protocol \<Rightarrow> protocol \<Rightarrow> bool" where
  "guarded_step edges s t \<longleftrightarrow>
     (\<exists>e. t = protocol_step edges e s \<and> (p_epilogue s \<longrightarrow> length (p_holders t) \<le> length (p_holders s)))"

definition run_protocol :: "dependency_edge list \<Rightarrow> slot_event list \<Rightarrow> protocol \<Rightarrow> protocol" where
  "run_protocol edges es s = fold (protocol_step edges) es s"

end
