(* ===== verification/Inertia_Protocol.thy ===== *)
theory Inertia_Protocol
  imports Inertia_Slot
begin

text \<open>
  The invariant of the settle protocol and what follows from it: one holder at a time, no
  internal panic, arbitration idle without an outstanding recheck means the fiber has settled
  against the live target, and no committed recheck is forgotten.
\<close>

section \<open>The invariant\<close>

definition revisions_ok :: "u64 \<Rightarrow> inertia_slot \<Rightarrow> bool" where
  "revisions_ok revn sl \<longleftrightarrow> sl_settled sl \<le> revn \<and> revn \<le> sl_committed sl"

definition busy_word :: "inertia_slot \<Rightarrow> bool" where
  "busy_word sl \<longleftrightarrow> sl_inertia sl = INERTIA_ACTIVE \<or> sl_inertia sl = INERTIA_RELEASING"

definition kick_pending :: "protocol \<Rightarrow> bool" where
  "kick_pending s \<longleftrightarrow> (\<exists>k \<in> set (p_kickers s). k \<noteq> KickDone) \<or> p_declined s"

definition settled_live :: "dependency_edge list \<Rightarrow> protocol \<Rightarrow> bool" where
  "settled_live edges s \<longleftrightarrow>
     (p_alive s \<longrightarrow> sl_committed (p_slot s) = sl_settled (p_slot s) \<longrightarrow>
      (\<forall>t. p_converged s = Some t \<longrightarrow> t = live_target edges s))"

definition not_lost :: "u64 \<Rightarrow> protocol \<Rightarrow> bool" where
  "not_lost revn s \<longleftrightarrow>
     (p_alive s \<longrightarrow> \<not> p_disposing s \<longrightarrow> sl_committed (p_slot s) \<noteq> revn \<longrightarrow> kick_pending s)"

definition probe_ok ::
  "dependency_edge list \<Rightarrow> u64 \<Rightarrow> (dependency_edge \<times> ident option) list \<Rightarrow> dependency_edge list \<Rightarrow> protocol \<Rightarrow> bool"
where
  "probe_ok edges revn acc es s \<longleftrightarrow>
     (sl_committed (p_slot s) = revn \<longrightarrow> acc @ map (\<lambda>e. (e, p_world s e)) es = map (\<lambda>e. (e, p_world s e)) edges)"

fun holder_inv :: "dependency_edge list \<Rightarrow> holder \<Rightarrow> protocol \<Rightarrow> bool" where
  "holder_inv edges (Claimed p) s \<longleftrightarrow>
     sl_inertia (p_slot s) = INERTIA_ACTIVE \<and> settled_live edges s \<and> p \<noteq> ConvergencePass"
| "holder_inv edges KickOwner s \<longleftrightarrow> sl_inertia (p_slot s) = INERTIA_ACTIVE"
| "holder_inv edges (ReadRevision p) s \<longleftrightarrow>
     sl_inertia (p_slot s) = INERTIA_ACTIVE \<and> (p = ConvergencePass \<longrightarrow> sl_target (p_slot s) \<noteq> None)"
| "holder_inv edges (Compute why p settled revn acc es) s \<longleftrightarrow>
     revisions_ok revn (p_slot s) \<and>
     (if why = ForProbe then busy_word (p_slot s) \<and> settled \<noteq> None \<and> probe_ok edges revn acc es s
      else sl_inertia (p_slot s) = INERTIA_ACTIVE)"
| "holder_inv edges (Settling p t revn) s \<longleftrightarrow>
     sl_inertia (p_slot s) = INERTIA_ACTIVE \<and> revisions_ok revn (p_slot s)"
| "holder_inv edges (StoreReleasing p t revn) s \<longleftrightarrow> busy_word (p_slot s) \<and> revisions_ok revn (p_slot s)"
| "holder_inv edges (Judge p t revn live) s \<longleftrightarrow>
     busy_word (p_slot s) \<and> revisions_ok revn (p_slot s) \<and>
     (sl_committed (p_slot s) = revn \<longrightarrow> live = live_target edges s)"
| "holder_inv edges (Acknowledge p t revn) s \<longleftrightarrow>
     busy_word (p_slot s) \<and> revisions_ok revn (p_slot s) \<and>
     (sl_committed (p_slot s) = revn \<longrightarrow> t = live_target edges s) \<and>
     (sl_inertia (p_slot s) = INERTIA_RELEASING \<longrightarrow> not_lost revn s)"
| "holder_inv edges (SwapIdle p t revn) s \<longleftrightarrow>
     busy_word (p_slot s) \<and> revisions_ok revn (p_slot s) \<and> sl_settled (p_slot s) = revn \<and>
     (sl_committed (p_slot s) = revn \<longrightarrow> t = live_target edges s) \<and>
     (sl_inertia (p_slot s) = INERTIA_RELEASING \<longrightarrow> not_lost revn s)"
| "holder_inv edges Teardown s \<longleftrightarrow> sl_inertia (p_slot s) = INERTIA_ACTIVE \<and> p_disposing s"
| "holder_inv edges TornDown s \<longleftrightarrow>
     sl_inertia (p_slot s) = INERTIA_ACTIVE \<and> p_disposing s \<and> \<not> p_alive s"

definition idle_inv :: "dependency_edge list \<Rightarrow> protocol \<Rightarrow> bool" where
  "idle_inv edges s \<longleftrightarrow>
     sl_inertia (p_slot s) = INERTIA_IDLE \<and> settled_live edges s \<and> not_lost (sl_settled (p_slot s)) s"

definition protocol_inv :: "dependency_edge list \<Rightarrow> protocol \<Rightarrow> bool" where
  "protocol_inv edges s \<longleftrightarrow>
     \<not> p_panicked s \<and> sl_settled (p_slot s) \<le> sl_committed (p_slot s) \<and>
     (p_epilogue s \<longrightarrow> p_holders s = []) \<and>
     (case p_holders s of
        [] \<Rightarrow> idle_inv edges s
      | [h] \<Rightarrow> holder_inv edges h s
      | _ \<Rightarrow> False)"

lemmas inv_defs = revisions_ok_def busy_word_def kick_pending_def settled_live_def not_lost_def
  probe_ok_def live_target_def on_slot_def idle_inv_def

lemmas slot_defs = record_target_def pin_inactive_def mark_pending_if_untouched_def abandon_def
  set_creation_owned_def take_creation_ownership_def compare_exchange_def try_claim_def commit_recheck_def
  is_idle_def has_committed_recheck_def

lemma protocol_init_inv: "protocol_inv edges (protocol_init input world)"
  by (simp add: protocol_inv_def protocol_init_def slot_new_def inv_defs)

section \<open>Every step keeps the invariant\<close>

text \<open>What a holder leaves behind: its own invariant, or an idle slot.\<close>

definition after_holder :: "dependency_edge list \<Rightarrow> holder option \<times> protocol \<Rightarrow> bool" where
  "after_holder edges r \<longleftrightarrow>
     (let s = snd r in
      \<not> p_panicked s \<and> sl_settled (p_slot s) \<le> sl_committed (p_slot s) \<and>
      (case fst r of
         Some h \<Rightarrow> \<not> p_epilogue s \<and> holder_inv edges h s
       | None \<Rightarrow> idle_inv edges s))"

lemma holder_step_inv:
  assumes "\<not> p_panicked s" and "sl_settled (p_slot s) \<le> sl_committed (p_slot s)" and "\<not> p_epilogue s"
    and "holder_inv edges h s"
  shows "after_holder edges (holder_step edges failed h s)"
  using assms
proof (cases h)
  case (Claimed p)
  with assms show ?thesis
    by (cases p) (simp_all add: after_holder_def inv_defs slot_defs)
next
  case KickOwner
  with assms show ?thesis
    by (auto simp: after_holder_def inv_defs slot_defs split: option.splits)
next
  case (ReadRevision p)
  with assms show ?thesis
    by (auto simp: after_holder_def inv_defs slot_defs Let_def split: option.splits)
next
  case (Compute why p settled revn acc es)
  show ?thesis
  proof (cases es)
    case Nil
    with Compute assms show ?thesis
      by (cases why) (auto simp: after_holder_def computed_def inv_defs slot_defs)
  next
    case (Cons e es')
    with Compute assms show ?thesis
      by (simp add: after_holder_def inv_defs split: if_splits)
  qed
next
  case (Settling p t revn)
  with assms show ?thesis
    by (cases p) (simp_all add: after_holder_def inv_defs slot_defs)
next
  case (Judge p t revn live)
  with assms show ?thesis
    by (simp add: after_holder_def inv_defs slot_defs Let_def)
next
  case (SwapIdle p t revn)
  with assms show ?thesis
    by (auto simp: after_holder_def inv_defs slot_defs)
qed (simp_all add: after_holder_def inv_defs slot_defs)

lemma single_holder_cases:
  assumes "protocol_inv edges s"
  obtains "p_holders s = []" | h where "p_holders s = [h]"
  using assms by (auto simp: protocol_inv_def split: list.splits)

lemma computed_frame:
  "p_holders (snd (computed why p settled revn t s)) = p_holders s \<and>
   p_kickers (snd (computed why p settled revn t s)) = p_kickers s"
  by (simp add: computed_def on_slot_def split: purpose.splits option.splits)

lemma holder_step_frame:
  "p_holders (snd (holder_step edges failed h s)) = p_holders s"
proof (cases h)
  case (Compute why p settled revn acc es)
  then show ?thesis by (cases es) (simp_all add: computed_frame)
qed (simp_all add: on_slot_def Let_def compare_exchange_def split: pass.splits option.splits)

lemma holder_inv_frame: "holder_inv edges h (s\<lparr>p_holders := hs\<rparr>) = holder_inv edges h s"
  by (cases h) (simp_all add: inv_defs)

lemma inv_holder_moves:
  assumes "protocol_inv edges s"
  shows "protocol_inv edges (protocol_step edges (HolderMoves i failed) s)"
proof (cases "i < length (p_holders s)")
  case True
  with assms obtain h where h: "p_holders s = [h]" and i: "i = 0"
    by (auto elim: single_holder_cases)
  with assms have pre: "\<not> p_panicked s" "sl_settled (p_slot s) \<le> sl_committed (p_slot s)"
    "\<not> p_epilogue s" "holder_inv edges h s"
    by (auto simp: protocol_inv_def)
  obtain h' s' where step: "holder_step edges failed h s = (h', s')" by force
  from holder_step_inv [OF pre, of failed] step have after: "after_holder edges (h', s')" by simp
  from holder_step_frame [of edges failed h s] step h have hs: "p_holders s' = [h]" by simp
  show ?thesis
    using after h i step hs
    by (cases h') (simp_all add: protocol_inv_def after_holder_def replace_holder_def holder_inv_frame inv_defs)
qed (use assms in simp)

lemma inv_kickers:
  assumes "protocol_inv edges s"
    and "kick_pending s \<Longrightarrow> p_alive s \<Longrightarrow> sl_committed (p_slot s) \<noteq> sl_settled (p_slot s) \<Longrightarrow>
         sl_inertia (p_slot s) \<noteq> INERTIA_ACTIVE \<Longrightarrow> kick_pending (s\<lparr>p_kickers := ks, p_declined := d\<rparr>)"
  shows "protocol_inv edges (s\<lparr>p_kickers := ks, p_declined := d\<rparr>)"
proof -
  let ?s = "s\<lparr>p_kickers := ks, p_declined := d\<rparr>"
  have live: "live_target edges ?s = live_target edges s" "settled_live edges ?s = settled_live edges s"
    by (simp_all add: live_target_def settled_live_def)
  have lost: "not_lost revn ?s"
    if "not_lost revn s" "sl_inertia (p_slot s) \<noteq> INERTIA_ACTIVE" "revisions_ok revn (p_slot s)" for revn
    using that assms(2) by (auto simp: not_lost_def revisions_ok_def)
  show ?thesis
  proof (rule single_holder_cases [OF assms(1)])
    assume none: "p_holders s = []"
    with assms(1) have "idle_inv edges s" "sl_settled (p_slot s) \<le> sl_committed (p_slot s)"
      by (simp_all add: protocol_inv_def)
    with lost [of "sl_settled (p_slot s)"] have "idle_inv edges ?s"
      by (simp add: idle_inv_def live revisions_ok_def)
    with assms(1) none show ?thesis by (simp add: protocol_inv_def)
  next
    fix h assume h: "p_holders s = [h]"
    with assms(1) have "holder_inv edges h s" by (simp add: protocol_inv_def)
    then have "holder_inv edges h ?s"
    proof (cases h)
      case (Acknowledge p t revn)
      with \<open>holder_inv edges h s\<close> lost [of revn] show ?thesis by (simp add: live)
    next
      case (SwapIdle p t revn)
      with \<open>holder_inv edges h s\<close> lost [of revn] show ?thesis by (simp add: live)
    qed (simp_all add: live probe_ok_def split: if_splits)
    with assms(1) h show ?thesis by (simp add: protocol_inv_def)
  qed
qed

lemma holder_busy: "holder_inv edges h s \<Longrightarrow> busy_word (p_slot s)"
  by (cases h) (auto simp: busy_word_def split: if_splits)

lemma word_cases:
  assumes "protocol_inv edges s"
  obtains "sl_inertia (p_slot s) = INERTIA_IDLE" | "sl_inertia (p_slot s) = INERTIA_ACTIVE"
    | "sl_inertia (p_slot s) = INERTIA_RELEASING"
  using assms by (auto simp: protocol_inv_def idle_inv_def busy_word_def dest!: holder_busy split: list.splits)

lemma idle_no_holder:
  "protocol_inv edges s \<Longrightarrow> sl_inertia (p_slot s) = INERTIA_IDLE \<Longrightarrow> p_holders s = []"
  by (auto simp: protocol_inv_def busy_word_def dest!: holder_busy split: list.splits)

lemma kick_pending_update:
  "i < length (p_kickers s) \<Longrightarrow> k \<noteq> KickDone \<Longrightarrow>
   kick_pending (s\<lparr>p_kickers := (p_kickers s)[i := k], p_declined := d\<rparr>)"
  by (force simp: kick_pending_def set_update_memI)

lemma inv_kick_moves:
  assumes inv: "protocol_inv edges s" and guard: "p_epilogue s \<longrightarrow>
      length (p_holders (protocol_step edges (KickMoves i executor) s)) \<le> length (p_holders s)"
  shows "protocol_inv edges (protocol_step edges (KickMoves i executor) s)"
proof (cases "i < length (p_kickers s)")
  case i: True
  note upd = kick_pending_update [OF i]
  have upd': "protocol_inv edges (s\<lparr>p_kickers := (p_kickers s)[i := k]\<rparr>)" if "k \<noteq> KickDone" for k
    using inv_kickers [OF inv, where ks = "(p_kickers s)[i := k]" and d = "p_declined s"] upd [OF that, where d = "p_declined s"] by simp
  have declined: "protocol_inv edges (s\<lparr>p_declined := True, p_kickers := ks\<rparr>)" for ks
  proof -
    have eq: "s\<lparr>p_declined := True, p_kickers := ks\<rparr> = s\<lparr>p_kickers := ks, p_declined := True\<rparr>"
      by (rule protocol.equality) simp_all
    have "protocol_inv edges (s\<lparr>p_kickers := ks, p_declined := True\<rparr>)"
      by (rule inv_kickers [OF inv]) (simp add: kick_pending_def)
    then show ?thesis by (simp only: eq)
  qed
  have quit: "protocol_inv edges (s\<lparr>p_kickers := (p_kickers s)[i := KickDone]\<rparr>)"
    if "\<not> p_alive s \<or> sl_committed (p_slot s) = sl_settled (p_slot s) \<or> sl_inertia (p_slot s) = INERTIA_ACTIVE"
    using inv_kickers [OF inv, where ks = "(p_kickers s)[i := KickDone]" and d = "p_declined s"] that by auto
  show ?thesis
  proof (cases "p_kickers s ! i")
    case KickCheck
    with i show ?thesis
      by (simp add: has_committed_recheck_def upd' quit)
  next
    case KickLoad
    show ?thesis
    proof (rule word_cases [OF inv])
      assume "sl_inertia (p_slot s) = INERTIA_IDLE"
      with KickLoad i show ?thesis
        by (cases executor) (simp_all add: upd' declined)
    next
      assume "sl_inertia (p_slot s) = INERTIA_ACTIVE"
      with KickLoad i show ?thesis
        by (simp add: quit)
    next
      assume "sl_inertia (p_slot s) = INERTIA_RELEASING"
      with KickLoad i show ?thesis
        by (simp add: upd')
    qed
  next
    case KickReleasing
    show ?thesis
    proof (cases "sl_inertia (p_slot s) = INERTIA_RELEASING")
      case True
      with inv obtain h where h: "p_holders s = [h]" "holder_inv edges h s"
        by (auto simp: protocol_inv_def idle_inv_def split: list.splits)
      let ?s = "s\<lparr>p_slot := (p_slot s)\<lparr>sl_inertia := INERTIA_ACTIVE\<rparr>,
                   p_kickers := (p_kickers s)[i := KickDone]\<rparr>"
      have "holder_inv edges h ?s"
        using h(2) True by (cases h) (simp_all add: inv_defs split: if_splits)
      with inv h have "protocol_inv edges ?s" by (simp add: protocol_inv_def)
      with True KickReleasing i show ?thesis by (simp add: compare_exchange_def)
    next
      case False
      with KickReleasing i show ?thesis
        by (simp add: compare_exchange_def upd')
    qed
  next
    case KickIdle
    show ?thesis
    proof (cases "sl_inertia (p_slot s) = INERTIA_IDLE")
      case True
      with KickIdle i guard have "\<not> p_epilogue s"
        by (auto simp: try_claim_def compare_exchange_def)
      moreover from idle_no_holder [OF inv True] have "p_holders s = []" .
      ultimately show ?thesis
        using True KickIdle i inv
        by (simp add: try_claim_def compare_exchange_def protocol_inv_def inv_defs)
    next
      case False
      with KickIdle i show ?thesis
        by (simp add: try_claim_def compare_exchange_def upd')
    qed
  next
    case KickDone
    with i have "(p_kickers s)[i := KickDone] = p_kickers s" by (metis list_update_id)
    with KickDone i inv show ?thesis by simp
  qed
qed (use inv in simp)

lemma inv_claim:
  assumes inv: "protocol_inv edges s" and "p \<noteq> ConvergencePass"
    and guard: "p_epilogue s \<longrightarrow> length (p_holders (claim_step p s)) \<le> length (p_holders s)"
  shows "protocol_inv edges (claim_step p s)"
proof (cases "sl_inertia (p_slot s) = INERTIA_IDLE")
  case True
  with guard have "\<not> p_epilogue s"
    by (auto simp: claim_step_def try_claim_def compare_exchange_def)
  with True idle_no_holder [OF inv True] inv assms(2) show ?thesis
    by (simp add: claim_step_def try_claim_def compare_exchange_def protocol_inv_def inv_defs)
next
  case False
  with inv show ?thesis by (simp add: claim_step_def try_claim_def compare_exchange_def)
qed

lemma inv_cancel:
  assumes inv: "protocol_inv edges s"
  shows "protocol_inv edges (protocol_step edges (CancelCreation i) s)"
proof (cases "\<exists>t revn. i < length (p_holders s) \<and> p_holders s ! i = Settling InitialPass t revn")
  case True
  with inv obtain t revn where h: "p_holders s = [Settling InitialPass t revn]" and i: "i = 0"
    by (auto elim: single_holder_cases)
  with inv show ?thesis
    by (cases "sl_creation_owned (p_slot s)")
      (auto simp: protocol_inv_def take_creation_ownership_def replace_holder_def)
next
  case False
  with inv show ?thesis
    by (auto split: holder.splits pass.splits)
qed

lemma inv_mutate:
  assumes inv: "protocol_inv edges s"
  shows "protocol_inv edges (protocol_step edges (Mutate e publication) s)"
proof (cases "sl_committed (p_slot s) = - 1")
  case False
  let ?s = "protocol_step edges (Mutate e publication) s"
  have pending: "kick_pending ?s" using False by (simp add: kick_pending_def on_slot_def)
  have fields: "sl_committed (p_slot ?s) = sl_committed (p_slot s) + 1" "sl_settled (p_slot ?s) = sl_settled (p_slot s)"
    "sl_inertia (p_slot ?s) = sl_inertia (p_slot s)" "sl_target (p_slot ?s) = sl_target (p_slot s)"
    "p_holders ?s = p_holders s" "p_panicked ?s = p_panicked s" "p_epilogue ?s = p_epilogue s"
    "p_alive ?s = p_alive s" "p_disposing ?s = p_disposing s"
    using False by (simp_all add: on_slot_def commit_recheck_def)
  have rises: "sl_committed (p_slot s) < sl_committed (p_slot s) + 1"
    using False by (intro word_less_succ) simp_all
  have stale: "revn < sl_committed (p_slot s) + 1" if "revn \<le> sl_committed (p_slot s)" for revn
    using that rises by (rule order_le_less_trans)
  have settled: "sl_settled (p_slot s) \<le> sl_committed (p_slot s)" using inv by (simp add: protocol_inv_def)
  show ?thesis
  proof (rule single_holder_cases [OF inv])
    assume none: "p_holders s = []"
    with inv have "idle_inv edges ?s"
      using stale [OF settled] pending
      by (auto simp: protocol_inv_def idle_inv_def settled_live_def not_lost_def fields simp del: protocol_step.simps)
    with none inv stale [OF settled] show ?thesis
      by (simp add: protocol_inv_def fields del: protocol_step.simps)
  next
    fix h assume h: "p_holders s = [h]"
    with inv have hi: "holder_inv edges h s" by (simp add: protocol_inv_def)
    have revisions: "revisions_ok revn (p_slot ?s) \<and> sl_committed (p_slot ?s) \<noteq> revn"
      if "revisions_ok revn (p_slot s)" for revn
      using that stale [of revn] unfolding revisions_ok_def fields by auto
    have busy: "busy_word (p_slot ?s) = busy_word (p_slot s)" unfolding busy_word_def fields ..
    have unsettled: "settled_live edges ?s"
      using stale [OF settled] unfolding settled_live_def fields by auto
    have "holder_inv edges h ?s"
    proof (cases h)
      case (Claimed p)
      with hi unsettled show ?thesis by (simp only: holder_inv.simps fields; auto)
    next
      case (Compute why p st revn acc es)
      with hi revisions [of revn] busy show ?thesis
        by (simp only: holder_inv.simps fields probe_ok_def; auto split: if_splits)
    next
      case (Settling p t revn)
      with hi revisions [of revn] show ?thesis by (simp only: holder_inv.simps fields; auto)
    next
      case (StoreReleasing p t revn)
      with hi revisions [of revn] busy show ?thesis by (simp only: holder_inv.simps fields; auto)
    next
      case (Judge p t revn live)
      with hi revisions [of revn] busy show ?thesis by (simp only: holder_inv.simps fields; auto)
    next
      case (Acknowledge p t revn)
      with hi revisions [of revn] busy pending show ?thesis
        by (simp only: holder_inv.simps fields not_lost_def; auto)
    next
      case (SwapIdle p t revn)
      with hi revisions [of revn] busy pending show ?thesis
        by (simp only: holder_inv.simps fields not_lost_def; auto)
    qed (use hi in \<open>simp_all add: fields del: protocol_step.simps\<close>)
    with h inv stale [OF settled] show ?thesis
      by (simp add: protocol_inv_def fields del: protocol_step.simps)
  qed
qed (use inv in simp)

lemma inv_epilogue:
  assumes inv: "protocol_inv edges s"
  shows "protocol_inv edges (protocol_step edges Epilogue s)"
proof (cases "p_epilogue s")
  case True
  with inv have "p_holders s = []" "idle_inv edges s" by (auto simp: protocol_inv_def)
  with inv True show ?thesis
    by (simp add: protocol_inv_def inv_defs slot_defs)
qed (use inv in simp)

lemma guarded_step_inv:
  assumes "protocol_inv edges s" and "guarded_step edges s t"
  shows "protocol_inv edges t"
proof -
  obtain e where t: "t = protocol_step edges e s"
    and guard: "p_epilogue s \<longrightarrow> length (p_holders t) \<le> length (p_holders s)"
    using assms(2) by (auto simp: guarded_step_def)
  show ?thesis
  proof (cases e)
    case (Claim p)
    with t guard assms(1) show ?thesis by (cases "p = ConvergencePass") (auto intro: inv_claim)
  next
    case (KickMoves i executor)
    with t guard show ?thesis by (simp only: inv_kick_moves [OF assms(1)])
  qed (use t assms(1) in \<open>simp_all only: inv_holder_moves inv_cancel inv_mutate inv_epilogue\<close>)
qed

interpretation settle: invariant_system
  "\<lambda>s. \<exists>input world. s = protocol_init input world" "guarded_step edges" "protocol_inv edges" for edges
  by unfold_locales (auto intro: protocol_init_inv guarded_step_inv)

section \<open>The properties\<close>

definition settle_reach :: "dependency_edge list \<Rightarrow> protocol \<Rightarrow> bool" where
  "settle_reach edges s \<longleftrightarrow> reach (\<lambda>s. \<exists>input world. s = protocol_init input world) (guarded_step edges) s"

lemma settle_reach_inv: "settle_reach edges s \<Longrightarrow> protocol_inv edges s"
  unfolding settle_reach_def by (rule settle.reach_inv)

fun guarded_run :: "dependency_edge list \<Rightarrow> slot_event list \<Rightarrow> protocol \<Rightarrow> bool" where
  "guarded_run edges [] s \<longleftrightarrow> True"
| "guarded_run edges (e # es) s \<longleftrightarrow>
     (p_epilogue s \<longrightarrow> length (p_holders (protocol_step edges e s)) \<le> length (p_holders s)) \<and>
     guarded_run edges es (protocol_step edges e s)"

lemma guarded_run_reach:
  "settle_reach edges s \<Longrightarrow> guarded_run edges es s \<Longrightarrow> settle_reach edges (run_protocol edges es s)"
proof (induction es arbitrary: s)
  case Nil
  then show ?case by (simp add: run_protocol_def)
next
  case (Cons e es)
  then have "settle_reach edges (protocol_step edges e s)"
    unfolding settle_reach_def guarded_step_def by (auto intro: reach_step)
  with Cons show ?case by (simp add: run_protocol_def)
qed

lemma settle_reach_init: "settle_reach edges (protocol_init input world)"
  unfolding settle_reach_def by (auto intro: reach_init)

text \<open>
  C9: The settle protocol never runs two passes at once and never reaches one of its panics.
  In every reachable state at most one pass holds the slot, the slot word is IDLE exactly when
  none does, and no internal consistency check has failed, for any interleaving of claims,
  kicks, mutations, torn target probes and cancelled creations in which no claim falls
  between the initial pass's release and its closing idle check.
\<close>

theorem settle_protocol_exclusive:
  assumes "settle_reach edges s"
  shows "\<not> p_panicked s \<and> length (p_holders s) \<le> 1 \<and>
         (sl_inertia (p_slot s) = INERTIA_IDLE \<longleftrightarrow> p_holders s = [])"
proof (rule single_holder_cases [OF settle_reach_inv [OF assms]])
  assume "p_holders s = []"
  with settle_reach_inv [OF assms] show ?thesis by (simp add: protocol_inv_def idle_inv_def)
next
  fix h assume h: "p_holders s = [h]"
  with settle_reach_inv [OF assms] have "busy_word (p_slot s)"
    by (auto simp: protocol_inv_def intro: holder_busy)
  with h settle_reach_inv [OF assms] show ?thesis by (auto simp: protocol_inv_def busy_word_def)
qed

definition demo_edge :: dependency_edge where
  "demo_edge = (''db'', 0)"

text \<open>One initial pass over one dependency, up to its release.\<close>

definition demo_creation :: "slot_event list" where
  "demo_creation = Claim InitialPass # replicate 11 (HolderMoves 0 False)"

definition demo_start :: protocol where
  "demo_start = protocol_init 7 (\<lambda>_. Some 1)"

theorem settle_protocol_exclusive_witness:
  "let s = run_protocol [demo_edge] (demo_creation @ [Epilogue]) demo_start in
   p_converged s \<noteq> None \<and> \<not> p_panicked s \<and> length (p_holders s) \<le> 1"
proof -
  have "guarded_run [demo_edge] (demo_creation @ [Epilogue]) demo_start" by code_simp
  then have "settle_reach [demo_edge] (run_protocol [demo_edge] (demo_creation @ [Epilogue]) demo_start)"
    unfolding demo_start_def by (intro guarded_run_reach settle_reach_init)
  note excl = settle_protocol_exclusive [OF this]
  have "p_converged (run_protocol [demo_edge] (demo_creation @ [Epilogue]) demo_start) \<noteq> None"
    by code_simp
  with excl show ?thesis by (simp add: Let_def)
qed

text \<open>
  C10: Arbitration idle with no outstanding recheck means settled.  When the slot word is IDLE,
  the committed and the settled revision agree and some pass has released cleanly, then the
  target of the last clean release is the target the Fiber has now: its current input and
  the current publication of every dependency edge.
\<close>

theorem idle_without_recheck_is_settled:
  assumes "settle_reach edges s" and "p_alive s"
    and "is_idle (p_slot s)" and "\<not> has_committed_recheck (p_slot s)" and "p_converged s = Some t"
  shows "t = \<lparr>tg_input = p_input s, tg_assignments = map (\<lambda>e. (e, p_world s e)) edges\<rparr>"
proof -
  note inv = settle_reach_inv [OF assms(1)]
  have "p_holders s = []" using idle_no_holder [OF inv] assms(3) by (simp add: is_idle_def)
  with inv have "settled_live edges s" by (simp add: protocol_inv_def idle_inv_def)
  with assms show ?thesis by (simp add: settled_live_def has_committed_recheck_def live_target_def)
qed

definition demo_requiesced :: protocol where
  "demo_requiesced =
     run_protocol [demo_edge]
       (demo_creation @ Epilogue # Mutate demo_edge (Some 2) # replicate 3 (KickMoves 0 True)
         @ replicate 16 (HolderMoves 0 False)) demo_start"

theorem idle_without_recheck_is_settled_witness:
  "p_converged demo_requiesced = Some \<lparr>tg_input = 7, tg_assignments = [(demo_edge, Some 2)]\<rparr>"
proof -
  have "guarded_run [demo_edge]
       (demo_creation @ Epilogue # Mutate demo_edge (Some 2) # replicate 3 (KickMoves 0 True)
         @ replicate 16 (HolderMoves 0 False)) demo_start" by code_simp
  then have reached: "settle_reach [demo_edge] demo_requiesced"
    unfolding demo_start_def demo_requiesced_def by (intro guarded_run_reach settle_reach_init)
  have state: "p_alive demo_requiesced" "is_idle (p_slot demo_requiesced)"
    "\<not> has_committed_recheck (p_slot demo_requiesced)" "p_input demo_requiesced = 7"
    "p_world demo_requiesced demo_edge = Some 2" "p_converged demo_requiesced \<noteq> None"
    by code_simp+
  from state(6) obtain t where "p_converged demo_requiesced = Some t" by blast
  from idle_without_recheck_is_settled [OF reached state(1-3) this] this state show ?thesis by simp
qed

text \<open>
  C11: No committed recheck is forgotten.  Whenever the slot is idle on a live Fiber that is
  not being disposed while a committed recheck is outstanding, a kick for it is still on its
  way, or the last kick found no executor and deliberately left the durable revision to the
  next lifecycle driver.
\<close>

theorem committed_recheck_never_lost:
  assumes "settle_reach edges s" and "p_alive s" and "\<not> p_disposing s"
    and "is_idle (p_slot s)" and "has_committed_recheck (p_slot s)"
  shows "(\<exists>k \<in> set (p_kickers s). k \<noteq> KickDone) \<or> p_declined s"
proof -
  note inv = settle_reach_inv [OF assms(1)]
  have "p_holders s = []" using idle_no_holder [OF inv] assms(4) by (simp add: is_idle_def)
  with inv have "not_lost (sl_settled (p_slot s)) s" by (simp add: protocol_inv_def idle_inv_def)
  with assms show ?thesis by (simp add: not_lost_def has_committed_recheck_def kick_pending_def)
qed

definition demo_declined :: protocol where
  "demo_declined =
     run_protocol [demo_edge]
       (demo_creation @ Epilogue # Mutate demo_edge None # replicate 2 (KickMoves 0 False)) demo_start"

theorem committed_recheck_never_lost_witness:
  "p_kickers demo_declined = [KickDone] \<and> p_declined demo_declined"
proof -
  have "guarded_run [demo_edge]
       (demo_creation @ Epilogue # Mutate demo_edge None # replicate 2 (KickMoves 0 False)) demo_start"
    by code_simp
  then have reached: "settle_reach [demo_edge] demo_declined"
    unfolding demo_start_def demo_declined_def by (intro guarded_run_reach settle_reach_init)
  have state: "p_alive demo_declined" "\<not> p_disposing demo_declined" "is_idle (p_slot demo_declined)"
    "has_committed_recheck (p_slot demo_declined)" "p_kickers demo_declined = [KickDone]"
    by code_simp+
  from committed_recheck_never_lost [OF reached state(1-4)] state(5) show ?thesis by simp
qed


end
