(* ===== verification/Fiber_State.thy ===== *)
theory Fiber_State
  imports Plugin_Contract Inertia_Slot
begin

text \<open>
  The state of one Fiber (\<open>crates/cordis-core/src/fiber/mod.rs\<close>): the published lifecycle
  state with its durable revisions, the reliable wait on it, the generation gate every
  registration passes, and the terminal and replacement claims that close it.

  A Fiber allocation is a cell of the heap; \<open>None\<close> in the heap is a weak handle that no longer
  upgrades.
\<close>

section \<open>Published state\<close>

datatype fiber_state = Loading | Active | Pending | Unloading | Failed | Disposed

fun publication_index :: "fiber_state \<Rightarrow> nat" where
  "publication_index Loading = 0"
| "publication_index Active = 1"
| "publication_index Pending = 2"
| "publication_index Unloading = 3"
| "publication_index Failed = 4"
| "publication_index Disposed = 5"

record state_publication =
  sp_current :: fiber_state
  sp_revisions :: "u64 list"
  sp_sequence :: u64

definition publication_new :: "fiber_state \<Rightarrow> state_publication" where
  "publication_new initial =
     \<lparr>sp_current = initial, sp_revisions = (replicate 6 0)[publication_index initial := 1], sp_sequence = 0\<rparr>"

text \<open>The outer \<open>None\<close> is a revision or sequence overflow, where the code panics.\<close>

definition publication_publish ::
  "fiber_state \<Rightarrow> state_publication \<Rightarrow> (fiber_state option \<times> state_publication) option"
where
  "publication_publish next sp =
     (if sp_current sp = next then Some (None, sp)
      else (case checked_succ (sp_revisions sp ! publication_index next) of
              None \<Rightarrow> None
            | Some revision \<Rightarrow>
                (case checked_succ (sp_sequence sp) of
                   None \<Rightarrow> None
                 | Some sequence \<Rightarrow>
                     Some (Some (sp_current sp),
                       \<lparr>sp_current = next,
                        sp_revisions = (sp_revisions sp)[publication_index next := revision],
                        sp_sequence = sequence\<rparr>))))"

definition publication_observe :: "state_publication \<Rightarrow> fiber_state \<times> u64" where
  "publication_observe sp = (sp_current sp, sp_sequence sp)"

definition publication_snapshot :: "fiber_state \<Rightarrow> state_publication \<Rightarrow> fiber_state \<times> u64" where
  "publication_snapshot target sp = (sp_current sp, sp_revisions sp ! publication_index target)"

text \<open>
  \<open>wait_for_after\<close> between its suspension points: \<open>wakes\<close> is what it finds each time round
  the loop, the cell before it parks and what wakes it.  \<open>None\<close>: still waiting.
\<close>

datatype wake = WokenByNotify | WokenByDeadline state_publication

datatype wait_state_error = WaitElapsed | WaitDeadlineUnavailable

definition requested_publication :: "fiber_state \<Rightarrow> u64 \<Rightarrow> state_publication \<Rightarrow> bool" where
  "requested_publication target baseline sp =
     (case publication_snapshot target sp of (current, revision) \<Rightarrow> current = target \<or> revision \<noteq> baseline)"

fun wait_loop :: "fiber_state \<Rightarrow> u64 \<Rightarrow> (state_publication \<times> wake) list \<Rightarrow> (wait_state_error + unit) option" where
  "wait_loop target baseline [] = None"
| "wait_loop target baseline ((sp, woken) # wakes) =
     (if requested_publication target baseline sp then Some (Inr ())
      else (case woken of
              WokenByDeadline final \<Rightarrow>
                Some (if requested_publication target baseline final then Inr () else Inl WaitElapsed)
            | WokenByNotify \<Rightarrow> wait_loop target baseline wakes))"

definition wait_for_after ::
  "fiber_state \<Rightarrow> u64 \<Rightarrow> bool \<Rightarrow> state_publication \<Rightarrow> (state_publication \<times> wake) list \<Rightarrow>
   (wait_state_error + unit) option"
where
  "wait_for_after target baseline deadline_available sp wakes =
     (if requested_publication target baseline sp then Some (Inr ())
      else if \<not> deadline_available then Some (Inl WaitDeadlineUnavailable)
      else wait_loop target baseline wakes)"

section \<open>The Fiber\<close>

record fiber =
  fb_alive :: bool
  fb_disposing :: bool
  fb_replacing :: bool
  fb_dispose_complete :: bool
  fb_name :: string
  fb_edges :: "dependency_edge list"
  fb_state :: state_publication
  fb_journal :: journal
  fb_slot :: inertia_slot
  fb_error :: "plugin_failure option"
  fb_spawn :: spawn_state
  fb_draining :: bool
  fb_applied :: bool
  fb_creation_pending :: bool

type_synonym fiber_heap = "fid \<Rightarrow> fiber option"

definition fiber_new_with_edges :: "string \<Rightarrow> dependency_edge list \<Rightarrow> fiber" where
  "fiber_new_with_edges name edges =
     \<lparr>fb_alive = True, fb_disposing = False, fb_replacing = False, fb_dispose_complete = False,
      fb_name = name, fb_edges = edges, fb_state = publication_new Pending, fb_journal = journal_new,
      fb_slot = slot_new, fb_error = None, fb_spawn = None, fb_draining = False, fb_applied = False,
      fb_creation_pending = False\<rparr>"

definition current_state :: "fiber \<Rightarrow> fiber_state" where
  "current_state f = sp_current (fb_state f)"

text \<open>The overflow panic of a publication leaves the cell as it was.\<close>

definition set_state :: "fiber_state \<Rightarrow> fiber \<Rightarrow> fiber" where
  "set_state next f =
     (case publication_publish next (fb_state f) of
        None \<Rightarrow> f
      | Some (_, sp) \<Rightarrow> f\<lparr>fb_state := sp\<rparr>)"

definition fiber_root :: fiber where
  "fiber_root = set_state Active (fiber_new_with_edges ''root'' [])"

definition claim_terminal :: "fiber \<Rightarrow> bool \<times> fiber" where
  "claim_terminal f = (fb_disposing f, f\<lparr>fb_disposing := True\<rparr>)"

definition mark_terminal :: "fiber \<Rightarrow> fiber" where
  "mark_terminal f = f\<lparr>fb_disposing := True\<rparr>"

definition mark_replacing :: "fiber \<Rightarrow> fiber" where
  "mark_replacing f = f\<lparr>fb_replacing := True\<rparr>"

definition is_alive :: "fiber \<Rightarrow> bool" where
  "is_alive f = fb_alive f"

datatype generation_closed = GenerationClosed

definition assert_alive :: "fiber \<Rightarrow> generation_closed + unit" where
  "assert_alive f = (if is_alive f then Inr () else Inl GenerationClosed)"

definition assert_can_register :: "fiber \<Rightarrow> generation_closed + unit" where
  "assert_can_register f =
     (case assert_alive f of
        Inl e \<Rightarrow> Inl e
      | Inr _ \<Rightarrow>
          if fb_disposing f \<or> fb_replacing f then Inl GenerationClosed
          else (case current_state f of
                  Loading \<Rightarrow> Inr () | Active \<Rightarrow> Inr ()
                | Pending \<Rightarrow> Inl GenerationClosed | Unloading \<Rightarrow> Inl GenerationClosed
                | Failed \<Rightarrow> Inl GenerationClosed | Disposed \<Rightarrow> Inl GenerationClosed))"

definition store_error :: "plugin_failure option \<Rightarrow> fiber \<Rightarrow> fiber" where
  "store_error next f = f\<lparr>fb_error := next\<rparr>"

definition take_error :: "fiber \<Rightarrow> plugin_failure option \<times> fiber" where
  "take_error f = (fb_error f, f\<lparr>fb_error := None\<rparr>)"

definition remove_disposable :: "token \<Rightarrow> fiber \<Rightarrow> cleanup option \<times> fiber" where
  "remove_disposable t f = (case journal_remove t (fb_journal f) of (c, j) \<Rightarrow> (c, f\<lparr>fb_journal := j\<rparr>))"

section \<open>Lemmas\<close>

definition publication_wf :: "state_publication \<Rightarrow> bool" where
  "publication_wf sp \<longleftrightarrow> length (sp_revisions sp) = 6"

lemma publication_index_less: "publication_index s < 6"
  by (cases s) simp_all

lemma publication_index_inj: "publication_index s = publication_index t \<longleftrightarrow> s = t"
  by (cases s; cases t) simp_all

lemma publication_new_wf [simp, wf_intros]: "publication_wf (publication_new s)"
  by (simp add: publication_wf_def publication_new_def)

fun publish_all :: "fiber_state list \<Rightarrow> state_publication \<Rightarrow> state_publication option" where
  "publish_all [] sp = Some sp"
| "publish_all (s # ss) sp =
     (case publication_publish s sp of None \<Rightarrow> None | Some (_, sp') \<Rightarrow> publish_all ss sp')"

lemma publish_effect:
  assumes "publication_wf sp" and "publication_publish s sp = Some (old, sp')"
  shows "publication_wf sp' \<and> sp_current sp' = s \<and>
         unat (sp_revisions sp' ! publication_index t) =
           unat (sp_revisions sp ! publication_index t) + (if s = t \<and> sp_current sp \<noteq> t then 1 else 0)"
  using assms publication_index_less [of s] publication_index_less [of t]
  by (auto simp: publication_publish_def publication_wf_def nth_list_update publication_index_inj
      dest!: unat_checked_succ split: if_splits option.splits)

lemma publish_all_revisions:
  "publication_wf sp \<Longrightarrow> publish_all ss sp = Some sp' \<Longrightarrow>
   unat (sp_revisions sp ! publication_index t) \<le> unat (sp_revisions sp' ! publication_index t) \<and>
   (t \<in> set ss \<longrightarrow> sp_current sp \<noteq> t \<longrightarrow>
      unat (sp_revisions sp ! publication_index t) < unat (sp_revisions sp' ! publication_index t))"
proof (induction ss arbitrary: sp)
  case Nil
  then show ?case by simp
next
  case (Cons s ss)
  then obtain old sp1 where p: "publication_publish s sp = Some (old, sp1)" and r: "publish_all ss sp1 = Some sp'"
    by (auto split: option.splits prod.splits)
  note eff = publish_effect [OF Cons.prems(1) p, of t]
  from Cons.IH [OF _ r] eff show ?case by (auto split: if_splits)
qed

lemma assert_can_register_iff:
  "assert_can_register f = Inr () \<longleftrightarrow>
   fb_alive f \<and> \<not> fb_disposing f \<and> \<not> fb_replacing f \<and> current_state f \<in> {Loading, Active}"
  by (auto simp: assert_can_register_def assert_alive_def is_alive_def split: fiber_state.splits)

lemma assert_can_register_cases:
  "assert_can_register f = (if fb_alive f \<and> \<not> fb_disposing f \<and> \<not> fb_replacing f \<and> current_state f \<in> {Loading, Active}
     then Inr () else Inl GenerationClosed)"
  by (auto simp: assert_can_register_def assert_alive_def is_alive_def split: fiber_state.splits)

section \<open>The properties\<close>

text \<open>
  A requested publication is never missed.  A waiter that takes its baseline before some
  transitions sees the target state whenever any of them published it, however many other
  states were published before the waiter ran again; so when it then wakes, by notification or
  by its deadline, the wait succeeds and never reports \<open>Elapsed\<close>.
\<close>

theorem publication_never_missed:
  assumes "publication_wf sp" and "publish_all ss sp = Some sp'" and "target \<in> set ss"
  shows "let baseline = snd (publication_snapshot target sp) in
         wait_for_after target baseline True sp ((sp, WokenByNotify) # (sp', woken) # rest) = Some (Inr ()) \<and>
         wait_for_after target baseline True sp [(sp, WokenByDeadline sp')] = Some (Inr ())"
proof -
  have "sp_current sp \<noteq> target \<Longrightarrow> sp_revisions sp' ! publication_index target \<noteq> sp_revisions sp ! publication_index target"
    using publish_all_revisions [OF assms(1,2), of target] assms(3) by auto
  then show ?thesis
    by (auto simp: Let_def wait_for_after_def requested_publication_def publication_snapshot_def)
qed

theorem publication_never_missed_witness:
  "wait_for_after Loading 0 True (publication_new Pending)
     [(publication_new Pending, WokenByDeadline
        (the (publish_all [Loading, Active] (publication_new Pending))))] = Some (Inr ())"
proof -
  have "publish_all [Loading, Active] (publication_new Pending) =
        Some (the (publish_all [Loading, Active] (publication_new Pending)))"
    by (simp add: publication_publish_def publication_new_def checked_succ_def)
  from publication_never_missed [OF publication_new_wf this, of Loading] show ?thesis
    by (simp add: Let_def publication_snapshot_def publication_new_def)
qed

text \<open>
  The generation gate admits a registration exactly on a live Fiber in Loading or Active
  whose generation is neither being disposed nor replaced, and every closing mark takes
  effect at once: after a terminal claim, a terminal mark, a replacement mark or death no
  registration is admitted.
\<close>

theorem generation_gate:
  "(assert_can_register f = Inr () \<longleftrightarrow>
      fb_alive f \<and> \<not> fb_disposing f \<and> \<not> fb_replacing f \<and> current_state f \<in> {Loading, Active}) \<and>
   assert_can_register (snd (claim_terminal f)) = Inl GenerationClosed \<and>
   assert_can_register (mark_terminal f) = Inl GenerationClosed \<and>
   assert_can_register (mark_replacing f) = Inl GenerationClosed \<and>
   assert_can_register (f\<lparr>fb_alive := False\<rparr>) = Inl GenerationClosed \<and>
   assert_can_register (fiber_new_with_edges name edges) = Inl GenerationClosed \<and>
   assert_can_register fiber_root = Inr ()"
  by (simp add: assert_can_register_cases claim_terminal_def mark_terminal_def mark_replacing_def
      fiber_new_with_edges_def fiber_root_def current_state_def set_state_def publication_new_def
      publication_publish_def checked_succ_def)

end
