(* ===== verification/Gated.thy ===== *)
theory Gated
  imports Fiber_State
begin

text \<open>
  The gated-publish seam (\<open>crates/cordis-core/src/gated.rs\<close>), the registration path of every
  resource bound to a Fiber generation, with its two plain users: effect registration
  (\<open>effect.rs\<close>) and generation-owned tasks (\<open>Context::run\<close> in \<open>fiber/mod.rs\<close>).

  The seam touches one Fiber and one semantic store.  \<open>'s\<close> is the state that holds both,
  \<open>fiber_of\<close> reads the Fiber and \<open>put_journal\<close> writes its journal.  The gate is passed before
  the journal lock is taken, so the state \<open>s0\<close> the gate saw is an argument of its own; \<open>s\<close> is
  the state under the lock.
\<close>

datatype gated_publish_error = InactiveContext | PublishRefused

type_synonym 's publish_step = "'s \<Rightarrow> bool \<times> 's"

definition no_publish :: "'s publish_step" where
  "no_publish s = (True, s)"

definition push_gated ::
  "('s \<Rightarrow> fiber) \<Rightarrow> (journal \<Rightarrow> 's \<Rightarrow> 's) \<Rightarrow> cleanup \<Rightarrow> 's publish_step \<Rightarrow> 's \<Rightarrow> 's \<Rightarrow>
   (gated_publish_error + token) \<times> 's"
where
  "push_gated fiber_of put_journal cleanup publish s0 s =
     (case assert_can_register (fiber_of s0) of
        Inl _ \<Rightarrow> (Inl InactiveContext, s)
      | Inr _ \<Rightarrow>
          (case assert_can_register (fiber_of s) of
             Inl _ \<Rightarrow> (Inl InactiveContext, s)
           | Inr _ \<Rightarrow>
               (case publish s of
                  (False, s') \<Rightarrow> (Inl PublishRefused, s')
                | (True, s') \<Rightarrow>
                    (case journal_push cleanup (fb_journal (fiber_of s')) of
                       (token, j) \<Rightarrow> (Inr token, put_journal j s')))))"

section \<open>What a publish step must promise\<close>

locale gated_step =
  fixes fiber_of :: "'s \<Rightarrow> fiber"
    and put_journal :: "journal \<Rightarrow> 's \<Rightarrow> 's"
    and publish :: "'s publish_step"
    and wf :: "'s \<Rightarrow> bool"
  assumes refused: "wf s \<Longrightarrow> publish s = (False, s') \<Longrightarrow> s' = s"
    and journal_kept: "wf s \<Longrightarrow> publish s = (True, s') \<Longrightarrow> fb_journal (fiber_of s') = fb_journal (fiber_of s)"
    and journal_put: "fb_journal (fiber_of (put_journal j s)) = j"
begin

text \<open>All or nothing: a refusal leaves the state as it was, a success has both published and
  committed exactly one new obligation.\<close>

lemma push_gated_refused:
  assumes "wf s" and "push_gated fiber_of put_journal cleanup publish s0 s = (Inl e, s')"
  shows "s' = s"
  using assms refused by (auto simp: push_gated_def split: sum.splits prod.splits bool.splits)

lemma push_gated_committed:
  assumes "wf s" and "push_gated fiber_of put_journal cleanup publish s0 s = (Inr token, s')"
  shows "assert_can_register (fiber_of s0) = Inr () \<and> assert_can_register (fiber_of s) = Inr () \<and>
         fst (publish s) \<and>
         journal_push cleanup (fb_journal (fiber_of s)) = (token, fb_journal (fiber_of s')) \<and>
         s' = put_journal (fb_journal (fiber_of s')) (snd (publish s))"
proof -
  obtain published s1 where p: "publish s = (published, s1)" by force
  from assms(2) p have "published"
    "assert_can_register (fiber_of s0) = Inr ()" "assert_can_register (fiber_of s) = Inr ()"
    by (auto simp: push_gated_def split: sum.splits bool.splits)
  moreover from this assms(2) p obtain j where j: "journal_push cleanup (fb_journal (fiber_of s1)) = (token, j)"
    and s': "s' = put_journal j s1"
    by (auto simp: push_gated_def split: prod.splits)
  moreover have "fb_journal (fiber_of s1) = fb_journal (fiber_of s)"
    using journal_kept [OF assms(1)] p \<open>published\<close> by simp
  ultimately show ?thesis using p by (simp add: journal_put)
qed

end

text \<open>A store that the Fiber is not part of: the pair of the Fiber and the store.\<close>

definition put_fst :: "journal \<Rightarrow> fiber \<times> 'a \<Rightarrow> fiber \<times> 'a" where
  "put_fst j s = ((fst s)\<lparr>fb_journal := j\<rparr>, snd s)"

definition lift_publish :: "'a publish_step \<Rightarrow> (fiber \<times> 'a) publish_step" where
  "lift_publish p s = (case p (snd s) of (ok, a) \<Rightarrow> (ok, (fst s, a)))"

interpretation no_publish: gated_step fst put_fst no_publish "\<lambda>_. True"
  by unfold_locales (simp_all add: no_publish_def put_fst_def)

section \<open>Plain effects\<close>

datatype effect_registration_error = EffectInactiveContext

definition register_cleanup ::
  "cleanup \<Rightarrow> fiber \<Rightarrow> fiber \<Rightarrow> (effect_registration_error + token) \<times> fiber"
where
  "register_cleanup cleanup f0 f =
     (case push_gated fst put_fst cleanup no_publish (f0, ()) (f, ()) of
        (Inl _, s) \<Rightarrow> (Inl EffectInactiveContext, fst s)
      | (Inr token, s) \<Rightarrow> (Inr token, fst s))"

definition effect :: "ident \<Rightarrow> fiber \<Rightarrow> fiber \<Rightarrow> (effect_registration_error + token) \<times> fiber" where
  "effect callback = register_cleanup \<lparr>run = UserCleanup callback, async_cleanup = True\<rparr>"

definition effect_sync :: "ident \<Rightarrow> fiber \<Rightarrow> fiber \<Rightarrow> (effect_registration_error + token) \<times> fiber" where
  "effect_sync callback = register_cleanup \<lparr>run = UserCleanup callback, async_cleanup = False\<rparr>"

section \<open>Generation-owned tasks\<close>

datatype task_registration_error = TaskInactiveContext | ExecutorUnavailable

datatype run_slot = RunPending | RunRunning ident | RunDone

text \<open>
  \<open>Context::run\<close>: the join cleanup is pushed before the task is spawned; the result is the
  cell the join handle is parked in.
\<close>

definition context_run ::
  "bool \<Rightarrow> ident \<Rightarrow> fiber \<Rightarrow> fiber \<Rightarrow> (task_registration_error + run_slot) \<times> fiber"
where
  "context_run executor task f0 f =
     (case assert_can_register f0 of
        Inl _ \<Rightarrow> (Inl TaskInactiveContext, f)
      | Inr _ \<Rightarrow>
          if \<not> executor then (Inl ExecutorUnavailable, f)
          else (case push_gated fst put_fst (fut_cleanup (JoinTask task)) no_publish (f0, ()) (f, ()) of
                  (Inl _, s) \<Rightarrow> (Inl TaskInactiveContext, fst s)
                | (Inr _, s) \<Rightarrow> (Inr (RunRunning task), fst s)))"

text \<open>One turn of the join cleanup's loop: the handle to await, if it is there.\<close>

definition join_turn :: "run_slot \<Rightarrow> ident option \<times> run_slot" where
  "join_turn slot =
     (case slot of
        RunRunning join \<Rightarrow> (Some join, RunDone)
      | RunPending \<Rightarrow> (None, RunPending)
      | RunDone \<Rightarrow> (None, RunDone))"

section \<open>Lemmas\<close>

lemma register_cleanup_eq:
  "register_cleanup cleanup f0 f =
     (if assert_can_register f0 = Inr () \<and> assert_can_register f = Inr ()
      then (Inr (fst (journal_push cleanup (fb_journal f))),
            f\<lparr>fb_journal := snd (journal_push cleanup (fb_journal f))\<rparr>)
      else (Inl EffectInactiveContext, f))"
  by (auto simp: register_cleanup_def push_gated_def no_publish_def put_fst_def split: sum.splits prod.splits)

section \<open>The properties\<close>

text \<open>
  C26: Registration is all or nothing across the disposal race.  An effect is registered only
  if the generation is open both at the gate and under the journal lock; then exactly one new
  obligation with a fresh token is owned, later than every other.  Otherwise nothing changes.
\<close>

theorem effect_registration_atomic:
  assumes "journal_wf (fb_journal f)" and "jr_sn (fb_journal f) \<noteq> - 1"
  shows "case register_cleanup cleanup f0 f of
      (Inl _, f') \<Rightarrow> f' = f \<and> (assert_can_register f0 = Inl GenerationClosed \<or> assert_can_register f = Inl GenerationClosed)
    | (Inr token, f') \<Rightarrow>
        assert_can_register f0 = Inr () \<and> assert_can_register f = Inr () \<and>
        \<not> owned token (fb_journal f) \<and> f' = f\<lparr>fb_journal := fb_journal f'\<rparr> \<and>
        jr_map (fb_journal f') = jr_map (fb_journal f) @ [(token, cleanup)] \<and> journal_wf (fb_journal f')"
proof (cases "assert_can_register f0 = Inr () \<and> assert_can_register f = Inr ()")
  case True
  obtain token j where p: "journal_push cleanup (fb_journal f) = (token, j)" by force
  from journal_push_fresh [OF assms, of cleanup] journal_push_snoc [OF assms, of cleanup]
    journal_push_wf [OF assms, of cleanup] p
  show ?thesis by (simp add: register_cleanup_eq True) (auto simp: journal_push_def Let_def)
next
  case False
  then show ?thesis
    by (auto simp: register_cleanup_eq) (metis assert_can_register_cases)+
qed

theorem effect_registration_atomic_witness:
  "jr_map (fb_journal (snd (register_cleanup (sync_cleanup (UserCleanup 8)) fiber_root fiber_root))) =
     [(1, sync_cleanup (UserCleanup 8))]"
proof -
  have j: "fb_journal fiber_root = journal_new"
    by (simp add: fiber_root_def set_state_def fiber_new_with_edges_def publication_new_def
        publication_publish_def checked_succ_def)
  have gate: "assert_can_register fiber_root = Inr ()"
    by (simp add: assert_can_register_cases fiber_root_def set_state_def fiber_new_with_edges_def
        publication_new_def publication_publish_def checked_succ_def current_state_def)
  have "fst (register_cleanup (sync_cleanup (UserCleanup 8)) fiber_root fiber_root) = Inr 1"
    by (simp add: register_cleanup_eq gate j journal_push_def journal_new_def)
  then obtain f' where r: "register_cleanup (sync_cleanup (UserCleanup 8)) fiber_root fiber_root = (Inr 1, f')"
    by (metis prod.collapse)
  have "journal_wf (fb_journal fiber_root)" "jr_sn (fb_journal fiber_root) \<noteq> - 1"
    by (simp_all add: j) (simp add: journal_new_def)
  from effect_registration_atomic [OF this, of fiber_root "sync_cleanup (UserCleanup 8)"]
  show ?thesis by (simp add: r j) (simp add: journal_new_def)
qed

text \<open>
  A generation-owned task is joined after everything it registered itself.  Whatever is
  pushed into the journal after \<open>Context::run\<close> committed runs earlier in the drain than the
  join; so in a drain of the whole journal the join comes right after those obligations and
  before every older one.
\<close>

theorem task_joined_after_its_effects:
  assumes "journal_wf (fb_journal f)" and "jr_sn (fb_journal f) \<noteq> - 1"
    and "context_run executor task f0 f = (Inr slot, f')"
    and "later = f'\<lparr>fb_journal := snd (journal_push cleanup (fb_journal f'))\<rparr>"
    and "jr_sn (fb_journal f') \<noteq> - 1" and "\<forall>c j. snd (env c j) = j"
  shows "map (\<lambda>(t, c, _). (t, c)) (fst (drain_disposables env (fb_journal later))) =
           (jr_sn (fb_journal f') + 1, cleanup) # (jr_sn (fb_journal f'), fut_cleanup (JoinTask task)) #
           rev (jr_map (fb_journal f))"
proof -
  have push: "context_run executor task f0 f = (Inr (RunRunning task),
      f\<lparr>fb_journal := snd (journal_push (fut_cleanup (JoinTask task)) (fb_journal f))\<rparr>)"
    using assms(3)
    by (auto simp: context_run_def push_gated_def no_publish_def put_fst_def split: sum.splits prod.splits if_splits)
  then have f': "fb_journal f' = snd (journal_push (fut_cleanup (JoinTask task)) (fb_journal f))"
    using assms(3) by simp
  have wf': "journal_wf (fb_journal f')" unfolding f' by (rule journal_push_wf [OF assms(1,2)])
  have "jr_map (fb_journal later) = jr_map (fb_journal f) @
      [(jr_sn (fb_journal f) + 1, fut_cleanup (JoinTask task)), (jr_sn (fb_journal f') + 1, cleanup)]"
    using journal_push_snoc [OF wf' assms(5), of cleanup] journal_push_snoc [OF assms(1,2), of "fut_cleanup (JoinTask task)"]
    by (simp add: assms(4) f' [symmetric])
  moreover have "jr_sn (fb_journal f') = jr_sn (fb_journal f) + 1"
    by (simp add: f' journal_push_def Let_def)
  moreover have "journal_wf (fb_journal later)"
    unfolding assms(4) using journal_push_wf [OF wf' assms(5)] by simp
  ultimately show ?thesis using drain_all [OF _ assms(6), of "fb_journal later"] by simp
qed

theorem task_joined_after_its_effects_witness:
  "let f' = snd (context_run True 5 fiber_root fiber_root);
       later = f'\<lparr>fb_journal := snd (journal_push (sync_cleanup (UserCleanup 8)) (fb_journal f'))\<rparr>
   in map (\<lambda>(t, c, _). (t, c)) (fst (drain_disposables (\<lambda>_ j. (Finished (Inr ()), j)) (fb_journal later))) =
        [(2, sync_cleanup (UserCleanup 8)), (1, fut_cleanup (JoinTask 5))]"
proof -
  have j: "fb_journal fiber_root = journal_new"
    by (simp add: fiber_root_def set_state_def fiber_new_with_edges_def publication_new_def
        publication_publish_def checked_succ_def)
  have run: "context_run True 5 fiber_root fiber_root =
      (Inr (RunRunning 5), snd (context_run True 5 fiber_root fiber_root))"
    and sn: "jr_sn (fb_journal (snd (context_run True 5 fiber_root fiber_root))) = 1"
    by code_simp+
  from task_joined_after_its_effects [OF _ _ run refl, where env = "\<lambda>_ j. (Finished (Inr ()), j)"] j sn
  show ?thesis by (simp add: Let_def journal_new_def) (simp add: journal_new_def [symmetric])
qed


end
