(* ===== verification/Registry_Model.thy ===== *)
theory Registry_Model
  imports Plugin_Contract
begin

text \<open>
  Registry residency (\<open>crates/cordis-core/src/registry.rs\<close>): plugin groups per key, the flat
  list of residents, the exact residency claim of each Fiber, and typed bulk removal.

  A group is an allocation, so the current group of a key and a detached one with the same
  key are told apart by identity.  The residency cell of a Fiber (\<open>Fiber::residency\<close>) is part
  of this state; its weak references always upgrade while the claim exists, because the group
  and the Registry outlive it.
\<close>

record plugin_group =
  pg_id :: plugin_key
  pg_fibers :: "fid list"

record registry =
  rg_allocations :: "(plugin_key, ident) hashmap"
  rg_groups :: "(ident, plugin_group) hashmap"
  rg_next :: ident
  rg_residents :: "fid list"
  rg_claims :: "(fid, ident) hashmap"

definition registry_new :: registry where
  "registry_new = \<lparr>rg_allocations = [], rg_groups = [], rg_next = 0, rg_residents = [], rg_claims = []\<rparr>"

definition snapshot_fibers :: "registry \<Rightarrow> fid list" where
  "snapshot_fibers r = rg_residents r"

definition group_fibers :: "registry \<Rightarrow> ident \<Rightarrow> fid list" where
  "group_fibers r g = (case map_of (rg_groups r) g of None \<Rightarrow> [] | Some pg \<Rightarrow> pg_fibers pg)"

text \<open>\<open>take_fiber\<close>: remove the first occurrence; the flag is whether the group is then empty.\<close>

definition take_fiber :: "fid \<Rightarrow> plugin_group \<Rightarrow> (fid option \<times> bool) \<times> plugin_group" where
  "take_fiber f pg =
     (let rest = remove1 f (pg_fibers pg)
      in ((if f \<in> set (pg_fibers pg) then Some f else None, rest = []), pg\<lparr>pg_fibers := rest\<rparr>))"

text \<open>The current allocation of a key, created when there is none.\<close>

definition current_or_new :: "plugin_key \<Rightarrow> registry \<Rightarrow> ident \<times> registry" where
  "current_or_new key r =
     (case map_of (rg_allocations r) key of
        Some g \<Rightarrow> (g, r)
      | None \<Rightarrow>
          (rg_next r,
           r\<lparr>rg_allocations := hm_insert key (rg_next r) (rg_allocations r),
             rg_groups := hm_insert (rg_next r) \<lparr>pg_id = key, pg_fibers = []\<rparr> (rg_groups r),
             rg_next := Suc (rg_next r)\<rparr>))"

text \<open>\<open>None\<close> is the assertion that a Fiber has at most one residency occurrence.\<close>

definition attach_fiber :: "plugin_key \<Rightarrow> fid \<Rightarrow> registry \<Rightarrow> registry option" where
  "attach_fiber key f r =
     (case current_or_new key r of
        (g, r1) \<Rightarrow>
          if map_of (rg_claims r1) f \<noteq> None then None
          else (case map_of (rg_groups r1) g of
                  None \<Rightarrow> None
                | Some pg \<Rightarrow>
                    Some (r1\<lparr>rg_claims := hm_insert f g (rg_claims r1),
                             rg_groups := hm_insert g (pg\<lparr>pg_fibers := pg_fibers pg @ [f]\<rparr>) (rg_groups r1),
                             rg_residents := rg_residents r1 @ [f]\<rparr>)))"

text \<open>\<open>refuse\<close> is whether waiting for this Fiber's disposal would be recursive.\<close>

definition detach_for_removal ::
  "(fid \<Rightarrow> bool) \<Rightarrow> plugin_key \<Rightarrow> registry \<Rightarrow> (fid + (ident \<times> fid list) option) \<times> registry"
where
  "detach_for_removal refuse key r =
     (case map_of (rg_allocations r) key of
        None \<Rightarrow> (Inr None, r)
      | Some g \<Rightarrow>
          (case find refuse (group_fibers r g) of
             Some f \<Rightarrow> (Inl f, r)
           | None \<Rightarrow>
               (Inr (Some (g, group_fibers r g)), r\<lparr>rg_allocations := hm_remove key (rg_allocations r)\<rparr>)))"

text \<open>\<open>ResidencyClaim::release\<close> for the claim \<open>g\<close> of \<open>f\<close>.\<close>

definition claim_release :: "fid \<Rightarrow> ident \<Rightarrow> registry \<Rightarrow> registry" where
  "claim_release f g r =
     (case map_of (rg_groups r) g of
        None \<Rightarrow> r
      | Some pg \<Rightarrow>
          (let current = (map_of (rg_allocations r) (pg_id pg) = Some g) in
           case take_fiber f pg of
             ((_, idle), pg') \<Rightarrow>
               r\<lparr>rg_groups := hm_insert g pg' (rg_groups r),
                 rg_allocations :=
                   (if current \<and> idle then hm_remove (pg_id pg) (rg_allocations r) else rg_allocations r),
                 rg_residents := remove1 f (rg_residents r)\<rparr>))"

text \<open>\<open>Fiber::release_residency\<close>: take the claim out of its cell, then release it.\<close>

definition release_residency :: "fid \<Rightarrow> registry \<Rightarrow> registry" where
  "release_residency f r =
     (case map_of (rg_claims r) f of
        None \<Rightarrow> r
      | Some g \<Rightarrow> claim_release f g (r\<lparr>rg_claims := hm_remove f (rg_claims r)\<rparr>))"

text \<open>
  \<open>DetachedGroup::dispose_all\<close> on the Registry: every frozen member is disposed to its own
  exact unlink, in order.  \<open>remove_plugins\<close> composes it with the detach.
\<close>

definition dispose_all :: "fid list \<Rightarrow> registry \<Rightarrow> registry" where
  "dispose_all fs r = fold release_residency fs r"

definition remove_plugins :: "(fid \<Rightarrow> bool) \<Rightarrow> type_id \<Rightarrow> registry \<Rightarrow> (fid + unit) \<times> registry" where
  "remove_plugins refuse P r =
     (case detach_for_removal refuse (TypedKey P) r of
        (Inl f, r1) \<Rightarrow> (Inl f, r1)
      | (Inr None, r1) \<Rightarrow> (Inr (), r1)
      | (Inr (Some (_, frozen)), r1) \<Rightarrow> (Inr (), dispose_all frozen r1))"

section \<open>The residency invariant\<close>

text \<open>
  Every claim of a Fiber is one occurrence in its group and one in the flat list; a current
  allocation is a group of its own key and is not empty.
\<close>

definition registry_wf :: "registry \<Rightarrow> bool" where
  "registry_wf r \<longleftrightarrow>
     distinct (rg_residents r) \<and>
     (\<forall>f. f \<in> set (rg_residents r) \<longleftrightarrow> map_of (rg_claims r) f \<noteq> None) \<and>
     (\<forall>g. distinct (group_fibers r g)) \<and>
     (\<forall>f g. f \<in> set (group_fibers r g) \<longleftrightarrow> map_of (rg_claims r) f = Some g) \<and>
     (\<forall>key g. map_of (rg_allocations r) key = Some g \<longrightarrow>
        (\<exists>pg. map_of (rg_groups r) g = Some pg \<and> pg_id pg = key \<and> pg_fibers pg \<noteq> [])) \<and>
     (\<forall>g. map_of (rg_groups r) g \<noteq> None \<longrightarrow> g < rg_next r)"

lemma registry_wfD:
  assumes "registry_wf r"
  shows "distinct (rg_residents r)"
    and "f \<in> set (rg_residents r) \<longleftrightarrow> map_of (rg_claims r) f \<noteq> None"
    and "distinct (group_fibers r g)"
    and "f \<in> set (group_fibers r g) \<longleftrightarrow> map_of (rg_claims r) f = Some g"
    and "map_of (rg_allocations r) key = Some g \<Longrightarrow>
         \<exists>pg. map_of (rg_groups r) g = Some pg \<and> pg_id pg = key \<and> pg_fibers pg \<noteq> []"
    and "map_of (rg_groups r) g = Some pg \<Longrightarrow> g < rg_next r"
  using assms unfolding registry_wf_def by blast+

lemma registry_new_wf [simp, wf_intros]: "registry_wf registry_new"
  by (simp add: registry_wf_def registry_new_def group_fibers_def)

lemma group_fibers_insert:
  "rg_groups r' = hm_insert g pg (rg_groups r) \<Longrightarrow>
   group_fibers r' h = (if h = g then pg_fibers pg else group_fibers r h)"
  by (simp add: group_fibers_def)

text \<open>What attaching does, in terms of the observable relations.\<close>

lemma attach_fiber_effect:
  assumes wf: "registry_wf r" and a: "attach_fiber key f r = Some r'"
  obtains g where "map_of (rg_allocations r') = (map_of (rg_allocations r))(key \<mapsto> g)"
    and "rg_residents r' = rg_residents r @ [f]" and "f \<notin> set (rg_residents r)"
    and "map_of (rg_claims r') = (map_of (rg_claims r))(f \<mapsto> g)"
    and "\<And>h. group_fibers r' h = group_fibers r h @ (if h = g then [f] else [])"
    and "\<And>h. map_option pg_id (map_of (rg_groups r') h) =
               (if h = g then Some key else map_option pg_id (map_of (rg_groups r) h))"
    and "\<And>h. map_of (rg_groups r') h \<noteq> None \<Longrightarrow> h < rg_next r'"
    and "map_of (rg_allocations r) key = None \<Longrightarrow> g = rg_next r"
    and "map_of (rg_allocations r) key \<noteq> None \<Longrightarrow> map_of (rg_allocations r) key = Some g"
proof (cases "map_of (rg_allocations r) key")
  case (Some g)
  from registry_wfD(5) [OF wf Some] obtain pg where pg: "map_of (rg_groups r) g = Some pg" "pg_id pg = key"
    by blast
  from a Some pg have r': "r' = r\<lparr>rg_claims := hm_insert f g (rg_claims r),
      rg_groups := hm_insert g (pg\<lparr>pg_fibers := pg_fibers pg @ [f]\<rparr>) (rg_groups r),
      rg_residents := rg_residents r @ [f]\<rparr>" and fresh: "map_of (rg_claims r) f = None"
    by (auto simp: attach_fiber_def current_or_new_def split: if_splits)
  show ?thesis
    by (rule that [of g])
      (use Some pg fresh registry_wfD(2,6) [OF wf] in
        \<open>auto simp: r' group_fibers_def fun_upd_idem split: if_splits\<close>)
next
  case None
  from a None have r': "r' = r\<lparr>rg_allocations := hm_insert key (rg_next r) (rg_allocations r),
      rg_next := Suc (rg_next r), rg_claims := hm_insert f (rg_next r) (rg_claims r),
      rg_groups := hm_insert (rg_next r) \<lparr>pg_id = key, pg_fibers = [f]\<rparr>
        (hm_insert (rg_next r) \<lparr>pg_id = key, pg_fibers = []\<rparr> (rg_groups r)),
      rg_residents := rg_residents r @ [f]\<rparr>" and fresh: "map_of (rg_claims r) f = None"
    by (auto simp: attach_fiber_def current_or_new_def split: if_splits)
  have unused: "map_of (rg_groups r) (rg_next r) = None"
    using registry_wfD(6) [OF wf, of "rg_next r"] by (cases "map_of (rg_groups r) (rg_next r)") auto
  show ?thesis
    by (rule that [of "rg_next r"])
      (use None fresh unused registry_wfD(2,6) [OF wf] in
        \<open>auto simp: r' group_fibers_def intro: less_SucI split: if_splits\<close>)
qed

lemma attach_fiber_wf [wf_intros]:
  assumes wf: "registry_wf r" and a: "attach_fiber key f r = Some r'"
  shows "registry_wf r'"
proof (rule attach_fiber_effect [OF assms])
  fix g
  assume eff: "map_of (rg_allocations r') = (map_of (rg_allocations r))(key \<mapsto> g)"
    "rg_residents r' = rg_residents r @ [f]" "f \<notin> set (rg_residents r)"
    "map_of (rg_claims r') = (map_of (rg_claims r))(f \<mapsto> g)"
    "\<And>h. group_fibers r' h = group_fibers r h @ (if h = g then [f] else [])"
    "\<And>h. map_option pg_id (map_of (rg_groups r') h) =
       (if h = g then Some key else map_option pg_id (map_of (rg_groups r) h))"
    "\<And>h. map_of (rg_groups r') h \<noteq> None \<Longrightarrow> h < rg_next r'"
    "map_of (rg_allocations r) key = None \<Longrightarrow> g = rg_next r"
    "map_of (rg_allocations r) key \<noteq> None \<Longrightarrow> map_of (rg_allocations r) key = Some g"
  have other: "h \<noteq> g" if "k \<noteq> key" and "map_of (rg_allocations r) k = Some h" for k h
  proof
    assume "h = g"
    from registry_wfD(5) [OF wf that(2)] obtain pg where pg: "map_of (rg_groups r) h = Some pg" "pg_id pg = k"
      by blast
    show False
    proof (cases "map_of (rg_allocations r) key")
      case None
      with eff(8) registry_wfD(6) [OF wf pg(1)] \<open>h = g\<close> show False by simp
    next
      case (Some g')
      with eff(9) registry_wfD(5) [OF wf] pg \<open>h = g\<close> that(1) show False by fastforce
    qed
  qed
  have absent: "f \<notin> set (group_fibers r h)" for h
    using eff(3) registry_wfD(2,4) [OF wf] by auto
  have current: "\<exists>pg. map_of (rg_groups r') h = Some pg \<and> pg_id pg = k \<and> pg_fibers pg \<noteq> []"
    if alloc: "map_of (rg_allocations r') k = Some h" for k h
  proof -
    have "map_option pg_id (map_of (rg_groups r') h) = Some k \<and> group_fibers r' h \<noteq> []"
    proof (cases "k = key")
      case True
      with alloc eff show ?thesis by simp
    next
      case False
      with alloc eff(1) have "map_of (rg_allocations r) k = Some h" by simp
      from registry_wfD(5) [OF wf this] other [OF False this] eff(5,6) [of h]
      show ?thesis by (auto simp: group_fibers_def)
    qed
    then show ?thesis by (auto simp: group_fibers_def)
  qed
  show ?thesis
    unfolding registry_wf_def eff(2,4)
    using registry_wfD(1-4) [OF wf] eff(3,7) absent current by (auto simp: eff(5))
qed

lemma release_absent: "map_of (rg_claims r) f = None \<Longrightarrow> release_residency f r = r"
  by (simp add: release_residency_def)

lemma release_effect:
  assumes wf: "registry_wf r" and f: "map_of (rg_claims r) f = Some g"
  obtains pg where "map_of (rg_groups r) g = Some pg" and "f \<in> set (pg_fibers pg)"
    and "rg_residents (release_residency f r) = remove1 f (rg_residents r)"
    and "map_of (rg_claims (release_residency f r)) = (map_of (rg_claims r))(f := None)"
    and "\<And>h. group_fibers (release_residency f r) h =
               (if h = g then remove1 f (group_fibers r g) else group_fibers r h)"
    and "\<And>h. map_option pg_id (map_of (rg_groups (release_residency f r)) h) = map_option pg_id (map_of (rg_groups r) h)"
    and "rg_next (release_residency f r) = rg_next r"
    and "map_of (rg_allocations (release_residency f r)) =
           (if map_of (rg_allocations r) (pg_id pg) = Some g \<and> remove1 f (pg_fibers pg) = []
            then (map_of (rg_allocations r))(pg_id pg := None) else map_of (rg_allocations r))"
proof -
  from registry_wfD(4) [OF wf, of f g] f have "f \<in> set (group_fibers r g)" by simp
  then obtain pg where pg: "map_of (rg_groups r) g = Some pg" "f \<in> set (pg_fibers pg)"
    by (cases "map_of (rg_groups r) g") (auto simp: group_fibers_def)
  show ?thesis
    by (rule that [OF pg])
      (use f pg in \<open>auto simp: release_residency_def claim_release_def take_fiber_def group_fibers_def Let_def\<close>)
qed

lemma release_residency_wf [wf_intros]:
  assumes wf: "registry_wf r"
  shows "registry_wf (release_residency f r)"
proof (cases "map_of (rg_claims r) f")
  case None
  with wf show ?thesis by (simp add: release_absent)
next
  case (Some g)
  let ?r = "release_residency f r"
  show ?thesis
  proof (rule release_effect [OF wf Some])
    fix pg
    assume pg: "map_of (rg_groups r) g = Some pg" "f \<in> set (pg_fibers pg)"
      and eff: "rg_residents ?r = remove1 f (rg_residents r)"
        "map_of (rg_claims ?r) = (map_of (rg_claims r))(f := None)"
        "\<And>h. group_fibers ?r h = (if h = g then remove1 f (group_fibers r g) else group_fibers r h)"
        "\<And>h. map_option pg_id (map_of (rg_groups ?r) h) = map_option pg_id (map_of (rg_groups r) h)"
        "rg_next ?r = rg_next r"
        "map_of (rg_allocations ?r) =
           (if map_of (rg_allocations r) (pg_id pg) = Some g \<and> remove1 f (pg_fibers pg) = []
            then (map_of (rg_allocations r))(pg_id pg := None) else map_of (rg_allocations r))"
    have unique: "f \<in> set (group_fibers r h) \<Longrightarrow> h = g" for h
      using registry_wfD(4) [OF wf, of f h] Some by simp
    have current: "\<exists>q. map_of (rg_groups ?r) h = Some q \<and> pg_id q = k \<and> pg_fibers q \<noteq> []"
      if alloc: "map_of (rg_allocations ?r) k = Some h" for k h
    proof -
      from alloc eff(6) have old: "map_of (rg_allocations r) k = Some h" by (auto split: if_splits)
      from registry_wfD(5) [OF wf old] obtain q where q: "map_of (rg_groups r) h = Some q" "pg_id q = k" "pg_fibers q \<noteq> []"
        by blast
      have "group_fibers ?r h \<noteq> []"
      proof (cases "h = g")
        case True
        with q pg(1) have "pg_id pg = k" "q = pg" by simp_all
        with alloc eff(6) old True have "remove1 f (pg_fibers pg) \<noteq> []" by (auto split: if_splits)
        with True pg(1) show ?thesis by (simp add: eff(3)) (simp add: group_fibers_def)
      next
        case False
        with q show ?thesis by (simp add: eff(3)) (simp add: group_fibers_def)
      qed
      with eff(4) [of h] q show ?thesis by (auto simp: group_fibers_def split: option.splits)
    qed
    have bound: "h < rg_next ?r" if "map_of (rg_groups ?r) h \<noteq> None" for h
      using that eff(4) [of h] registry_wfD(6) [OF wf] unfolding eff(5) by (cases "map_of (rg_groups r) h") auto
    show ?thesis
      unfolding registry_wf_def eff(1,2)
      using registry_wfD(1-4) [OF wf] current bound unique
      by (auto simp: eff(3) distinct_remove1)
  qed
qed

lemma dispose_all_wf [wf_intros]: "registry_wf r \<Longrightarrow> registry_wf (dispose_all fs r)"
  unfolding dispose_all_def by (induction fs arbitrary: r) (auto intro: release_residency_wf)

lemma release_claims:
  "registry_wf r \<Longrightarrow> map_of (rg_claims (release_residency f r)) = (map_of (rg_claims r))(f := None)"
  by (cases "map_of (rg_claims r) f")
    (auto simp: release_absent fun_upd_idem elim: release_effect)

lemma dispose_all_claims:
  "registry_wf r \<Longrightarrow>
   map_of (rg_claims (dispose_all fs r)) f = (if f \<in> set fs then None else map_of (rg_claims r) f)"
  unfolding dispose_all_def
  by (induction fs arbitrary: r) (auto simp: release_claims release_residency_wf)

lemma detach_wf [wf_intros]:
  assumes "registry_wf r"
  shows "registry_wf (snd (detach_for_removal refuse key r))"
  using assms
  by (auto simp: detach_for_removal_def registry_wf_def group_fibers_def split: option.splits if_splits)

lemma release_allocation:
  assumes wf: "registry_wf r" and a: "map_of (rg_allocations r) key = Some h"
    and other: "map_of (rg_claims r) f \<noteq> Some h"
  shows "map_of (rg_allocations (release_residency f r)) key = Some h"
proof (cases "map_of (rg_claims r) f")
  case None
  with a show ?thesis by (simp add: release_absent)
next
  case (Some g)
  show ?thesis
    by (rule release_effect [OF wf Some]) (use Some a other in auto)
qed

lemma release_no_mapping:
  "registry_wf r \<Longrightarrow> map_of (rg_allocations r) key = None \<Longrightarrow>
   map_of (rg_allocations (release_residency f r)) key = None"
  by (cases "map_of (rg_claims r) f") (auto simp: release_absent elim!: release_effect)

lemma dispose_all_no_mapping:
  "registry_wf r \<Longrightarrow> map_of (rg_allocations r) key = None \<Longrightarrow>
   map_of (rg_allocations (dispose_all fs r)) key = None"
  unfolding dispose_all_def
  by (induction fs arbitrary: r) (auto simp: release_no_mapping release_residency_wf)

section \<open>The properties\<close>

text \<open>
  Attaching a Fiber gives it one residency occurrence: it joins the flat list and the
  current group of its key, or a fresh group when there is none; every other Fiber's group,
  every other key and the order of the residents stay; and the invariant is kept.
\<close>

theorem attach_gives_one_residency:
  assumes "registry_wf r" and "attach_fiber key f r = Some r'"
  shows "registry_wf r' \<and> f \<notin> set (snapshot_fibers r) \<and> snapshot_fibers r' = snapshot_fibers r @ [f] \<and>
         (\<exists>g. map_of (rg_allocations r') = (map_of (rg_allocations r))(key \<mapsto> g) \<and>
            (\<forall>h. group_fibers r' h = group_fibers r h @ (if h = g then [f] else [])))"
  using attach_fiber_wf [OF assms]
  by (rule_tac attach_fiber_effect [OF assms]) (auto simp: snapshot_fibers_def)

theorem attach_gives_one_residency_witness:
  "(case attach_fiber (TypedKey 3) 9 registry_new of
      None \<Rightarrow> False
    | Some r \<Rightarrow> snapshot_fibers r = [9])"
proof -
  obtain r where r: "attach_fiber (TypedKey 3) 9 registry_new = Some r"
    by (simp add: attach_fiber_def current_or_new_def registry_new_def)
  from attach_gives_one_residency [OF registry_new_wf r]
  have "snapshot_fibers r = [9]" by (simp add: snapshot_fibers_def registry_new_def)
  with r show ?thesis by simp
qed

text \<open>
  Releasing a residency is exact.  It removes the Fiber from its own group and from the
  residents and nothing else; the mapping of a key disappears only when the released group is
  still the current one and is now empty, so a same-key group that replaced a detached one
  survives; a second release of the same Fiber does nothing.
\<close>

theorem release_is_exact:
  assumes "registry_wf r"
  shows "registry_wf (release_residency f r) \<and>
         snapshot_fibers (release_residency f r) = removeAll f (snapshot_fibers r) \<and>
         (\<forall>h. group_fibers (release_residency f r) h = removeAll f (group_fibers r h)) \<and>
         (\<forall>key h. map_of (rg_allocations r) key = Some h \<longrightarrow>
            map_of (rg_allocations (release_residency f r)) key =
              (if group_fibers r h = [f] then None else Some h)) \<and>
         release_residency f (release_residency f r) = release_residency f r"
proof (cases "map_of (rg_claims r) f")
  case None
  then have "f \<notin> set (rg_residents r)" "\<And>h. f \<notin> set (group_fibers r h)"
    using registry_wfD(2,4) [OF assms] by auto
  then have "removeAll f (rg_residents r) = rg_residents r"
    and "removeAll f (group_fibers r h) = group_fibers r h" and "group_fibers r h \<noteq> [f]" for h
    by (auto simp: removeAll_id) (metis list.set_intros(1))
  with assms show ?thesis by (simp add: release_absent [OF None] snapshot_fibers_def)
next
  case (Some g)
  let ?r = "release_residency f r"
  have mine: "f \<in> set (group_fibers r h) \<longleftrightarrow> h = g" for h
    using registry_wfD(4) [OF assms, of f h] Some by auto
  show ?thesis
  proof (rule release_effect [OF assms Some])
    fix pg
    assume pg: "map_of (rg_groups r) g = Some pg" "f \<in> set (pg_fibers pg)"
      and eff: "rg_residents ?r = remove1 f (rg_residents r)"
        "\<And>h. group_fibers ?r h = (if h = g then remove1 f (group_fibers r g) else group_fibers r h)"
        "map_of (rg_allocations ?r) =
           (if map_of (rg_allocations r) (pg_id pg) = Some g \<and> remove1 f (pg_fibers pg) = []
            then (map_of (rg_allocations r))(pg_id pg := None) else map_of (rg_allocations r))"
      and claims: "map_of (rg_claims ?r) = (map_of (rg_claims r))(f := None)"
    have fibers: "group_fibers r g = pg_fibers pg" using pg by (simp add: group_fibers_def)
    have single: "remove1 f (pg_fibers pg) = [] \<longleftrightarrow> group_fibers r g = [f]"
      using pg(2) unfolding fibers by (cases "pg_fibers pg") auto
    have groups: "group_fibers ?r h = removeAll f (group_fibers r h)" for h
      using mine [of h] registry_wfD(3) [OF assms]
      by (simp add: eff(2) distinct_remove1_removeAll removeAll_id)
    have alloc: "map_of (rg_allocations ?r) key = (if group_fibers r h = [f] then None else Some h)"
      if "map_of (rg_allocations r) key = Some h" for key h
    proof (cases "group_fibers r h = [f]")
      case True
      with mine [of h] have "h = g" by simp
      with registry_wfD(5) [OF assms that] pg(1) that True single show ?thesis by (auto simp: eff(3))
    next
      case False
      with that single show ?thesis by (auto simp: eff(3))
    qed
    have "release_residency f ?r = ?r" by (rule release_absent) (simp add: claims)
    with groups alloc release_residency_wf [OF assms] show ?thesis
      by (simp add: snapshot_fibers_def eff(1) distinct_remove1_removeAll registry_wfD(1) [OF assms])
  qed
qed

definition demo_registry :: registry where
  "demo_registry =
     (case attach_fiber (TypedKey 3) 1 registry_new of
        None \<Rightarrow> registry_new
      | Some r \<Rightarrow>
          (case attach_fiber (TypedKey 3) 2 r of
             None \<Rightarrow> registry_new
           | Some r \<Rightarrow> (case attach_fiber (TypedKey 5) 4 r of None \<Rightarrow> registry_new | Some r \<Rightarrow> r)))"

lemma demo_registry_wf: "registry_wf demo_registry"
proof -
  have step: "registry_wf (case attach_fiber key f r of None \<Rightarrow> registry_new | Some r' \<Rightarrow> g r')"
    if "\<And>r'. attach_fiber key f r = Some r' \<Longrightarrow> registry_wf (g r')" for key f r g
    using that by (simp split: option.split)
  show ?thesis
    unfolding demo_registry_def
    by (intro step) (blast intro: attach_fiber_wf registry_new_wf)
qed

theorem release_is_exact_witness:
  "snapshot_fibers (release_residency 1 demo_registry) = [2, 4]"
proof -
  have "snapshot_fibers demo_registry = [1, 2, 4]" by code_simp
  with release_is_exact [OF demo_registry_wf, of 1] show ?thesis by simp
qed

text \<open>
  Typed bulk removal is all or nothing.  When waiting for some member would be recursive
  it is refused and the Registry is unchanged.  Otherwise the current group of the key is
  detached with exactly its members, all of them are gone from the residents afterwards, no
  Fiber of another group is touched, and the key has no current group.
\<close>

theorem remove_plugins_outcome:
  assumes "registry_wf r"
  shows "case remove_plugins refuse P r of
      (Inl f, r') \<Rightarrow> r' = r \<and> refuse f \<and> f \<in> set (snapshot_fibers r)
    | (Inr _, r') \<Rightarrow>
        registry_wf r' \<and> map_of (rg_allocations r') (TypedKey P) = None \<and>
        set (snapshot_fibers r') =
          set (snapshot_fibers r) -
            (case map_of (rg_allocations r) (TypedKey P) of None \<Rightarrow> {} | Some g \<Rightarrow> set (group_fibers r g))"
proof (cases "map_of (rg_allocations r) (TypedKey P)")
  case None
  with assms show ?thesis by (simp add: remove_plugins_def detach_for_removal_def)
next
  case (Some g)
  show ?thesis
  proof (cases "find refuse (group_fibers r g)")
    case (Some f)
    then have "refuse f" "f \<in> set (group_fibers r g)" by (auto simp: find_Some_iff)
    with registry_wfD(2,4) [OF assms] Some \<open>map_of (rg_allocations r) (TypedKey P) = Some g\<close> show ?thesis
      by (simp add: remove_plugins_def detach_for_removal_def snapshot_fibers_def)
  next
    case None
    let ?r1 = "r\<lparr>rg_allocations := hm_remove (TypedKey P) (rg_allocations r)\<rparr>"
    let ?r' = "dispose_all (group_fibers r g) ?r1"
    have eq: "remove_plugins refuse P r = (Inr (), ?r')"
      using None Some by (simp add: remove_plugins_def detach_for_removal_def)
    have wf1: "registry_wf ?r1"
      using detach_wf [OF assms, of refuse "TypedKey P"] None Some by (simp add: detach_for_removal_def)
    have wf: "registry_wf ?r'" by (rule dispose_all_wf [OF wf1])
    have "f \<in> set (rg_residents ?r') \<longleftrightarrow> f \<in> set (rg_residents r) - set (group_fibers r g)" for f
      using registry_wfD(2) [OF wf, of f] registry_wfD(2) [OF assms, of f]
      by (simp add: dispose_all_claims [OF wf1])
    moreover have "map_of (rg_allocations ?r') (TypedKey P) = None"
      by (rule dispose_all_no_mapping [OF wf1]) simp
    ultimately show ?thesis using wf Some by (auto simp: eq snapshot_fibers_def)
  qed
qed

theorem remove_plugins_outcome_witness:
  "set (snapshot_fibers (snd (remove_plugins (\<lambda>_. False) 3 demo_registry))) = {4}"
proof -
  have "snapshot_fibers demo_registry = [1, 2, 4]"
    and "map_of (rg_allocations demo_registry) (TypedKey 3) = Some 0" and "group_fibers demo_registry 0 = [1, 2]"
    and "fst (remove_plugins (\<lambda>_. False) 3 demo_registry) = Inr ()"
    by code_simp+
  with remove_plugins_outcome [OF demo_registry_wf, of "\<lambda>_. False" 3] show ?thesis
    by (auto split: prod.splits sum.splits)
qed

end
