(* ===== verification/Dependency_Index.thy ===== *)
theory Dependency_Index
  imports Inertia_Slot
begin

text \<open>
  The reverse dependency index (\<open>crates/cordis-core/src/deps.rs\<close>) and the discovery of
  affected Fibers that uses it or falls back to scanning the residents
  (\<open>Root::dependents_for_edges_with_retention\<close> in \<open>context.rs\<close>).

  The facts the index reads from a Fiber are arguments: \<open>alive\<close> (its death mark), \<open>edges\<close>
  (its immutable dependency edges) and \<open>upgrade\<close> (its weak handle still upgrades).
\<close>

record dependency_index =
  di_reverse :: "(dependency_edge, fid list) hashmap"
  di_complete :: bool

definition dependency_index_new :: dependency_index where
  "dependency_index_new = \<lparr>di_reverse = [], di_complete = True\<rparr>"

definition rows :: "dependency_edge \<Rightarrow> (dependency_edge, fid list) hashmap \<Rightarrow> fid list" where
  "rows e m = (case map_of m e of None \<Rightarrow> [] | Some l \<Rightarrow> l)"

definition push_row :: "fid \<Rightarrow> dependency_edge \<Rightarrow> (dependency_edge, fid list) hashmap \<Rightarrow> (dependency_edge, fid list) hashmap" where
  "push_row f e m = hm_insert e (rows e m @ [f]) m"

definition deps_register ::
  "(fid \<Rightarrow> bool) \<Rightarrow> (fid \<Rightarrow> dependency_edge list) \<Rightarrow> fid \<Rightarrow> dependency_index \<Rightarrow> dependency_index"
where
  "deps_register alive edges f ix =
     (if \<not> di_complete ix then ix
      else if \<not> alive f then ix
      else ix\<lparr>di_reverse := fold (push_row f) (edges f) (di_reverse ix)\<rparr>)"

definition retain_row :: "fid \<Rightarrow> dependency_edge \<Rightarrow> (dependency_edge, fid list) hashmap \<Rightarrow> (dependency_edge, fid list) hashmap" where
  "retain_row f e m =
     (case map_of m e of
        None \<Rightarrow> m
      | Some l \<Rightarrow>
          (let kept = filter (\<lambda>d. d \<noteq> f) l
           in if kept = [] then hm_remove e m else hm_insert e kept m))"

definition deps_unregister ::
  "(fid \<Rightarrow> dependency_edge list) \<Rightarrow> fid \<Rightarrow> dependency_index \<Rightarrow> dependency_index"
where
  "deps_unregister edges f ix = ix\<lparr>di_reverse := fold (retain_row f) (edges f) (di_reverse ix)\<rparr>"

text \<open>One requested edge: collect the upgradeable rows, prune the dead ones.\<close>

fun collect_rows ::
  "(fid \<Rightarrow> bool) \<Rightarrow> dependency_edge list \<Rightarrow> (dependency_edge, fid list) hashmap \<Rightarrow>
   fid list \<times> dependency_edge list \<times> (dependency_edge, fid list) hashmap"
where
  "collect_rows upgrade [] m = ([], [], m)"
| "collect_rows upgrade (e # es) m =
     (case map_of m e of
        None \<Rightarrow> collect_rows upgrade es m
      | Some l \<Rightarrow>
          (let retained = filter upgrade l in
           case collect_rows upgrade es (hm_insert e retained m) of
             (upgraded, emptied, m') \<Rightarrow>
               (retained @ upgraded, (if retained = [] then e # emptied else emptied), m')))"

fun unique_from :: "fid list \<Rightarrow> fid list \<Rightarrow> fid list" where
  "unique_from seen [] = []"
| "unique_from seen (f # fs) = (if f \<in> set seen then unique_from seen fs else f # unique_from (f # seen) fs)"

definition dependents_of ::
  "(fid \<Rightarrow> bool) \<Rightarrow> dependency_edge list \<Rightarrow> dependency_index \<Rightarrow> fid list option \<times> dependency_index"
where
  "dependents_of upgrade es ix =
     (if \<not> di_complete ix then (None, ix)
      else (case collect_rows upgrade es (di_reverse ix) of
              (upgraded, emptied, m) \<Rightarrow>
                (Some (unique_from [] upgraded), ix\<lparr>di_reverse := fold hm_remove emptied m\<rparr>)))"

text \<open>The affected Fibers, and the snapshot the scan retained.\<close>

definition dependents_for_edges_with_retention ::
  "(fid \<Rightarrow> bool) \<Rightarrow> (fid \<Rightarrow> dependency_edge list) \<Rightarrow> (fid \<Rightarrow> bool) \<Rightarrow> fid list \<Rightarrow> dependency_edge list \<Rightarrow>
   dependency_index \<Rightarrow> (fid list \<times> fid list) \<times> dependency_index"
where
  "dependents_for_edges_with_retention alive edges upgrade residents es ix =
     (case dependents_of upgrade es ix of
        (Some indexed, ix') \<Rightarrow> ((indexed, []), ix')
      | (None, ix') \<Rightarrow>
          ((filter (\<lambda>f. alive f \<and> list_ex (\<lambda>e. e \<in> set es) (edges f)) residents, residents), ix'))"

section \<open>The index is exact\<close>

text \<open>
  \<open>registered\<close> is the set of Fibers that were registered and not yet unregistered.  The
  index holds exactly their edges, as far as the handles still upgrade.
\<close>

definition index_exact ::
  "(fid \<Rightarrow> dependency_edge list) \<Rightarrow> (fid \<Rightarrow> bool) \<Rightarrow> fid set \<Rightarrow> dependency_index \<Rightarrow> bool"
where
  "index_exact edges upgrade registered ix \<longleftrightarrow>
     di_complete ix \<and> hm_wf (di_reverse ix) \<and>
     (\<forall>e f. upgrade f \<longrightarrow> (f \<in> set (rows e (di_reverse ix)) \<longleftrightarrow> f \<in> registered \<and> e \<in> set (edges f)))"

lemma rows_push: "rows e' (push_row f e m) = (if e' = e then rows e m @ [f] else rows e' m)"
  by (simp add: rows_def push_row_def)

lemma rows_retain: "rows e' (retain_row f e m) = (if e' = e then filter (\<lambda>d. d \<noteq> f) (rows e m) else rows e' m)"
  by (auto simp: rows_def retain_row_def Let_def split: option.splits)

lemma rows_fold_push: "set (rows e (fold (push_row f) es m)) = set (rows e m) \<union> (if e \<in> set es then {f} else {})"
  by (induction es arbitrary: m) (auto simp: rows_push)

lemma rows_fold_retain:
  "set (rows e (fold (retain_row f) es m)) = set (rows e m) - (if e \<in> set es then {f} else {})"
  by (induction es arbitrary: m) (auto simp: rows_retain)

lemma wf_push [simp]: "hm_wf m \<Longrightarrow> hm_wf (push_row f e m)"
  by (simp add: push_row_def)

lemma wf_retain [simp]: "hm_wf m \<Longrightarrow> hm_wf (retain_row f e m)"
  by (simp add: retain_row_def Let_def split: option.splits)

lemma wf_fold:
  "(\<And>x m. hm_wf m \<Longrightarrow> hm_wf (g x m)) \<Longrightarrow> hm_wf m \<Longrightarrow> hm_wf (fold g xs m)"
  by (induction xs arbitrary: m) simp_all

lemma set_unique_from: "set (unique_from seen fs) = set fs - set seen"
  by (induction fs arbitrary: seen) auto

lemma distinct_unique_from: "distinct (unique_from seen fs)"
  by (induction fs arbitrary: seen) (auto simp: set_unique_from)

lemma rows_fold_remove: "rows e (fold hm_remove es m) = (if e \<in> set es then [] else rows e m)"
  by (induction es arbitrary: m) (auto simp: rows_def)

lemma collect_rows_spec:
  "hm_wf m \<Longrightarrow> collect_rows upgrade es m = (upgraded, emptied, m') \<Longrightarrow>
   set upgraded = {f. upgrade f \<and> (\<exists>e \<in> set es. f \<in> set (rows e m))} \<and> hm_wf m' \<and>
   (\<forall>e. set (rows e m') \<inter> Collect upgrade = set (rows e m) \<inter> Collect upgrade) \<and>
   (\<forall>e \<in> set emptied. set (rows e m) \<inter> Collect upgrade = {})"
proof (induction es arbitrary: m upgraded emptied)
  case Nil
  then show ?case by auto
next
  case (Cons e es)
  show ?case
  proof (cases "map_of m e")
    case None
    with Cons.prems have "collect_rows upgrade es m = (upgraded, emptied, m')" by simp
    from Cons.IH [OF Cons.prems(1) this] None show ?thesis by (auto simp: rows_def)
  next
    case (Some l)
    let ?m = "hm_insert e (filter upgrade l) m"
    obtain up em where c: "collect_rows upgrade es ?m = (up, em, m')"
      and up: "upgraded = filter upgrade l @ up"
      and em: "emptied = (if filter upgrade l = [] then e # em else em)"
      using Cons.prems(2) Some by (auto simp: Let_def split: prod.splits)
    have rows: "set (rows e' ?m) \<inter> Collect upgrade = set (rows e' m) \<inter> Collect upgrade" for e'
      using Some by (auto simp: rows_def)
    have "hm_wf ?m" using Cons.prems(1) by simp
    from Cons.IH [OF this c] have IH:
      "set up = {f. upgrade f \<and> (\<exists>e \<in> set es. f \<in> set (rows e ?m))}" "hm_wf m'"
      "\<forall>e'. set (rows e' m') \<inter> Collect upgrade = set (rows e' m) \<inter> Collect upgrade"
      "\<forall>e' \<in> set em. set (rows e' m) \<inter> Collect upgrade = {}"
      by (simp_all add: rows)
    have mem: "f \<in> set (rows e' ?m) \<longleftrightarrow> f \<in> set (rows e' m)" if "upgrade f" for e' f
      using rows [of e'] that by blast
    have l: "set l = set (rows e m)" using Some by (simp add: rows_def)
    have "set upgraded = {f. upgrade f \<and> (\<exists>e' \<in> set (e # es). f \<in> set (rows e' m))}"
      unfolding up set_append IH(1) by (auto simp: mem l)
    moreover have "\<forall>e' \<in> set emptied. set (rows e' m) \<inter> Collect upgrade = {}"
      using IH(4) Some unfolding em by (auto simp: rows_def filter_empty_conv split: if_splits)
    ultimately show ?thesis using IH by blast
  qed
qed

lemma index_exact_new [simp, wf_intros]: "index_exact edges upgrade {} dependency_index_new"
  by (simp add: index_exact_def dependency_index_new_def rows_def)

lemma index_exact_register [wf_intros]:
  "index_exact edges upgrade R ix \<Longrightarrow>
   index_exact edges upgrade (if alive f then insert f R else R) (deps_register alive edges f ix)"
  by (auto simp: index_exact_def deps_register_def rows_fold_push wf_fold)

lemma index_exact_unregister [wf_intros]:
  "index_exact edges upgrade R ix \<Longrightarrow> index_exact edges upgrade (R - {f}) (deps_unregister edges f ix)"
  by (auto simp: index_exact_def deps_unregister_def rows_fold_retain wf_fold)

lemma dependents_of_exact:
  assumes "index_exact edges upgrade R ix" and "dependents_of upgrade es ix = (answer, ix')"
  shows "(\<exists>fs. answer = Some fs \<and> distinct fs \<and>
           set fs = {f \<in> R. upgrade f \<and> (\<exists>e \<in> set es. e \<in> set (edges f))}) \<and>
         index_exact edges upgrade R ix'"
proof -
  obtain up em m where c: "collect_rows upgrade es (di_reverse ix) = (up, em, m)"
    by (metis prod_cases3)
  have wf: "hm_wf (di_reverse ix)" using assms(1) by (simp add: index_exact_def)
  note spec = collect_rows_spec [OF wf c]
  have answer: "answer = Some (unique_from [] up)" "ix' = ix\<lparr>di_reverse := fold hm_remove em m\<rparr>"
    using assms c by (simp_all add: dependents_of_def index_exact_def)
  have "set (unique_from [] up) = {f \<in> R. upgrade f \<and> (\<exists>e \<in> set es. e \<in> set (edges f))}"
  proof -
    have "upgrade f \<Longrightarrow> f \<in> set (rows e (di_reverse ix)) \<longleftrightarrow> f \<in> R \<and> e \<in> set (edges f)" for e f
      using assms(1) unfolding index_exact_def by blast
    with spec show ?thesis by (simp add: set_unique_from) blast
  qed
  moreover have "set (rows e (fold hm_remove em m)) \<inter> Collect upgrade = set (rows e (di_reverse ix)) \<inter> Collect upgrade" for e
  proof -
    have "set (rows e m) \<inter> Collect upgrade = set (rows e (di_reverse ix)) \<inter> Collect upgrade"
      and "e \<in> set em \<Longrightarrow> set (rows e (di_reverse ix)) \<inter> Collect upgrade = {}"
      using spec by blast+
    then show ?thesis by (simp add: rows_fold_remove)
  qed
  then have "upgrade f \<Longrightarrow> f \<in> set (rows e (fold hm_remove em m)) \<longleftrightarrow> f \<in> set (rows e (di_reverse ix))" for e f
    by blast
  with assms(1) spec have "index_exact edges upgrade R ix'"
    unfolding answer(2) index_exact_def by (simp add: wf_fold)
  ultimately show ?thesis using answer(1) distinct_unique_from by blast
qed

section \<open>The properties\<close>

text \<open>
  C30: The reverse index is only an acceleration.  When it is exact for the resident live
  Fibers, asking it gives the same Fibers as scanning the residents, each once, whatever
  duplicates the declarations and the request contain; and the question leaves it exact.
\<close>

theorem index_agrees_with_scan:
  assumes "index_exact edges upgrade {f \<in> set residents. alive f} ix"
    and "\<forall>f \<in> set residents. upgrade f"
    and "dependents_for_edges_with_retention alive edges upgrade residents es ix = ((indexed, kept), ix')"
    and "dependents_for_edges_with_retention alive edges upgrade residents es (ix\<lparr>di_complete := False\<rparr>) =
           ((scanned, kept'), ix'')"
  shows "set indexed = set scanned \<and> distinct indexed \<and>
         index_exact edges upgrade {f \<in> set residents. alive f} ix'"
proof -
  obtain fs where d: "dependents_of upgrade es ix = (Some fs, ix')" and fs: "indexed = fs"
    using assms(1,3) dependents_of_exact [OF assms(1)]
    by (fastforce simp: dependents_for_edges_with_retention_def split: prod.splits option.splits)
  from dependents_of_exact [OF assms(1) d] have "distinct fs"
    "set fs = {f \<in> {f \<in> set residents. alive f}. upgrade f \<and> (\<exists>e \<in> set es. e \<in> set (edges f))}"
    "index_exact edges upgrade {f \<in> set residents. alive f} ix'" by auto
  moreover have "set scanned = {f \<in> set residents. alive f \<and> (\<exists>e \<in> set (edges f). e \<in> set es)}"
    using assms(4) by (auto simp: dependents_for_edges_with_retention_def dependents_of_def list_ex_iff)
  ultimately show ?thesis using fs assms(2) by auto
qed

definition demo_index :: dependency_index where
  "demo_index = deps_register (\<lambda>_. True) (\<lambda>_. [(''db'', 0), (''db'', 0)]) 4 dependency_index_new"

definition demo_dependents :: "dependency_index \<Rightarrow> (fid list \<times> fid list) \<times> dependency_index" where
  "demo_dependents =
     dependents_for_edges_with_retention (\<lambda>_. True) (\<lambda>_. [(''db'', 0), (''db'', 0)]) (\<lambda>_. True) [4] [(''db'', 0)]"

theorem index_agrees_with_scan_witness:
  "fst (demo_dependents demo_index) = ([4], []) \<and> distinct (fst (fst (demo_dependents demo_index)))"
proof
  show "fst (demo_dependents demo_index) = ([4], [])" by code_simp
  have exact: "index_exact (\<lambda>_. [(''db'', 0), (''db'', 0)]) (\<lambda>_. True) {f \<in> set [4]. True} demo_index"
    using index_exact_register [OF index_exact_new, of "\<lambda>_. [(''db'', 0), (''db'', 0)]" "\<lambda>_. True" "\<lambda>_. True" 4]
    by (simp add: demo_index_def)
  have split: "demo_dependents ix = ((fst (fst (demo_dependents ix)), snd (fst (demo_dependents ix))), snd (demo_dependents ix))" for ix
    by simp
  from index_agrees_with_scan [OF exact _ split [unfolded demo_dependents_def] split [unfolded demo_dependents_def]]
  show "distinct (fst (fst (demo_dependents demo_index)))" by (simp add: demo_dependents_def)
qed

end
