(* ===== verification/Service_Store.thy ===== *)
theory Service_Store
  imports Gated Registry_Model Dependency_Index
begin

text \<open>
  The Service store (\<open>crates/cordis-core/src/service.rs\<close>): contract binding per name, one
  current occurrence per (realm, name) slot, visibility derived from the provider's state,
  exact control through the publication capability, and the recheck obligations every
  visibility change commits on the affected Fibers before it becomes visible.

  \<open>runtime\<close> is the state shared by the Runtime's components: the Fiber heap, the Registry,
  the dependency index and the Service store, with two logs, the Runtime observations
  published and the Fibers kicked, in order.
\<close>

record service_slot =
  ss_occurrence :: ident
  ss_value :: ident
  ss_contract :: type_id
  ss_fiber :: fid

record service_state =
  sv_contracts :: "(string, type_id) hashmap"
  sv_slots :: "(realm_key \<times> string, service_slot) hashmap"

datatype runtime_observation =
    ServiceVisibility string realm_key "ident option" "ident option"
  | FiberStateChanged fid fiber_state fiber_state
  | FiberResidencyRemoved fid
  | FiberResidencyAdded fid

record runtime =
  rn_heap :: fiber_heap
  rn_next :: ident
  rn_registry :: registry
  rn_deps :: dependency_index
  rn_services :: service_state
  rn_observed :: "runtime_observation list"
  rn_kicked :: "fid list"

definition fiber_at :: "runtime \<Rightarrow> fid \<Rightarrow> fiber" where
  "fiber_at rn f = the (rn_heap rn f)"

definition upgrades :: "runtime \<Rightarrow> fid \<Rightarrow> bool" where
  "upgrades rn f \<longleftrightarrow> rn_heap rn f \<noteq> None"

definition alive_at :: "runtime \<Rightarrow> fid \<Rightarrow> bool" where
  "alive_at rn f = (case rn_heap rn f of None \<Rightarrow> False | Some x \<Rightarrow> is_alive x)"

definition edges_at :: "runtime \<Rightarrow> fid \<Rightarrow> dependency_edge list" where
  "edges_at rn f = (case rn_heap rn f of None \<Rightarrow> [] | Some x \<Rightarrow> fb_edges x)"

definition update_fiber :: "fid \<Rightarrow> (fiber \<Rightarrow> fiber) \<Rightarrow> runtime \<Rightarrow> runtime" where
  "update_fiber f g rn = rn\<lparr>rn_heap := (rn_heap rn)(f := map_option g (rn_heap rn f))\<rparr>"

section \<open>Committed drift\<close>

definition affected_by :: "dependency_edge list \<Rightarrow> runtime \<Rightarrow> fid list" where
  "affected_by es rn =
     fst (fst (dependents_for_edges_with_retention (alive_at rn) (edges_at rn) (upgrades rn)
       (snapshot_fibers (rn_registry rn)) es (rn_deps rn)))"

definition commit_slot_recheck :: "fiber \<Rightarrow> fiber" where
  "commit_slot_recheck f = f\<lparr>fb_slot := commit_recheck (fb_slot f)\<rparr>"

definition drift_commit :: "dependency_edge list \<Rightarrow> runtime \<Rightarrow> fid list \<times> runtime" where
  "drift_commit es rn =
     (case dependents_for_edges_with_retention (alive_at rn) (edges_at rn) (upgrades rn)
             (snapshot_fibers (rn_registry rn)) es (rn_deps rn) of
        ((affected, _), deps) \<Rightarrow>
          (affected, fold (\<lambda>f. update_fiber f commit_slot_recheck) affected (rn\<lparr>rn_deps := deps\<rparr>)))"

definition drift_kick :: "fid list \<Rightarrow> runtime \<Rightarrow> runtime" where
  "drift_kick affected rn = rn\<lparr>rn_kicked := rn_kicked rn @ affected\<rparr>"

definition observe :: "runtime_observation \<Rightarrow> runtime \<Rightarrow> runtime" where
  "observe obs rn = rn\<lparr>rn_observed := rn_observed rn @ [obs]\<rparr>"

section \<open>The store\<close>

definition slot_visible :: "runtime \<Rightarrow> service_slot \<Rightarrow> bool" where
  "slot_visible rn slot =
     (case rn_heap rn (ss_fiber slot) of
        None \<Rightarrow> False
      | Some f \<Rightarrow> is_alive f \<and> current_state f = Active)"

definition slot_at :: "runtime \<Rightarrow> realm_key \<Rightarrow> string \<Rightarrow> service_slot option" where
  "slot_at rn key name = map_of (sv_slots (rn_services rn)) (key, name)"

datatype install_refusal = RefusedDuplicate | RefusedContractMismatch

definition install ::
  "fid \<Rightarrow> service_slot \<Rightarrow> realm_key \<Rightarrow> string \<Rightarrow> runtime \<Rightarrow>
   (install_refusal + service_slot option \<times> fid list option) \<times> runtime"
where
  "install owner slot key name rn =
     (let sv = rn_services rn;
          install_slot = (\<lambda>rn1.
            if (case map_of (sv_slots (rn_services rn1)) (key, name) of
                  None \<Rightarrow> False | Some existing \<Rightarrow> alive_at rn1 (ss_fiber existing))
            then (Inl RefusedDuplicate, rn1)
            else (let (drift, rn2) =
                        (if current_state (fiber_at rn1 owner) = Active
                         then (case drift_commit [(name, key)] rn1 of (fs, rn') \<Rightarrow> (Some fs, rn'))
                         else (None, rn1));
                      evicted = map_of (sv_slots (rn_services rn2)) (key, name)
                  in (Inr (evicted, drift),
                      rn2\<lparr>rn_services := (rn_services rn2)\<lparr>sv_slots :=
                        hm_insert (key, name) slot (hm_remove (key, name) (sv_slots (rn_services rn2)))\<rparr>\<rparr>)))
      in case map_of (sv_contracts sv) name of
           Some contract \<Rightarrow>
             if contract \<noteq> ss_contract slot then (Inl RefusedContractMismatch, rn)
             else install_slot rn
         | None \<Rightarrow>
             install_slot (rn\<lparr>rn_services := sv\<lparr>sv_contracts := hm_insert name (ss_contract slot) (sv_contracts sv)\<rparr>\<rparr>))"

definition occurrence_id :: "runtime \<Rightarrow> realm_key \<Rightarrow> string \<Rightarrow> ident option" where
  "occurrence_id rn key name =
     (case slot_at rn key name of
        None \<Rightarrow> None
      | Some slot \<Rightarrow> if slot_visible rn slot then Some (ss_occurrence slot) else None)"

datatype service_lookup_error = LookupUnavailable string | LookupContractMismatch string

text \<open>The final downcast cannot fail: a slot of a bound name carries the bound contract.\<close>

definition visible_value :: "string \<Rightarrow> type_id \<Rightarrow> realm_key \<Rightarrow> runtime \<Rightarrow> service_lookup_error + ident" where
  "visible_value name S key rn =
     (if (case map_of (sv_contracts (rn_services rn)) name of Some contract \<Rightarrow> contract \<noteq> S | None \<Rightarrow> False)
      then Inl (LookupContractMismatch name)
      else (case slot_at rn key name of
              None \<Rightarrow> Inl (LookupUnavailable name)
            | Some slot \<Rightarrow>
                if slot_visible rn slot
                then (if ss_contract slot = S then Inr (ss_value slot) else Inl (LookupContractMismatch name))
                else Inl (LookupUnavailable name)))"

datatype service_control_error = StalePublication string | MutationClosed string

definition admits :: "runtime \<Rightarrow> fid \<Rightarrow> bool" where
  "admits rn f = (case rn_heap rn f of None \<Rightarrow> False | Some x \<Rightarrow> assert_can_register x = Inr ())"

text \<open>\<open>Inr\<close> is the value replaced.\<close>

definition set_exact ::
  "realm_key \<Rightarrow> string \<Rightarrow> ident \<Rightarrow> fid \<Rightarrow> ident \<Rightarrow> runtime \<Rightarrow> (service_control_error + ident) \<times> runtime"
where
  "set_exact key name occurrence owner value rn =
     (case slot_at rn key name of
        None \<Rightarrow> (Inl (StalePublication name), rn)
      | Some slot \<Rightarrow>
          if ss_occurrence slot \<noteq> occurrence then (Inl (StalePublication name), rn)
          else if \<not> admits rn owner then (Inl (MutationClosed name), rn)
          else (Inr (ss_value slot),
                rn\<lparr>rn_services := (rn_services rn)\<lparr>sv_slots :=
                  hm_insert (key, name) (slot\<lparr>ss_value := value\<rparr>) (sv_slots (rn_services rn))\<rparr>\<rparr>))"

definition drop_slot :: "realm_key \<Rightarrow> string \<Rightarrow> runtime \<Rightarrow> runtime" where
  "drop_slot key name rn =
     rn\<lparr>rn_services := (rn_services rn)\<lparr>sv_slots := hm_remove (key, name) (sv_slots (rn_services rn))\<rparr>\<rparr>"

definition remove_exact ::
  "realm_key \<Rightarrow> string \<Rightarrow> ident \<Rightarrow> fid \<Rightarrow> runtime \<Rightarrow>
   (service_control_error + service_slot \<times> fid list option) \<times> runtime"
where
  "remove_exact key name occurrence owner rn =
     (case slot_at rn key name of
        None \<Rightarrow> (Inl (StalePublication name), rn)
      | Some slot \<Rightarrow>
          if ss_occurrence slot \<noteq> occurrence then (Inl (StalePublication name), rn)
          else if \<not> admits rn owner then (Inl (MutationClosed name), rn)
          else if current_state (fiber_at rn owner) = Active
          then (case drift_commit [(name, key)] rn of
                  (fs, rn') \<Rightarrow> (Inr (slot, Some fs), drop_slot key name rn'))
          else (Inr (slot, None), drop_slot key name rn))"

definition withdraw_exact :: "realm_key \<Rightarrow> string \<Rightarrow> ident \<Rightarrow> runtime \<Rightarrow> runtime" where
  "withdraw_exact key name occurrence rn =
     (case slot_at rn key name of
        None \<Rightarrow> rn
      | Some slot \<Rightarrow> if ss_occurrence slot = occurrence then drop_slot key name rn else rn)"

definition slots_owned_by :: "fid \<Rightarrow> runtime \<Rightarrow> ((realm_key \<times> string) \<times> service_slot) list" where
  "slots_owned_by f rn = filter (\<lambda>(_, slot). ss_fiber slot = f) (sv_slots (rn_services rn))"

text \<open>The publications whose visibility changes, and the Fibers that owe a recheck.\<close>

definition commit_fiber_transition ::
  "fid \<Rightarrow> fiber_state \<Rightarrow> runtime \<Rightarrow> ((string \<times> realm_key \<times> ident) list \<times> fid list option) \<times> runtime"
where
  "commit_fiber_transition f next rn =
     (let visibility = map (\<lambda>((key, name), slot). (name, key, ss_occurrence slot)) (slots_owned_by f rn) in
      if visibility = [] then ((visibility, None), update_fiber f (set_state next) rn)
      else (case drift_commit (map (\<lambda>(name, key, _). (name, key)) visibility) rn of
              (fs, rn') \<Rightarrow> ((visibility, Some fs), update_fiber f (set_state next) rn')))"

record service_occurrence_snapshot =
  so_id :: ident
  so_service :: string
  so_realm :: realm_key
  so_provider :: fid
  so_visible :: bool

definition snapshot_occurrences :: "runtime \<Rightarrow> service_occurrence_snapshot list" where
  "snapshot_occurrences rn =
     List.map_filter
       (\<lambda>((key, name), slot).
          case rn_heap rn (ss_fiber slot) of
            None \<Rightarrow> None
          | Some f \<Rightarrow>
              if assert_can_register f = Inr ()
              then Some \<lparr>so_id = ss_occurrence slot, so_service = name, so_realm = key,
                         so_provider = ss_fiber slot, so_visible = (current_state f = Active)\<rparr>
              else None)
       (sv_slots (rn_services rn))"

section \<open>Publishing through a Context\<close>

datatype service_publish_error =
    PublishInactiveContext
  | PublishDuplicate string
  | PublishContractMismatch string

record service_publication =
  pb_key :: realm_key
  pb_name :: string
  pb_occurrence :: ident
  pb_owner :: fid
  pb_cleanup :: token

definition runtime_fiber :: "fid \<Rightarrow> runtime \<Rightarrow> fiber" where
  "runtime_fiber f rn = fiber_at rn f"

definition put_runtime_journal :: "fid \<Rightarrow> journal \<Rightarrow> runtime \<Rightarrow> runtime" where
  "put_runtime_journal f j rn = rn\<lparr>rn_heap := (rn_heap rn)(f \<mapsto> (fiber_at rn f)\<lparr>fb_journal := j\<rparr>)\<rparr>"

definition service_slot_publish :: "fid \<Rightarrow> service_slot \<Rightarrow> realm_key \<Rightarrow> string \<Rightarrow> runtime publish_step" where
  "service_slot_publish owner slot key name rn =
     (case install owner slot key name rn of
        (Inl _, rn') \<Rightarrow> (False, rn')
      | (Inr _, rn') \<Rightarrow> (True, rn'))"

text \<open>
  \<open>Context::provide\<close>; \<open>rn0\<close> is the state at the gate, \<open>rn\<close> under the locks.  The refusal and
  the drift the publish step retained are those of \<open>install\<close> in the state \<open>rn\<close>.
\<close>

definition provide ::
  "ctx \<Rightarrow> string \<Rightarrow> type_id \<Rightarrow> ident \<Rightarrow> runtime \<Rightarrow> runtime \<Rightarrow>
   (service_publish_error + service_publication) \<times> runtime"
where
  "provide cx name S value rn0 rn =
     (let owner = cx_fiber cx; key = isolate_key cx name; occurrence = rn_next rn;
          slot = \<lparr>ss_occurrence = occurrence, ss_value = value, ss_contract = S, ss_fiber = owner\<rparr>;
          rn1 = rn\<lparr>rn_next := Suc occurrence\<rparr>
      in case push_gated (runtime_fiber owner) (put_runtime_journal owner)
                (sync_cleanup (WithdrawPublication key name occurrence))
                (service_slot_publish owner slot key name) rn0 rn1 of
           (Inl InactiveContext, rn') \<Rightarrow> (Inl PublishInactiveContext, rn')
         | (Inl PublishRefused, rn') \<Rightarrow>
             (case fst (install owner slot key name rn1) of
                Inl RefusedDuplicate \<Rightarrow> (Inl (PublishDuplicate name), rn')
              | Inl RefusedContractMismatch \<Rightarrow> (Inl (PublishContractMismatch name), rn')
              | Inr _ \<Rightarrow> (Inl PublishInactiveContext, rn'))
         | (Inr cleanup, rn') \<Rightarrow>
             (Inr \<lparr>pb_key = key, pb_name = name, pb_occurrence = occurrence, pb_owner = owner, pb_cleanup = cleanup\<rparr>,
              case fst (install owner slot key name rn1) of
                Inr (_, Some affected) \<Rightarrow>
                  observe (ServiceVisibility name key None (Some occurrence)) (drift_kick affected rn')
              | _ \<Rightarrow> rn'))"

definition try_service :: "ctx \<Rightarrow> string \<Rightarrow> type_id \<Rightarrow> runtime \<Rightarrow> service_lookup_error + ident" where
  "try_service cx name S rn = visible_value name S (isolate_key cx name) rn"

definition publication_set :: "service_publication \<Rightarrow> ident \<Rightarrow> runtime \<Rightarrow> (service_control_error + unit) \<times> runtime" where
  "publication_set p value rn =
     (case set_exact (pb_key p) (pb_name p) (pb_occurrence p) (pb_owner p) value rn of
        (Inl e, rn') \<Rightarrow> (Inl e, rn')
      | (Inr _, rn') \<Rightarrow> (Inr (), rn'))"

definition publication_remove :: "service_publication \<Rightarrow> runtime \<Rightarrow> (service_control_error + unit) \<times> runtime" where
  "publication_remove p rn =
     (case remove_exact (pb_key p) (pb_name p) (pb_occurrence p) (pb_owner p) rn of
        (Inl e, rn') \<Rightarrow> (Inl e, rn')
      | (Inr (_, drift), rn') \<Rightarrow>
          (let rn1 = update_fiber (pb_owner p) (\<lambda>f. snd (remove_disposable (pb_cleanup p) f)) rn'
           in (Inr (),
               case drift of
                 None \<Rightarrow> rn1
               | Some affected \<Rightarrow>
                   observe (ServiceVisibility (pb_name p) (pb_key p) (Some (pb_occurrence p)) None)
                     (drift_kick affected rn1))))"

definition missing_from :: "fiber \<Rightarrow> runtime \<Rightarrow> string list" where
  "missing_from f rn =
     map fst (filter (\<lambda>(service, realm). occurrence_id rn realm service = None) (fb_edges f))"

definition compute_target :: "fiber \<Rightarrow> runtime \<Rightarrow> semantic_target option" where
  "compute_target f rn =
     (case effective_input (fb_spawn f) of
        Inl _ \<Rightarrow> None
      | Inr input \<Rightarrow>
          Some \<lparr>tg_input = input,
            tg_assignments = map (\<lambda>(service, realm). ((service, realm), occurrence_id rn realm service)) (fb_edges f)\<rparr>)"

end
