(* ===== verification/Service_Laws.thy ===== *)
theory Service_Laws
  imports Service_Store
begin

text \<open>
  What the Service store promises: a refusal leaves the Runtime unchanged, control is exact,
  an occurrence that left its slot never comes back, and a visibility change reaches every
  dependent as a committed recheck.
\<close>

section \<open>Drift touches only recheck counters\<close>

text \<open>A Fiber apart from its settle slot.\<close>

definition fiber_core :: "fiber \<Rightarrow> fiber" where
  "fiber_core f = f\<lparr>fb_slot := slot_new\<rparr>"

definition same_cores :: "runtime \<Rightarrow> runtime \<Rightarrow> bool" where
  "same_cores rn rn' \<longleftrightarrow> (\<forall>f. map_option fiber_core (rn_heap rn' f) = map_option fiber_core (rn_heap rn f))"

lemma fiber_core_eqD:
  assumes "fiber_core f = fiber_core g"
  shows "fb_alive f = fb_alive g" and "fb_state f = fb_state g" and "fb_journal f = fb_journal g"
    and "fb_edges f = fb_edges g" and "current_state f = current_state g"
    and "assert_can_register f = assert_can_register g" and "is_alive f = is_alive g"
proof -
  have "fb_alive (fiber_core f) = fb_alive (fiber_core g)" "fb_state (fiber_core f) = fb_state (fiber_core g)"
    "fb_journal (fiber_core f) = fb_journal (fiber_core g)" "fb_edges (fiber_core f) = fb_edges (fiber_core g)"
    "fb_disposing (fiber_core f) = fb_disposing (fiber_core g)" "fb_replacing (fiber_core f) = fb_replacing (fiber_core g)"
    using assms by simp_all
  then show "fb_alive f = fb_alive g" "fb_state f = fb_state g" "fb_journal f = fb_journal g" "fb_edges f = fb_edges g"
    "current_state f = current_state g" "assert_can_register f = assert_can_register g" "is_alive f = is_alive g"
    by (simp_all add: fiber_core_def current_state_def assert_can_register_cases is_alive_def)
qed

lemma same_cores_refl [simp]: "same_cores rn rn"
  by (simp add: same_cores_def)

lemma same_coresD:
  assumes "same_cores rn rn'"
  shows "upgrades rn' f = upgrades rn f" and "alive_at rn' f = alive_at rn f" and "edges_at rn' f = edges_at rn f"
    and "slot_visible rn' s = slot_visible rn s" and "admits rn' f = admits rn f"
proof -
  have c: "map_option fiber_core (rn_heap rn' g) = map_option fiber_core (rn_heap rn g)" for g
    using assms by (simp add: same_cores_def)
  have obs: "rn_heap rn g = None \<longleftrightarrow> rn_heap rn' g = None" for g
    using c [of g] by (cases "rn_heap rn g"; cases "rn_heap rn' g"; simp)
  have obs': "fb_edges y = fb_edges x \<and> is_alive y = is_alive x \<and> current_state y = current_state x \<and>
       assert_can_register y = assert_can_register x"
    if "rn_heap rn g = Some x" and "rn_heap rn' g = Some y" for g x y
  proof -
    from c [of g] that have "fiber_core y = fiber_core x" by simp
    from fiber_core_eqD [OF this] show ?thesis by simp
  qed
  have views: "upgrades rn' g = upgrades rn g \<and> alive_at rn' g = alive_at rn g \<and> edges_at rn' g = edges_at rn g \<and>
      admits rn' g = admits rn g \<and>
      (case rn_heap rn' g of None \<Rightarrow> False | Some f \<Rightarrow> is_alive f \<and> current_state f = Active) =
      (case rn_heap rn g of None \<Rightarrow> False | Some f \<Rightarrow> is_alive f \<and> current_state f = Active)" for g
  proof (cases "rn_heap rn g")
    case None
    with obs [of g] show ?thesis by (simp add: upgrades_def alive_at_def edges_at_def admits_def)
  next
    case (Some x)
    with obs [of g] obtain y where y: "rn_heap rn' g = Some y" by auto
    from obs' [OF Some y] Some y show ?thesis
      by (simp add: upgrades_def alive_at_def edges_at_def admits_def)
  qed
  then show "upgrades rn' f = upgrades rn f" "alive_at rn' f = alive_at rn f" "edges_at rn' f = edges_at rn f"
    "admits rn' f = admits rn f" "slot_visible rn' s = slot_visible rn s"
    unfolding slot_visible_def by blast+
qed

lemma same_cores_fiber:
  "same_cores rn rn' \<Longrightarrow> rn_heap rn f = Some x \<Longrightarrow>
   \<exists>y. rn_heap rn' f = Some y \<and> fiber_core y = fiber_core x"
  unfolding same_cores_def by (metis map_option_eq_Some)

lemma commit_fold_heap:
  "rn_heap (fold (\<lambda>f. update_fiber f commit_slot_recheck) fs rn) f =
     map_option (commit_slot_recheck ^^ count_list fs f) (rn_heap rn f)"
proof (induction fs arbitrary: rn)
  case Nil
  then show ?case by (simp add: option.map_ident)
next
  case (Cons a fs)
  then show ?case
    by (cases "f = a"; cases "rn_heap rn f") (auto simp: update_fiber_def funpow_swap1)
qed

lemma commit_fold_frame:
  "let rn' = fold (\<lambda>f. update_fiber f commit_slot_recheck) fs rn in
   rn_services rn' = rn_services rn \<and> rn_registry rn' = rn_registry rn \<and> rn_deps rn' = rn_deps rn \<and>
   rn_next rn' = rn_next rn \<and> rn_observed rn' = rn_observed rn \<and> rn_kicked rn' = rn_kicked rn"
  by (induction fs arbitrary: rn) (simp_all add: update_fiber_def Let_def)

lemmas commit_fold = commit_fold_heap commit_fold_frame [unfolded Let_def]

lemma drift_commit_frame:
  assumes "drift_commit es rn = (affected, rn')"
  shows "affected = affected_by es rn" and "same_cores rn rn'" and "rn_services rn' = rn_services rn"
    and "rn_registry rn' = rn_registry rn" and "rn_next rn' = rn_next rn" and "rn_observed rn' = rn_observed rn"
    and "rn_kicked rn' = rn_kicked rn"
    and "rn_heap rn' f = map_option (commit_slot_recheck ^^ count_list affected f) (rn_heap rn f)"
proof -
  obtain fs kept deps where d: "dependents_for_edges_with_retention (alive_at rn) (edges_at rn) (upgrades rn)
      (snapshot_fibers (rn_registry rn)) es (rn_deps rn) = ((fs, kept), deps)"
    by (metis prod.collapse)
  have a: "affected = fs" "rn' = fold (\<lambda>f. update_fiber f commit_slot_recheck) fs (rn\<lparr>rn_deps := deps\<rparr>)"
    using assms d by (auto simp: drift_commit_def)
  show "affected = affected_by es rn" using d by (simp add: a affected_by_def)
  have heap: "rn_heap rn' f = map_option (commit_slot_recheck ^^ count_list affected f) (rn_heap rn f)" for f
    by (simp add: a commit_fold)
  then show "rn_heap rn' f = map_option (commit_slot_recheck ^^ count_list affected f) (rn_heap rn f)" .
  have "fiber_core ((commit_slot_recheck ^^ n) x) = fiber_core x" for n x
    by (induction n) (simp_all add: commit_slot_recheck_def fiber_core_def)
  then show "same_cores rn rn'" by (simp add: same_cores_def heap option.map_comp comp_def)
  show "rn_services rn' = rn_services rn" "rn_registry rn' = rn_registry rn" "rn_next rn' = rn_next rn"
    "rn_observed rn' = rn_observed rn" "rn_kicked rn' = rn_kicked rn"
    by (simp_all add: a commit_fold)
qed

section \<open>The store invariant\<close>

text \<open>
  The name of every slot is bound to the slot's contract, each slot has its own occurrence,
  and every occurrence was allocated.
\<close>

definition service_wf :: "runtime \<Rightarrow> bool" where
  "service_wf rn \<longleftrightarrow>
     (\<forall>key name slot. slot_at rn key name = Some slot \<longrightarrow>
        map_of (sv_contracts (rn_services rn)) name = Some (ss_contract slot) \<and> ss_occurrence slot < rn_next rn) \<and>
     (\<forall>key name slot key' name' slot'.
        slot_at rn key name = Some slot \<longrightarrow> slot_at rn key' name' = Some slot' \<longrightarrow>
        ss_occurrence slot = ss_occurrence slot' \<longrightarrow> key = key' \<and> name = name')"

lemma service_wf_bound:
  "service_wf rn \<Longrightarrow> slot_at rn key name = Some slot \<Longrightarrow>
   map_of (sv_contracts (rn_services rn)) name = Some (ss_contract slot)"
  by (simp add: service_wf_def)

text \<open>The outcomes of an installation.\<close>

definition occupied :: "runtime \<Rightarrow> realm_key \<Rightarrow> string \<Rightarrow> bool" where
  "occupied rn key name \<longleftrightarrow> (\<exists>slot. slot_at rn key name = Some slot \<and> alive_at rn (ss_fiber slot))"

definition bind_contract :: "string \<Rightarrow> type_id \<Rightarrow> runtime \<Rightarrow> runtime" where
  "bind_contract name S rn =
     (if map_of (sv_contracts (rn_services rn)) name = None
      then rn\<lparr>rn_services := (rn_services rn)\<lparr>sv_contracts := hm_insert name S (sv_contracts (rn_services rn))\<rparr>\<rparr>
      else rn)"

lemma bind_contract_frame [simp]:
  "rn_heap (bind_contract n S rn) = rn_heap rn" "rn_next (bind_contract n S rn) = rn_next rn"
  "rn_registry (bind_contract n S rn) = rn_registry rn" "rn_deps (bind_contract n S rn) = rn_deps rn"
  "sv_slots (rn_services (bind_contract n S rn)) = sv_slots (rn_services rn)"
  "rn_observed (bind_contract n S rn) = rn_observed rn" "rn_kicked (bind_contract n S rn) = rn_kicked rn"
  by (simp_all add: bind_contract_def)

lemma bind_contract_views [simp]:
  "alive_at (bind_contract n S rn) f = alive_at rn f" "edges_at (bind_contract n S rn) f = edges_at rn f"
  "upgrades (bind_contract n S rn) f = upgrades rn f" "fiber_at (bind_contract n S rn) f = fiber_at rn f"
  "slot_at (bind_contract n S rn) key m = slot_at rn key m" "slot_visible (bind_contract n S rn) s = slot_visible rn s"
  by (simp_all add: alive_at_def edges_at_def upgrades_def fiber_at_def slot_at_def slot_visible_def)

lemma affected_by_bind [simp]: "affected_by es (bind_contract n S rn) = affected_by es rn"
proof -
  have "alive_at (bind_contract n S rn) = alive_at rn" "edges_at (bind_contract n S rn) = edges_at rn"
    "upgrades (bind_contract n S rn) = upgrades rn" by (simp_all add: fun_eq_iff)
  then show ?thesis by (simp add: affected_by_def)
qed

lemma install_refused:
  assumes wf: "service_wf rn" and i: "install owner slot key name rn = (Inl e, rn')"
  shows "rn' = rn \<and>
    (e = RefusedContractMismatch \<longleftrightarrow>
       (\<exists>S. map_of (sv_contracts (rn_services rn)) name = Some S \<and> S \<noteq> ss_contract slot)) \<and>
    (e = RefusedDuplicate \<longrightarrow> occupied rn key name)"
proof (cases "map_of (sv_contracts (rn_services rn)) name")
  case None
  then have "slot_at rn key name = None"
    using service_wf_bound [OF wf, of key name] by (cases "slot_at rn key name") auto
  with i None show ?thesis
    by (auto simp: install_def slot_at_def Let_def split: prod.splits if_splits)
next
  case (Some S)
  with i show ?thesis
    by (auto simp: install_def occupied_def slot_at_def Let_def split: prod.splits if_splits option.splits)
qed

lemma install_committed:
  assumes i: "install owner slot key name rn = (Inr (evicted, drift), rn')"
  shows "\<not> occupied rn key name" and "evicted = slot_at rn key name"
    and "drift = (if current_state (fiber_at rn owner) = Active then Some (affected_by [(name, key)] rn) else None)"
    and "same_cores rn rn'" and "rn_next rn' = rn_next rn" and "rn_registry rn' = rn_registry rn"
    and "slot_at rn' key' name' = (if key' = key \<and> name' = name then Some slot else slot_at rn key' name')"
    and "map_of (sv_contracts (rn_services rn')) = (map_of (sv_contracts (rn_services rn)))(name \<mapsto> ss_contract slot)"
    and "rn_heap rn' f = map_option (commit_slot_recheck ^^ count_list (case drift of None \<Rightarrow> [] | Some fs \<Rightarrow> fs) f) (rn_heap rn f)"
    and "rn_observed rn' = rn_observed rn" and "rn_kicked rn' = rn_kicked rn"
proof -
  let ?b = "bind_contract name (ss_contract slot) rn"
  have bound: "map_of (sv_contracts (rn_services ?b)) = (map_of (sv_contracts (rn_services rn)))(name \<mapsto> ss_contract slot)"
    and free: "\<not> occupied rn key name"
    using i by (auto simp: bind_contract_def install_def occupied_def alive_at_def slot_at_def Let_def fun_eq_iff
        split: prod.splits if_splits option.splits)
  obtain fs rn2 where d: "drift_commit [(name, key)] ?b = (fs, rn2)" by force
  let ?rn2 = "if current_state (fiber_at rn owner) = Active then rn2 else ?b"
  have eq: "evicted = slot_at ?rn2 key name \<and>
      drift = (if current_state (fiber_at rn owner) = Active then Some fs else None) \<and>
      rn' = ?rn2\<lparr>rn_services := (rn_services ?rn2)\<lparr>sv_slots :=
        hm_insert (key, name) slot (hm_remove (key, name) (sv_slots (rn_services ?rn2)))\<rparr>\<rparr>"
    using i free d
    by (auto simp: install_def occupied_def bind_contract_def slot_at_def alive_at_def fiber_at_def Let_def
        split: prod.splits if_splits option.splits)
  note f = drift_commit_frame [OF d]
  have cores: "same_cores rn ?rn2"
    using f(2) by (auto simp: same_cores_def)
  have sv: "rn_services ?rn2 = rn_services ?b" using f(3) by simp
  show "\<not> occupied rn key name" by (rule free)
  show "evicted = slot_at rn key name" using eq sv by (simp add: slot_at_def)
  show "drift = (if current_state (fiber_at rn owner) = Active then Some (affected_by [(name, key)] rn) else None)"
    using eq f(1) by simp
  show "same_cores rn rn'" using eq cores by (simp add: same_cores_def)
  show "rn_next rn' = rn_next rn" "rn_registry rn' = rn_registry rn" "rn_observed rn' = rn_observed rn"
    "rn_kicked rn' = rn_kicked rn"
    using eq f(4-7) by simp_all
  show "slot_at rn' key' name' = (if key' = key \<and> name' = name then Some slot else slot_at rn key' name')"
    using eq sv by (simp add: slot_at_def)
  show "map_of (sv_contracts (rn_services rn')) = (map_of (sv_contracts (rn_services rn)))(name \<mapsto> ss_contract slot)"
    using eq sv bound by simp
  show "rn_heap rn' f = map_option (commit_slot_recheck ^^ count_list (case drift of None \<Rightarrow> [] | Some fs \<Rightarrow> fs) f) (rn_heap rn f)"
    using eq f(8) by (simp add: option.map_id)
qed

section \<open>Publishing is all or nothing\<close>

definition publish_ready :: "fid \<Rightarrow> runtime \<Rightarrow> bool" where
  "publish_ready owner rn \<longleftrightarrow> service_wf rn \<and> upgrades rn owner"

interpretation service_publish: gated_step
  "runtime_fiber owner" "put_runtime_journal owner" "service_slot_publish owner slot key name" "publish_ready owner"
  for owner slot key name
proof
  show "rn' = rn" if "publish_ready owner rn" and "service_slot_publish owner slot key name rn = (False, rn')" for rn rn'
    using that install_refused [of rn owner slot key name]
    by (auto simp: service_slot_publish_def publish_ready_def split: sum.splits prod.splits)
  show "fb_journal (runtime_fiber owner rn') = fb_journal (runtime_fiber owner rn)"
    if ready: "publish_ready owner rn" and pub: "service_slot_publish owner slot key name rn = (True, rn')" for rn rn'
  proof -
    obtain evicted drift where "install owner slot key name rn = (Inr (evicted, drift), rn')"
      using pub by (auto simp: service_slot_publish_def split: sum.splits prod.splits)
    from install_committed(4) [OF this] have "same_cores rn rn'" .
    moreover obtain x where "rn_heap rn owner = Some x" using ready by (auto simp: publish_ready_def upgrades_def)
    ultimately obtain y where "rn_heap rn' owner = Some y" "fiber_core y = fiber_core x"
      using same_cores_fiber by blast
    then show ?thesis
      using \<open>rn_heap rn owner = Some x\<close> fiber_core_eqD(3) [of y x] by (simp add: runtime_fiber_def fiber_at_def)
  qed
  show "fb_journal (runtime_fiber owner (put_runtime_journal owner j rn)) = j" for j rn
    by (simp add: runtime_fiber_def put_runtime_journal_def fiber_at_def)
qed

lemma ready_next [simp]:
  "publish_ready owner rn \<Longrightarrow> publish_ready owner (rn\<lparr>rn_next := Suc (rn_next rn)\<rparr>)"
  by (auto simp: publish_ready_def service_wf_def slot_at_def upgrades_def intro: less_SucI)

lemma provide_refused:
  assumes ready: "publish_ready (cx_fiber cx) rn"
    and p: "provide cx name S value rn0 rn = (Inl e, rn')"
  shows "rn' = rn\<lparr>rn_next := Suc (rn_next rn)\<rparr> \<and>
    (case e of
       PublishInactiveContext \<Rightarrow>
         assert_can_register (fiber_at rn0 (cx_fiber cx)) = Inl GenerationClosed \<or>
         assert_can_register (fiber_at rn (cx_fiber cx)) = Inl GenerationClosed
     | PublishContractMismatch n \<Rightarrow>
         n = name \<and> (\<exists>T. map_of (sv_contracts (rn_services rn)) name = Some T \<and> T \<noteq> S)
     | PublishDuplicate n \<Rightarrow> n = name \<and> occupied rn (isolate_key cx name) name)"
proof -
  let ?o = "cx_fiber cx" and ?key = "isolate_key cx name"
  let ?slot = "\<lparr>ss_occurrence = rn_next rn, ss_value = value, ss_contract = S, ss_fiber = ?o\<rparr>"
  let ?rn1 = "rn\<lparr>rn_next := Suc (rn_next rn)\<rparr>"
  let ?push = "push_gated (runtime_fiber ?o) (put_runtime_journal ?o)
      (sync_cleanup (WithdrawPublication ?key name (rn_next rn))) (service_slot_publish ?o ?slot ?key name) rn0 ?rn1"
  have views: "occupied ?rn1 ?key name = occupied rn ?key name" "rn_services ?rn1 = rn_services rn"
    by (auto simp: occupied_def slot_at_def alive_at_def)
  obtain ge rn2 where push: "?push = (Inl ge, rn2)"
    using p by (auto simp: provide_def Let_def split: prod.splits sum.splits)
  from service_publish.push_gated_refused [OF ready_next [OF ready] push] have same: "rn2 = ?rn1" .
  show ?thesis
  proof (cases ge)
    case InactiveContext
    with push have "assert_can_register (fiber_at rn0 ?o) \<noteq> Inr () \<or> assert_can_register (fiber_at rn ?o) \<noteq> Inr ()"
      by (auto simp: push_gated_def runtime_fiber_def fiber_at_def split: sum.splits prod.splits bool.splits)
    then have closed: "assert_can_register (fiber_at rn0 ?o) = Inl GenerationClosed \<or>
        assert_can_register (fiber_at rn ?o) = Inl GenerationClosed"
      by (metis assert_can_register_cases)
    from p push InactiveContext same have "rn' = ?rn1" "e = PublishInactiveContext"
      by (auto simp: provide_def Let_def)
    with closed show ?thesis by simp
  next
    case PublishRefused
    with push obtain r where i: "install ?o ?slot ?key name ?rn1 = (Inl r, rn2)"
      by (auto simp: push_gated_def service_slot_publish_def split: sum.splits prod.splits)
    from ready_next [OF ready] have "service_wf ?rn1" by (simp add: publish_ready_def)
    from install_refused [OF this i] p push PublishRefused same i show ?thesis
      by (cases r) (auto simp: provide_def Let_def views)
  qed
qed

lemma provide_committed:
  assumes ready: "publish_ready (cx_fiber cx) rn"
    and p: "provide cx name S value rn0 rn = (Inr pub, rn')"
  obtains rn2 drift where
    "install (cx_fiber cx) \<lparr>ss_occurrence = rn_next rn, ss_value = value, ss_contract = S, ss_fiber = cx_fiber cx\<rparr>
       (isolate_key cx name) name (rn\<lparr>rn_next := Suc (rn_next rn)\<rparr>) = (Inr (slot_at rn (isolate_key cx name) name, drift), rn2)"
    and "pub = \<lparr>pb_key = isolate_key cx name, pb_name = name, pb_occurrence = rn_next rn,
           pb_owner = cx_fiber cx, pb_cleanup = pb_cleanup pub\<rparr>"
    and "journal_push (sync_cleanup (WithdrawPublication (isolate_key cx name) name (rn_next rn)))
           (fb_journal (fiber_at rn (cx_fiber cx))) = (pb_cleanup pub, fb_journal (fiber_at rn' (cx_fiber cx)))"
    and "rn' = (case drift of
           Some affected \<Rightarrow> observe (ServiceVisibility name (isolate_key cx name) None (Some (rn_next rn)))
             (drift_kick affected (put_runtime_journal (cx_fiber cx) (fb_journal (fiber_at rn' (cx_fiber cx))) rn2))
         | None \<Rightarrow> put_runtime_journal (cx_fiber cx) (fb_journal (fiber_at rn' (cx_fiber cx))) rn2)"
    and "assert_can_register (fiber_at rn0 (cx_fiber cx)) = Inr ()"
    and "assert_can_register (fiber_at rn (cx_fiber cx)) = Inr ()"
    and "rn_services rn' = rn_services rn2" and "rn_next rn' = rn_next rn2"
    and "rn_registry rn' = rn_registry rn2" and "rn_deps rn' = rn_deps rn2"
    and "\<exists>j. rn_heap rn' = rn_heap (put_runtime_journal (cx_fiber cx) j rn2)"
proof -
  let ?o = "cx_fiber cx" and ?key = "isolate_key cx name"
  let ?slot = "\<lparr>ss_occurrence = rn_next rn, ss_value = value, ss_contract = S, ss_fiber = ?o\<rparr>"
  let ?rn1 = "rn\<lparr>rn_next := Suc (rn_next rn)\<rparr>"
  let ?push = "push_gated (runtime_fiber ?o) (put_runtime_journal ?o)
      (sync_cleanup (WithdrawPublication ?key name (rn_next rn))) (service_slot_publish ?o ?slot ?key name) rn0 ?rn1"
  obtain token rn3 where push: "?push = (Inr token, rn3)"
  proof (cases ?push)
    case (Pair r rn3)
    with p that show ?thesis
      by (cases r) (auto simp: provide_def Let_def split: gated_publish_error.splits sum.splits install_refusal.splits)
  qed
  note c = service_publish.push_gated_committed [OF ready_next [OF ready] push]
  then obtain ev drift rn2 where i: "install ?o ?slot ?key name ?rn1 = (Inr (ev, drift), rn2)"
    by (auto simp: service_slot_publish_def split: sum.splits prod.splits)
  then have ev: "ev = slot_at rn ?key name"
    using install_committed(2) [OF i] by (simp add: slot_at_def)
  have journal: "fb_journal (fiber_at rn' ?o) = fb_journal (fiber_at rn3 ?o)"
    and rn': "rn' = (case drift of
        Some affected \<Rightarrow> observe (ServiceVisibility name ?key None (Some (rn_next rn))) (drift_kick affected rn3)
      | None \<Rightarrow> rn3)"
    and pub: "pub = \<lparr>pb_key = ?key, pb_name = name, pb_occurrence = rn_next rn, pb_owner = ?o, pb_cleanup = token\<rparr>"
    using p push i by (auto simp: provide_def Let_def observe_def drift_kick_def fiber_at_def split: option.splits)
  have rn3: "rn3 = put_runtime_journal ?o (fb_journal (fiber_at rn3 ?o)) rn2"
    using c i by (simp add: service_slot_publish_def runtime_fiber_def)
  have rn3': "rn3 = put_runtime_journal ?o (fb_journal (fiber_at rn' ?o)) rn2"
    using rn3 journal by simp
  have fields: "rn_services rn' = rn_services rn3 \<and> rn_next rn' = rn_next rn3 \<and> rn_registry rn' = rn_registry rn3 \<and>
      rn_deps rn' = rn_deps rn3 \<and> rn_heap rn' = rn_heap rn3"
    unfolding rn' by (simp add: observe_def drift_kick_def split: option.split)
  moreover have "rn_services rn3 = rn_services rn2 \<and> rn_next rn3 = rn_next rn2 \<and> rn_registry rn3 = rn_registry rn2 \<and>
      rn_deps rn3 = rn_deps rn2 \<and> (\<exists>j. rn_heap rn3 = rn_heap (put_runtime_journal ?o j rn2))"
    by (subst (1 2 3 4) rn3, intro conjI exI [of _ "fb_journal (fiber_at rn3 ?o)"])
      (simp_all add: put_runtime_journal_def, subst (1) rn3, simp add: put_runtime_journal_def)
  ultimately have frame: "rn_services rn' = rn_services rn2" "rn_next rn' = rn_next rn2"
    "rn_registry rn' = rn_registry rn2" "rn_deps rn' = rn_deps rn2"
    "\<exists>j. rn_heap rn' = rn_heap (put_runtime_journal ?o j rn2)"
    by simp_all
  show ?thesis
    apply (rule that [of drift rn2])
    subgoal using i ev by simp
    subgoal using pub by simp
    subgoal using c pub journal by (simp add: runtime_fiber_def fiber_at_def)
    subgoal using rn' rn3' by (cases drift) simp_all
    subgoal using c by (simp add: runtime_fiber_def)
    subgoal using c by (simp add: runtime_fiber_def fiber_at_def)
    by (rule frame)+
qed

end
