(* ===== verification/Service_Properties.thy ===== *)
theory Service_Properties
  imports Service_Laws
begin

text \<open>
  The properties of the Service store: exact publication, exact control, exact visibility,
  and the recheck that every visibility change commits.
\<close>

section \<open>Stepping the store\<close>

datatype service_event =
    EvProvide ctx string type_id ident
  | EvSet service_publication ident
  | EvRemove service_publication
  | EvWithdraw realm_key string ident
  | EvTransition fid fiber_state

definition service_step :: "service_event \<Rightarrow> runtime \<Rightarrow> runtime" where
  "service_step e rn =
     (case e of
        EvProvide cx name S value \<Rightarrow>
          if upgrades rn (cx_fiber cx) then snd (provide cx name S value rn rn) else rn
      | EvSet p value \<Rightarrow> snd (publication_set p value rn)
      | EvRemove p \<Rightarrow> snd (publication_remove p rn)
      | EvWithdraw key name occurrence \<Rightarrow> withdraw_exact key name occurrence rn
      | EvTransition f next \<Rightarrow> snd (commit_fiber_transition f next rn))"

definition occurrences :: "runtime \<Rightarrow> ident set" where
  "occurrences rn = {ss_occurrence slot | slot key name. slot_at rn key name = Some slot}"

lemma service_wf_cong:
  assumes "service_wf rn" and "rn_services rn' = rn_services rn" and "rn_next rn \<le> rn_next rn'"
  shows "service_wf rn'"
proof -
  have "slot_at rn' k n = slot_at rn k n" for k n using assms(2) by (simp add: slot_at_def)
  moreover have "o' < rn_next rn'" if "o' < rn_next rn" for o' :: ident using that assms(3) by simp
  ultimately show ?thesis using assms(1,2) unfolding service_wf_def by auto
qed

lemma slot_at_drop:
  "slot_at (drop_slot key name rn) key' name' = (if key' = key \<and> name' = name then None else slot_at rn key' name')"
  by (simp add: drop_slot_def slot_at_def)

lemma service_wf_drop:
  assumes "service_wf rn"
  shows "service_wf (drop_slot key name rn)"
  using assms unfolding service_wf_def slot_at_drop
  by (auto simp: drop_slot_def split: if_splits)

lemma service_wf_install:
  assumes wf: "service_wf rn" and i: "install owner slot key name rn = (Inr (ev, drift), rn')"
    and new: "ss_occurrence slot < rn_next rn" "ss_occurrence slot \<notin> occurrences rn"
  shows "service_wf rn'"
proof -
  note c = install_committed [OF i]
  have old: "ss_occurrence slot' \<noteq> ss_occurrence slot" if "slot_at rn k n = Some slot'" for k n slot'
    using new(2) that by (auto simp: occurrences_def)
  have contract: "T = ss_contract slot" if "map_of (sv_contracts (rn_services rn)) name = Some T" for T
  proof (rule ccontr)
    assume "T \<noteq> ss_contract slot"
    with that i show False by (simp add: install_def Let_def)
  qed
  have "map_of (sv_contracts (rn_services rn')) n = Some (ss_contract s) \<and> ss_occurrence s < rn_next rn'"
    if "slot_at rn' k n = Some s" for k n s
  proof (cases "k = key \<and> n = name")
    case True
    with that c(5,7,8) new show ?thesis by simp
  next
    case False
    with that c(7) have "slot_at rn k n = Some s" by simp
    with wf have "map_of (sv_contracts (rn_services rn)) n = Some (ss_contract s)" "ss_occurrence s < rn_next rn"
      by (simp_all add: service_wf_def)
    with contract c(5,8) show ?thesis by auto
  qed
  moreover have "k = k' \<and> n = n'"
    if "slot_at rn' k n = Some s" "slot_at rn' k' n' = Some s'" "ss_occurrence s = ss_occurrence s'" for k n s k' n' s'
  proof (cases "k = key \<and> n = name"; cases "k' = key \<and> n' = name")
    assume "\<not> (k = key \<and> n = name)" and "\<not> (k' = key \<and> n' = name)"
    with that c(7) have "slot_at rn k n = Some s" "slot_at rn k' n' = Some s'" by (simp_all split: if_splits)
    with wf that(3) show ?thesis unfolding service_wf_def by blast
  next
    assume a: "k = key \<and> n = name" "\<not> (k' = key \<and> n' = name)"
    with that c(7) have "s = slot" "slot_at rn k' n' = Some s'" by (simp_all split: if_splits)
    with old that(3) show ?thesis by metis
  next
    assume a: "\<not> (k = key \<and> n = name)" "k' = key \<and> n' = name"
    with that c(7) have "s' = slot" "slot_at rn k n = Some s" by (simp_all split: if_splits)
    with old that(3) show ?thesis by metis
  qed simp
  ultimately show ?thesis unfolding service_wf_def by blast
qed

lemma occurrences_allocated: "service_wf rn \<Longrightarrow> o' \<in> occurrences rn \<Longrightarrow> o' < rn_next rn"
  by (auto simp: occurrences_def service_wf_def)

lemma put_journal_frame [simp]:
  "rn_services (put_runtime_journal f j rn) = rn_services rn" "rn_next (put_runtime_journal f j rn) = rn_next rn"
  "slot_at (put_runtime_journal f j rn) = slot_at rn"
  "rn_registry (put_runtime_journal f j rn) = rn_registry rn" "rn_deps (put_runtime_journal f j rn) = rn_deps rn"
  by (simp_all add: put_runtime_journal_def slot_at_def fun_eq_iff)

lemma log_frame [simp]:
  "rn_services (observe obs rn) = rn_services rn" "rn_next (observe obs rn) = rn_next rn"
  "rn_heap (observe obs rn) = rn_heap rn" "slot_at (observe obs rn) = slot_at rn"
  "rn_services (drift_kick fs rn) = rn_services rn" "rn_next (drift_kick fs rn) = rn_next rn"
  "rn_heap (drift_kick fs rn) = rn_heap rn" "slot_at (drift_kick fs rn) = slot_at rn"
  "rn_services (update_fiber f g rn) = rn_services rn" "rn_next (update_fiber f g rn) = rn_next rn"
  "slot_at (update_fiber f g rn) = slot_at rn"
  "rn_registry (observe obs rn) = rn_registry rn" "rn_deps (observe obs rn) = rn_deps rn"
  "rn_registry (drift_kick fs rn) = rn_registry rn" "rn_deps (drift_kick fs rn) = rn_deps rn"
  "rn_registry (update_fiber f g rn) = rn_registry rn" "rn_deps (update_fiber f g rn) = rn_deps rn"
  by (simp_all add: observe_def drift_kick_def update_fiber_def slot_at_def fun_eq_iff)

text \<open>What a successful publication leaves in the store.\<close>

lemma provide_committed_store:
  assumes ready: "publish_ready (cx_fiber cx) rn" and p: "provide cx name S value rn0 rn = (Inr pub, rn')"
  shows "\<not> occupied rn (isolate_key cx name) name"
    and "slot_at rn' key' name' =
      (if key' = isolate_key cx name \<and> name' = name
       then Some \<lparr>ss_occurrence = rn_next rn, ss_value = value, ss_contract = S, ss_fiber = cx_fiber cx\<rparr>
       else slot_at rn key' name')"
    and "map_of (sv_contracts (rn_services rn')) = (map_of (sv_contracts (rn_services rn)))(name \<mapsto> S)"
    and "rn_next rn' = Suc (rn_next rn)" and "service_wf rn'"
proof -
  let ?key = "isolate_key cx name" and ?o = "cx_fiber cx"
  let ?slot = "\<lparr>ss_occurrence = rn_next rn, ss_value = value, ss_contract = S, ss_fiber = ?o\<rparr>"
  let ?rn1 = "rn\<lparr>rn_next := Suc (rn_next rn)\<rparr>"
  obtain rn2 drift where i: "install ?o ?slot ?key name ?rn1 = (Inr (slot_at rn ?key name, drift), rn2)"
    and rn': "rn_services rn' = rn_services rn2 \<and> rn_next rn' = rn_next rn2"
    by (rule provide_committed [OF ready p]) blast
  note c = install_committed [OF i]
  have same: "slot_at ?rn1 k n = slot_at rn k n" "rn_services ?rn1 = rn_services rn" for k n
    by (simp_all add: slot_at_def)
  have at: "slot_at rn' k n = slot_at rn2 k n" for k n using rn' by (simp add: slot_at_def)
  show "\<not> occupied rn ?key name"
    using c(1) by (simp add: occupied_def same alive_at_def)
  show "slot_at rn' key' name' = (if key' = ?key \<and> name' = name then Some ?slot else slot_at rn key' name')"
    using c(7) by (simp add: at same)
  show "map_of (sv_contracts (rn_services rn')) = (map_of (sv_contracts (rn_services rn)))(name \<mapsto> S)"
    using c(8) rn' by simp
  show "rn_next rn' = Suc (rn_next rn)" using c(5) rn' by simp
  have wf1: "service_wf ?rn1" using ready by (auto simp: publish_ready_def intro: service_wf_cong)
  have "rn_next rn \<notin> occurrences ?rn1"
    using ready occurrences_allocated [of rn "rn_next rn"] by (auto simp: publish_ready_def occurrences_def same)
  with service_wf_install [OF wf1 i] have "service_wf rn2" by simp
  with rn' show "service_wf rn'" by (auto intro: service_wf_cong)
qed

section \<open>The properties\<close>

text \<open>
  C25: Publication is exact and all or nothing.  A refusal leaves the Runtime as it was (apart
  from the identity counter) and says why: the generation is closed, the name belongs to
  another contract, or a live owner occupies the slot.  A success replaces only a slot whose
  owner is gone, binds the name to the contract, puts a fresh occurrence owned by the current
  Fiber into exactly the realm the Context selects, and commits one withdrawal obligation
  for that occurrence into the Fiber's journal.
\<close>

theorem provide_exact:
  assumes "service_wf rn" and "upgrades rn (cx_fiber cx)"
  shows "let key = isolate_key cx name; owner = cx_fiber cx in
    case provide cx name S payload rn0 rn of
      (Inl e, rn') \<Rightarrow>
        rn' = rn\<lparr>rn_next := Suc (rn_next rn)\<rparr> \<and>
        (case e of
           PublishInactiveContext \<Rightarrow>
             GenerationClosed \<in> {c. assert_can_register (fiber_at rn0 owner) = Inl c} \<union>
                                {c. assert_can_register (fiber_at rn owner) = Inl c}
         | PublishContractMismatch n \<Rightarrow> map_of (sv_contracts (rn_services rn)) name \<notin> {None, Some S}
         | PublishDuplicate n \<Rightarrow> occupied rn key name)
    | (Inr pub, rn') \<Rightarrow>
        assert_can_register (fiber_at rn owner) = Inr () \<and> \<not> occupied rn key name \<and> service_wf rn' \<and>
        map_of (sv_contracts (rn_services rn')) = (map_of (sv_contracts (rn_services rn)))(name \<mapsto> S) \<and>
        slot_at rn' key name =
          Some \<lparr>ss_occurrence = rn_next rn, ss_value = payload, ss_contract = S, ss_fiber = owner\<rparr> \<and>
        (\<forall>k n. (k, n) \<noteq> (key, name) \<longrightarrow> slot_at rn' k n = slot_at rn k n) \<and>
        rn_next rn \<notin> occurrences rn \<and> pb_occurrence pub = rn_next rn \<and>
        journal_push (sync_cleanup (WithdrawPublication key name (rn_next rn))) (fb_journal (fiber_at rn owner)) =
          (pb_cleanup pub, fb_journal (fiber_at rn' owner))"
proof -
  have ready: "publish_ready (cx_fiber cx) rn" using assms by (simp add: publish_ready_def)
  obtain r rn' where p: "provide cx name S payload rn0 rn = (r, rn')" by force
  show ?thesis
  proof (cases r)
    case (Inl e)
    with provide_refused [OF ready] p have "rn' = rn\<lparr>rn_next := Suc (rn_next rn)\<rparr>"
      and "case e of
       PublishInactiveContext \<Rightarrow>
         assert_can_register (fiber_at rn0 (cx_fiber cx)) = Inl GenerationClosed \<or>
         assert_can_register (fiber_at rn (cx_fiber cx)) = Inl GenerationClosed
     | PublishContractMismatch n \<Rightarrow>
         n = name \<and> (\<exists>T. map_of (sv_contracts (rn_services rn)) name = Some T \<and> T \<noteq> S)
     | PublishDuplicate n \<Rightarrow> n = name \<and> occupied rn (isolate_key cx name) name"
      by blast+
    with p Inl show ?thesis by (cases e) auto
  next
    case (Inr pub)
    with p have p': "provide cx name S payload rn0 rn = (Inr pub, rn')" by simp
    note store = provide_committed_store [OF ready p']
    have "rn_next rn \<notin> occurrences rn" using assms(1) occurrences_allocated by blast
    moreover have "pb_occurrence pub = rn_next rn"
      by (rule provide_committed [OF ready p']) (metis service_publication.select_convs(3))
    moreover have "journal_push (sync_cleanup (WithdrawPublication (isolate_key cx name) name (rn_next rn)))
             (fb_journal (fiber_at rn (cx_fiber cx))) = (pb_cleanup pub, fb_journal (fiber_at rn' (cx_fiber cx)))"
      by (rule provide_committed [OF ready p'])
    moreover have "assert_can_register (fiber_at rn (cx_fiber cx)) = Inr ()"
      by (rule provide_committed [OF ready p'])
    ultimately show ?thesis using p' store by (simp add: Let_def)
  qed
qed

definition demo_runtime :: runtime where
  "demo_runtime =
     \<lparr>rn_heap = (\<lambda>_. None)(0 := Some fiber_root), rn_next = 1, rn_registry = registry_new,
      rn_deps = dependency_index_new, rn_services = \<lparr>sv_contracts = [], sv_slots = []\<rparr>,
      rn_observed = [], rn_kicked = []\<rparr>"

definition demo_ctx :: ctx where
  "demo_ctx = \<lparr>cx_fiber = 0, cx_isolate = None, cx_scope = None, cx_intercept = None\<rparr>"

lemma demo_runtime_wf: "service_wf demo_runtime" "upgrades demo_runtime (cx_fiber demo_ctx)"
  by (simp_all add: service_wf_def slot_at_def demo_runtime_def upgrades_def demo_ctx_def)

theorem provide_exact_witness:
  "(case provide demo_ctx ''cache'' 5 9 demo_runtime demo_runtime of
      (Inl _, _) \<Rightarrow> False
    | (Inr pub, rn) \<Rightarrow> slot_at rn 0 ''cache'' = Some \<lparr>ss_occurrence = 1, ss_value = 9, ss_contract = 5, ss_fiber = 0\<rparr>)"
proof -
  have ok: "case fst (provide demo_ctx ''cache'' 5 9 demo_runtime demo_runtime) of Inl _ \<Rightarrow> False | Inr _ \<Rightarrow> True"
    by code_simp
  obtain r rn where p: "provide demo_ctx ''cache'' 5 9 demo_runtime demo_runtime = (r, rn)" by force
  with ok obtain pub where "r = Inr pub" by (cases r) auto
  moreover have "isolate_key demo_ctx ''cache'' = 0" by code_simp
  moreover have "rn_next demo_runtime = 1" "cx_fiber demo_ctx = 0" by code_simp+
  ultimately show ?thesis
    using provide_exact [OF demo_runtime_wf, of "''cache''" demo_runtime 5 9] p by (simp add: Let_def)
qed

text \<open>
  Control of a publication is exact.  \<open>set\<close> and \<open>remove\<close> report a stale capability before
  a closed generation, and both before any change; a successful \<open>set\<close> changes the payload of
  exactly the named occurrence and no visibility; a successful \<open>remove\<close>, like the withdrawal
  of the drain, empties exactly its slot when that slot still holds the occurrence.
\<close>

definition is_current :: "service_publication \<Rightarrow> runtime \<Rightarrow> bool" where
  "is_current p rn =
     (case slot_at rn (pb_key p) (pb_name p) of None \<Rightarrow> False | Some slot \<Rightarrow> ss_occurrence slot = pb_occurrence p)"

lemma set_exact_slot:
  "slot_at (snd (publication_set p v rn)) k n =
     (if is_current p rn \<and> admits rn (pb_owner p) \<and> k = pb_key p \<and> n = pb_name p
      then map_option (\<lambda>slot. slot\<lparr>ss_value := v\<rparr>) (slot_at rn k n) else slot_at rn k n)"
  by (auto simp: publication_set_def set_exact_def is_current_def slot_at_def split: option.splits prod.splits if_splits)

lemma set_exact_heap: "rn_heap (snd (publication_set p v rn)) = rn_heap rn"
  by (auto simp: publication_set_def set_exact_def split: option.splits prod.splits if_splits)

lemma set_exact_visibility: "occurrence_id (snd (publication_set p v rn)) k n = occurrence_id rn k n"
  by (simp add: occurrence_id_def set_exact_slot slot_visible_def set_exact_heap split: option.splits)

lemma set_exact_result:
  "fst (publication_set p v rn) =
     (if \<not> is_current p rn then Inl (StalePublication (pb_name p))
      else if \<not> admits rn (pb_owner p) then Inl (MutationClosed (pb_name p)) else Inr ())"
  by (auto simp: publication_set_def set_exact_def is_current_def split: option.splits prod.splits if_splits)

lemma remove_exact_result:
  "fst (publication_remove p rn) =
     (if \<not> is_current p rn then Inl (StalePublication (pb_name p))
      else if \<not> admits rn (pb_owner p) then Inl (MutationClosed (pb_name p)) else Inr ())"
  by (auto simp: publication_remove_def remove_exact_def is_current_def Let_def split: option.splits prod.splits if_splits)

lemma drift_commit_slots: "drift_commit es rn = (fs, rn') \<Longrightarrow> slot_at rn' = slot_at rn"
  using drift_commit_frame(3) [of es rn fs rn'] by (simp add: slot_at_def fun_eq_iff)

lemma remove_exact_slot:
  "slot_at (snd (publication_remove p rn)) k n =
     (if is_current p rn \<and> admits rn (pb_owner p) \<and> k = pb_key p \<and> n = pb_name p then None else slot_at rn k n)"
proof (cases "is_current p rn \<and> admits rn (pb_owner p)")
  case True
  obtain fs rn1 where d: "drift_commit [(pb_name p, pb_key p)] rn = (fs, rn1)" by force
  from True obtain slot where "slot_at rn (pb_key p) (pb_name p) = Some slot" "ss_occurrence slot = pb_occurrence p"
    by (auto simp: is_current_def split: option.splits)
  with True d show ?thesis
    by (simp add: publication_remove_def remove_exact_def Let_def slot_at_drop drift_commit_slots [OF d])
next
  case False
  then show ?thesis
    by (auto simp: publication_remove_def remove_exact_def is_current_def split: option.splits)
qed

lemma withdraw_exact_slot:
  "slot_at (withdraw_exact key name occurrence rn) k n =
     (if k = key \<and> n = name \<and> map_option ss_occurrence (slot_at rn key name) = Some occurrence
      then None else slot_at rn k n)"
  by (auto simp: withdraw_exact_def slot_at_drop split: option.splits)

theorem publication_control_exact:
  "let current = is_current p rn; allowed = admits rn (pb_owner p);
       mine = (\<lambda>k n. (k, n) = (pb_key p, pb_name p));
       refusal = (if current then MutationClosed (pb_name p) else StalePublication (pb_name p));
       set = publication_set p v rn; removed = publication_remove p rn
   in fst set = (if current \<and> allowed then Inr () else Inl refusal) \<and>
      (\<forall>k n. slot_at (snd set) k n =
         (if current \<and> allowed \<and> mine k n then map_option (\<lambda>slot. slot\<lparr>ss_value := v\<rparr>) (slot_at rn k n)
          else slot_at rn k n)) \<and>
      (\<forall>k n. occurrence_id (snd set) k n = occurrence_id rn k n) \<and>
      fst removed = (if current \<and> allowed then Inr () else Inl refusal) \<and>
      (\<forall>k n. slot_at (snd removed) k n = (if current \<and> allowed \<and> mine k n then None else slot_at rn k n)) \<and>
      (\<forall>k n. slot_at (withdraw_exact (pb_key p) (pb_name p) (pb_occurrence p) rn) k n =
         (if current \<and> mine k n then None else slot_at rn k n))"
  by (auto simp: Let_def set_exact_result set_exact_slot set_exact_visibility remove_exact_result
      remove_exact_slot withdraw_exact_slot is_current_def split: option.splits)

lemma service_step_inv:
  assumes "service_wf rn"
  shows "service_wf (service_step e rn) \<and> rn_next rn \<le> rn_next (service_step e rn) \<and>
         occurrences (service_step e rn) \<subseteq> occurrences rn \<union> {o'. rn_next rn \<le> o'}"
proof (cases e)
  case (EvProvide cx name S val)
  show ?thesis
  proof (cases "upgrades rn (cx_fiber cx)")
    case True
    then have ready: "publish_ready (cx_fiber cx) rn" using assms by (simp add: publish_ready_def)
    obtain r rn' where p: "provide cx name S val rn rn = (r, rn')" by force
    show ?thesis
    proof (cases r)
      case (Inl err)
      with provide_refused [OF ready] p have "rn' = rn\<lparr>rn_next := Suc (rn_next rn)\<rparr>" by blast
      with EvProvide True p assms show ?thesis
        by (auto simp: service_step_def occurrences_def slot_at_def intro: service_wf_cong)
    next
      case (Inr pub)
      with p have p': "provide cx name S val rn rn = (Inr pub, rn')" by simp
      note store = provide_committed_store [OF ready p']
      have "occurrences rn' \<subseteq> insert (rn_next rn) (occurrences rn)"
        by (auto simp: occurrences_def store(2) split: if_splits)
      with EvProvide True p' store(4,5) show ?thesis by (auto simp: service_step_def)
    qed
  next
    case False
    with EvProvide assms show ?thesis by (simp add: service_step_def)
  qed
next
  case (EvSet p v)
  have next_same: "rn_next (snd (publication_set p v rn)) = rn_next rn"
    and contracts: "sv_contracts (rn_services (snd (publication_set p v rn))) = sv_contracts (rn_services rn)"
    by (auto simp: publication_set_def set_exact_def split: option.splits prod.splits if_splits)
  have slot: "slot_at (snd (publication_set p v rn)) k n = Some slot \<Longrightarrow>
      \<exists>old. slot_at rn k n = Some old \<and> ss_occurrence old = ss_occurrence slot \<and> ss_contract old = ss_contract slot"
    for k n slot
    by (auto simp: set_exact_slot split: if_splits)
  have "service_wf (snd (publication_set p v rn))"
    using assms slot unfolding service_wf_def next_same contracts by metis
  with EvSet next_same slot show ?thesis
    by (fastforce simp: service_step_def occurrences_def)
next
  case (EvRemove p)
  have same: "rn_next (snd (publication_remove p rn)) = rn_next rn"
    "sv_contracts (rn_services (snd (publication_remove p rn))) = sv_contracts (rn_services rn)"
    using drift_commit_frame(3,5) by (auto simp: publication_remove_def remove_exact_def drop_slot_def Let_def
        split: option.splits prod.splits)
  have "service_wf (snd (publication_remove p rn))"
    using assms unfolding service_wf_def same remove_exact_slot by (auto split: if_splits)
  with EvRemove same show ?thesis
    by (auto simp: service_step_def occurrences_def remove_exact_slot split: if_splits)
next
  case (EvWithdraw key name occ)
  have "service_wf (withdraw_exact key name occ rn)"
    using assms by (auto simp: withdraw_exact_def intro: service_wf_drop split: option.splits)
  moreover have "rn_next (withdraw_exact key name occ rn) = rn_next rn"
    by (simp add: withdraw_exact_def drop_slot_def split: option.splits)
  ultimately show ?thesis
    using EvWithdraw by (auto simp: service_step_def occurrences_def withdraw_exact_slot split: if_splits)
next
  case (EvTransition f st)
  have "rn_services (snd (commit_fiber_transition f st rn)) = rn_services rn"
    "rn_next (snd (commit_fiber_transition f st rn)) = rn_next rn"
    using drift_commit_frame(3,5) by (auto simp: commit_fiber_transition_def Let_def split: prod.splits)
  with EvTransition assms show ?thesis
    by (auto simp: service_step_def occurrences_def slot_at_def intro: service_wf_cong)
qed

text \<open>
  An occurrence that left its slot never comes back.  Once an allocated occurrence is in no
  slot, no sequence of publications, payload changes, removals, withdrawals and lifecycle
  transitions puts it into one again; so a stale cleanup or capability stays inert for ever.
\<close>

theorem withdrawn_occurrence_never_returns:
  assumes "service_wf rn" and "gone < rn_next rn" and "gone \<notin> occurrences rn"
  shows "gone \<notin> occurrences (fold service_step es rn) \<and> service_wf (fold service_step es rn)"
  using assms
proof (induction es arbitrary: rn)
  case Nil
  then show ?case by simp
next
  case (Cons e es)
  from service_step_inv [OF Cons.prems(1), of e] Cons.prems(2,3)
  have "service_wf (service_step e rn)" "gone < rn_next (service_step e rn)" "gone \<notin> occurrences (service_step e rn)"
    by auto
  from Cons.IH [OF this] show ?case by simp
qed

theorem withdrawn_occurrence_never_returns_witness:
  "0 \<notin> occurrences (fold service_step [EvProvide demo_ctx ''cache'' 5 9, EvWithdraw 0 ''cache'' 1] demo_runtime)"
proof -
  have "0 < rn_next demo_runtime" "0 \<notin> occurrences demo_runtime"
    by (simp_all add: demo_runtime_def occurrences_def slot_at_def)
  from withdrawn_occurrence_never_returns [OF demo_runtime_wf(1) this] show ?thesis by blast
qed

section \<open>Visibility and rechecks\<close>

definition deps_exact :: "runtime \<Rightarrow> bool" where
  "deps_exact rn \<longleftrightarrow>
     index_exact (edges_at rn) (upgrades rn) {f \<in> set (snapshot_fibers (rn_registry rn)). alive_at rn f} (rn_deps rn) \<and>
     (\<forall>f \<in> set (snapshot_fibers (rn_registry rn)). upgrades rn f)"

text \<open>A live resident Fiber that depends on an edge.\<close>

definition dependent :: "runtime \<Rightarrow> dependency_edge \<Rightarrow> fid \<Rightarrow> bool" where
  "dependent rn e f \<longleftrightarrow> f \<in> set (snapshot_fibers (rn_registry rn)) \<and> alive_at rn f \<and> e \<in> set (edges_at rn f)"

definition committed_at :: "runtime \<Rightarrow> fid \<Rightarrow> u64" where
  "committed_at rn f = sl_committed (fb_slot (fiber_at rn f))"

lemma affected_by_exact:
  assumes "deps_exact rn"
  shows "distinct (affected_by es rn) \<and> set (affected_by es rn) = {f. \<exists>e \<in> set es. dependent rn e f}"
proof -
  have exact: "index_exact (edges_at rn) (upgrades rn) {f \<in> set (snapshot_fibers (rn_registry rn)). alive_at rn f} (rn_deps rn)"
    and up: "\<forall>f \<in> set (snapshot_fibers (rn_registry rn)). upgrades rn f"
    using assms by (simp_all add: deps_exact_def)
  obtain answer ix where d: "dependents_of (upgrades rn) es (rn_deps rn) = (answer, ix)" by force
  from dependents_of_exact [OF exact d] obtain fs where fs: "answer = Some fs" "distinct fs"
    "set fs = {f \<in> {f \<in> set (snapshot_fibers (rn_registry rn)). alive_at rn f}. upgrades rn f \<and> (\<exists>e \<in> set es. e \<in> set (edges_at rn f))}"
    by blast
  with d have "affected_by es rn = fs" by (simp add: affected_by_def dependents_for_edges_with_retention_def)
  with fs up show ?thesis by (auto simp: dependent_def)
qed

lemma drift_commits:
  assumes "deps_exact rn" and "drift_commit es rn = (fs, rn')" and "e \<in> set es" and "dependent rn e f"
  shows "committed_at rn' f = committed_at rn f + 1"
proof -
  from affected_by_exact [OF assms(1), of es] assms(3,4) have "count_list (affected_by es rn) f = 1"
    by (auto simp: count_list_distinct)
  moreover obtain x where "rn_heap rn f = Some x"
    using assms(4) by (auto simp: dependent_def alive_at_def split: option.splits)
  ultimately show ?thesis
    using drift_commit_frame(1) [OF assms(2)] drift_commit_frame(8) [OF assms(2), of f]
    by (simp add: committed_at_def fiber_at_def commit_slot_recheck_def commit_recheck_def)
qed


lemma committed_at_update:
  assumes "\<And>x. fb_slot (g x) = fb_slot x" and "upgrades rn f'"
  shows "committed_at (update_fiber f g rn) f' = committed_at rn f'"
  using assms by (auto simp: committed_at_def fiber_at_def update_fiber_def upgrades_def)

lemma committed_at_cong: "rn_heap rn' = rn_heap rn \<Longrightarrow> committed_at rn' f = committed_at rn f"
  by (simp add: committed_at_def fiber_at_def)

lemma dependent_upgrades: "dependent rn e f \<Longrightarrow> upgrades rn f"
  by (auto simp: dependent_def alive_at_def upgrades_def split: option.splits)

lemma occurrence_id_cong:
  assumes "slot_at rn' k n = slot_at rn k n"
    and "\<And>slot. slot_at rn k n = Some slot \<Longrightarrow> slot_visible rn' slot = slot_visible rn slot"
  shows "occurrence_id rn' k n = occurrence_id rn k n"
  using assms by (auto simp: occurrence_id_def split: option.splits)

lemma same_cores_upgrades: "same_cores rn rn' \<Longrightarrow> upgrades rn f \<Longrightarrow> upgrades rn' f"
  by (simp add: same_coresD)

lemma transition_commits:
  assumes exact: "deps_exact rn" and dep: "dependent rn (service, realm) f"
    and change: "occurrence_id (snd (commit_fiber_transition g st rn)) realm service \<noteq> occurrence_id rn realm service"
  shows "committed_at (snd (commit_fiber_transition g st rn)) f = committed_at rn f + 1"
proof -
  let ?vis = "map (\<lambda>((key, name), slot). (name, key, ss_occurrence slot)) (slots_owned_by g rn)"
  let ?es = "map (\<lambda>(name, key, _). (name, key)) ?vis"
  obtain fs rn1 where d: "drift_commit ?es rn = (fs, rn1)" by force
  note frame = drift_commit_frame [OF d]
  let ?base = "if ?vis = [] then rn else rn1"
  have eq: "snd (commit_fiber_transition g st rn) = update_fiber g (set_state st) ?base"
    using d by (simp add: commit_fiber_transition_def Let_def)
  have cores: "same_cores rn ?base" using frame(2) by simp
  have slots: "slot_at ?base = slot_at rn" using drift_commit_slots [OF d] by simp
  have "(service, realm) \<in> set ?es"
  proof (rule ccontr)
    assume other: "(service, realm) \<notin> set ?es"
    have foreign: "ss_fiber slot \<noteq> g" if "slot_at rn realm service = Some slot" for slot
    proof
      assume "ss_fiber slot = g"
      with that have "((realm, service), slot) \<in> set (slots_owned_by g rn)"
        by (auto simp: slots_owned_by_def slot_at_def dest: map_of_SomeD)
      with other show False by force
    qed
    have "slot_visible (update_fiber g (set_state st) ?base) slot = slot_visible rn slot" if "ss_fiber slot \<noteq> g" for slot
      using that same_coresD(4) [OF cores, of slot] by (simp add: slot_visible_def update_fiber_def)
    with foreign slots have "occurrence_id (update_fiber g (set_state st) ?base) realm service = occurrence_id rn realm service"
      by (intro occurrence_id_cong) simp_all
    with change eq show False by simp
  qed
  moreover from this have "?vis \<noteq> []" by auto
  ultimately have "committed_at ?base f = committed_at rn f + 1"
    using drift_commits [OF exact d _ dep] by simp
  moreover have "upgrades ?base f" using same_cores_upgrades [OF cores] dependent_upgrades [OF dep] by simp
  moreover have "fb_slot (set_state st x) = fb_slot x" for x
    by (simp add: set_state_def split: option.splits)
  ultimately show ?thesis unfolding eq by (subst committed_at_update) simp_all
qed


lemma affected_by_next [simp]: "affected_by es (rn\<lparr>rn_next := n\<rparr>) = affected_by es rn"
proof -
  have "alive_at (rn\<lparr>rn_next := n\<rparr>) = alive_at rn" "edges_at (rn\<lparr>rn_next := n\<rparr>) = edges_at rn"
    "upgrades (rn\<lparr>rn_next := n\<rparr>) = upgrades rn"
    by (simp_all add: fun_eq_iff alive_at_def edges_at_def upgrades_def)
  then show ?thesis by (simp add: affected_by_def)
qed

lemma provide_commits:
  assumes exact: "deps_exact rn" and wf: "service_wf rn" and up: "upgrades rn (cx_fiber cx)"
    and dep: "dependent rn (service, realm) f"
    and change: "occurrence_id (snd (provide cx name S payload rn0 rn)) realm service \<noteq> occurrence_id rn realm service"
  shows "committed_at (snd (provide cx name S payload rn0 rn)) f = committed_at rn f + 1"
proof -
  have ready: "publish_ready (cx_fiber cx) rn" using wf up by (simp add: publish_ready_def)
  obtain r rn' where p: "provide cx name S payload rn0 rn = (r, rn')" by force
  show ?thesis
  proof (cases r)
    case (Inl e)
    with provide_refused [OF ready] p have "rn' = rn\<lparr>rn_next := Suc (rn_next rn)\<rparr>" by blast
    then have "slot_at rn' k n = slot_at rn k n" "slot_visible rn' slot = slot_visible rn slot" for k n slot
      by (simp_all add: slot_at_def slot_visible_def)
    then have "occurrence_id rn' realm service = occurrence_id rn realm service"
      by (intro occurrence_id_cong)
    with change p show ?thesis by simp
  next
    case (Inr pub)
    with p have p': "provide cx name S payload rn0 rn = (Inr pub, rn')" by simp
    let ?key = "isolate_key cx name" and ?o = "cx_fiber cx" and ?rn1 = "rn\<lparr>rn_next := Suc (rn_next rn)\<rparr>"
    let ?slot = "\<lparr>ss_occurrence = rn_next rn, ss_value = payload, ss_contract = S, ss_fiber = ?o\<rparr>"
    obtain rn2 drift j where i: "install ?o ?slot ?key name ?rn1 = (Inr (slot_at rn ?key name, drift), rn2)"
      and heap: "rn_heap rn' = rn_heap (put_runtime_journal ?o j rn2)"
      by (rule provide_committed [OF ready p']) blast
    note c = install_committed [OF i] and store = provide_committed_store [OF ready p']
    have up2: "upgrades rn2 ?o"
      using up same_coresD(1) [OF c(4), of ?o] by (simp add: upgrades_def)
    have jr: "map_option fb_slot (rn_heap rn' h) = map_option fb_slot (rn_heap rn2 h)" for h
      using up2 by (auto simp: heap put_runtime_journal_def fiber_at_def upgrades_def)
    have vis: "slot_visible rn' s = slot_visible rn s" for s
    proof -
      have "slot_visible rn' s = slot_visible rn2 s"
        using up2 by (auto simp: slot_visible_def heap put_runtime_journal_def fiber_at_def upgrades_def
            is_alive_def current_state_def)
      also have "\<dots> = slot_visible ?rn1 s" by (rule same_coresD(4) [OF c(4)])
      finally show ?thesis by (simp add: slot_visible_def)
    qed
    have here: "realm = ?key \<and> service = name"
    proof (rule ccontr)
      assume "\<not> (realm = ?key \<and> service = name)"
      with store(2) vis have "occurrence_id rn' realm service = occurrence_id rn realm service"
        by (intro occurrence_id_cong) auto
      with change p show False by simp
    qed
    have "occurrence_id rn ?key name = None"
      using store(1) by (auto simp: occurrence_id_def occupied_def slot_visible_def alive_at_def split: option.splits)
    with change p here have "occurrence_id rn' ?key name \<noteq> None" by simp
    with store(2) vis have "slot_visible rn ?slot" by (auto simp: occurrence_id_def split: if_splits)
    then have "current_state (fiber_at rn ?o) = Active"
      by (auto simp: slot_visible_def fiber_at_def split: option.splits)
    with c(3) have drift: "drift = Some (affected_by [(name, ?key)] rn)"
      by (simp add: fiber_at_def)
    have "count_list (affected_by [(name, ?key)] rn) f = 1"
      using affected_by_exact [OF exact, of "[(name, ?key)]"] dep here by (auto simp: count_list_distinct)
    moreover obtain x where "rn_heap rn f = Some x"
      using dependent_upgrades [OF dep] by (auto simp: upgrades_def)
    ultimately have "rn_heap rn2 f = Some (commit_slot_recheck x)" "rn_heap rn f = Some x"
      using c(9) [of f] drift by simp_all
    with jr [of f] p show ?thesis
      by (auto simp: committed_at_def fiber_at_def commit_slot_recheck_def commit_recheck_def)
  qed
qed

lemma remove_commits:
  assumes exact: "deps_exact rn" and dep: "dependent rn (service, realm) f"
    and owner: "map_option ss_fiber (slot_at rn (pb_key p) (pb_name p)) \<in> {None, Some (pb_owner p)}"
    and change: "occurrence_id (snd (publication_remove p rn)) realm service \<noteq> occurrence_id rn realm service"
  shows "committed_at (snd (publication_remove p rn)) f = committed_at rn f + 1"
proof -
  obtain fs rn1 where d: "drift_commit [(pb_name p, pb_key p)] rn = (fs, rn1)" by force
  note frame = drift_commit_frame [OF d]
  have settled: "is_current p rn \<and> admits rn (pb_owner p)"
    using change by (auto simp: publication_remove_def remove_exact_def is_current_def split: option.splits if_splits)
  then obtain slot where slot: "slot_at rn (pb_key p) (pb_name p) = Some slot" "ss_occurrence slot = pb_occurrence p"
    by (auto simp: is_current_def split: option.splits)
  with owner have mine: "ss_fiber slot = pb_owner p" by simp
  let ?active = "current_state (fiber_at rn (pb_owner p)) = Active"
  let ?base = "if ?active then rn1 else rn"
  let ?done = "update_fiber (pb_owner p) (\<lambda>f. snd (remove_disposable (pb_cleanup p) f)) (drop_slot (pb_key p) (pb_name p) ?base)"
  have heap: "rn_heap (snd (publication_remove p rn)) = rn_heap ?done"
    using settled slot d by (simp add: publication_remove_def remove_exact_def)
  have cores: "same_cores rn ?base" using frame(2) by simp
  have slotpres: "fb_slot (snd (remove_disposable t x)) = fb_slot x \<and> is_alive (snd (remove_disposable t x)) = is_alive x \<and>
      current_state (snd (remove_disposable t x)) = current_state x" for t x
    by (simp add: remove_disposable_def is_alive_def current_state_def case_prod_beta)
  have vis: "slot_visible (snd (publication_remove p rn)) s = slot_visible rn s" for s
  proof -
    have "slot_visible (snd (publication_remove p rn)) s = slot_visible ?base s"
      unfolding slot_visible_def heap using slotpres
      by (auto simp: update_fiber_def drop_slot_def split: option.splits)
    also have "\<dots> = slot_visible rn s" by (rule same_coresD(4) [OF cores])
    finally show ?thesis .
  qed
  have here: "realm = pb_key p \<and> service = pb_name p"
  proof (rule ccontr)
    assume "\<not> (realm = pb_key p \<and> service = pb_name p)"
    with vis have "occurrence_id (snd (publication_remove p rn)) realm service = occurrence_id rn realm service"
      by (intro occurrence_id_cong) (auto simp: remove_exact_slot)
    with change show False by simp
  qed
  have "occurrence_id (snd (publication_remove p rn)) (pb_key p) (pb_name p) = None"
    using settled by (simp add: occurrence_id_def remove_exact_slot)
  with change here have "occurrence_id rn (pb_key p) (pb_name p) \<noteq> None" by simp
  with slot mine have active: ?active
    by (auto simp: occurrence_id_def slot_visible_def fiber_at_def split: option.splits if_splits)
  from drift_commits [OF exact d _ dep] here have "committed_at rn1 f = committed_at rn f + 1" by simp
  moreover have "upgrades rn1 f"
    using same_cores_upgrades [OF frame(2)] dependent_upgrades [OF dep] by simp
  then have "committed_at ?done f = committed_at rn1 f"
    using active slotpres by (simp add: committed_at_update upgrades_def drop_slot_def)
      (simp add: committed_at_def fiber_at_def)
  ultimately show ?thesis using committed_at_cong [OF heap] by simp
qed

definition owns_publication :: "service_event \<Rightarrow> runtime \<Rightarrow> bool" where
  "owns_publication e rn =
     (case e of
        EvRemove p \<Rightarrow> map_option ss_fiber (slot_at rn (pb_key p) (pb_name p)) \<in> {None, Some (pb_owner p)}
      | EvWithdraw _ _ _ \<Rightarrow> False
      | _ \<Rightarrow> True)"



text \<open>A Runtime with one live dependent of ''db'' in realm 0, and the Root as the publisher.\<close>

definition waiting_fiber :: fiber where
  "waiting_fiber = fiber_new_with_edges ''app'' [(''db'', 0)]"

definition waiting_registry :: registry where
  "waiting_registry = the (attach_fiber (AnonymousKey 7) 1 registry_new)"

definition waiting_runtime :: runtime where
  "waiting_runtime =
     demo_runtime\<lparr>rn_heap := (rn_heap demo_runtime)(1 := Some waiting_fiber), rn_next := 2,
       rn_registry := waiting_registry,
       rn_deps := deps_register (\<lambda>_. True) (\<lambda>_. [(''db'', 0)]) 1 dependency_index_new\<rparr>"

lemma waiting_residents: "snapshot_fibers waiting_registry = [1]"
  by code_simp

lemma waiting_edges: "fb_edges waiting_fiber = [(''db'', 0)]" "is_alive waiting_fiber"
  by code_simp+

lemma waiting_exact: "deps_exact waiting_runtime"
proof -
  have rn: "rn_registry waiting_runtime = waiting_registry"
    "rn_heap waiting_runtime = (rn_heap demo_runtime)(1 := Some waiting_fiber)"
    "rn_deps waiting_runtime = deps_register (\<lambda>_. True) (\<lambda>_. [(''db'', 0)]) 1 dependency_index_new"
    by (simp_all add: waiting_runtime_def)
  have views: "edges_at waiting_runtime 1 = [(''db'', 0)]" "alive_at waiting_runtime 1" "upgrades waiting_runtime 1"
    by (simp_all add: edges_at_def alive_at_def upgrades_def rn waiting_edges)
  then have live: "{f \<in> set (snapshot_fibers (rn_registry waiting_runtime)). alive_at waiting_runtime f} = {1}"
    by (auto simp: rn waiting_residents)
  have rows: "rows e (di_reverse (rn_deps waiting_runtime)) = (if e = (''db'', 0) then [1] else [])" for e
    by (simp add: rn deps_register_def rows_fold_push dependency_index_new_def) (simp add: rows_def push_row_def)
  have wf: "di_complete (rn_deps waiting_runtime)" "hm_wf (di_reverse (rn_deps waiting_runtime))"
    using index_exact_register [OF index_exact_new, of "\<lambda>_. [(''db'', 0)]" "\<lambda>_. True" "\<lambda>_. True" 1]
    by (simp_all add: rn index_exact_def)
  show ?thesis
    unfolding deps_exact_def index_exact_def live
    unfolding rows rn(1) waiting_residents using wf views by auto
qed


end
