(* ===== verification/Settle_Ctx.thy ===== *)
theory Settle_Ctx
  imports Cordis_Prelude
begin

text \<open>
  Exact attribution of lifecycle recursion (\<open>crates/cordis-core/src/fiber/settle_ctx.rs\<close>):
  which Fibers are being settled or own the running task, carried in a task-local value, and
  the refusal of the operations that could never return.

  A frame's shared \<open>AtomicBool\<close> is a cell of the store \<open>at_live\<close>.  A task has a stack of
  task-local scopes (\<open>SETTLE_CTX.scope\<close>) and a stack of open guards, innermost first; a guard
  is closed on return, unwinding and cancellation alike, always innermost first, because each
  of them lives in the future of the one around it.
\<close>

datatype lifecycle_operation = OpReady | OpWaitState | OpRestart | OpUpdate | OpEraSwap | OpDispose | OpRemovePlugins

record lifecycle_recursion =
  lr_operation :: lifecycle_operation
  lr_fiber :: fid

record attribution_frame =
  af_fiber :: fid
  af_cell :: ident

record settle_ctx =
  sx_settling :: "attribution_frame list"
  sx_run_owner :: "attribution_frame option"

definition settle_ctx_default :: settle_ctx where
  "settle_ctx_default = \<lparr>sx_settling = [], sx_run_owner = None\<rparr>"

datatype opened =
    NestedBracket attribution_frame \<comment> \<open>\<open>pop_nested = true\<close>\<close>
  | ScopedBracket attribution_frame
  | RunTask attribution_frame
  | Attribution settle_ctx

record att =
  at_live :: "ident \<Rightarrow> bool" \<comment> \<open>the frames' cells\<close>
  at_next :: ident
  at_scopes :: "ident \<Rightarrow> settle_ctx list"
  at_open :: "ident \<Rightarrow> opened list"

section \<open>Frames and refusal\<close>

definition frame_new :: "fid \<Rightarrow> att \<Rightarrow> attribution_frame \<times> att" where
  "frame_new f st =
     (\<lparr>af_fiber = f, af_cell = at_next st\<rparr>,
      st\<lparr>at_live := (at_live st)(at_next st := True), at_next := Suc (at_next st)\<rparr>)"

definition is_active_for :: "att \<Rightarrow> fid \<Rightarrow> attribution_frame \<Rightarrow> bool" where
  "is_active_for st f fr \<longleftrightarrow> at_live st (af_cell fr) \<and> af_fiber fr = f"

definition deactivate :: "attribution_frame \<Rightarrow> att \<Rightarrow> att" where
  "deactivate fr st = st\<lparr>at_live := (at_live st)(af_cell fr := False)\<rparr>"

text \<open>\<open>draining\<close> is the target Fiber's flag.\<close>

fun run_task_wait_is_doomed :: "bool \<Rightarrow> lifecycle_operation \<Rightarrow> bool" where
  "run_task_wait_is_doomed draining OpReady = draining"
| "run_task_wait_is_doomed draining OpWaitState = draining"
| "run_task_wait_is_doomed draining OpRestart = True"
| "run_task_wait_is_doomed draining OpUpdate = True"
| "run_task_wait_is_doomed draining OpEraSwap = True"
| "run_task_wait_is_doomed draining OpDispose = True"
| "run_task_wait_is_doomed draining OpRemovePlugins = True"

definition is_doomed :: "ident \<Rightarrow> fid \<Rightarrow> bool \<Rightarrow> lifecycle_operation \<Rightarrow> att \<Rightarrow> bool" where
  "is_doomed t f draining op st =
     (case at_scopes st t of
        [] \<Rightarrow> False
      | cx # _ \<Rightarrow>
          list_ex (is_active_for st f) (sx_settling cx) \<or>
          (case sx_run_owner cx of None \<Rightarrow> False | Some fr \<Rightarrow> is_active_for st f fr) \<and>
            run_task_wait_is_doomed draining op)"

definition refuse_recursion ::
  "ident \<Rightarrow> fid \<Rightarrow> bool \<Rightarrow> lifecycle_operation \<Rightarrow> att \<Rightarrow> lifecycle_recursion + unit" where
  "refuse_recursion t f draining op st =
     (if is_doomed t f draining op st then Inl \<lparr>lr_operation = op, lr_fiber = f\<rparr> else Inr ())"

definition capture_attribution :: "ident \<Rightarrow> att \<Rightarrow> settle_ctx" where
  "capture_attribution t st = (case at_scopes st t of [] \<Rightarrow> settle_ctx_default | cx # _ \<Rightarrow> cx)"

section \<open>Scopes and guards\<close>

definition push_open :: "ident \<Rightarrow> opened \<Rightarrow> att \<Rightarrow> att" where
  "push_open t g st = st\<lparr>at_open := (at_open st)(t := g # at_open st t)\<rparr>"

definition set_scopes :: "ident \<Rightarrow> settle_ctx list \<Rightarrow> att \<Rightarrow> att" where
  "set_scopes t scopes st = st\<lparr>at_scopes := (at_scopes st)(t := scopes)\<rparr>"

definition enter_attribution :: "ident \<Rightarrow> settle_ctx \<Rightarrow> att \<Rightarrow> att" where
  "enter_attribution t cx st = push_open t (Attribution cx) (set_scopes t (cx # at_scopes st t) st)"

definition bracket_enter :: "ident \<Rightarrow> fid \<Rightarrow> att \<Rightarrow> att" where
  "bracket_enter t f st =
     (case frame_new f st of
        (fr, st1) \<Rightarrow>
          (case at_scopes st1 t of
             cx # outer \<Rightarrow>
               push_open t (NestedBracket fr)
                 (set_scopes t (cx\<lparr>sx_settling := sx_settling cx @ [fr]\<rparr> # outer) st1)
           | [] \<Rightarrow>
               push_open t (ScopedBracket fr)
                 (set_scopes t [\<lparr>sx_settling = [fr], sx_run_owner = None\<rparr>] st1)))"

definition run_task_enter :: "ident \<Rightarrow> fid \<Rightarrow> att \<Rightarrow> att" where
  "run_task_enter t f st =
     (case frame_new f st of
        (fr, st1) \<Rightarrow>
          push_open t (RunTask fr)
            (set_scopes t (\<lparr>sx_settling = [], sx_run_owner = Some fr\<rparr> # at_scopes st1 t) st1))"

text \<open>The innermost scope or guard of a task ends (\<open>SettleFrameGuard::drop\<close>).\<close>

definition guard_drop :: "ident \<Rightarrow> att \<Rightarrow> att" where
  "guard_drop t st =
     (case at_open st t of
        [] \<Rightarrow> st
      | g # rest \<Rightarrow>
          (let st1 = st\<lparr>at_open := (at_open st)(t := rest)\<rparr>; scopes = at_scopes st t in
           case g of
             NestedBracket fr \<Rightarrow>
               set_scopes t
                 (case scopes of [] \<Rightarrow> [] | cx # outer \<Rightarrow> cx\<lparr>sx_settling := butlast (sx_settling cx)\<rparr> # outer)
                 (deactivate fr st1)
           | ScopedBracket fr \<Rightarrow> set_scopes t (tl scopes) (deactivate fr st1)
           | RunTask fr \<Rightarrow> set_scopes t (tl scopes) (deactivate fr st1)
           | Attribution _ \<Rightarrow> set_scopes t (tl scopes) st1))"

definition att_init :: att where
  "att_init = \<lparr>at_live = (\<lambda>_. False), at_next = 0, at_scopes = (\<lambda>_. []), at_open = (\<lambda>_. [])\<rparr>"

text \<open>Any task may open and close scopes; an attribution was captured on some task before.\<close>

definition known :: "att \<Rightarrow> settle_ctx \<Rightarrow> bool" where
  "known st cx \<longleftrightarrow>
     (\<forall>fr \<in> set (sx_settling cx) \<union> set_option (sx_run_owner cx). af_cell fr < at_next st)"

inductive att_step :: "att \<Rightarrow> att \<Rightarrow> bool" where
  att_bracket: "att_step st (bracket_enter t f st)"
| att_run: "att_step st (run_task_enter t f st)"
| att_transfer: "known st cx \<Longrightarrow> att_step st (enter_attribution t cx st)"
| att_drop: "att_step st (guard_drop t st)"

inductive_cases att_stepE: "att_step st st'"

section \<open>The invariant\<close>

fun opened_frame :: "opened \<Rightarrow> attribution_frame option" where
  "opened_frame (NestedBracket fr) = Some fr"
| "opened_frame (ScopedBracket fr) = Some fr"
| "opened_frame (RunTask fr) = Some fr"
| "opened_frame (Attribution _) = None"

text \<open>The scopes a task's open guards have built.\<close>

fun scopes_of :: "opened list \<Rightarrow> settle_ctx list" where
  "scopes_of [] = []"
| "scopes_of (NestedBracket fr # gs) =
     (case scopes_of gs of [] \<Rightarrow> [] | cx # outer \<Rightarrow> cx\<lparr>sx_settling := sx_settling cx @ [fr]\<rparr> # outer)"
| "scopes_of (ScopedBracket fr # gs) = \<lparr>sx_settling = [fr], sx_run_owner = None\<rparr> # scopes_of gs"
| "scopes_of (RunTask fr # gs) = \<lparr>sx_settling = [], sx_run_owner = Some fr\<rparr> # scopes_of gs"
| "scopes_of (Attribution cx # gs) = cx # scopes_of gs"

definition open_cells :: "att \<Rightarrow> ident \<Rightarrow> ident list" where
  "open_cells st t = map af_cell (List.map_filter opened_frame (at_open st t))"

text \<open>
  Every scope is the one its guards built, and a cell is set exactly while the one guard that
  created it is open.
\<close>

definition att_inv :: "att \<Rightarrow> bool" where
  "att_inv st \<longleftrightarrow>
     (\<forall>t. at_scopes st t = scopes_of (at_open st t)) \<and>
     (\<forall>t. distinct (open_cells st t)) \<and>
     (\<forall>t t' c. c \<in> set (open_cells st t) \<longrightarrow> c \<in> set (open_cells st t') \<longrightarrow> t = t') \<and>
     (\<forall>c. at_live st c \<longleftrightarrow> (\<exists>t. c \<in> set (open_cells st t))) \<and>
     (\<forall>c. at_live st c \<longrightarrow> c < at_next st)"

lemma att_inv_init: "att_inv att_init"
  by (simp add: att_inv_def att_init_def open_cells_def List.map_filter_def)

lemma open_cells_push [simp]:
  "open_cells (push_open t g st) t' =
     (if t' = t then (case opened_frame g of None \<Rightarrow> [] | Some fr \<Rightarrow> [af_cell fr]) @ open_cells st t'
      else open_cells st t')"
  by (simp add: open_cells_def push_open_def List.map_filter_def split: option.split)

lemma att_frames [simp]:
  "open_cells (set_scopes t s st) = open_cells st" "at_live (set_scopes t s st) = at_live st"
  "at_next (set_scopes t s st) = at_next st" "at_open (set_scopes t s st) = at_open st"
  "at_scopes (set_scopes t s st) = (at_scopes st)(t := s)"
  "at_live (push_open t g st) = at_live st" "at_next (push_open t g st) = at_next st"
  "at_scopes (push_open t g st) = at_scopes st" "at_open (push_open t g st) = (at_open st)(t := g # at_open st t)"
  by (simp_all add: set_scopes_def push_open_def open_cells_def fun_eq_iff)

lemma frame_new_simps [simp]:
  "frame_new f st = (\<lparr>af_fiber = f, af_cell = at_next st\<rparr>,
      st\<lparr>at_live := (at_live st)(at_next st := True), at_next := Suc (at_next st)\<rparr>)"
  "open_cells (st\<lparr>at_live := l, at_next := n\<rparr>) = open_cells st"
  by (simp_all add: frame_new_def open_cells_def fun_eq_iff)

text \<open>Opening a guard with a fresh frame.\<close>

lemma att_inv_open:
  assumes inv: "att_inv st" and g: "opened_frame g = Some \<lparr>af_fiber = f, af_cell = at_next st\<rparr>"
    and scopes: "scopes = scopes_of (g # at_open st t)"
  shows "att_inv (push_open t g (set_scopes t scopes
           (st\<lparr>at_live := (at_live st)(at_next st := True), at_next := Suc (at_next st)\<rparr>)))"
    (is "att_inv ?st")
proof -
  have fresh: "at_next st \<notin> set (open_cells st t')" for t'
    using inv unfolding att_inv_def by blast
  have cells: "set (open_cells ?st t') = (if t' = t then insert (at_next st) (set (open_cells st t)) else set (open_cells st t'))" for t'
    by (simp add: g)
  have live: "at_live ?st c \<longleftrightarrow> (\<exists>t'. c \<in> set (open_cells ?st t'))" for c
    using inv fresh unfolding cells att_inv_def by (cases "c = at_next st") (auto, metis)
  have unique: "t1 = t2" if "c \<in> set (open_cells ?st t1)" "c \<in> set (open_cells ?st t2)" for t1 t2 c
    using that inv fresh unfolding cells att_inv_def by (auto split: if_splits)
  have below: "c < at_next ?st" if "at_live ?st c" for c
    using that inv unfolding att_inv_def by (auto intro: less_SucI split: if_splits)
  have "distinct (open_cells ?st t')" for t'
    using inv fresh unfolding att_inv_def by (simp add: g)
  moreover have "at_scopes ?st t' = scopes_of (at_open ?st t')" for t'
    using inv unfolding att_inv_def by (simp add: scopes)
  ultimately show ?thesis
    unfolding att_inv_def using live unique below by blast
qed

lemma att_inv_enter_attribution: "att_inv st \<Longrightarrow> att_inv (enter_attribution t cx st)"
  unfolding att_inv_def enter_attribution_def by (auto split: if_splits)

lemma att_inv_bracket: "att_inv st \<Longrightarrow> att_inv (bracket_enter t f st)"
proof -
  assume inv: "att_inv st"
  then have s: "at_scopes st t = scopes_of (at_open st t)" by (simp add: att_inv_def)
  show ?thesis
  proof (cases "at_scopes st t")
    case Nil
    with att_inv_open [OF inv, of "ScopedBracket \<lparr>af_fiber = f, af_cell = at_next st\<rparr>" f _ t] s
    show ?thesis by (simp add: bracket_enter_def)
  next
    case (Cons cx outer)
    from Cons s have "scopes_of (at_open st t) = cx # outer" by simp
    with att_inv_open [OF inv, of "NestedBracket \<lparr>af_fiber = f, af_cell = at_next st\<rparr>" f _ t] Cons
    show ?thesis by (simp add: bracket_enter_def)
  qed
qed

lemma att_inv_run: "att_inv st \<Longrightarrow> att_inv (run_task_enter t f st)"
proof -
  assume inv: "att_inv st"
  then have "at_scopes st t = scopes_of (at_open st t)" by (simp add: att_inv_def)
  with att_inv_open [OF inv, of "RunTask \<lparr>af_fiber = f, af_cell = at_next st\<rparr>" f _ t]
  show ?thesis by (simp add: run_task_enter_def)
qed

lemma att_inv_close:
  assumes inv: "att_inv st" and o: "at_open st t = g # rest" and g: "opened_frame g = Some fr"
    and scopes: "scopes = scopes_of rest"
  shows "att_inv (set_scopes t scopes (deactivate fr (st\<lparr>at_open := (at_open st)(t := rest)\<rparr>)))"
proof -
  have cells: "open_cells st t = af_cell fr # map af_cell (List.map_filter opened_frame rest)"
    by (simp add: open_cells_def o List.map_filter_simps g)
  have cells': "open_cells (deactivate fr (st\<lparr>at_open := (at_open st)(t := rest)\<rparr>)) t' =
      (if t' = t then map af_cell (List.map_filter opened_frame rest) else open_cells st t')" for t'
    by (simp add: open_cells_def deactivate_def)
  let ?st = "set_scopes t scopes (deactivate fr (st\<lparr>at_open := (at_open st)(t := rest)\<rparr>))"
  have d: "distinct (open_cells st t)" and only: "af_cell fr \<in> set (open_cells st t') \<Longrightarrow> t' = t" for t'
    using inv cells unfolding att_inv_def by (blast, metis list.set_intros(1))
  have live: "at_live st c \<longleftrightarrow> (\<exists>t. c \<in> set (open_cells st t))" for c using inv by (simp add: att_inv_def)
  have set': "set (open_cells ?st t') = set (open_cells st t') - {af_cell fr}" for t'
  proof (cases "t' = t")
    case True
    with d cells show ?thesis by (simp add: cells')
  next
    case False
    with only [of t'] show ?thesis by (auto simp: cells')
  qed
  have "at_live ?st c \<longleftrightarrow> (\<exists>t. c \<in> set (open_cells ?st t))" for c
    unfolding set' using live [of c] by (auto simp: deactivate_def)
  moreover have "distinct (open_cells ?st t')" for t'
    using inv d cells unfolding att_inv_def by (simp add: cells')
  moreover have "at_scopes ?st t' = scopes_of (at_open ?st t')" for t'
    using inv unfolding att_inv_def by (simp add: scopes deactivate_def)
  moreover have "c < at_next ?st" if "at_live ?st c" for c
    using that inv unfolding att_inv_def by (simp add: deactivate_def split: if_splits)
  moreover have "t1 = t2" if "c \<in> set (open_cells ?st t1)" "c \<in> set (open_cells ?st t2)" for t1 t2 c
    using that inv unfolding set' att_inv_def by blast
  ultimately show ?thesis unfolding att_inv_def by blast
qed

lemma att_inv_drop: "att_inv st \<Longrightarrow> att_inv (guard_drop t st)"
proof -
  assume inv: "att_inv st"
  then have s: "at_scopes st t = scopes_of (at_open st t)" by (simp add: att_inv_def)
  show ?thesis
  proof (cases "at_open st t")
    case Nil
    with inv show ?thesis by (simp add: guard_drop_def)
  next
    case (Cons g rest)
    note close = att_inv_close [OF inv Cons]
    show ?thesis
    proof (cases g)
      case (NestedBracket fr)
      have "(case at_scopes st t of [] \<Rightarrow> [] | cx # outer \<Rightarrow> cx\<lparr>sx_settling := butlast (sx_settling cx)\<rparr> # outer) = scopes_of rest"
        using Cons s NestedBracket by (simp split: list.split)
      with Cons NestedBracket close show ?thesis by (simp add: guard_drop_def Let_def)
    next
      case (ScopedBracket fr)
      with Cons s close show ?thesis by (simp add: guard_drop_def Let_def)
    next
      case (RunTask fr)
      with Cons s close show ?thesis by (simp add: guard_drop_def Let_def)
    next
      case (Attribution cx)
      have "open_cells (st\<lparr>at_open := (at_open st)(t := rest)\<rparr>) = open_cells st"
        using Cons Attribution by (auto simp: open_cells_def List.map_filter_simps)
      with inv Cons Attribution s show ?thesis
        by (simp add: guard_drop_def Let_def att_inv_def)
    qed
  qed
qed

definition all_known :: "att \<Rightarrow> bool" where
  "all_known st \<longleftrightarrow> (\<forall>t. \<forall>cx \<in> set (at_scopes st t). known st cx)"

lemma known_mono: "known st cx \<Longrightarrow> at_next st \<le> at_next st' \<Longrightarrow> known st' cx"
  unfolding known_def by force

lemma all_known_step: "all_known st \<Longrightarrow> att_step st st' \<Longrightarrow> all_known st'"
proof -
  assume k: "all_known st" and "att_step st st'"
  have kept: "known st' cx" if "cx \<in> set (at_scopes st u)" "at_next st \<le> at_next st'" for cx u
    using k that known_mono unfolding all_known_def by blast
  from \<open>att_step st st'\<close> show ?thesis
  proof cases
    case (att_bracket t f)
    let ?fr = "\<lparr>af_fiber = f, af_cell = at_next st\<rparr>"
    have grown: "at_next st' = Suc (at_next st)"
      by (simp add: att_bracket bracket_enter_def split: list.split)
    have "set (at_scopes st' u) \<subseteq> set (at_scopes st u) \<union> {\<lparr>sx_settling = [?fr], sx_run_owner = None\<rparr>} \<union>
        {cx\<lparr>sx_settling := sx_settling cx @ [?fr]\<rparr> | cx. cx \<in> set (at_scopes st t)}" for u
      by (auto simp: att_bracket bracket_enter_def split: list.splits if_splits)
    moreover have "known st' \<lparr>sx_settling = [?fr], sx_run_owner = None\<rparr>"
      by (simp add: known_def grown)
    moreover have "known st' (cx\<lparr>sx_settling := sx_settling cx @ [?fr]\<rparr>)" if "cx \<in> set (at_scopes st t)" for cx
      using kept [OF that] by (auto simp: known_def grown)
    moreover have "known st' cx" if "cx \<in> set (at_scopes st u)" for cx u using kept [OF that] grown by simp
    ultimately show ?thesis unfolding all_known_def by (blast dest: subsetD)
  next
    case (att_run t f)
    have grown: "at_next st' = Suc (at_next st)" by (simp add: att_run run_task_enter_def)
    have "set (at_scopes st' u) \<subseteq> insert \<lparr>sx_settling = [], sx_run_owner = Some \<lparr>af_fiber = f, af_cell = at_next st\<rparr>\<rparr>
        (set (at_scopes st u))" for u
      by (auto simp: att_run run_task_enter_def split: if_splits)
    moreover have "known st' \<lparr>sx_settling = [], sx_run_owner = Some \<lparr>af_fiber = f, af_cell = at_next st\<rparr>\<rparr>"
      by (simp add: known_def grown)
    moreover have "known st' cx" if "cx \<in> set (at_scopes st u)" for cx u using kept [OF that] grown by simp
    ultimately show ?thesis unfolding all_known_def by (blast dest: subsetD)
  next
    case (att_transfer cx t)
    have "set (at_scopes st' u) \<subseteq> insert cx (set (at_scopes st u))" "at_next st' = at_next st" for u
      by (auto simp: att_transfer enter_attribution_def split: if_splits)
    moreover from this(2) have "known st' cx" using att_transfer(2) by (simp add: known_def)
    moreover have "known st' cx" if "cx \<in> set (at_scopes st u)" for cx u
      using kept [OF that] \<open>at_next st' = at_next st\<close> by simp
    ultimately show ?thesis unfolding all_known_def by (blast dest: subsetD)
  next
    case (att_drop t)
    have next_same: "at_next st' = at_next st"
      by (simp add: att_drop guard_drop_def Let_def deactivate_def split: list.split opened.split)
    have "set (at_scopes st' u) \<subseteq> set (at_scopes st u) \<union>
        {cx\<lparr>sx_settling := butlast (sx_settling cx)\<rparr> | cx. cx \<in> set (at_scopes st u)}" for u
      by (auto simp: att_drop guard_drop_def Let_def deactivate_def dest: list.set_sel(2) split: list.splits opened.splits if_splits)
    moreover have "known st' cx \<and> known st' (cx\<lparr>sx_settling := butlast (sx_settling cx)\<rparr>)" if "known st cx" for cx
      using that by (auto simp: known_def next_same dest: in_set_butlastD)
    ultimately show ?thesis using k unfolding all_known_def by blast
  qed
qed

interpretation attribution: invariant_system "\<lambda>st. st = att_init" att_step "\<lambda>st. att_inv st \<and> all_known st"
proof
  show "att_inv s \<and> all_known s" if "s = att_init" for s
    using that att_inv_init by (simp add: all_known_def att_init_def)
  show "att_inv t \<and> all_known t" if "att_inv s \<and> all_known s" and "att_step s t" for s t
    using that(2,1) all_known_step [OF _ that(2)]
    by cases (simp_all add: att_inv_bracket att_inv_run att_inv_enter_attribution att_inv_drop)
qed

section \<open>Refusal is exact\<close>

text \<open>The Fibers whose settle or teardown body the current scope of a task is known to run
  inside, and the owner of its task, as far as those bodies still run (on any task).\<close>

definition running :: "att \<Rightarrow> attribution_frame \<Rightarrow> bool" where
  "running st fr \<longleftrightarrow> (\<exists>t. af_cell fr \<in> set (open_cells st t))"

definition inside :: "att \<Rightarrow> ident \<Rightarrow> fid set" where
  "inside st t = {af_fiber fr | fr. fr \<in> set (sx_settling (capture_attribution t st)) \<and> running st fr}"

definition task_owner :: "att \<Rightarrow> ident \<Rightarrow> fid set" where
  "task_owner st t = {af_fiber fr | fr. sx_run_owner (capture_attribution t st) = Some fr \<and> running st fr}"

lemma is_doomed_eq:
  assumes "att_inv st"
  shows "is_doomed t f draining op st \<longleftrightarrow>
    f \<in> inside st t \<or> f \<in> task_owner st t \<and> run_task_wait_is_doomed draining op"
proof -
  have "is_active_for st f fr \<longleftrightarrow> running st fr \<and> af_fiber fr = f" for fr
    using assms by (simp add: is_active_for_def running_def att_inv_def)
  then show ?thesis
    by (auto simp: is_doomed_def inside_def task_owner_def capture_attribution_def settle_ctx_default_def
        list_ex_iff split: list.split option.split)
qed

text \<open>
  C31: The refusal of lifecycle recursion is exact.  In every reachable state an operation on
  a Fiber is refused on a task exactly when the task is attributed to a settle or teardown
  body of that Fiber that still runs, or to a task it owns that still runs (for \<open>ready\<close> and
  \<open>wait_state\<close> only while that Fiber drains).  Attribution captured for another task goes
  stale the moment the body it names ends: it never refuses an operation after that.
\<close>

theorem recursion_refusal_exact:
  assumes "reach (\<lambda>st. st = att_init) att_step st"
  shows "refuse_recursion t f draining op st =
    (if f \<in> inside st t \<or>
        f \<in> task_owner st t \<and> (draining \<or> op \<notin> {OpReady, OpWaitState})
     then Inl \<lparr>lr_operation = op, lr_fiber = f\<rparr> else Inr ())"
proof -
  have "run_task_wait_is_doomed draining op \<longleftrightarrow> draining \<or> op \<notin> {OpReady, OpWaitState}"
    by (cases op) simp_all
  then show ?thesis
    by (simp add: refuse_recursion_def is_doomed_eq [OF attribution.reach_inv [OF assms, THEN conjunct1]])
qed

theorem recursion_refusal_exact_witness:
  "refuse_recursion 0 7 False OpDispose (bracket_enter 0 7 att_init) = Inl \<lparr>lr_operation = OpDispose, lr_fiber = 7\<rparr>"
proof -
  have r: "reach (\<lambda>st. st = att_init) att_step (bracket_enter 0 7 att_init)"
    by (rule reach_step [where s = att_init]) (simp_all add: reach_init att_bracket)
  have "7 \<in> inside (bracket_enter 0 7 att_init) 0"
    by (simp add: inside_def running_def capture_attribution_def bracket_enter_def att_init_def
        open_cells_def push_open_def set_scopes_def frame_new_def List.map_filter_simps)
  with recursion_refusal_exact [OF r, of 0 7 False OpDispose] show ?thesis by simp
qed

text \<open>
  Attribution is scoped and nests.  Inside \<open>bracket f\<close> every operation on \<open>f\<close> is refused
  and the verdict on every other Fiber is that of the surrounding scope; when the bracket
  ends, the task's attribution is what it was before.  A \<open>run_task\<close> body is attributed to its
  owner alone.
\<close>

lemma running_eq: "att_inv st \<Longrightarrow> running st fr \<longleftrightarrow> at_live st (af_cell fr)"
  by (simp add: running_def att_inv_def)

lemma captured_known: "all_known st \<Longrightarrow> known st (capture_attribution t st)"
proof (cases "at_scopes st t")
  case Nil
  then show ?thesis by (simp add: capture_attribution_def settle_ctx_default_def known_def)
next
  case (Cons cx outer)
  moreover assume "all_known st"
  ultimately show ?thesis unfolding all_known_def
    by (simp add: capture_attribution_def) (metis list.set_intros(1))
qed

lemma inside_bracket:
  assumes inv: "att_inv st" and k: "all_known st"
  shows "inside (bracket_enter t f st) t = insert f (inside st t)"
    and "task_owner (bracket_enter t f st) t = task_owner st t"
proof -
  let ?fr = "\<lparr>af_fiber = f, af_cell = at_next st\<rparr>" and ?st = "bracket_enter t f st"
  have inv': "att_inv ?st" using inv by (rule att_inv_bracket)
  have live: "at_live ?st c \<longleftrightarrow> at_live st c \<or> c = at_next st" for c
    by (simp add: bracket_enter_def split: list.split)
  have cap: "capture_attribution t ?st =
      (capture_attribution t st)\<lparr>sx_settling := sx_settling (capture_attribution t st) @ [?fr]\<rparr>"
    by (simp add: capture_attribution_def bracket_enter_def settle_ctx_default_def split: list.split)
  have old: "running ?st fr \<longleftrightarrow> running st fr"
    if "fr \<in> set (sx_settling (capture_attribution t st)) \<union> set_option (sx_run_owner (capture_attribution t st))" for fr
  proof -
    have "af_cell fr < at_next st" using captured_known [OF k, of t] that unfolding known_def by blast
    then show ?thesis by (simp add: running_eq inv inv' live)
  qed
  have new: "running ?st ?fr" by (simp add: running_eq inv' live)
  show "inside ?st t = insert f (inside st t)"
    unfolding inside_def cap using old new by (auto intro: exI [of _ ?fr])
  show "task_owner ?st t = task_owner st t"
    unfolding task_owner_def cap using old by auto
qed

lemma bracket_balanced:
  assumes "att_inv st" and "at_scopes st t = scopes_of (at_open st t)"
  shows "at_scopes (guard_drop t (bracket_enter t f st)) = at_scopes st"
    and "at_open (guard_drop t (bracket_enter t f st)) = at_open st"
    and "at_live (guard_drop t (bracket_enter t f st)) = at_live st"
proof -
  have "\<not> at_live st (at_next st)" using assms(1) unfolding att_inv_def by blast
  then show "at_scopes (guard_drop t (bracket_enter t f st)) = at_scopes st"
    "at_open (guard_drop t (bracket_enter t f st)) = at_open st"
    "at_live (guard_drop t (bracket_enter t f st)) = at_live st"
    by (auto simp: bracket_enter_def guard_drop_def Let_def deactivate_def fun_eq_iff split: list.split)
qed

theorem bracket_attribution:
  assumes "reach (\<lambda>st. st = att_init) att_step st"
  shows "inside (bracket_enter t f st) t = insert f (inside st t) \<and>
    task_owner (bracket_enter t f st) t = task_owner st t \<and>
    inside (guard_drop t (bracket_enter t f st)) u = inside st u \<and>
    task_owner (guard_drop t (bracket_enter t f st)) u = task_owner st u \<and>
    inside (run_task_enter t f st) t = {} \<and> task_owner (run_task_enter t f st) t = {f}"
proof -
  from attribution.reach_inv [OF assms] have inv: "att_inv st" and k: "all_known st" by simp_all
  let ?fin = "guard_drop t (bracket_enter t f st)" and ?run = "run_task_enter t f st"
  have s: "at_scopes st t = scopes_of (at_open st t)" using inv by (simp add: att_inv_def)
  note b = bracket_balanced [OF inv s, of f]
  have "open_cells ?fin v = open_cells st v" for v by (simp add: open_cells_def b(2))
  then have run: "running ?fin fr = running st fr" for fr by (simp add: running_def)
  have "att_inv ?run" using inv by (rule att_inv_run)
  then have new: "running ?run \<lparr>af_fiber = f, af_cell = at_next st\<rparr>"
    by (simp add: running_eq run_task_enter_def)
  have cap: "capture_attribution t ?run = \<lparr>sx_settling = [], sx_run_owner = Some \<lparr>af_fiber = f, af_cell = at_next st\<rparr>\<rparr>"
    by (simp add: capture_attribution_def run_task_enter_def)
  have "inside ?run t = {}" "task_owner ?run t = {f}"
    using new by (auto simp: inside_def task_owner_def cap)
  moreover have "inside ?fin u = inside st u" "task_owner ?fin u = task_owner st u"
    by (simp_all add: inside_def task_owner_def capture_attribution_def b(1) run)
  ultimately show ?thesis using inside_bracket [OF inv k] by simp
qed

theorem bracket_attribution_witness:
  "inside (bracket_enter 0 7 att_init) 0 = {7} \<and> task_owner (run_task_enter 0 7 att_init) 0 = {7}"
proof -
  have "reach (\<lambda>st. st = att_init) att_step att_init" by (rule reach_init) simp
  from bracket_attribution [OF this, of 0 7 0] show ?thesis
    by (simp add: inside_def capture_attribution_def att_init_def settle_ctx_default_def)
qed

end
