(* ===== verification/Event_Store.thy ===== *)
theory Event_Store
  imports Context_Axes Gated
begin

text \<open>
  Event contracts and listener storage (\<open>crates/cordis-core/src/events/store.rs\<close>, with the
  vocabulary of \<open>types.rs\<close> and \<open>listener.rs\<close>): one contract per Event name, registrations in
  effective order, removal and the claim of once-registrations by exact identity, sparse
  compaction, and the preflight that selects the registrations of a dispatch.
\<close>

section \<open>Vocabulary\<close>

datatype listener_role = Observer | Responder | Mapper | Around

datatype event_operation = Emit | EmitParallel | Query | Waterfall

datatype routing = Unscoped | Scoped scope

record event_contract =
  ec_args :: type_id
  ec_output :: type_id

text \<open>An \<open>Event\<close> implementation: its name and its two payload types.\<close>

record event_type =
  et_name :: string
  et_args :: type_id
  et_output :: type_id

definition contract_of :: "event_type \<Rightarrow> event_contract" where
  "contract_of E = \<lparr>ec_args = et_args E, ec_output = et_output E\<rparr>"

record listener_options =
  lo_prepend :: bool
  lo_global :: bool
  lo_once :: bool

record hook =
  hk_id :: ident
  hk_prepend :: bool
  hk_global :: bool
  hk_scope :: "scope_node option"
  hk_once :: bool
  hk_options :: listener_options
  hk_role :: listener_role
  hk_callback :: ident

record hook_snap =
  hs_id :: ident
  hs_scope :: "scope_node option"
  hs_options :: listener_options
  hs_role :: listener_role
  hs_callback :: ident

definition hook_new :: "ctx \<Rightarrow> listener_role \<Rightarrow> ident \<Rightarrow> listener_options \<Rightarrow> ident \<Rightarrow> hook" where
  "hook_new cx role callback options i =
     \<lparr>hk_id = i, hk_prepend = lo_prepend options, hk_global = lo_global options,
      hk_scope = cx_scope cx, hk_once = lo_once options, hk_options = options,
      hk_role = role, hk_callback = callback\<rparr>"

definition hook_snap_of :: "hook \<Rightarrow> hook_snap" where
  "hook_snap_of h =
     \<lparr>hs_id = hk_id h, hs_scope = hk_scope h, hs_options = hk_options h, hs_role = hk_role h,
      hs_callback = hk_callback h\<rparr>"

section \<open>The registrations of one Event name\<close>

record event_hooks =
  eh_order :: "ident list"
  eh_entries :: "(ident, hook) hashmap"

definition hooks_default :: event_hooks where
  "hooks_default = \<lparr>eh_order = [], eh_entries = []\<rparr>"

definition hooks_compact_if_sparse :: "event_hooks \<Rightarrow> event_hooks" where
  "hooks_compact_if_sparse eh =
     (let stale = length (eh_order eh) - length (eh_entries eh)
      in if stale < 32 \<or> stale < length (eh_entries eh) then eh
         else eh\<lparr>eh_order := filter (\<lambda>i. map_of (eh_entries eh) i \<noteq> None) (eh_order eh)\<rparr>)"

definition hooks_add :: "hook \<Rightarrow> event_hooks \<Rightarrow> event_hooks" where
  "hooks_add h eh0 =
     (let eh = hooks_compact_if_sparse eh0; i = hk_id h
      in \<lparr>eh_order = (if hk_prepend h then i # eh_order eh else eh_order eh @ [i]),
          eh_entries = hm_insert i h (eh_entries eh)\<rparr>)"

definition hooks_remove :: "ident \<Rightarrow> event_hooks \<Rightarrow> hook option \<times> event_hooks" where
  "hooks_remove i eh = (map_of (eh_entries eh) i, eh\<lparr>eh_entries := hm_remove i (eh_entries eh)\<rparr>)"

definition hooks_iter :: "event_hooks \<Rightarrow> hook list" where
  "hooks_iter eh = List.map_filter (map_of (eh_entries eh)) (eh_order eh)"

definition hooks_is_empty :: "event_hooks \<Rightarrow> bool" where
  "hooks_is_empty eh \<longleftrightarrow> eh_entries eh = []"

section \<open>The store\<close>

record event_state =
  ev_contracts :: "(string, event_contract) hashmap"
  ev_hooks :: "(string, event_hooks) hashmap"

definition event_store_new :: event_state where
  "event_store_new = \<lparr>ev_contracts = [], ev_hooks = []\<rparr>"

text \<open>\<open>None\<close> is the \<open>Err\<close> of the code.\<close>

definition bind_locked :: "event_type \<Rightarrow> event_state \<Rightarrow> event_state option" where
  "bind_locked E st =
     (case map_of (ev_contracts st) (et_name E) of
        Some bound \<Rightarrow> if bound \<noteq> contract_of E then None else Some st
      | None \<Rightarrow> Some (st\<lparr>ev_contracts := hm_insert (et_name E) (contract_of E) (ev_contracts st)\<rparr>))"

definition hooks_of :: "event_state \<Rightarrow> string \<Rightarrow> event_hooks option" where
  "hooks_of st name = map_of (ev_hooks st) name"

definition put_hooks :: "string \<Rightarrow> event_hooks \<Rightarrow> event_state \<Rightarrow> event_state" where
  "put_hooks name eh st = st\<lparr>ev_hooks := hm_insert name eh (ev_hooks st)\<rparr>"

text \<open>A list of registrations is dropped with its last registration.\<close>

definition keep_hooks :: "string \<Rightarrow> event_hooks \<Rightarrow> event_state \<Rightarrow> event_state" where
  "keep_hooks name eh st =
     (if hooks_is_empty eh then st\<lparr>ev_hooks := hm_remove name (ev_hooks st)\<rparr> else put_hooks name eh st)"

definition add_reserved :: "event_type \<Rightarrow> hook \<Rightarrow> event_state \<Rightarrow> bool \<times> event_state" where
  "add_reserved E h st =
     (case bind_locked E st of
        None \<Rightarrow> (False, st)
      | Some st1 \<Rightarrow>
          (True, put_hooks (et_name E)
             (hooks_add h (case hooks_of st1 (et_name E) of None \<Rightarrow> hooks_default | Some eh \<Rightarrow> eh)) st1))"

definition event_remove :: "string \<Rightarrow> ident \<Rightarrow> event_state \<Rightarrow> bool \<times> event_state" where
  "event_remove name i st =
     (case hooks_of st name of
        None \<Rightarrow> (False, st)
      | Some eh \<Rightarrow>
          (case hooks_remove i eh of
             (None, _) \<Rightarrow> (False, st)
           | (Some _, eh') \<Rightarrow> (True, keep_hooks name eh' st)))"

text \<open>The result is the pair \<open>(claimed, unregistered)\<close>.\<close>

definition event_claim :: "string \<Rightarrow> ident \<Rightarrow> event_state \<Rightarrow> (bool \<times> bool) \<times> event_state" where
  "event_claim name i st =
     (case hooks_of st name of
        None \<Rightarrow> ((False, False), st)
      | Some eh \<Rightarrow>
          (case map_of (eh_entries eh) i of
             None \<Rightarrow> ((False, False), st)
           | Some h \<Rightarrow>
               if \<not> hk_once h then ((True, False), st)
               else ((True, True), keep_hooks name (snd (hooks_remove i eh)) st)))"

text \<open>The reachability of a registration for a dispatch.\<close>

fun eligible :: "routing \<Rightarrow> hook \<Rightarrow> bool" where
  "eligible Unscoped h = True"
| "eligible (Scoped scope) h =
     (hk_global h \<or>
      (case (hk_scope h, sc_layer scope) of
         (None, _) \<Rightarrow> True
       | (Some _, None) \<Rightarrow> False
       | (Some registration, Some dispatch) \<Rightarrow> scope_reaches dispatch registration))"

fun compatible :: "event_operation \<Rightarrow> listener_role \<Rightarrow> bool" where
  "compatible Emit role = (role = Observer \<or> role = Responder)"
| "compatible EmitParallel role = (role = Observer \<or> role = Responder)"
| "compatible Query role = (role = Observer \<or> role = Responder)"
| "compatible Waterfall role = (role = Mapper \<or> role = Around)"

datatype invocation_failure_kind = ReturnedError | Panic

record invocation_failure =
  if_registration :: "ident option"
  if_kind :: invocation_failure_kind
  if_diagnostic :: string

datatype dispatch_error =
    EventContractMismatch string
  | ForeignScope
  | IncompatibleRole event_operation listener_role
  | Invocation invocation_failure
  | ParallelFailures "invocation_failure list"

definition store_preflight ::
  "event_type \<Rightarrow> routing \<Rightarrow> event_operation \<Rightarrow> event_state \<Rightarrow> (dispatch_error + hook_snap list) \<times> event_state"
where
  "store_preflight E r op st =
     (case bind_locked E st of
        None \<Rightarrow> (Inl (EventContractMismatch (et_name E)), st)
      | Some st1 \<Rightarrow>
          (case hooks_of st1 (et_name E) of
             None \<Rightarrow> (Inr [], st1)
           | Some eh0 \<Rightarrow>
               (let eh = hooks_compact_if_sparse eh0; st2 = put_hooks (et_name E) eh st1;
                    selected = filter (eligible r) (hooks_iter eh)
                in (case find (\<lambda>role. \<not> compatible op role) (map hk_role selected) of
                      Some role \<Rightarrow> (Inl (IncompatibleRole op role), st2)
                    | None \<Rightarrow> (Inr (map hook_snap_of selected), st2)))))"

text \<open>\<open>Context::preflight\<close>; \<open>membership\<close> is the Runtime's Scope membership.\<close>

definition context_preflight ::
  "ident \<Rightarrow> event_type \<Rightarrow> routing \<Rightarrow> event_operation \<Rightarrow> event_state \<Rightarrow>
   (dispatch_error + hook_snap list) \<times> event_state"
where
  "context_preflight membership E r op st =
     (case r of
        Scoped scope \<Rightarrow>
          if \<not> scope_belongs_to scope membership then (Inl ForeignScope, st)
          else store_preflight E r op st
      | Unscoped \<Rightarrow> store_preflight E r op st)"

section \<open>The abstract view\<close>

text \<open>What the store promises is the ordered list of registrations of each name.\<close>

definition listeners :: "event_state \<Rightarrow> string \<Rightarrow> hook list" where
  "listeners st name = (case hooks_of st name of None \<Rightarrow> [] | Some eh \<Rightarrow> hooks_iter eh)"

text \<open>
  The order list may name removed registrations; every entry is in it once, under its own
  identity.  \<open>n\<close> bounds the identities handed out.
\<close>

definition hooks_wf :: "ident \<Rightarrow> event_hooks \<Rightarrow> bool" where
  "hooks_wf n eh \<longleftrightarrow>
     hm_wf (eh_entries eh) \<and> distinct (eh_order eh) \<and> fst ` set (eh_entries eh) \<subseteq> set (eh_order eh) \<and>
     (\<forall>i h. map_of (eh_entries eh) i = Some h \<longrightarrow> hk_id h = i) \<and> (\<forall>i \<in> set (eh_order eh). i < n)"

definition event_wf :: "ident \<Rightarrow> event_state \<Rightarrow> bool" where
  "event_wf n st \<longleftrightarrow> (\<forall>name eh. hooks_of st name = Some eh \<longrightarrow> hooks_wf n eh \<and> eh_entries eh \<noteq> [])"

lemma map_filter_upd_other: "i \<notin> set xs \<Longrightarrow> List.map_filter (m(i := v)) xs = List.map_filter m xs"
  by (induction xs) (auto simp: List.map_filter_simps split: option.split)

lemma map_filter_filter: "List.map_filter m (filter (\<lambda>i. m i \<noteq> None) xs) = List.map_filter m xs"
  by (induction xs) (auto simp: List.map_filter_simps split: option.split)

lemma hooks_iter_compact [simp]: "hooks_iter (hooks_compact_if_sparse eh) = hooks_iter eh"
  using map_filter_filter [of "map_of (eh_entries eh)" "eh_order eh"]
  by (simp add: hooks_compact_if_sparse_def hooks_iter_def Let_def del: not_None_eq)

lemma compact_entries [simp]: "eh_entries (hooks_compact_if_sparse eh) = eh_entries eh"
  by (simp add: hooks_compact_if_sparse_def Let_def)

lemma compact_order: "set (eh_order (hooks_compact_if_sparse eh)) \<subseteq> set (eh_order eh)"
  by (auto simp: hooks_compact_if_sparse_def Let_def)

lemma hooks_wf_compact [wf_intros]: "hooks_wf n eh \<Longrightarrow> hooks_wf n (hooks_compact_if_sparse eh)"
  unfolding hooks_wf_def
  by (auto simp: hooks_compact_if_sparse_def Let_def weak_map_of_SomeI dest!: subsetD)

lemma hooks_iter_set: "hooks_wf n eh \<Longrightarrow> set (hooks_iter eh) = snd ` set (eh_entries eh)"
proof -
  assume wf: "hooks_wf n eh"
  then have "map_of (eh_entries eh) i = Some h \<longleftrightarrow> (i, h) \<in> set (eh_entries eh)" for i h
    by (simp add: hooks_wf_def hm_wf_lookup)
  moreover have "i \<in> set (eh_order eh)" if "(i, h) \<in> set (eh_entries eh)" for i h
    using wf that by (force simp: hooks_wf_def)
  ultimately show ?thesis by (force simp: hooks_iter_def List.map_filter_def)
qed

lemma hooks_iter_ids: "hooks_wf n eh \<Longrightarrow> map hk_id (hooks_iter eh) = filter (\<lambda>i. map_of (eh_entries eh) i \<noteq> None) (eh_order eh)"
proof -
  assume "hooks_wf n eh"
  then have "\<forall>i h. map_of (eh_entries eh) i = Some h \<longrightarrow> hk_id h = i" by (simp add: hooks_wf_def)
  then have "map hk_id (List.map_filter (map_of (eh_entries eh)) xs) = filter (\<lambda>i. map_of (eh_entries eh) i \<noteq> None) xs" for xs
    by (induction xs) (auto simp: List.map_filter_simps split: option.split)
  then show ?thesis by (simp add: hooks_iter_def)
qed

lemma hooks_iter_distinct: "hooks_wf n eh \<Longrightarrow> distinct (map hk_id (hooks_iter eh))"
  by (simp add: hooks_iter_ids) (simp add: hooks_wf_def)

lemma hooks_iter_add:
  assumes "hooks_wf n eh" and "n \<le> hk_id h"
  shows "hooks_iter (hooks_add h eh) = (if hk_prepend h then h # hooks_iter eh else hooks_iter eh @ [h])"
    and "hooks_wf (Suc (hk_id h)) (hooks_add h eh)"
proof -
  have wf: "hooks_wf n (hooks_compact_if_sparse eh)" using assms(1) by (rule hooks_wf_compact)
  then have fresh: "hk_id h \<notin> set (eh_order (hooks_compact_if_sparse eh))"
    using assms(2) by (force simp: hooks_wf_def)
  have "hooks_iter (hooks_add h eh) =
      (if hk_prepend h then h # hooks_iter (hooks_compact_if_sparse eh) else hooks_iter (hooks_compact_if_sparse eh) @ [h])"
    using fresh
    by (simp add: hooks_add_def hooks_iter_def Let_def List.map_filter_simps map_filter_append map_filter_upd_other)
  then show "hooks_iter (hooks_add h eh) = (if hk_prepend h then h # hooks_iter eh else hooks_iter eh @ [h])" by simp
  have "\<forall>i \<in> set (eh_order (hooks_compact_if_sparse eh)). i < Suc (hk_id h)"
    using wf assms(2) by (force simp: hooks_wf_def)
  then show "hooks_wf (Suc (hk_id h)) (hooks_add h eh)"
    using wf fresh by (auto simp: hooks_wf_def hooks_add_def Let_def)
qed

lemma hooks_iter_remove:
  assumes "hooks_wf n eh" and "hooks_remove i eh = (r, eh')"
  shows "hooks_iter eh' = filter (\<lambda>h. hk_id h \<noteq> i) (hooks_iter eh)" and "hooks_wf n eh'"
    and "r = find (\<lambda>h. hk_id h = i) (hooks_iter eh)"
proof -
  have r: "r = map_of (eh_entries eh) i" and eh': "eh' = eh\<lparr>eh_entries := hm_remove i (eh_entries eh)\<rparr>"
    using assms(2) by (auto simp: hooks_remove_def)
  have ids: "\<forall>j h. map_of (eh_entries eh) j = Some h \<longrightarrow> hk_id h = j" using assms(1) by (simp add: hooks_wf_def)
  then have "List.map_filter ((map_of (eh_entries eh))(i := None)) xs =
      filter (\<lambda>h. hk_id h \<noteq> i) (List.map_filter (map_of (eh_entries eh)) xs)" for xs
    by (induction xs) (auto simp: List.map_filter_simps split: option.split)
  then show "hooks_iter eh' = filter (\<lambda>h. hk_id h \<noteq> i) (hooks_iter eh)" by (simp add: eh' hooks_iter_def)
  show "hooks_wf n eh'" using assms(1) unfolding hooks_wf_def eh' by (auto split: if_splits)
  have "find (\<lambda>h. hk_id h = i) (List.map_filter (map_of (eh_entries eh)) xs) =
      (if i \<in> set xs then map_of (eh_entries eh) i else None)" for xs
    using ids by (induction xs) (auto simp: List.map_filter_simps split: option.split)
  moreover have "map_of (eh_entries eh) i = None" if "i \<notin> set (eh_order eh)"
    using assms(1) that unfolding hooks_wf_def by (metis map_of_eq_None_iff subsetD)
  ultimately show "r = find (\<lambda>h. hk_id h = i) (hooks_iter eh)" by (auto simp: r hooks_iter_def)
qed

subsection \<open>The operations on the abstract view\<close>

lemma hooks_of_put [simp]: "hooks_of (put_hooks name eh st) m = (if m = name then Some eh else hooks_of st m)"
  by (simp add: hooks_of_def put_hooks_def)

lemma hooks_of_keep:
  "hooks_of (keep_hooks name eh st) m =
     (if m = name then (if eh_entries eh = [] then None else Some eh) else hooks_of st m)"
  by (simp add: keep_hooks_def hooks_is_empty_def) (simp add: hooks_of_def)

lemma bind_locked_hooks: "bind_locked E st = Some st' \<Longrightarrow> hooks_of st' = hooks_of st"
  by (auto simp: bind_locked_def hooks_of_def fun_eq_iff split: option.splits if_splits)

lemma bind_locked_contract:
  "bind_locked E st = Some st' \<Longrightarrow>
   map_of (ev_contracts st') = (map_of (ev_contracts st))(et_name E \<mapsto> contract_of E)"
  by (auto simp: bind_locked_def fun_eq_iff split: option.splits if_splits)

lemma bind_locked_None:
  "bind_locked E st = None \<longleftrightarrow> map_of (ev_contracts st) (et_name E) \<notin> {None, Some (contract_of E)}"
  by (auto simp: bind_locked_def split: option.splits)

lemma hooks_iter_empty: "eh_entries eh = [] \<Longrightarrow> hooks_iter eh = []"
  by (simp add: hooks_iter_def List.map_filter_def)

lemma listeners_keep:
  "listeners (keep_hooks name eh st) m = (if m = name then hooks_iter eh else listeners st m)"
  by (simp add: listeners_def hooks_of_keep hooks_iter_empty)

lemma hooks_wf_mono: "hooks_wf n eh \<Longrightarrow> n \<le> m \<Longrightarrow> hooks_wf m eh"
  unfolding hooks_wf_def by force

lemma event_wf_new: "event_wf n event_store_new"
  by (simp add: event_wf_def hooks_of_def event_store_new_def)

lemma event_wf_hooks: "event_wf n st \<Longrightarrow> hooks_of st name = Some eh \<Longrightarrow> hooks_wf n eh"
  by (simp add: event_wf_def)

lemma event_wf_keep: "event_wf n st \<Longrightarrow> hooks_wf n eh \<Longrightarrow> event_wf n (keep_hooks name eh st)"
  by (auto simp: event_wf_def hooks_of_keep split: if_splits)

lemma listeners_distinct: "event_wf n st \<Longrightarrow> distinct (map hk_id (listeners st name))"
  using event_wf_hooks hooks_iter_distinct by (fastforce simp: listeners_def split: option.split)

lemma add_reserved_listeners:
  assumes wf: "event_wf n st" and fresh: "n \<le> hk_id h" and add: "add_reserved E h st = (True, st')"
  shows "listeners st' m =
      (if m = et_name E then (if hk_prepend h then h # listeners st m else listeners st m @ [h]) else listeners st m)"
    and "event_wf (Suc (hk_id h)) st'"
    and "map_of (ev_contracts st') = (map_of (ev_contracts st))(et_name E \<mapsto> contract_of E)"
proof -
  obtain st1 where b: "bind_locked E st = Some st1"
    using add by (auto simp: add_reserved_def split: option.splits)
  let ?eh = "case hooks_of st (et_name E) of None \<Rightarrow> hooks_default | Some eh \<Rightarrow> eh"
  have st': "st' = put_hooks (et_name E) (hooks_add h ?eh) st1"
    using add b bind_locked_hooks [OF b] by (simp add: add_reserved_def)
  have default: "hooks_wf n hooks_default" by (simp add: hooks_wf_def hooks_default_def)
  have ehwf: "hooks_wf n ?eh"
    using wf default by (auto simp: event_wf_def split: option.split)
  have iter: "hooks_iter ?eh = listeners st (et_name E)"
    by (simp add: listeners_def hooks_default_def hooks_iter_def List.map_filter_def split: option.split)
  note a = hooks_iter_add [OF ehwf fresh]
  show "listeners st' m =
      (if m = et_name E then (if hk_prepend h then h # listeners st m else listeners st m @ [h]) else listeners st m)"
    using a(1) iter bind_locked_hooks [OF b] by (simp add: st' listeners_def)
  have "eh_entries (hooks_add h ?eh) \<noteq> []"
    by (metis fun_upd_same hooks_add_def event_hooks.select_convs(2) map_of.simps(1) map_of_hm_insert option.distinct(1))
  moreover have "hooks_wf (Suc (hk_id h)) eh" if "hooks_of st1 k = Some eh" for k eh
    using that wf bind_locked_hooks [OF b] fresh hooks_wf_mono [of n eh "Suc (hk_id h)"]
    by (simp add: event_wf_def)
  moreover have "eh_entries eh \<noteq> []" if "hooks_of st1 k = Some eh" for k eh
    using that wf bind_locked_hooks [OF b] by (simp add: event_wf_def)
  ultimately show "event_wf (Suc (hk_id h)) st'"
    using a(2) by (simp add: st' event_wf_def)
  show "map_of (ev_contracts st') = (map_of (ev_contracts st))(et_name E \<mapsto> contract_of E)"
    using bind_locked_contract [OF b] by (simp add: st' put_hooks_def)
qed

lemma event_remove_listeners:
  assumes wf: "event_wf n st" and r: "event_remove name i st = (removed, st')"
  shows "removed \<longleftrightarrow> i \<in> hk_id ` set (listeners st name)"
    and "listeners st' m = (if m = name then filter (\<lambda>h. hk_id h \<noteq> i) (listeners st m) else listeners st m)"
    and "event_wf n st'"
proof -
  have all: "(removed \<longleftrightarrow> i \<in> hk_id ` set (listeners st name)) \<and>
      (\<forall>m. listeners st' m = (if m = name then filter (\<lambda>h. hk_id h \<noteq> i) (listeners st m) else listeners st m)) \<and>
      event_wf n st'"
  proof (cases "hooks_of st name")
    case None
    with r wf show ?thesis by (auto simp: event_remove_def listeners_def)
  next
    case (Some eh)
    obtain x eh' where x: "hooks_remove i eh = (x, eh')" by force
    note rm = hooks_iter_remove [OF event_wf_hooks [OF wf Some] x]
    show ?thesis
    proof (cases x)
      case None
      with rm(3) have "find (\<lambda>h. hk_id h = i) (hooks_iter eh) = None" by simp
      then have "\<forall>h \<in> set (hooks_iter eh). hk_id h \<noteq> i" by (simp add: find_None_iff)
      with r Some x None wf show ?thesis
        by (auto simp: event_remove_def listeners_def intro!: filter_True [symmetric])
    next
      case (Some h)
      with rm(3) have "find (\<lambda>h. hk_id h = i) (hooks_iter eh) = Some h" by simp
      then have "i \<in> hk_id ` set (hooks_iter eh)" by (auto dest: find_SomeD)
      moreover have "removed" "st' = keep_hooks name eh' st"
        using r \<open>hooks_of st name = Some eh\<close> x Some by (simp_all add: event_remove_def)
      moreover have "listeners st name = hooks_iter eh"
        using \<open>hooks_of st name = Some eh\<close> by (simp add: listeners_def)
      ultimately show ?thesis using rm(1) event_wf_keep [OF wf rm(2)] by (simp add: listeners_keep)
    qed
  qed
  show "removed \<longleftrightarrow> i \<in> hk_id ` set (listeners st name)"
    "listeners st' m = (if m = name then filter (\<lambda>h. hk_id h \<noteq> i) (listeners st m) else listeners st m)" "event_wf n st'"
    using all by auto
qed

text \<open>A claim is a removal for a once-registration and a check for every other.\<close>

lemma event_claim_cases:
  assumes wf: "event_wf n st"
  shows "event_claim name i st =
    (case find (\<lambda>h. hk_id h = i) (listeners st name) of
       None \<Rightarrow> ((False, False), st)
     | Some h \<Rightarrow> if hk_once h then ((True, True), snd (event_remove name i st)) else ((True, False), st))"
proof (cases "hooks_of st name")
  case None
  then show ?thesis by (simp add: event_claim_def listeners_def)
next
  case (Some eh)
  obtain x eh' where x: "hooks_remove i eh = (x, eh')" by force
  have lookup: "map_of (eh_entries eh) i = find (\<lambda>h. hk_id h = i) (listeners st name)"
    using hooks_iter_remove(3) [OF event_wf_hooks [OF wf Some] x] x Some by (simp add: hooks_remove_def listeners_def)
  show ?thesis
  proof (cases "map_of (eh_entries eh) i")
    case None
    with Some lookup show ?thesis by (simp add: event_claim_def)
  next
    case (Some h)
    with lookup \<open>hooks_of st name = Some eh\<close> x show ?thesis
      by (auto simp: event_claim_def event_remove_def hooks_remove_def)
  qed
qed

section \<open>Ending a registration\<close>

definition registered :: "string \<Rightarrow> ident \<Rightarrow> event_state \<Rightarrow> bool" where
  "registered name i st \<longleftrightarrow> i \<in> hk_id ` set (listeners st name)"

definition once_registered :: "string \<Rightarrow> ident \<Rightarrow> event_state \<Rightarrow> bool" where
  "once_registered name i st \<longleftrightarrow> (\<exists>h \<in> set (listeners st name). hk_id h = i \<and> hk_once h)"

definition consume_once :: "string \<Rightarrow> ident \<Rightarrow> event_state \<Rightarrow> bool \<times> event_state" where
  "consume_once name i st = (case event_claim name i st of ((_, unregistered), st') \<Rightarrow> (unregistered, st'))"

lemma find_listener:
  assumes "event_wf n st"
  shows "find (\<lambda>h. hk_id h = i) (listeners st name) = Some h \<longleftrightarrow> h \<in> set (listeners st name) \<and> hk_id h = i"
proof
  assume f: "find (\<lambda>h. hk_id h = i) (listeners st name) = Some h"
  then show "h \<in> set (listeners st name) \<and> hk_id h = i"
    by (auto dest: find_SomeD)
next
  assume h: "h \<in> set (listeners st name) \<and> hk_id h = i"
  then obtain g where g: "find (\<lambda>h. hk_id h = i) (listeners st name) = Some g"
    by (metis (mono_tags, lifting) find_None_iff not_None_eq)
  then have "g \<in> set (listeners st name)" "hk_id g = i"
    by (auto dest: find_SomeD)
  with h listeners_distinct [OF assms, of name] have "g = h" by (metis distinct_map inj_onD)
  with g show "find (\<lambda>h. hk_id h = i) (listeners st name) = Some h" by simp
qed

lemma consume_once_spec:
  assumes wf: "event_wf n st"
  shows "fst (consume_once name i st) \<longleftrightarrow> once_registered name i st"
    and "listeners (snd (consume_once name i st)) m =
      (if m = name \<and> once_registered name i st then filter (\<lambda>h. hk_id h \<noteq> i) (listeners st m) else listeners st m)"
    and "event_wf n (snd (consume_once name i st))"
proof -
  obtain removed st1 where r: "event_remove name i st = (removed, st1)" by force
  note rm = event_remove_listeners [OF wf r]
  have all: "(fst (consume_once name i st) \<longleftrightarrow> once_registered name i st) \<and>
    listeners (snd (consume_once name i st)) m =
      (if m = name \<and> once_registered name i st then filter (\<lambda>h. hk_id h \<noteq> i) (listeners st m) else listeners st m) \<and>
    event_wf n (snd (consume_once name i st))"
  proof (cases "find (\<lambda>h. hk_id h = i) (listeners st name)")
    case None
    then have "\<not> once_registered name i st" by (auto simp: once_registered_def find_None_iff)
    with None wf show ?thesis by (simp add: consume_once_def event_claim_cases [OF wf])
  next
    case (Some h)
    have "once_registered name i st \<longleftrightarrow> hk_once h"
    proof
      assume "once_registered name i st"
      then obtain g where g: "g \<in> set (listeners st name)" "hk_id g = i" "hk_once g"
        by (auto simp: once_registered_def)
      with find_listener [OF wf, of i name g] Some show "hk_once h" by simp
    next
      assume "hk_once h"
      with find_SomeD [OF Some] show "once_registered name i st" by (auto simp: once_registered_def)
    qed
    with Some wf rm(2,3) r show ?thesis by (simp add: consume_once_def event_claim_cases [OF wf])
  qed
  show "fst (consume_once name i st) \<longleftrightarrow> once_registered name i st"
    and "listeners (snd (consume_once name i st)) m =
      (if m = name \<and> once_registered name i st then filter (\<lambda>h. hk_id h \<noteq> i) (listeners st m) else listeners st m)"
    and "event_wf n (snd (consume_once name i st))"
    using all by blast+
qed

interpretation unregister: exact_claim "registered name" "event_remove name" "event_wf n" for name n
proof
  show "fst (event_remove name t s) \<longleftrightarrow> registered name t s" if "event_wf n s" for s t
    using event_remove_listeners(1) [OF that, of name t] by (simp add: registered_def prod_eq_iff)
  show "registered name u (snd (event_remove name t s)) \<longleftrightarrow> registered name u s \<and> u \<noteq> t" if "event_wf n s" for s t u
    using event_remove_listeners(2) [OF that, of name t] by (auto simp: registered_def prod_eq_iff)
  show "event_wf n (snd (event_remove name t s))" if "event_wf n s" for s t
    using event_remove_listeners(3) [OF that, of name t] by (simp add: prod_eq_iff)
qed

interpretation once: exact_claim "once_registered name" "consume_once name" "event_wf n" for name n
proof
  show "fst (consume_once name t s) \<longleftrightarrow> once_registered name t s" if "event_wf n s" for s t
    by (rule consume_once_spec(1) [OF that])
  show "once_registered name u (snd (consume_once name t s)) \<longleftrightarrow> once_registered name u s \<and> u \<noteq> t"
    if "event_wf n s" for s t u
    using consume_once_spec(2) [OF that, of name t name] by (auto simp: once_registered_def split: if_splits)
  show "event_wf n (snd (consume_once name t s))" if "event_wf n s" for s t
    by (rule consume_once_spec(3) [OF that])
qed

datatype ending = Claiming ident | Removing ident

fun end_step :: "string \<Rightarrow> ending \<Rightarrow> event_state \<Rightarrow> bool \<times> event_state" where
  "end_step name (Claiming i) st = consume_once name i st"
| "end_step name (Removing i) st = event_remove name i st"

fun ending_id :: "ending \<Rightarrow> ident" where
  "ending_id (Claiming i) = i"
| "ending_id (Removing i) = i"

fun run_endings :: "string \<Rightarrow> ending list \<Rightarrow> event_state \<Rightarrow> ident list \<times> event_state" where
  "run_endings name [] st = ([], st)"
| "run_endings name (a # as) st =
     (case end_step name a st of
        (ended, st1) \<Rightarrow>
          (case run_endings name as st1 of
             (is, st2) \<Rightarrow> (if ended then ending_id a # is else is, st2)))"

lemma end_step_spec:
  assumes "event_wf n st" and "end_step name a st = (ended, st')"
  shows "event_wf n st' \<and>
    listeners st' name = (if ended then filter (\<lambda>h. hk_id h \<noteq> ending_id a) (listeners st name) else listeners st name) \<and>
    (ended \<longrightarrow> registered name (ending_id a) st)"
proof (cases a)
  case (Claiming i)
  with assms(2) consume_once_spec [OF assms(1), of name i] show ?thesis
    by (auto simp: once_registered_def registered_def)
next
  case (Removing i)
  with assms(2) have r: "event_remove name i st = (ended, st')" by simp
  note rm = event_remove_listeners [OF assms(1) r]
  have "filter (\<lambda>h. hk_id h \<noteq> i) (listeners st name) = listeners st name" if "\<not> ended"
    using that rm(1) by (auto intro!: filter_True)
  with rm Removing show ?thesis by (auto simp: registered_def)
qed

lemma run_endings_spec:
  "event_wf n st \<Longrightarrow> run_endings name as st = (is, st') \<Longrightarrow>
   event_wf n st' \<and> distinct is \<and> set is \<subseteq> ending_id ` set as \<inter> hk_id ` set (listeners st name) \<and>
   listeners st' name = filter (\<lambda>h. hk_id h \<notin> set is) (listeners st name)"
proof (induction "as" arbitrary: st "is")
  case Nil
  then show ?case by auto
next
  case (Cons a "as")
  obtain ended st1 where a: "end_step name a st = (ended, st1)" by force
  obtain js where j: "run_endings name as st1 = (js, st')" "is = (if ended then ending_id a # js else js)"
    using Cons.prems(2) a by (auto split: prod.splits)
  note s = end_step_spec [OF Cons.prems(1) a]
  then have "event_wf n st1" by blast
  from Cons.IH [OF this j(1)] s j(2) show ?case
    by (auto simp: registered_def split: if_splits)
qed

section \<open>The properties\<close>

text \<open>
  C32: A registration ends at most once.  However claims of dispatches, explicit removals and
  the cleanups of drains interleave, each registration is reported ended (and observed as
  unregistered) at most once, only if it was registered, and what remains is exactly the
  rest in unchanged order.
\<close>

theorem registration_ends_once:
  assumes "event_wf n st" and "run_endings name as st = (is, st')"
  shows "distinct is \<and> set is \<subseteq> hk_id ` set (listeners st name) \<and>
         listeners st' name = filter (\<lambda>h. hk_id h \<notin> set is) (listeners st name)"
  using run_endings_spec [OF assms] by blast

definition demo_hook :: "ident \<Rightarrow> listener_role \<Rightarrow> bool \<Rightarrow> bool \<Rightarrow> hook" where
  "demo_hook i role prepend once =
     (let options = \<lparr>lo_prepend = prepend, lo_global = False, lo_once = once\<rparr>
      in \<lparr>hk_id = i, hk_prepend = prepend, hk_global = False, hk_scope = None, hk_once = once,
          hk_options = options, hk_role = role, hk_callback = 10 + i\<rparr>)"

definition demo_event :: event_type where
  "demo_event = \<lparr>et_name = ''saved'', et_args = 1, et_output = 2\<rparr>"

definition demo_events :: event_state where
  "demo_events =
     snd (add_reserved demo_event (demo_hook 1 Responder True True)
       (snd (add_reserved demo_event (demo_hook 0 Observer False False) event_store_new)))"

lemma demo_events_listeners:
  "event_wf 2 demo_events" "listeners demo_events ''saved'' = [demo_hook 1 Responder True True, demo_hook 0 Observer False False]"
proof -
  let ?st = "snd (add_reserved demo_event (demo_hook 0 Observer False False) event_store_new)"
  have a: "add_reserved demo_event (demo_hook 0 Observer False False) event_store_new = (True, ?st)"
    "add_reserved demo_event (demo_hook 1 Responder True True) ?st = (True, demo_events)"
    by (simp_all add: demo_events_def add_reserved_def bind_locked_def event_store_new_def demo_event_def
        put_hooks_def hooks_of_def contract_of_def)
  have ids: "hk_id (demo_hook i r p o') = i" "hk_prepend (demo_hook i r p o') = p" for i r p o'
    by (simp_all add: demo_hook_def Let_def)
  note s1 = add_reserved_listeners [OF event_wf_new [of 0] _ a(1), unfolded ids]
  have "event_wf 1 ?st" using s1(2) by simp
  note s2 = add_reserved_listeners [OF this _ a(2), unfolded ids]
  show "event_wf 2 demo_events" using s2(2) by (simp add: numeral_2_eq_2)
  show "listeners demo_events ''saved'' = [demo_hook 1 Responder True True, demo_hook 0 Observer False False]"
    using s2(1) [of "''saved''"] s1(1) [of "''saved''"]
    by (simp add: demo_event_def) (simp add: listeners_def hooks_of_def event_store_new_def)
qed

theorem registration_ends_once_witness:
  "listeners (snd (run_endings ''saved'' [Claiming 1, Removing 1, Claiming 0] demo_events)) ''saved'' =
     [demo_hook 0 Observer False False]"
proof -
  obtain "is" st' where r: "run_endings ''saved'' [Claiming 1, Removing 1, Claiming 0] demo_events = (is, st')" by force
  have "fst (run_endings ''saved'' [Claiming 1, Removing 1, Claiming 0] demo_events) = [1]" by code_simp
  with r have "is = [1]" by simp
  with registration_ends_once [OF demo_events_listeners(1) r] demo_events_listeners(2) r show ?thesis
    by (simp add: demo_hook_def Let_def)
qed

text \<open>
  Concurrent claims of once-registrations: the claims that consume their registration
  are pairwise different and are exactly those of a once-registration that is present.
\<close>

theorem once_claims_exact:
  assumes "event_wf n st" and "run_claims (consume_once name) is st = (rs, st')"
  shows "distinct (winners rs) \<and> set (winners rs) = {i \<in> set is. once_registered name i st} \<and>
         (\<forall>i. once_registered name i st' = (once_registered name i st \<and> i \<notin> set is))"
  using once.run_claims_winners [OF assms] by blast

theorem once_claims_exact_witness:
  "winners (fst (run_claims (consume_once ''saved'') [1, 0, 1] demo_events)) = [1]"
proof -
  obtain rs st' where r: "run_claims (consume_once ''saved'') [1, 0, 1] demo_events = (rs, st')" by force
  have "set (winners rs) = {1}" "distinct (winners rs)"
    using once_claims_exact [OF demo_events_listeners(1) r] demo_events_listeners(2)
    by (auto simp: once_registered_def demo_hook_def Let_def)
  moreover from this have "length (winners rs) = 1" using distinct_card [of "winners rs"] by simp
  ultimately show ?thesis using r by (cases "winners rs") auto
qed

text \<open>
  C34: Registration order.  A registration is refused exactly when its Event name is bound to
  another contract, and then nothing changes.  Otherwise the name is bound, and the
  registration goes before or after all present ones of that name as its options say;
  compaction of the order list is not visible.
\<close>

theorem registration_order:
  assumes "event_wf (hk_id h) st"
  shows "case add_reserved E h st of (ok, st') \<Rightarrow>
    if map_of (ev_contracts st) (et_name E) \<in> {None, Some (contract_of E)}
    then ok \<and> event_wf (Suc (hk_id h)) st' \<and>
      map_of (ev_contracts st') = (map_of (ev_contracts st))(et_name E \<mapsto> contract_of E) \<and>
      listeners st' = (listeners st)(et_name E :=
        (if hk_prepend h then h # listeners st (et_name E) else listeners st (et_name E) @ [h]))
    else \<not> ok \<and> st' = st"
proof (cases "bind_locked E st")
  case None
  with bind_locked_None [of E st] show ?thesis by (simp add: add_reserved_def)
next
  case (Some st1)
  then obtain st' where a: "add_reserved E h st = (True, st')" by (simp add: add_reserved_def)
  from Some have "map_of (ev_contracts st) (et_name E) \<in> {None, Some (contract_of E)}"
    using bind_locked_None [of E st] by simp
  with a add_reserved_listeners [OF assms order_refl a] show ?thesis by (simp add: fun_eq_iff)
qed

theorem registration_order_witness:
  "listeners (snd (add_reserved demo_event (demo_hook 2 Mapper True False) demo_events)) ''saved'' =
     [demo_hook 2 Mapper True False, demo_hook 1 Responder True True, demo_hook 0 Observer False False]"
proof -
  have "event_wf (hk_id (demo_hook 2 Mapper True False)) demo_events"
    using demo_events_listeners(1) by (simp add: demo_hook_def)
  from registration_order [OF this, of demo_event]
  have "case add_reserved demo_event (demo_hook 2 Mapper True False) demo_events of (ok, st') \<Rightarrow>
      if map_of (ev_contracts demo_events) (et_name demo_event) \<in> {None, Some (contract_of demo_event)}
      then listeners st' ''saved'' = demo_hook 2 Mapper True False # listeners demo_events ''saved'' else True"
    by (auto simp: demo_event_def demo_hook_def Let_def split: prod.splits if_splits)
  moreover have "map_of (ev_contracts demo_events) (et_name demo_event) = Some (contract_of demo_event)"
    by code_simp
  ultimately show ?thesis using demo_events_listeners(2) by (simp split: prod.splits)
qed

text \<open>
  Preflight selects exactly the reachable registrations in effective order.  A foreign
  Scope and a contract mismatch are refused without a trace, the first incompatible role
  among the reachable registrations refuses the dispatch before anything is claimed, and no
  preflight changes the registrations of any name.
\<close>

theorem preflight_selects_reachable:
  "let (r', st') = context_preflight membership E r op st; selected = filter (eligible r) (listeners st (et_name E)) in
   listeners st' = listeners st \<and>
   r' =
     (case (case r of Unscoped \<Rightarrow> True | Scoped scope \<Rightarrow> sc_membership scope = membership) of
        False \<Rightarrow> Inl ForeignScope
      | True \<Rightarrow>
          if map_of (ev_contracts st) (et_name E) \<notin> {None, Some (contract_of E)}
          then Inl (EventContractMismatch (et_name E))
          else (case filter (\<lambda>h. \<not> compatible op (hk_role h)) selected of
                  h # _ \<Rightarrow> Inl (IncompatibleRole op (hk_role h))
                | [] \<Rightarrow> Inr (map hook_snap_of selected)))"
proof -
  have find: "find P (map f xs) = (case filter (P \<circ> f) xs of [] \<Rightarrow> None | x # _ \<Rightarrow> Some (f x))" for P f and xs :: "hook list"
    by (induction xs) auto
  have "let (r', st') = store_preflight E r op st; selected = filter (eligible r) (listeners st (et_name E)) in
   listeners st' = listeners st \<and>
   r' = (if map_of (ev_contracts st) (et_name E) \<notin> {None, Some (contract_of E)}
          then Inl (EventContractMismatch (et_name E))
          else (case filter (\<lambda>h. \<not> compatible op (hk_role h)) selected of
                  h # _ \<Rightarrow> Inl (IncompatibleRole op (hk_role h))
                | [] \<Rightarrow> Inr (map hook_snap_of selected)))"
  proof (cases "bind_locked E st")
    case None
    with bind_locked_None [of E st] show ?thesis by (simp add: store_preflight_def)
  next
    case (Some st1)
    note h = bind_locked_hooks [OF Some]
    have bound: "map_of (ev_contracts st) (et_name E) \<in> {None, Some (contract_of E)}"
      using bind_locked_None [of E st] Some by simp
    show ?thesis
    proof (cases "hooks_of st (et_name E)")
      case None
      with Some h bound show ?thesis by (simp add: store_preflight_def listeners_def fun_eq_iff)
    next
      case (Some eh)
      have "listeners (put_hooks (et_name E) (hooks_compact_if_sparse eh) st1) = listeners st"
        using Some h by (simp add: listeners_def fun_eq_iff)
      with Some h \<open>bind_locked E st = Some st1\<close> bound show ?thesis
        by (auto simp: store_preflight_def listeners_def Let_def find comp_def split: list.split)
    qed
  qed
  then show ?thesis
    by (cases r) (auto simp: context_preflight_def scope_belongs_to_def Let_def split: prod.splits)
qed



end
