(* ===== verification/Event_Dispatch.thy ===== *)
theory Event_Dispatch
  imports Event_Store
begin

text \<open>
  Listener registration and the four dispatch operations
  (\<open>crates/cordis-core/src/events/dispatch.rs\<close>, with the adapters of \<open>listener.rs\<close>).

  User code (callbacks, tails, destructors) is a parameter: a record of functions on the
  whole \<open>event_world\<close>, which they may change at will, so that re-entrant registrations and the
  effects of other tasks between two awaits are part of what a callback does.  An Around
  callback consumes its \<open>Next\<close> at most once: it either ends without calling it, or calls it
  and continues with the result.

  \<open>None\<close> as the result of a dispatch is an \<open>unreachable!\<close> of the code.  Besides its result each
  loop returns the attempts it made, in order; they are not a value of the code, and the
  properties are stated over them.
\<close>

datatype listener_change = Registered | Unregistered

datatype dispatch_outcome_kind = Completed | Answered | Missed | DispatchFailed

record listener_observation_meta =
  lm_id :: ident
  lm_event :: string
  lm_role :: listener_role
  lm_scope :: "scope_node option"
  lm_options :: listener_options

datatype event_observation =
    ListenerRegistrationChange listener_change listener_observation_meta
  | DispatchCompleted event_operation string routing dispatch_outcome_kind

record 'u event_world =
  ew_events :: event_state
  ew_observed :: "event_observation list"
  ew_user :: 'u

definition publish_listener_change ::
  "listener_change \<Rightarrow> listener_observation_meta \<Rightarrow> 'u event_world \<Rightarrow> 'u event_world" where
  "publish_listener_change change m w =
     w\<lparr>ew_observed := ew_observed w @ [ListenerRegistrationChange change m]\<rparr>"

section \<open>Failures\<close>

definition failure_returned :: "string \<Rightarrow> invocation_failure" where
  "failure_returned d = \<lparr>if_registration = None, if_kind = ReturnedError, if_diagnostic = d\<rparr>"

definition failure_panic :: "string \<Rightarrow> invocation_failure" where
  "failure_panic d = \<lparr>if_registration = None, if_kind = Panic, if_diagnostic = d\<rparr>"

definition correlate :: "ident \<Rightarrow> invocation_failure \<Rightarrow> invocation_failure" where
  "correlate i e = (if if_registration e = None then e\<lparr>if_registration := Some i\<rparr> else e)"

text \<open>An error of a callback: its own, or a downstream failure it passes on.\<close>

datatype user_error = OwnError string | PassedOn invocation_failure

definition normalize_returned :: "user_error \<Rightarrow> invocation_failure" where
  "normalize_returned e = (case e of OwnError d \<Rightarrow> failure_returned d | PassedOn f \<Rightarrow> f)"

datatype 'v call_outcome = Returned 'v | Errored user_error | Panicked string

section \<open>User code\<close>

datatype ('a, 'o) callback_value = CvObserver | CvResponder "'o option" | CvMapper 'a

datatype ('a, 'o, 'u) around_step =
    AroundDone "'o call_outcome"
  | AroundNext 'a "invocation_failure + 'o \<Rightarrow> 'u event_world \<Rightarrow> 'o call_outcome \<times> 'u event_world"

record ('a, 'o, 'u) event_code =
  code_observer :: "ident \<Rightarrow> 'a \<Rightarrow> 'u event_world \<Rightarrow> unit call_outcome \<times> 'u event_world"
  code_responder :: "ident \<Rightarrow> 'a \<Rightarrow> 'u event_world \<Rightarrow> 'o option call_outcome \<times> 'u event_world"
  code_mapper :: "ident \<Rightarrow> 'a \<Rightarrow> 'u event_world \<Rightarrow> 'a call_outcome \<times> 'u event_world"
  code_around :: "ident \<Rightarrow> 'a \<Rightarrow> 'u event_world \<Rightarrow> ('a, 'o, 'u) around_step \<times> 'u event_world"
  code_drop :: "ident \<Rightarrow> 'u event_world \<Rightarrow> string option \<times> 'u event_world" \<comment> \<open>destructor of a callback\<close>
  code_drop_value :: "'u event_world \<Rightarrow> string option \<times> 'u event_world" \<comment> \<open>destructor of an output\<close>
  code_drop_chain :: "ident list \<Rightarrow> 'u event_world \<Rightarrow> string list \<times> 'u event_world"
    \<comment> \<open>destructors of an uncalled continuation: the panics, in destruction order\<close>
  code_tail :: "'a \<Rightarrow> 'u event_world \<Rightarrow> 'o call_outcome \<times> 'u event_world"
  code_join :: "(ident \<times> ident \<times> listener_role) list \<Rightarrow> 'a \<Rightarrow> 'u event_world \<Rightarrow>
    (invocation_failure + ('a, 'o) callback_value) list \<times> 'u event_world"
    \<comment> \<open>\<open>join_all\<close>: the outcomes of interleaved invocations, in the order of the list\<close>

fun map_outcome :: "('v \<Rightarrow> 'w) \<Rightarrow> 'v call_outcome \<Rightarrow> 'w call_outcome" where
  "map_outcome g (Returned v) = Returned (g v)"
| "map_outcome g (Errored e) = Errored e"
| "map_outcome g (Panicked d) = Panicked d"

text \<open>The erased plain listener: the adapter of its role around the user's callback.\<close>

definition erased_call ::
  "('a, 'o, 'u) event_code \<Rightarrow> listener_role \<Rightarrow> ident \<Rightarrow> 'a \<Rightarrow> 'u event_world \<Rightarrow>
   ('a, 'o) callback_value call_outcome \<times> 'u event_world"
where
  "erased_call code role callback payload w =
     (case role of
        Observer \<Rightarrow> map_prod (map_outcome (\<lambda>_. CvObserver)) (\<lambda>w. w) (code_observer code callback payload w)
      | Responder \<Rightarrow> map_prod (map_outcome CvResponder) (\<lambda>w. w) (code_responder code callback payload w)
      | _ \<Rightarrow> map_prod (map_outcome CvMapper) (\<lambda>w. w) (code_mapper code callback payload w))"

section \<open>One invocation\<close>

definition settle_outcome :: "'v call_outcome \<Rightarrow> invocation_failure + 'v" where
  "settle_outcome r =
     (case r of
        Returned v \<Rightarrow> Inr v
      | Errored e \<Rightarrow> Inl (normalize_returned e)
      | Panicked d \<Rightarrow> Inl (failure_panic d))"

definition drop_callback_contained ::
  "('a, 'o, 'u) event_code \<Rightarrow> ident \<Rightarrow> invocation_failure + 'v \<Rightarrow> 'u event_world \<Rightarrow>
   (invocation_failure + 'v) \<times> 'u event_world"
where
  "drop_callback_contained code callback r w =
     (case code_drop code callback w of
        (None, w1) \<Rightarrow> (r, w1)
      | (Some d, w1) \<Rightarrow>
          (case r of
             Inr _ \<Rightarrow>
               (case code_drop_value code w1 of
                  (None, w2) \<Rightarrow> (Inl (failure_panic d), w2)
                | (Some s, w2) \<Rightarrow>
                    (Inl (failure_panic (d @ ''; listener output destruction panicked: '' @ s)), w2))
           | Inl e \<Rightarrow>
               (Inl (e\<lparr>if_diagnostic := if_diagnostic e @ ''; listener destruction panicked: '' @ d\<rparr>), w1)))"

definition invoke_plain ::
  "('a, 'o, 'u) event_code \<Rightarrow> listener_role \<Rightarrow> ident \<Rightarrow> 'a \<Rightarrow> 'u event_world \<Rightarrow>
   (invocation_failure + ('a, 'o) callback_value) \<times> 'u event_world"
where
  "invoke_plain code role callback payload w =
     (case erased_call code role callback payload w of
        (r, w1) \<Rightarrow> drop_callback_contained code callback (settle_outcome r) w1)"

definition correlated :: "ident \<Rightarrow> invocation_failure + 'v \<Rightarrow> invocation_failure + 'v" where
  "correlated i r = (case r of Inl e \<Rightarrow> Inl (correlate i e) | Inr v \<Rightarrow> Inr v)"

definition invoke_listener ::
  "('a, 'o, 'u) event_code \<Rightarrow> hook_snap \<Rightarrow> 'a \<Rightarrow> 'u event_world \<Rightarrow>
   (invocation_failure + ('a, 'o) callback_value) \<times> 'u event_world"
where
  "invoke_listener code h payload w =
     (case invoke_plain code (hs_role h) (hs_callback h) payload w of (r, w1) \<Rightarrow> (correlated (hs_id h) r, w1))"

section \<open>Claims\<close>

definition claim_hook :: "string \<Rightarrow> hook_snap \<Rightarrow> 'u event_world \<Rightarrow> bool \<times> 'u event_world" where
  "claim_hook name h w =
     (case event_claim name (hs_id h) (ew_events w) of
        ((claimed, unregistered), st) \<Rightarrow>
          (claimed,
           if unregistered
           then publish_listener_change Unregistered
                  \<lparr>lm_id = hs_id h, lm_event = name, lm_role = hs_role h, lm_scope = hs_scope h,
                   lm_options = hs_options h\<rparr> (w\<lparr>ew_events := st\<rparr>)
           else w\<lparr>ew_events := st\<rparr>))"

text \<open>Each destruction is contained on its own.\<close>

definition drop_unclaimed_hooks :: "('a, 'o, 'u) event_code \<Rightarrow> hook_snap list \<Rightarrow> 'u event_world \<Rightarrow> 'u event_world" where
  "drop_unclaimed_hooks code hooks w = fold (\<lambda>h w. snd (code_drop code (hs_callback h) w)) hooks w"

datatype ('a, 'o) attempt =
    Skipped ident \<comment> \<open>the claim was lost\<close>
  | Invoked ident 'a "invocation_failure + ('a, 'o) callback_value"
  | Wrapped ident 'a
  | TailCalled 'a

fun attempt_id :: "('a, 'o) attempt \<Rightarrow> ident option" where
  "attempt_id (Skipped i) = Some i"
| "attempt_id (Invoked i _ _) = Some i"
| "attempt_id (Wrapped i _) = Some i"
| "attempt_id (TailCalled _) = None"

section \<open>The operations\<close>

fun emit_loop ::
  "('a, 'o, 'u) event_code \<Rightarrow> string \<Rightarrow> 'a \<Rightarrow> hook_snap list \<Rightarrow> 'u event_world \<Rightarrow>
   (dispatch_error + unit) option \<times> ('a, 'o) attempt list \<times> 'u event_world"
where
  "emit_loop code name args [] w = (Some (Inr ()), [], w)"
| "emit_loop code name args (h # hooks) w =
     (case claim_hook name h w of
        (False, w1) \<Rightarrow>
          (case emit_loop code name args hooks (drop_unclaimed_hooks code [h] w1) of
             (r, tr, w2) \<Rightarrow> (r, Skipped (hs_id h) # tr, w2))
      | (True, w1) \<Rightarrow>
          if hs_role h = Around then (None, [], w1)
          else (case invoke_listener code h args w1 of
                  (Inl e, w2) \<Rightarrow>
                    (Some (Inl (Invocation e)), [Invoked (hs_id h) args (Inl e)], drop_unclaimed_hooks code hooks w2)
                | (Inr v, w2) \<Rightarrow>
                    (case emit_loop code name args hooks w2 of
                       (r, tr, w3) \<Rightarrow> (r, Invoked (hs_id h) args (Inr v) # tr, w3))))"

definition emit_inner ::
  "('a, 'o, 'u) event_code \<Rightarrow> ident \<Rightarrow> event_type \<Rightarrow> routing \<Rightarrow> 'a \<Rightarrow> 'u event_world \<Rightarrow>
   (dispatch_error + unit) option \<times> ('a, 'o) attempt list \<times> 'u event_world"
where
  "emit_inner code membership E r args w =
     (case context_preflight membership E r Emit (ew_events w) of
        (Inl e, st) \<Rightarrow> (Some (Inl e), [], w\<lparr>ew_events := st\<rparr>)
      | (Inr hooks, st) \<Rightarrow> emit_loop code (et_name E) args hooks (w\<lparr>ew_events := st\<rparr>))"

fun claim_all ::
  "('a, 'o, 'u) event_code \<Rightarrow> string \<Rightarrow> hook_snap list \<Rightarrow> 'u event_world \<Rightarrow> hook_snap list \<times> 'u event_world"
where
  "claim_all code name [] w = ([], w)"
| "claim_all code name (h # hooks) w =
     (case claim_hook name h w of
        (False, w1) \<Rightarrow> claim_all code name hooks (drop_unclaimed_hooks code [h] w1)
      | (True, w1) \<Rightarrow> (case claim_all code name hooks w1 of (claimed, w2) \<Rightarrow> (h # claimed, w2)))"

definition failures_of :: "(invocation_failure + 'v) list \<Rightarrow> invocation_failure list" where
  "failures_of rs = List.map_filter (\<lambda>r. case r of Inl e \<Rightarrow> Some e | Inr _ \<Rightarrow> None) rs"

definition emit_parallel_inner ::
  "('a, 'o, 'u) event_code \<Rightarrow> ident \<Rightarrow> event_type \<Rightarrow> routing \<Rightarrow> 'a \<Rightarrow> 'u event_world \<Rightarrow>
   (dispatch_error + unit) option \<times> ('a, 'o) attempt list \<times> 'u event_world"
where
  "emit_parallel_inner code membership E r args w =
     (case context_preflight membership E r EmitParallel (ew_events w) of
        (Inl e, st) \<Rightarrow> (Some (Inl e), [], w\<lparr>ew_events := st\<rparr>)
      | (Inr hooks, st) \<Rightarrow>
          (case claim_all code (et_name E) hooks (w\<lparr>ew_events := st\<rparr>) of
             (claimed, w1) \<Rightarrow>
               if list_ex (\<lambda>h. hs_role h = Around) claimed then (None, [], w1)
               else (case code_join code (map (\<lambda>h. (hs_id h, hs_callback h, hs_role h)) claimed) args w1 of
                       (rs, w2) \<Rightarrow>
                         (Some (if failures_of rs = [] then Inr () else Inl (ParallelFailures (failures_of rs))),
                          map2 (\<lambda>h r. Invoked (hs_id h) args r) claimed rs, w2))))"

datatype 'o query_outcome = Miss | Answer 'o

fun query_loop ::
  "('a, 'o, 'u) event_code \<Rightarrow> string \<Rightarrow> 'a \<Rightarrow> hook_snap list \<Rightarrow> 'u event_world \<Rightarrow>
   (dispatch_error + 'o query_outcome) option \<times> ('a, 'o) attempt list \<times> 'u event_world"
where
  "query_loop code name args [] w = (Some (Inr Miss), [], w)"
| "query_loop code name args (h # hooks) w =
     (case claim_hook name h w of
        (False, w1) \<Rightarrow>
          (case query_loop code name args hooks (drop_unclaimed_hooks code [h] w1) of
             (r, tr, w2) \<Rightarrow> (r, Skipped (hs_id h) # tr, w2))
      | (True, w1) \<Rightarrow>
          if hs_role h = Around then (None, [], w1)
          else (case invoke_listener code h args w1 of
                  (Inl e, w2) \<Rightarrow>
                    (Some (Inl (Invocation e)), [Invoked (hs_id h) args (Inl e)], drop_unclaimed_hooks code hooks w2)
                | (Inr v, w2) \<Rightarrow>
                    (let go = (case query_loop code name args hooks w2 of
                                 (r, tr, w3) \<Rightarrow> (r, Invoked (hs_id h) args (Inr v) # tr, w3))
                     in case (hs_role h, v) of
                          (Observer, CvObserver) \<Rightarrow> go
                        | (Responder, CvResponder None) \<Rightarrow> go
                        | (Responder, CvResponder (Some output)) \<Rightarrow>
                            (Some (Inr (Answer output)), [Invoked (hs_id h) args (Inr v)],
                             drop_unclaimed_hooks code hooks w2)
                        | _ \<Rightarrow> (None, [], w2))))"

definition query_inner ::
  "('a, 'o, 'u) event_code \<Rightarrow> ident \<Rightarrow> event_type \<Rightarrow> routing \<Rightarrow> 'a \<Rightarrow> 'u event_world \<Rightarrow>
   (dispatch_error + 'o query_outcome) option \<times> ('a, 'o) attempt list \<times> 'u event_world"
where
  "query_inner code membership E r args w =
     (case context_preflight membership E r Query (ew_events w) of
        (Inl e, st) \<Rightarrow> (Some (Inl e), [], w\<lparr>ew_events := st\<rparr>)
      | (Inr hooks, st) \<Rightarrow> query_loop code (et_name E) args hooks (w\<lparr>ew_events := st\<rparr>))"

text \<open>
  The waterfall: the continuation of each registration is the chain of the registrations
  after it, ending in the tail.
\<close>

type_synonym ('a, 'o, 'u) chain =
  "'a \<Rightarrow> 'u event_world \<Rightarrow> (invocation_failure + 'o) option \<times> ('a, 'o) attempt list \<times> 'u event_world"

definition tail_next :: "('a, 'o, 'u) event_code \<Rightarrow> ('a, 'o, 'u) chain" where
  "tail_next code payload w =
     (case code_tail code payload w of (r, w1) \<Rightarrow>
        (Some (case r of
                 Returned output \<Rightarrow> Inr output
               | Errored (OwnError d) \<Rightarrow> Inl (failure_returned d)
               | Errored (PassedOn e) \<Rightarrow> Inl (failure_returned (if_diagnostic e))
               | Panicked d \<Rightarrow> Inl (failure_panic d)),
         [TailCalled payload], w1))"

definition append_uncalled :: "string list \<Rightarrow> invocation_failure \<Rightarrow> invocation_failure" where
  "append_uncalled ds e =
     e\<lparr>if_diagnostic := if_diagnostic e @
        concat (map (\<lambda>d. ''; uncalled waterfall continuation destruction panicked: '' @ d) ds)\<rparr>"

definition run_around ::
  "('a, 'o, 'u) event_code \<Rightarrow> ident \<Rightarrow> ('a, 'o, 'u) chain \<Rightarrow> 'a \<Rightarrow> 'u event_world \<Rightarrow>
   (invocation_failure + 'o) option \<times> ('a, 'o) attempt list \<times> 'u event_world"
where
  "run_around code callback downstream payload w =
     (case code_around code callback payload w of
        (AroundDone r, w1) \<Rightarrow>
          (case drop_callback_contained code callback (settle_outcome r) w1 of (r', w2) \<Rightarrow> (Some r', [], w2))
      | (AroundNext payload' resume, w1) \<Rightarrow>
          (case downstream payload' w1 of
             (None, tr, w2) \<Rightarrow> (None, tr, w2)
           | (Some inner, tr, w2) \<Rightarrow>
               (case resume inner w2 of
                  (r, w3) \<Rightarrow>
                    (case drop_callback_contained code callback (settle_outcome r) w3 of
                       (r', w4) \<Rightarrow> (Some r', tr, w4)))))"

fun waterfall_chain :: "('a, 'o, 'u) event_code \<Rightarrow> string \<Rightarrow> hook_snap list \<Rightarrow> ('a, 'o, 'u) chain" where
  "waterfall_chain code name [] payload w = tail_next code payload w"
| "waterfall_chain code name (h # hooks) payload w =
     (case claim_hook name h w of
        (False, w1) \<Rightarrow>
          (case waterfall_chain code name hooks payload (drop_unclaimed_hooks code [h] w1) of
             (r, tr, w2) \<Rightarrow> (r, Skipped (hs_id h) # tr, w2))
      | (True, w1) \<Rightarrow>
          if hs_role h = Around
          then (case run_around code (hs_callback h) (waterfall_chain code name hooks) payload w1 of
                  (r, tr, w2) \<Rightarrow> (map_option (correlated (hs_id h)) r, Wrapped (hs_id h) payload # tr, w2))
          else (case invoke_listener code h payload w1 of
                  (Inr (CvMapper mapped), w2) \<Rightarrow>
                    (case waterfall_chain code name hooks mapped w2 of
                       (r, tr, w3) \<Rightarrow> (r, Invoked (hs_id h) payload (Inr (CvMapper mapped)) # tr, w3))
                | (Inr _, w2) \<Rightarrow> (None, [], w2)
                | (Inl e, w2) \<Rightarrow>
                    (case code_drop_chain code (map hs_callback hooks) w2 of
                       (ds, w3) \<Rightarrow>
                         (Some (Inl (append_uncalled ds e)), [Invoked (hs_id h) payload (Inl e)], w3))))"

definition waterfall_inner ::
  "('a, 'o, 'u) event_code \<Rightarrow> ident \<Rightarrow> event_type \<Rightarrow> routing \<Rightarrow> 'a \<Rightarrow> 'u event_world \<Rightarrow>
   (dispatch_error + 'o) option \<times> ('a, 'o) attempt list \<times> 'u event_world"
where
  "waterfall_inner code membership E r args w =
     (case context_preflight membership E r Waterfall (ew_events w) of
        (Inl e, st) \<Rightarrow> (Some (Inl e), [], snd (code_drop_chain code [] (w\<lparr>ew_events := st\<rparr>)))
      | (Inr hooks, st) \<Rightarrow>
          (case waterfall_chain code (et_name E) hooks args (w\<lparr>ew_events := st\<rparr>) of
             (r, tr, w1) \<Rightarrow>
               (map_option (\<lambda>r. case r of Inl e \<Rightarrow> Inl (Invocation e) | Inr output \<Rightarrow> Inr output) r, tr, w1)))"

text \<open>The public operations publish one completion.\<close>

definition completed :: "event_operation \<Rightarrow> event_type \<Rightarrow> routing \<Rightarrow> dispatch_outcome_kind \<Rightarrow> 'u event_world \<Rightarrow> 'u event_world" where
  "completed op E r outcome w = w\<lparr>ew_observed := ew_observed w @ [DispatchCompleted op (et_name E) r outcome]\<rparr>"

definition emit where
  "emit code membership E r args w =
     (case emit_inner code membership E r args w of (result, tr, w1) \<Rightarrow>
        (result, tr,
         case result of
           None \<Rightarrow> w1
         | Some (Inr _) \<Rightarrow> completed Emit E r Completed w1
         | Some (Inl _) \<Rightarrow> completed Emit E r DispatchFailed w1))"

definition emit_parallel where
  "emit_parallel code membership E r args w =
     (case emit_parallel_inner code membership E r args w of (result, tr, w1) \<Rightarrow>
        (result, tr,
         case result of
           None \<Rightarrow> w1
         | Some (Inr _) \<Rightarrow> completed EmitParallel E r Completed w1
         | Some (Inl _) \<Rightarrow> completed EmitParallel E r DispatchFailed w1))"

definition query where
  "query code membership E r args w =
     (case query_inner code membership E r args w of (result, tr, w1) \<Rightarrow>
        (result, tr,
         case result of
           None \<Rightarrow> w1
         | Some (Inr (Answer _)) \<Rightarrow> completed Query E r Answered w1
         | Some (Inr Miss) \<Rightarrow> completed Query E r Missed w1
         | Some (Inl _) \<Rightarrow> completed Query E r DispatchFailed w1))"

definition waterfall where
  "waterfall code membership E r args w =
     (case waterfall_inner code membership E r args w of (result, tr, w1) \<Rightarrow>
        (result, tr,
         case result of
           None \<Rightarrow> w1
         | Some (Inr _) \<Rightarrow> completed Waterfall E r Completed w1
         | Some (Inl _) \<Rightarrow> completed Waterfall E r DispatchFailed w1))"

section \<open>Registration\<close>

datatype listener_registration_error = ListenerInactiveContext | ListenerContractMismatch string

record listener_registration =
  lr_event :: string
  lr_id :: ident
  lr_cleanup :: token

text \<open>
  \<open>Context::register_listener\<close>; \<open>f0\<close> is the Fiber at the gate, \<open>f\<close> under the journal lock, \<open>i\<close>
  the fresh identity.  The withdrawal obligation removes the registration by identity.
\<close>

definition register_listener ::
  "ctx \<Rightarrow> event_type \<Rightarrow> listener_role \<Rightarrow> ident \<Rightarrow> listener_options \<Rightarrow> ident \<Rightarrow>
   fiber \<Rightarrow> fiber \<times> event_state \<Rightarrow>
   (listener_registration_error + listener_registration) \<times> (fiber \<times> event_state) \<times> event_observation list"
where
  "register_listener cx E role callback options i f0 s =
     (let h = hook_new cx role callback options i;
          m = \<lparr>lm_id = i, lm_event = et_name E, lm_role = role, lm_scope = cx_scope cx, lm_options = options\<rparr>
      in case push_gated fst put_fst (sync_cleanup (RemoveListener (et_name E) i))
                (lift_publish (add_reserved E h)) (f0, snd s) s of
           (Inl PublishRefused, s') \<Rightarrow> (Inl (ListenerContractMismatch (et_name E)), s', [])
         | (Inl InactiveContext, s') \<Rightarrow> (Inl ListenerInactiveContext, s', [])
         | (Inr token, s') \<Rightarrow>
             (Inr \<lparr>lr_event = et_name E, lr_id = i, lr_cleanup = token\<rparr>, s',
              [ListenerRegistrationChange Registered m]))"

text \<open>\<open>ListenerRegistration::remove\<close>: by identity, then the obligation is disarmed.\<close>

definition registration_remove :: "listener_registration \<Rightarrow> fiber \<times> event_state \<Rightarrow> bool \<times> fiber \<times> event_state" where
  "registration_remove reg s =
     (case event_remove (lr_event reg) (lr_id reg) (snd s) of
        (removed, st) \<Rightarrow> (removed, snd (remove_disposable (lr_cleanup reg) (fst s)), st))"

text \<open>The obligation of the drain (\<open>listener_cleanup\<close>).\<close>

definition listener_cleanup :: "string \<Rightarrow> ident \<Rightarrow> event_state \<Rightarrow> bool \<times> event_state" where
  "listener_cleanup name i st = event_remove name i st"

section \<open>The loops\<close>

fun succeeded :: "('a, 'o) attempt \<Rightarrow> bool" where
  "succeeded (Invoked _ _ (Inl _)) = False"
| "succeeded _ = True"

text \<open>An attempt that leaves a query open.\<close>

fun quiet :: "('a, 'o) attempt \<Rightarrow> bool" where
  "quiet (Skipped _) = True"
| "quiet (Invoked _ _ (Inr CvObserver)) = True"
| "quiet (Invoked _ _ (Inr (CvResponder None))) = True"
| "quiet _ = False"

definition payloads :: "('a, 'o) attempt list \<Rightarrow> 'a set" where
  "payloads tr = {x. \<exists>i r. Invoked i x r \<in> set tr}"

lemma payloads_simps [simp]:
  "payloads [] = {}" "payloads (Skipped i # tr) = payloads tr"
  "payloads (Invoked i x r # tr) = insert x (payloads tr)"
  by (auto simp: payloads_def)

text \<open>The attempts go through the selected registrations in order.\<close>

definition in_order :: "('a, 'o) attempt list \<Rightarrow> hook_snap list \<Rightarrow> bool" where
  "in_order tr hooks \<longleftrightarrow> map attempt_id tr = map (\<lambda>h. Some (hs_id h)) (take (length tr) hooks)"

lemma in_order_simps [simp]:
  "in_order [] hooks" "in_order (a # tr) (h # hooks) \<longleftrightarrow> attempt_id a = Some (hs_id h) \<and> in_order tr hooks"
  by (simp_all add: in_order_def)

lemma drop_callback_value:
  "drop_callback_contained code cb r w = (Inr v, w') \<Longrightarrow> r = Inr v"
  by (auto simp: drop_callback_contained_def split: prod.splits option.splits sum.splits)

lemma settle_outcome_value: "settle_outcome r = Inr v \<Longrightarrow> r = Returned v"
  by (auto simp: settle_outcome_def split: call_outcome.splits)

lemma map_outcome_Returned: "map_outcome g r = Returned v \<Longrightarrow> \<exists>x. v = g x"
  by (cases r) auto

lemma invoke_listener_value:
  assumes "invoke_listener code h a w = (Inr v, w')"
  shows "hs_role h = Observer \<Longrightarrow> v = CvObserver" and "hs_role h = Responder \<Longrightarrow> \<exists>x. v = CvResponder x"
    and "hs_role h = Mapper \<Longrightarrow> \<exists>x. v = CvMapper x"
proof -
  obtain r w1 where e: "erased_call code (hs_role h) (hs_callback h) a w = (r, w1)" by force
  with assms have "\<exists>w2. drop_callback_contained code (hs_callback h) (settle_outcome r) w1 = (Inr v, w2)"
    by (auto simp: invoke_listener_def invoke_plain_def correlated_def split: prod.splits sum.splits)
  then have "settle_outcome r = Inr v" by (auto dest: drop_callback_value)
  then have r: "r = Returned v" by (rule settle_outcome_value)
  with e show "hs_role h = Observer \<Longrightarrow> v = CvObserver" and "hs_role h = Responder \<Longrightarrow> \<exists>x. v = CvResponder x"
    and "hs_role h = Mapper \<Longrightarrow> \<exists>x. v = CvMapper x"
    by (auto simp: erased_call_def map_prod_def dest!: map_outcome_Returned split: prod.splits)
qed

lemma invoke_listener_failure:
  "invoke_listener code h a w = (Inl e, w') \<Longrightarrow> if_registration e \<noteq> None"
  by (auto simp: invoke_listener_def correlated_def correlate_def split: prod.splits sum.splits if_splits)

lemma emit_loop_spec:
  assumes "list_all (\<lambda>h. hs_role h \<noteq> Around) hooks" and "emit_loop code name args hooks w = (r, tr, w')"
  shows "in_order tr hooks \<and> payloads tr \<subseteq> {args} \<and>
    (r = Some (Inr ()) \<and> length tr = length hooks \<and> list_all succeeded tr \<or>
     (\<exists>e i. r = Some (Inl (Invocation e)) \<and> if_registration e \<noteq> None \<and> tr \<noteq> [] \<and>
        last tr = Invoked i args (Inl e) \<and> list_all succeeded (butlast tr)))"
  using assms
proof (induction hooks arbitrary: w r tr w')
  case Nil
  then show ?case by simp
next
  case (Cons h hooks)
  obtain claimed w1 where c: "claim_hook name h w = (claimed, w1)" by force
  show ?case
  proof (cases claimed)
    case False
    obtain r2 tr2 w2 where l: "emit_loop code name args hooks (drop_unclaimed_hooks code [h] w1) = (r2, tr2, w2)"
      by (metis prod_cases3)
    with Cons.prems c False have eq: "r = r2" "tr = Skipped (hs_id h) # tr2" by auto
    from Cons.IH [OF _ l] Cons.prems(1) eq show ?thesis by auto
  next
    case True
    obtain v w2 where i: "invoke_listener code h args w1 = (v, w2)" by force
    show ?thesis
    proof (cases v)
      case (Inl e)
      with Cons.prems c True i invoke_listener_failure [of code h args w1 e w2] show ?thesis by auto
    next
      case (Inr x)
      obtain r2 tr2 w3 where l: "emit_loop code name args hooks w2 = (r2, tr2, w3)" by (metis prod_cases3)
      with Cons.prems c True i Inr have eq: "r = r2" "tr = Invoked (hs_id h) args (Inr x) # tr2" by auto
      from Cons.IH [OF _ l] Cons.prems(1) eq show ?thesis by auto
    qed
  qed
qed

lemma query_loop_spec:
  assumes "list_all (\<lambda>h. hs_role h = Observer \<or> hs_role h = Responder) hooks"
    and "query_loop code name args hooks w = (r, tr, w')"
  shows "in_order tr hooks \<and> payloads tr \<subseteq> {args} \<and>
    (r = Some (Inr Miss) \<and> length tr = length hooks \<and> list_all quiet tr \<or>
     (\<exists>o' i. r = Some (Inr (Answer o')) \<and> tr \<noteq> [] \<and> last tr = Invoked i args (Inr (CvResponder (Some o'))) \<and>
        list_all quiet (butlast tr)) \<or>
     (\<exists>e i. r = Some (Inl (Invocation e)) \<and> if_registration e \<noteq> None \<and> tr \<noteq> [] \<and>
        last tr = Invoked i args (Inl e) \<and> list_all quiet (butlast tr)))"
  using assms
proof (induction hooks arbitrary: w r tr w')
  case Nil
  then show ?case by simp
next
  case (Cons h hooks)
  obtain claimed w1 where c: "claim_hook name h w = (claimed, w1)" by force
  show ?case
  proof (cases claimed)
    case False
    obtain r2 tr2 w2 where l: "query_loop code name args hooks (drop_unclaimed_hooks code [h] w1) = (r2, tr2, w2)"
      by (metis prod_cases3)
    with Cons.prems c False have eq: "r = r2" "tr = Skipped (hs_id h) # tr2" by auto
    from Cons.IH [OF _ l] Cons.prems(1) eq show ?thesis by auto
  next
    case True
    obtain v w2 where i: "invoke_listener code h args w1 = (v, w2)" by force
    obtain r2 tr2 w3 where l: "query_loop code name args hooks w2 = (r2, tr2, w3)" by (metis prod_cases3)
    show ?thesis
    proof (cases v)
      case (Inl e)
      with Cons.prems c True i invoke_listener_failure [of code h args w1 e w2] show ?thesis by auto
    next
      case (Inr x)
      with i have val: "invoke_listener code h args w1 = (Inr x, w2)" by simp
      from Cons.prems(1) consider (obs) "hs_role h = Observer" "x = CvObserver"
        | (none) "hs_role h = Responder" "x = CvResponder None"
        | (some) o' where "hs_role h = Responder" "x = CvResponder (Some o')"
        using invoke_listener_value [OF val] by (auto, metis option.exhaust)
      then show ?thesis
      proof cases
        case obs
        with Cons.prems c True val l have eq: "r = r2" "tr = Invoked (hs_id h) args (Inr x) # tr2" by auto
        from Cons.IH [OF _ l] Cons.prems(1) eq obs show ?thesis by auto
      next
        case none
        with Cons.prems c True val l have eq: "r = r2" "tr = Invoked (hs_id h) args (Inr x) # tr2" by auto
        from Cons.IH [OF _ l] Cons.prems(1) eq none show ?thesis by auto
      next
        case some
        with Cons.prems c True val show ?thesis by auto
      qed
    qed
  qed
qed

lemma preflight_roles:
  assumes "context_preflight membership E r op st = (Inr hooks, st')"
  shows "list_all (\<lambda>h. compatible op (hs_role h)) hooks"
proof -
  have "list_all (\<lambda>h. compatible op (hs_role h)) hooks" if "store_preflight E r op st = (Inr hooks, st')"
    using that
    by (auto simp: store_preflight_def Let_def list_all_iff find_None_iff hook_snap_of_def split: option.splits)
  with assms show ?thesis
    by (auto simp: context_preflight_def split: routing.splits if_splits)
qed

section \<open>The properties\<close>

text \<open>
  An emission delivers in order and stops at the first failure.  The registrations that
  preflight selected are attempted in their order, each with the same payload; a registration
  whose claim is lost is skipped.  The emission succeeds exactly when every one was attempted
  and none failed; a failure is the last attempt's, correlated with a registration, and
  nothing after it is claimed or invoked.
\<close>

theorem emit_delivers_in_order:
  "case emit_inner code membership E r args w of (result, tr, w') \<Rightarrow>
     (case fst (context_preflight membership E r Emit (ew_events w)) of
        Inl e \<Rightarrow> result = Some (Inl e) \<and> tr = []
      | Inr hooks \<Rightarrow>
          in_order tr hooks \<and> payloads tr \<subseteq> {args} \<and>
          (case result of
             None \<Rightarrow> False
           | Some (Inr _) \<Rightarrow> length tr = length hooks \<and> list_all succeeded tr
           | Some (Inl e) \<Rightarrow>
               (\<exists>f i. e = Invocation f \<and> if_registration f \<noteq> None \<and> tr \<noteq> [] \<and>
                  last tr = Invoked i args (Inl f) \<and> list_all succeeded (butlast tr))))"
proof -
  obtain pre st where p: "context_preflight membership E r Emit (ew_events w) = (pre, st)" by force
  show ?thesis
  proof (cases pre)
    case (Inl e)
    with p show ?thesis by (simp add: emit_inner_def)
  next
    case (Inr hooks)
    have "list_all (\<lambda>h. hs_role h \<noteq> Around) hooks"
      using preflight_roles [of membership E r Emit "ew_events w" hooks st] p Inr by (auto simp: list_all_iff)
    moreover obtain result tr w' where e: "emit_loop code (et_name E) args hooks (w\<lparr>ew_events := st\<rparr>) = (result, tr, w')"
      by (metis prod_cases3)
    ultimately have "in_order tr hooks \<and> payloads tr \<subseteq> {args} \<and>
      (result = Some (Inr ()) \<and> length tr = length hooks \<and> list_all succeeded tr \<or>
       (\<exists>e i. result = Some (Inl (Invocation e)) \<and> if_registration e \<noteq> None \<and> tr \<noteq> [] \<and>
          last tr = Invoked i args (Inl e) \<and> list_all succeeded (butlast tr)))"
      by (rule emit_loop_spec)
    with p Inr e show ?thesis by (auto simp: emit_inner_def)
  qed
qed

text \<open>
  A query returns the first answer.  The answer is the output of the last attempt, a
  Responder, and every attempt before it was an Observer or a Responder without an answer;
  registrations after it are neither claimed nor invoked.  A miss means that every selected
  registration was attempted and none answered or failed.
\<close>

theorem query_first_answer:
  "case query_inner code membership E r args w of (result, tr, w') \<Rightarrow>
     (case fst (context_preflight membership E r Query (ew_events w)) of
        Inl e \<Rightarrow> result = Some (Inl e) \<and> tr = []
      | Inr hooks \<Rightarrow>
          in_order tr hooks \<and> payloads tr \<subseteq> {args} \<and>
          (case result of
             None \<Rightarrow> False
           | Some (Inr Miss) \<Rightarrow> length tr = length hooks \<and> list_all quiet tr
           | Some (Inr (Answer output)) \<Rightarrow>
               (\<exists>i. tr \<noteq> [] \<and> last tr = Invoked i args (Inr (CvResponder (Some output))) \<and> list_all quiet (butlast tr))
           | Some (Inl e) \<Rightarrow>
               (\<exists>f i. e = Invocation f \<and> if_registration f \<noteq> None \<and> tr \<noteq> [] \<and>
                  last tr = Invoked i args (Inl f) \<and> list_all quiet (butlast tr))))"
proof -
  obtain pre st where p: "context_preflight membership E r Query (ew_events w) = (pre, st)" by force
  show ?thesis
  proof (cases pre)
    case (Inl e)
    with p show ?thesis by (simp add: query_inner_def)
  next
    case (Inr hooks)
    have roles: "list_all (\<lambda>h. hs_role h = Observer \<or> hs_role h = Responder) hooks"
      using preflight_roles [of membership E r Query "ew_events w" hooks st] p Inr by simp
    obtain result tr w' where q: "query_loop code (et_name E) args hooks (w\<lparr>ew_events := st\<rparr>) = (result, tr, w')"
      by (metis prod_cases3)
    from query_loop_spec [OF roles q] p Inr q show ?thesis by (auto simp: query_inner_def)
  qed
qed

lemma claim_all_subseq: "claim_all code name hooks w = (claimed, w') \<Longrightarrow> set claimed \<subseteq> set hooks \<and> (\<exists>P. claimed = nths hooks P)"
proof (induction hooks arbitrary: w claimed)
  case Nil
  then show ?case by simp
next
  case (Cons h hooks)
  obtain won w1 where c: "claim_hook name h w = (won, w1)" by force
  obtain rest w2 where l: "claim_all code name hooks (if won then w1 else drop_unclaimed_hooks code [h] w1) = (rest, w2)" by force
  with Cons.prems c have eq: "claimed = (if won then h # rest else rest)" "w' = w2" by (auto split: if_splits)
  obtain P where P: "rest = nths hooks P" and sub: "set rest \<subseteq> set hooks" using Cons.IH l eq(2) by blast
  have "nths (h # hooks) ((if won then {0} else {}) \<union> Suc ` P) = (if won then h # rest else rest)"
    by (auto simp: nths_Cons P image_iff)
  then have "\<exists>Q. claimed = nths (h # hooks) Q" unfolding eq(1) by (intro exI) (rule sym)
  with eq sub show ?case by (auto split: if_splits)
qed

text \<open>
  A parallel emission invokes every registration whose claim it wins, whatever the others
  do, and reports exactly the failures, in registration order.
\<close>

theorem emit_parallel_invokes_all:
  assumes join: "\<And>hs a w. length (fst (code_join code hs a w)) = length hs"
  shows "case emit_parallel_inner code membership E r args w of (result, tr, w') \<Rightarrow>
     (case context_preflight membership E r EmitParallel (ew_events w) of
        (Inl e, _) \<Rightarrow> result = Some (Inl e) \<and> tr = []
      | (Inr hooks, st) \<Rightarrow>
          (case claim_all code (et_name E) hooks (w\<lparr>ew_events := st\<rparr>) of (claimed, _) \<Rightarrow>
             map attempt_id tr = map (\<lambda>h. Some (hs_id h)) claimed \<and> (\<exists>P. claimed = nths hooks P) \<and>
             result = Some (if list_all succeeded tr then Inr ()
                            else Inl (ParallelFailures (List.map_filter (\<lambda>a. case a of Invoked _ _ (Inl e) \<Rightarrow> Some e | _ \<Rightarrow> None) tr)))))"
proof -
  obtain pre st where p: "context_preflight membership E r EmitParallel (ew_events w) = (pre, st)" by force
  show ?thesis
  proof (cases pre)
    case (Inl e)
    with p show ?thesis by (simp add: emit_parallel_inner_def)
  next
    case (Inr hooks)
    have roles: "list_all (\<lambda>h. hs_role h \<noteq> Around) hooks"
      using preflight_roles [of membership E r EmitParallel "ew_events w" hooks st] p Inr by (auto simp: list_all_iff)
    obtain claimed w1 where c: "claim_all code (et_name E) hooks (w\<lparr>ew_events := st\<rparr>) = (claimed, w1)" by force
    note sub = claim_all_subseq [OF c]
    have no: "\<not> list_ex (\<lambda>h. hs_role h = Around) claimed"
      using sub roles by (auto simp: list_ex_iff list_all_iff)
    obtain rs w2 where j: "code_join code (map (\<lambda>h. (hs_id h, hs_callback h, hs_role h)) claimed) args w1 = (rs, w2)" by force
    have len: "length rs = length claimed"
      using join [of "map (\<lambda>h. (hs_id h, hs_callback h, hs_role h)) claimed" args w1] j by simp
    let ?tr = "map2 (\<lambda>h r. Invoked (hs_id h) args r) claimed rs"
    have "map attempt_id ?tr = map (\<lambda>h. Some (hs_id h)) claimed \<and>
        failures_of rs = List.map_filter (\<lambda>a. case a of Invoked _ _ (Inl e) \<Rightarrow> Some e | _ \<Rightarrow> None) ?tr \<and>
        (failures_of rs = [] \<longleftrightarrow> list_all succeeded ?tr)"
      using len
      by (induction claimed rs rule: list_induct2')
        (auto simp: failures_of_def List.map_filter_simps split: sum.splits)
    with p Inr c no j sub show ?thesis by (auto simp: emit_parallel_inner_def)
  qed
qed

definition demo_code :: "(nat, nat, unit) event_code" where
  "demo_code =
     \<lparr>code_observer = (\<lambda>_ _ w. (Returned (), w)), code_responder = (\<lambda>_ x w. (Returned (Some x), w)),
      code_mapper = (\<lambda>_ x w. (Returned (2 * x), w)), code_around = (\<lambda>_ _ w. (AroundDone (Returned 0), w)),
      code_drop = (\<lambda>_ w. (None, w)), code_drop_value = (\<lambda>w. (None, w)), code_drop_chain = (\<lambda>_ w. ([], w)),
      code_tail = (\<lambda>x w. (Returned (x + 1), w)),
      code_join = (\<lambda>hs x w. (map (\<lambda>(i, c, role). if role = Observer then Inr CvObserver else Inl (failure_panic ''late'')) hs, w))\<rparr>"

definition demo_world :: "unit event_world" where
  "demo_world = \<lparr>ew_events = demo_events, ew_observed = [], ew_user = ()\<rparr>"

theorem emit_parallel_invokes_all_witness:
  "fst (emit_parallel_inner demo_code 0 demo_event Unscoped 5 demo_world) =
     Some (Inl (ParallelFailures [failure_panic ''late'']))"
proof -
  have "length (fst (code_join demo_code hs a w)) = length hs" for hs a w by (simp add: demo_code_def)
  note law = emit_parallel_invokes_all [where code = demo_code and membership = 0 and E = demo_event and r = Unscoped
      and args = 5 and w = demo_world, OF this]
  have pre: "context_preflight 0 demo_event Unscoped EmitParallel (ew_events demo_world) =
      (Inr (map hook_snap_of [demo_hook 1 Responder True True, demo_hook 0 Observer False False]), demo_events)"
    by code_simp
  have tr: "map (\<lambda>a. case a of Invoked i _ (Inl e) \<Rightarrow> Some e | _ \<Rightarrow> None)
      (fst (snd (emit_parallel_inner demo_code 0 demo_event Unscoped 5 demo_world))) = [Some (failure_panic ''late''), None]"
    by code_simp
  obtain result trace w' where e: "emit_parallel_inner demo_code 0 demo_event Unscoped 5 demo_world = (result, trace, w')"
    by (metis prod_cases3)
  from tr e have m: "map (\<lambda>a. case a of Invoked i _ (Inl e) \<Rightarrow> Some e | _ \<Rightarrow> None) trace = [Some (failure_panic ''late''), None]"
    by simp
  then have fails: "List.map_filter (\<lambda>a. case a of Invoked _ _ (Inl e) \<Rightarrow> Some e | _ \<Rightarrow> None) trace = [failure_panic ''late'']"
    by (auto simp: List.map_filter_simps)
  moreover have "\<not> list_all succeeded trace"
    using m by (auto split: attempt.splits sum.splits)
  ultimately show ?thesis using law e pre by (simp split: prod.splits)
qed

section \<open>The waterfall\<close>

lemma waterfall_chain_order:
  assumes "list_all (\<lambda>h. hs_role h = Mapper \<or> hs_role h = Around) hooks"
    and "waterfall_chain code name hooks payload w = (r, tr, w')"
  shows "r \<noteq> None \<and> map attempt_id tr = take (length tr) (map (\<lambda>h. Some (hs_id h)) hooks @ [None])"
  using assms
proof (induction hooks arbitrary: payload w r tr w')
  case Nil
  then show ?case by (auto simp: tail_next_def split: prod.splits)
next
  case (Cons h hooks)
  have IH: "r2 \<noteq> None \<and> map attempt_id tr2 = take (length tr2) (map (\<lambda>h. Some (hs_id h)) hooks @ [None])"
    if "waterfall_chain code name hooks x w2 = (r2, tr2, w3)" for x w2 r2 tr2 w3
    using Cons.IH [OF _ that] Cons.prems(1) by simp
  obtain claimed w1 where c: "claim_hook name h w = (claimed, w1)" by force
  show ?case
  proof (cases claimed)
    case False
    with Cons.prems(2) c IH show ?thesis by (auto split: prod.splits)
  next
    case won: True
    show ?thesis
    proof (cases "hs_role h = Around")
      case True
      obtain r2 tr2 w2 where a: "run_around code (hs_callback h) (waterfall_chain code name hooks) payload w1 = (r2, tr2, w2)"
        by (metis prod_cases3)
      have "r2 \<noteq> None \<and> (tr2 = [] \<or> (\<exists>x v r3 w3. waterfall_chain code name hooks x v = (r3, tr2, w3)))"
        using a IH by (auto simp: run_around_def split: prod.splits around_step.splits option.splits) blast+
      then have "r2 \<noteq> None \<and> map attempt_id tr2 = take (length tr2) (map (\<lambda>h. Some (hs_id h)) hooks @ [None])"
        using IH by auto
      moreover have "r = map_option (correlated (hs_id h)) r2" "tr = Wrapped (hs_id h) payload # tr2"
        using Cons.prems(2) c won True a by auto
      ultimately show ?thesis by simp
    next
      case False
      with Cons.prems(1) have role: "hs_role h = Mapper" by simp
      obtain v w2 where i: "invoke_listener code h payload w1 = (v, w2)" by force
      show ?thesis
      proof (cases v)
        case (Inl e)
        with Cons.prems(2) c won False i show ?thesis by (auto split: prod.splits)
      next
        case (Inr x)
        with i have val: "invoke_listener code h payload w1 = (Inr x, w2)" by simp
        from invoke_listener_value(3) [OF val role] obtain y where "x = CvMapper y" by blast
        with Cons.prems(2) c won False val IH show ?thesis by (auto split: prod.splits)
      qed
    qed
  qed
qed

text \<open>
  C35: The waterfall is an onion.  Whatever the roles and the user code do, the registrations
  that preflight selected are entered in their order and none twice, the tail runs at most
  once and only after every registration was entered or skipped, and the operation never
  reaches an \<open>unreachable!\<close>.
\<close>

theorem waterfall_onion_order:
  "case waterfall_inner code membership E r args w of (result, tr, w') \<Rightarrow>
     (case fst (context_preflight membership E r Waterfall (ew_events w)) of
        Inl e \<Rightarrow> result = Some (Inl e) \<and> tr = []
      | Inr hooks \<Rightarrow>
          result \<noteq> None \<and> map attempt_id tr = take (length tr) (map (\<lambda>h. Some (hs_id h)) hooks @ [None]))"
proof -
  obtain pre st where p: "context_preflight membership E r Waterfall (ew_events w) = (pre, st)" by force
  show ?thesis
  proof (cases pre)
    case (Inl e)
    with p show ?thesis by (simp add: waterfall_inner_def)
  next
    case (Inr hooks)
    have roles: "list_all (\<lambda>h. hs_role h = Mapper \<or> hs_role h = Around) hooks"
      using preflight_roles [of membership E r Waterfall "ew_events w" hooks st] p Inr by simp
    obtain result tr w' where q: "waterfall_chain code (et_name E) hooks args (w\<lparr>ew_events := st\<rparr>) = (result, tr, w')"
      by (metis prod_cases3)
    from waterfall_chain_order [OF roles q] p Inr q show ?thesis by (simp add: waterfall_inner_def)
  qed
qed

text \<open>The payload that reaches the tail: each Mapper gets what the one before it returned.\<close>

fun flow :: "'a \<Rightarrow> ('a, 'o) attempt list \<Rightarrow> 'a option" where
  "flow x (Skipped _ # tr) = flow x tr"
| "flow x [TailCalled y] = (if y = x then Some x else None)"
| "flow x (Invoked _ y (Inr (CvMapper z)) # tr) = (if y = x then flow z tr else None)"
| "flow x _ = None"

lemma waterfall_mappers:
  assumes "list_all (\<lambda>h. hs_role h = Mapper) hooks" and "waterfall_chain code name hooks payload w = (r, tr, w')"
  shows "(\<exists>y w1. flow payload tr = Some y \<and> r = fst (tail_next code y w1)) \<or>
    (\<exists>i x e ds. tr \<noteq> [] \<and> last tr = Invoked i x (Inl e) \<and> if_registration e \<noteq> None \<and> r = Some (Inl (append_uncalled ds e)))"
  using assms
proof (induction hooks arbitrary: payload w r tr w')
  case Nil
  then have "fst (tail_next code payload w) = r" "tr = [TailCalled payload]"
    by (simp_all add: tail_next_def split: prod.splits)
  then have "flow payload tr = Some payload \<and> r = fst (tail_next code payload w)" by simp
  then show ?case by blast
next
  case (Cons h hooks)
  have role: "hs_role h = Mapper" and rest: "list_all (\<lambda>h. hs_role h = Mapper) hooks" using Cons.prems(1) by simp_all
  obtain claimed w1 where c: "claim_hook name h w = (claimed, w1)" by force
  show ?case
  proof (cases claimed)
    case False
    obtain r2 tr2 w2 where l: "waterfall_chain code name hooks payload (drop_unclaimed_hooks code [h] w1) = (r2, tr2, w2)"
      by (metis prod_cases3)
    with Cons.prems(2) c False have eq: "r = r2" "tr = Skipped (hs_id h) # tr2" by auto
    from Cons.IH [OF rest l] show ?thesis unfolding eq by (elim disjE exE) (fastforce, force)
  next
    case won: True
    obtain v w2 where i: "invoke_listener code h payload w1 = (v, w2)" by force
    show ?thesis
    proof (cases v)
      case (Inl e)
      with i have "if_registration e \<noteq> None" using invoke_listener_failure [of code h payload w1 e w2] by simp
      with Cons.prems(2) c won role i Inl show ?thesis by (auto split: prod.splits)
    next
      case (Inr x)
      with i have val: "invoke_listener code h payload w1 = (Inr x, w2)" by simp
      from invoke_listener_value(3) [OF val role] obtain y where y: "x = CvMapper y" by blast
      obtain r2 tr2 w3 where l: "waterfall_chain code name hooks y w2 = (r2, tr2, w3)" by (metis prod_cases3)
      with Cons.prems(2) c won role val y have eq: "r = r2" "tr = Invoked (hs_id h) payload (Inr (CvMapper y)) # tr2"
        by auto
      from Cons.IH [OF rest l] show ?thesis unfolding eq by (elim disjE exE) (fastforce, force)
    qed
  qed
qed

text \<open>
  A waterfall of Mappers is a pipeline.  Either every Mapper that was not skipped
  succeeded on the value the one before it returned, starting from the arguments, and the
  result is the tail's on the final value; or a Mapper failed, it was the last to run, and
  its failure (with the destructor panics of the uncalled rest) is the result.
\<close>

theorem waterfall_mapper_pipeline:
  assumes "list_all (\<lambda>h. hs_role h = Mapper) hooks"
  shows "case waterfall_chain code name hooks args w of (result, tr, w') \<Rightarrow>
    (\<exists>y w1. flow args tr = Some y \<and> result = fst (tail_next code y w1)) \<or>
    (\<exists>i x e ds. tr \<noteq> [] \<and> last tr = Invoked i x (Inl e) \<and> if_registration e \<noteq> None \<and>
       result = Some (Inl (append_uncalled ds e)))"
proof -
  obtain r tr w' where "waterfall_chain code name hooks args w = (r, tr, w')" by (metis prod_cases3)
  with waterfall_mappers [OF assms this] show ?thesis by simp
qed

definition mapper_events :: event_state where
  "mapper_events =
     snd (add_reserved demo_event (demo_hook 1 Mapper False False)
       (snd (add_reserved demo_event (demo_hook 0 Mapper False False) event_store_new)))"

theorem waterfall_mapper_pipeline_witness:
  "fst (waterfall_chain demo_code ''saved'' (map hook_snap_of [demo_hook 0 Mapper False False, demo_hook 1 Mapper False False])
      5 (demo_world\<lparr>ew_events := mapper_events\<rparr>)) = Some (Inr 21)"
proof -
  let ?hooks = "map hook_snap_of [demo_hook 0 Mapper False False, demo_hook 1 Mapper False False]"
  let ?run = "waterfall_chain demo_code ''saved'' ?hooks 5 (demo_world\<lparr>ew_events := mapper_events\<rparr>)"
  have roles: "list_all (\<lambda>h. hs_role h = Mapper) ?hooks"
    by (simp add: demo_hook_def hook_snap_of_def Let_def)
  have flow: "flow 5 (fst (snd ?run)) = Some 20" by code_simp
  obtain r tr w' where run: "?run = (r, tr, w')" by (metis prod_cases3)
  have "flow x tr = None" if "tr \<noteq> []" "last tr = Invoked i y (Inl e)" for x :: nat and tr :: "(nat, nat) attempt list" and i y e
    using that by (induction x tr rule: flow.induct) (auto split: if_splits)
  moreover have "fst (tail_next demo_code 20 w1) = Some (Inr 21)" for w1 by (simp add: tail_next_def demo_code_def)
  ultimately show ?thesis
    using waterfall_mapper_pipeline [OF roles, where code = demo_code and name = "''saved''" and args = 5
        and w = "demo_world\<lparr>ew_events := mapper_events\<rparr>"] run flow
    by fastforce
qed

section \<open>Registration is atomic\<close>

interpretation hook_publish: gated_step fst put_fst "lift_publish (add_reserved E h)" "\<lambda>_. True" for E h
proof
  fix s s' :: "fiber \<times> event_state" and j
  show "s' = s" if "lift_publish (add_reserved E h) s = (False, s')"
    using that by (auto simp: lift_publish_def add_reserved_def split: option.splits prod.splits)
  show "fb_journal (fst s') = fb_journal (fst s)" if "lift_publish (add_reserved E h) s = (True, s')"
    using that by (auto simp: lift_publish_def split: prod.splits)
  show "fb_journal (fst (put_fst j s)) = j" by (simp add: put_fst_def)
qed

text \<open>
  Listener registration is atomic.  A refusal (a closed generation at the gate or under
  the lock, or a contract mismatch) leaves the Fiber, the store and the observations as they
  were; a success has placed the registration in the order of its name, owned by the Fiber
  through one obligation that removes exactly this registration, and observed once.
\<close>

theorem listener_registration_atomic:
  assumes "event_wf i st"
  shows "case register_listener cx E role callback options i f0 (f, st) of
     (Inl e, s', obs) \<Rightarrow>
       s' = (f, st) \<and> obs = [] \<and>
       (case e of
          ListenerInactiveContext \<Rightarrow> GenerationClosed \<in> {c. assert_can_register f0 = Inl c} \<union> {c. assert_can_register f = Inl c}
        | ListenerContractMismatch n \<Rightarrow> n = et_name E \<and> map_of (ev_contracts st) n \<notin> {None, Some (contract_of E)})
   | (Inr reg, (f', st'), obs) \<Rightarrow>
       assert_can_register f0 = Inr () \<and> assert_can_register f = Inr () \<and>
       (let h = hook_new cx role callback options i in
        listeners st' = (listeners st)(et_name E :=
          (if lo_prepend options then h # listeners st (et_name E) else listeners st (et_name E) @ [h]))) \<and>
       event_wf (Suc i) st' \<and>
       journal_push (sync_cleanup (RemoveListener (et_name E) i)) (fb_journal f) = (lr_cleanup reg, fb_journal f') \<and>
       length obs = 1"
proof -
  let ?h = "hook_new cx role callback options i"
  let ?push = "push_gated fst put_fst (sync_cleanup (RemoveListener (et_name E) i))
      (lift_publish (add_reserved E ?h)) (f0, st) (f, st)"
  obtain r s' where p: "?push = (r, s')" by (cases ?push) blast
  show ?thesis
  proof (cases r)
    case (Inl e)
    with p have "?push = (Inl e, s')" by simp
    from hook_publish.push_gated_refused [OF TrueI this] have same: "s' = (f, st)" .
    show ?thesis
    proof (cases e)
      case InactiveContext
      with p Inl have "assert_can_register f0 \<noteq> Inr () \<or> assert_can_register f \<noteq> Inr ()"
        by (auto simp: push_gated_def split: sum.splits prod.splits bool.splits)
      then have "assert_can_register f0 = Inl GenerationClosed \<or> assert_can_register f = Inl GenerationClosed"
        by (metis assert_can_register_cases)
      with p Inl InactiveContext same show ?thesis by (auto simp: register_listener_def Let_def)
    next
      case PublishRefused
      with p Inl have "bind_locked E st = None"
        by (auto simp: push_gated_def lift_publish_def add_reserved_def split: sum.splits prod.splits bool.splits option.splits)
      with p Inl PublishRefused same bind_locked_None [of E st] show ?thesis
        by (simp add: register_listener_def Let_def)
    qed
  next
    case (Inr token)
    with p have "?push = (Inr token, s')" by simp
    note c = hook_publish.push_gated_committed [OF TrueI this]
    obtain st' where add: "add_reserved E ?h st = (True, st')" and s': "s' = put_fst (fb_journal (fst s')) (f, st')"
      using c by (auto simp: lift_publish_def split: prod.splits)
    have id_h: "hk_id ?h = i" "hk_prepend ?h = lo_prepend options" by (simp_all add: hook_new_def)
    note l = add_reserved_listeners [OF assms _ add, unfolded id_h]
    have st_eq: "snd s' = st'" by (subst s') (simp add: put_fst_def)
    from c l p Inr st_eq show ?thesis
      by (cases s') (auto simp: register_listener_def Let_def fun_eq_iff)
  qed
qed

theorem listener_registration_atomic_witness:
  "case register_listener \<lparr>cx_fiber = 0, cx_isolate = None, cx_scope = None, cx_intercept = None\<rparr> demo_event Observer 7
      \<lparr>lo_prepend = False, lo_global = False, lo_once = False\<rparr> 2 fiber_root (fiber_root, demo_events) of
     (Inl _, _, _) \<Rightarrow> False
   | (Inr _, (_, st'), _) \<Rightarrow> map hk_id (listeners st' ''saved'') = [1, 0, 2]"
proof -
  let ?cx = "\<lparr>cx_fiber = 0, cx_isolate = None, cx_scope = None, cx_intercept = None\<rparr> :: ctx"
  let ?o = "\<lparr>lo_prepend = False, lo_global = False, lo_once = False\<rparr> :: listener_options"
  let ?r = "register_listener ?cx demo_event Observer 7 ?o 2 fiber_root (fiber_root, demo_events)"
  have ok: "case fst ?r of Inl _ \<Rightarrow> False | Inr _ \<Rightarrow> True" by code_simp
  obtain x f' st' obs where r: "?r = (x, (f', st'), obs)" by (metis prod.collapse)
  with ok obtain reg where "x = Inr reg" by (cases x) auto
  have name: "et_name demo_event = ''saved''" by (simp add: demo_event_def)
  note law = listener_registration_atomic [OF demo_events_listeners(1), where cx = ?cx and E = demo_event
      and role = Observer and callback = 7 and options = ?o and f = fiber_root]
  from law [of fiber_root] r \<open>x = Inr reg\<close>
  have "listeners st' ''saved'' = listeners demo_events ''saved'' @ [hook_new ?cx Observer 7 ?o 2]"
    by (simp add: name Let_def)
  with r \<open>x = Inr reg\<close> demo_events_listeners(2) show ?thesis
    by (simp add: hook_new_def demo_hook_def Let_def)
qed

end
