(* ===== verification/Loader_Plan.thy ===== *)
theory Loader_Plan
  imports Context_Axes
begin

text \<open>
  Load plans (\<open>crates/cordis-loader/src/plan.rs\<close>): the declarations, the validating builder,
  and the traversal that turns a frozen plan into its execution order.

  An \<open>EntryId\<close> is a pair of allocation identities; the operation that allocates one takes the
  fresh identity as an argument.  \<open>serde_json::Value\<close> is opaque to the plan.
\<close>

section \<open>Declarations\<close>

type_synonym json = ident

record entry_id =
  ei_lineage :: ident
  ei_occurrence :: ident

definition entry_id_new :: "ident \<Rightarrow> ident \<Rightarrow> entry_id" where
  "entry_id_new fresh lineage = \<lparr>ei_lineage = lineage, ei_occurrence = fresh\<rparr>"

definition entry_belongs_to :: "entry_id \<Rightarrow> ident \<Rightarrow> bool" where
  "entry_belongs_to i lineage \<longleftrightarrow> ei_lineage i = lineage"

datatype plan_inject = Required string | Configured string json

fun inject_service :: "plan_inject \<Rightarrow> string" where
  "inject_service (Required service) = service"
| "inject_service (Configured service _) = service"

datatype realm_policy = Private | Shared string

record isolate_entry =
  is_service :: string
  is_policy :: realm_policy

record plugin_entry =
  pe_key :: "string option"
  pe_name :: "string option"
  pe_config :: json
  pe_disabled :: bool
  pe_inject :: "plan_inject list"
  pe_isolate :: "isolate_entry list"

definition plugin_entry_new :: "json \<Rightarrow> plugin_entry" where
  "plugin_entry_new config =
     \<lparr>pe_key = None, pe_name = None, pe_config = config, pe_disabled = False, pe_inject = [], pe_isolate = []\<rparr>"

record entry_group =
  eg_name :: string

definition entry_group_new :: "string \<Rightarrow> entry_group" where
  "entry_group_new name = \<lparr>eg_name = name\<rparr>"

datatype plan_error =
    ForeignParent entry_id
  | MissingResolveIdentity entry_id
  | DuplicateInjectService entry_id string
  | DuplicateIsolateService entry_id string

datatype plan_entry = PlanPlugin plugin_entry | PlanGroup

fun is_parent_capable :: "plan_entry \<Rightarrow> bool" where
  "is_parent_capable (PlanPlugin _) = True"
| "is_parent_capable PlanGroup = True"

record plan_node =
  pn_id :: entry_id
  pn_parent :: "entry_id option"
  pn_entry :: plan_entry

section \<open>The builder\<close>

record load_plan_builder =
  lb_lineage :: ident
  lb_nodes :: "plan_node list"

record load_plan =
  lp_nodes :: "plan_node list"

definition builder_new :: "ident \<Rightarrow> load_plan_builder" where
  "builder_new fresh = \<lparr>lb_lineage = fresh, lb_nodes = []\<rparr>"

definition validate_plugin :: "entry_id \<Rightarrow> plugin_entry \<Rightarrow> plan_error + unit" where
  "validate_plugin i e =
     (if pe_key e = None \<and> pe_name e = None then Inl (MissingResolveIdentity i)
      else (case first_duplicate [] (map inject_service (pe_inject e)) of
              Some service \<Rightarrow> Inl (DuplicateInjectService i service)
            | None \<Rightarrow>
                (case first_duplicate [] (map is_service (pe_isolate e)) of
                   Some service \<Rightarrow> Inl (DuplicateIsolateService i service)
                 | None \<Rightarrow> Inr ())))"

definition validate_parent :: "entry_id option \<Rightarrow> load_plan_builder \<Rightarrow> plan_error + unit" where
  "validate_parent parent b =
     (case parent of
        None \<Rightarrow> Inr ()
      | Some p \<Rightarrow>
          if entry_belongs_to p (lb_lineage b) \<and>
             list_ex (\<lambda>node. pn_id node = p \<and> is_parent_capable (pn_entry node)) (lb_nodes b)
          then Inr () else Inl (ForeignParent p))"

definition push_node :: "plan_node \<Rightarrow> load_plan_builder \<Rightarrow> load_plan_builder" where
  "push_node n b = b\<lparr>lb_nodes := lb_nodes b @ [n]\<rparr>"

definition add_plugin ::
  "ident \<Rightarrow> entry_id option \<Rightarrow> plugin_entry \<Rightarrow> load_plan_builder \<Rightarrow> (plan_error + entry_id) \<times> load_plan_builder"
where
  "add_plugin fresh parent e b =
     (case validate_parent parent b of
        Inl err \<Rightarrow> (Inl err, b)
      | Inr _ \<Rightarrow>
          (let i = entry_id_new fresh (lb_lineage b) in
           case validate_plugin i e of
             Inl err \<Rightarrow> (Inl err, b)
           | Inr _ \<Rightarrow> (Inr i, push_node \<lparr>pn_id = i, pn_parent = parent, pn_entry = PlanPlugin e\<rparr> b)))"

definition add_group ::
  "ident \<Rightarrow> entry_id option \<Rightarrow> entry_group \<Rightarrow> load_plan_builder \<Rightarrow> (plan_error + entry_id) \<times> load_plan_builder"
where
  "add_group fresh parent g b =
     (case validate_parent parent b of
        Inl err \<Rightarrow> (Inl err, b)
      | Inr _ \<Rightarrow>
          (let i = entry_id_new fresh (lb_lineage b)
           in (Inr i, push_node \<lparr>pn_id = i, pn_parent = parent, pn_entry = PlanGroup\<rparr> b)))"

text \<open>\<open>seen\<close> is the set of parent-capable entries met so far.\<close>

fun validate_nodes :: "ident \<Rightarrow> entry_id list \<Rightarrow> plan_node list \<Rightarrow> plan_error + unit" where
  "validate_nodes lineage seen [] = Inr ()"
| "validate_nodes lineage seen (n # ns) =
     (case (case pn_parent n of
              None \<Rightarrow> None
            | Some p \<Rightarrow> if \<not> entry_belongs_to p lineage \<or> p \<notin> set seen then Some p else None) of
        Some p \<Rightarrow> Inl (ForeignParent p)
      | None \<Rightarrow>
          (case (case pn_entry n of PlanPlugin e \<Rightarrow> validate_plugin (pn_id n) e | PlanGroup \<Rightarrow> Inr ()) of
             Inl err \<Rightarrow> Inl err
           | Inr _ \<Rightarrow>
               validate_nodes lineage (if is_parent_capable (pn_entry n) then pn_id n # seen else seen) ns))"

definition validate_complete :: "ident \<Rightarrow> plan_node list \<Rightarrow> plan_error + unit" where
  "validate_complete lineage nodes = validate_nodes lineage [] nodes"

definition finish :: "load_plan_builder \<Rightarrow> plan_error + load_plan" where
  "finish b =
     (case validate_complete (lb_lineage b) (lb_nodes b) of
        Inl err \<Rightarrow> Inl err
      | Inr _ \<Rightarrow> Inr \<lparr>lp_nodes = lb_nodes b\<rparr>)"

section \<open>The execution order\<close>

text \<open>\<open>roots\<close> and \<open>children\<close> as the loop over the enumerated nodes leaves them.\<close>

definition plan_roots :: "plan_node list \<Rightarrow> nat list" where
  "plan_roots nodes = map fst (filter (\<lambda>(index, node). pn_parent node = None) (enumerate 0 nodes))"

definition push_child :: "nat \<times> plan_node \<Rightarrow> (entry_id, nat list) hashmap \<Rightarrow> (entry_id, nat list) hashmap" where
  "push_child row m =
     (case pn_parent (snd row) of
        None \<Rightarrow> m
      | Some p \<Rightarrow> hm_insert p ((case map_of m p of None \<Rightarrow> [] | Some is \<Rightarrow> is) @ [fst row]) m)"

definition plan_children :: "plan_node list \<Rightarrow> (entry_id, nat list) hashmap" where
  "plan_children nodes = fold push_child (enumerate 0 nodes) []"

text \<open>The head of \<open>stack\<close> is its top: reversing, extending and popping at the end of the \<open>Vec\<close>
  is prepending in order here.  \<open>None\<close>: the loop never ends.\<close>

partial_function (option) order_loop ::
  "plan_node list \<Rightarrow> (entry_id, nat list) hashmap \<Rightarrow> nat list \<Rightarrow> nat list \<Rightarrow> nat list option"
where
  "order_loop nodes children stack order =
     (case stack of
        [] \<Rightarrow> Some order
      | index # rest \<Rightarrow>
          order_loop nodes children
            ((case map_of children (pn_id (nodes ! index)) of None \<Rightarrow> [] | Some descendants \<Rightarrow> descendants) @ rest)
            (order @ [index]))"

definition execution_order :: "load_plan \<Rightarrow> nat list option" where
  "execution_order plan =
     order_loop (lp_nodes plan) (plan_children (lp_nodes plan)) (plan_roots (lp_nodes plan)) []"

section \<open>What a builder admits\<close>

text \<open>Identities are unique and every parent was admitted before its children.\<close>

definition parents_first :: "plan_node list \<Rightarrow> bool" where
  "parents_first nodes \<longleftrightarrow>
     (\<forall>i < length nodes. \<forall>p. pn_parent (nodes ! i) = Some p \<longrightarrow> (\<exists>j < i. pn_id (nodes ! j) = p))"

definition plan_wf :: "load_plan \<Rightarrow> bool" where
  "plan_wf plan \<longleftrightarrow> distinct (map pn_id (lp_nodes plan)) \<and> parents_first (lp_nodes plan)"

definition node_valid :: "plan_node \<Rightarrow> bool" where
  "node_valid n \<longleftrightarrow> (case pn_entry n of PlanPlugin e \<Rightarrow> validate_plugin (pn_id n) e = Inr () | PlanGroup \<Rightarrow> True)"

definition builder_wf :: "ident \<Rightarrow> load_plan_builder \<Rightarrow> bool" where
  "builder_wf fresh b \<longleftrightarrow>
     distinct (map pn_id (lb_nodes b)) \<and> parents_first (lb_nodes b) \<and> (\<forall>n \<in> set (lb_nodes b). node_valid n) \<and>
     (\<forall>n \<in> set (lb_nodes b). ei_lineage (pn_id n) = lb_lineage b \<and> ei_occurrence (pn_id n) < fresh)"

lemma parent_capable [simp]: "is_parent_capable e"
  by (cases e) simp_all

lemma builder_new_wf [simp, wf_intros]: "builder_wf fresh (builder_new l)"
  by (simp add: builder_wf_def builder_new_def parents_first_def)

lemma push_node_wf:
  assumes wf: "builder_wf fresh b" and parent: "validate_parent parent b = Inr ()"
    and valid: "node_valid \<lparr>pn_id = entry_id_new fresh (lb_lineage b), pn_parent = parent, pn_entry = e\<rparr>"
  shows "builder_wf (Suc fresh) (push_node \<lparr>pn_id = entry_id_new fresh (lb_lineage b), pn_parent = parent, pn_entry = e\<rparr> b)"
proof -
  let ?n = "\<lparr>pn_id = entry_id_new fresh (lb_lineage b), pn_parent = parent, pn_entry = e\<rparr>"
  let ?ns = "lb_nodes b @ [?n]"
  have new: "entry_id_new fresh (lb_lineage b) \<notin> pn_id ` set (lb_nodes b)"
  proof
    assume "entry_id_new fresh (lb_lineage b) \<in> pn_id ` set (lb_nodes b)"
    then obtain x where x: "x \<in> set (lb_nodes b)" "pn_id x = entry_id_new fresh (lb_lineage b)" by auto
    with wf have "ei_occurrence (entry_id_new fresh (lb_lineage b)) < fresh" by (metis builder_wf_def)
    then show False by (simp add: entry_id_new_def)
  qed
  have par: "\<exists>j < length (lb_nodes b). pn_id (lb_nodes b ! j) = p" if "parent = Some p" for p
    using parent that by (auto simp: validate_parent_def list_ex_iff in_set_conv_nth split: if_splits)
  have "parents_first ?ns"
    unfolding parents_first_def
  proof (intro allI impI)
    fix i p
    assume i: "i < length ?ns" and p: "pn_parent (?ns ! i) = Some p"
    show "\<exists>j < i. pn_id (?ns ! j) = p"
    proof (cases "i < length (lb_nodes b)")
      case True
      with p wf obtain j where "j < i" "pn_id (lb_nodes b ! j) = p"
        by (auto simp: builder_wf_def parents_first_def nth_append)
      with True show ?thesis by (intro exI [of _ j]) (simp add: nth_append)
    next
      case False
      with i have "i = length (lb_nodes b)" by simp
      with p par obtain j where "j < i" "pn_id (lb_nodes b ! j) = p" by auto
      with \<open>i = length (lb_nodes b)\<close> show ?thesis by (intro exI [of _ j]) (simp add: nth_append)
    qed
  qed
  moreover have "\<forall>m \<in> set ?ns. ei_lineage (pn_id m) = lb_lineage b \<and> ei_occurrence (pn_id m) < Suc fresh"
    using wf by (auto simp: builder_wf_def entry_id_new_def)
  ultimately show ?thesis
    using wf new valid by (simp add: builder_wf_def push_node_def)
qed

lemma builder_wf_mono: "builder_wf fresh b \<Longrightarrow> builder_wf (Suc fresh) b"
  by (auto simp: builder_wf_def)

lemma add_plugin_wf [wf_intros]: "builder_wf fresh b \<Longrightarrow> builder_wf (Suc fresh) (snd (add_plugin fresh parent e b))"
  using push_node_wf [of fresh b parent "PlanPlugin e"] builder_wf_mono [of fresh b]
  by (auto simp: add_plugin_def Let_def node_valid_def split: sum.split)

lemma add_group_wf [wf_intros]: "builder_wf fresh b \<Longrightarrow> builder_wf (Suc fresh) (snd (add_group fresh parent g b))"
  using push_node_wf [of fresh b parent PlanGroup] builder_wf_mono [of fresh b]
  by (auto simp: add_group_def Let_def node_valid_def split: sum.split)

lemma validate_nodes_ok:
  assumes "\<forall>n \<in> set ns. node_valid n" and "\<forall>n \<in> set (pre @ ns). ei_lineage (pn_id n) = lineage"
    and "parents_first (pre @ ns)" and "set seen = pn_id ` set pre"
  shows "validate_nodes lineage seen ns = Inr ()"
  using assms
proof (induction ns arbitrary: pre seen)
  case Nil
  then show ?case by simp
next
  case (Cons n ns)
  have parent: "entry_belongs_to p lineage \<and> p \<in> set seen" if p: "pn_parent n = Some p" for p
  proof -
    have "length pre < length (pre @ n # ns)" "pn_parent ((pre @ n # ns) ! length pre) = Some p" using p by simp_all
    with Cons.prems(3) obtain j where j: "j < length pre" "pn_id ((pre @ n # ns) ! j) = p"
      unfolding parents_first_def by blast
    then have "p \<in> pn_id ` set pre" by (auto simp: nth_append)
    with Cons.prems(2,4) show ?thesis by (auto simp: entry_belongs_to_def)
  qed
  have "validate_nodes lineage (pn_id n # seen) ns = Inr ()"
    by (rule Cons.IH [of "pre @ [n]"]) (use Cons.prems in auto)
  moreover have "(case pn_entry n of PlanPlugin e \<Rightarrow> validate_plugin (pn_id n) e | PlanGroup \<Rightarrow> Inr ()) = Inr ()"
    using Cons.prems(1) by (auto simp: node_valid_def split: plan_entry.splits)
  ultimately show ?case using parent by (auto split: option.split)
qed

lemma finish_ok: "builder_wf fresh b \<Longrightarrow> finish b = Inr \<lparr>lp_nodes = lb_nodes b\<rparr>"
  using validate_nodes_ok [of "lb_nodes b" "[]" "lb_lineage b" "[]"]
  by (auto simp: builder_wf_def finish_def validate_complete_def)

end
