(* ===== verification/Loader_Order.thy ===== *)
theory Loader_Order
  imports Loader_Plan
begin

text \<open>
  The traversal of a plan terminates on every plan a builder can freeze, and it is the
  depth-first preorder of the declared forest: the reference \<open>preorder\<close> is a structural
  recursion over the declarations.
\<close>

section \<open>The declared forest\<close>

definition kids :: "plan_node list \<Rightarrow> nat \<Rightarrow> nat list" where
  "kids nodes i = filter (\<lambda>j. pn_parent (nodes ! j) = Some (pn_id (nodes ! i))) [0..<length nodes]"

function preorder :: "plan_node list \<Rightarrow> nat \<Rightarrow> nat list" where
  "preorder nodes i = i # concat (map (preorder nodes) (filter (\<lambda>j. i < j) (kids nodes i)))"
  by pat_completeness auto
termination
  by (relation "measure (\<lambda>(nodes, i). length nodes - i)") (auto simp: kids_def)

declare preorder.simps [simp del]

text \<open>The chain of declarations from an entry up to its root.\<close>

definition parent_of :: "plan_node list \<Rightarrow> nat \<Rightarrow> nat option" where
  "parent_of nodes j = find (\<lambda>i. pn_parent (nodes ! j) = Some (pn_id (nodes ! i))) [0..<j]"

function root_path :: "plan_node list \<Rightarrow> nat \<Rightarrow> nat list" where
  "root_path nodes j = j # (case parent_of nodes j of None \<Rightarrow> [] | Some i \<Rightarrow> root_path nodes i)"
  by pat_completeness auto
termination
  by (relation "measure snd") (auto simp: parent_of_def find_Some_iff)

declare root_path.simps [simp del]

section \<open>The tables of the traversal\<close>

lemma enumerate_map: "enumerate 0 nodes = map (\<lambda>i. (i, nodes ! i)) [0..<length nodes]"
  by (rule nth_equalityI) (simp_all add: nth_enumerate_eq)

lemma plan_roots_eq: "plan_roots nodes = filter (\<lambda>i. pn_parent (nodes ! i) = None) [0..<length nodes]"
  by (simp add: plan_roots_def enumerate_map filter_map o_def)

definition row_of :: "(entry_id, nat list) hashmap \<Rightarrow> entry_id \<Rightarrow> nat list" where
  "row_of m i = (case map_of m i of None \<Rightarrow> [] | Some is \<Rightarrow> is)"

lemma row_of_push_child:
  "row_of (push_child row m) i = row_of m i @ (if pn_parent (snd row) = Some i then [fst row] else [])"
  by (auto simp: row_of_def push_child_def split: option.split)

lemma row_of_fold:
  "row_of (fold push_child rows m) i = row_of m i @ map fst (filter (\<lambda>row. pn_parent (snd row) = Some i) rows)"
  by (induction rows arbitrary: m) (simp_all add: row_of_push_child)

lemma row_of_children: "row_of (plan_children nodes) (pn_id (nodes ! i)) = kids nodes i"
  by (simp add: plan_children_def row_of_fold kids_def enumerate_map filter_map o_def) (simp add: row_of_def)

lemma order_loop_step:
  "order_loop nodes (plan_children nodes) (i # rest) order = order_loop nodes (plan_children nodes) (kids nodes i @ rest) (order @ [i])"
  by (subst order_loop.simps) (simp add: row_of_children [symmetric] row_of_def)

lemma order_loop_end: "order_loop nodes children [] order = Some order"
  by (subst order_loop.simps) simp

section \<open>Termination\<close>

lemma pn_id_inj:
  "distinct (map pn_id nodes) \<Longrightarrow> i < length nodes \<Longrightarrow> j < length nodes \<Longrightarrow> pn_id (nodes ! i) = pn_id (nodes ! j) \<Longrightarrow> i = j"
  using nth_eq_iff_index_eq [of "map pn_id nodes" i j] by simp

lemma kid_above:
  assumes "distinct (map pn_id nodes)" and "parents_first nodes" and "i < length nodes" and "j \<in> set (kids nodes i)"
  shows "i < j \<and> j < length nodes"
proof -
  from assms(4) have j: "j < length nodes" "pn_parent (nodes ! j) = Some (pn_id (nodes ! i))" by (auto simp: kids_def)
  with assms(2) obtain i' where i': "i' < j" "pn_id (nodes ! i') = pn_id (nodes ! i)"
    unfolding parents_first_def by blast
  with pn_id_inj [OF assms(1) _ assms(3), of i'] j(1) have "i' = i" by simp
  with i'(1) j(1) show ?thesis by simp
qed

lemma preorder_kids:
  assumes "distinct (map pn_id nodes)" and "parents_first nodes" and "i < length nodes"
  shows "preorder nodes i = i # concat (map (preorder nodes) (kids nodes i))"
proof -
  have "filter (\<lambda>j. i < j) (kids nodes i) = kids nodes i"
    using kid_above [OF assms] by (simp add: filter_id_conv)
  then show ?thesis by (simp add: preorder.simps [of nodes i])
qed

text \<open>The loop empties any stack of declared entries in the preorder of the trees it holds.\<close>

lemma order_loop_preorder:
  assumes "distinct (map pn_id nodes)" and "parents_first nodes" and "set stack \<subseteq> {..<length nodes}"
  shows "order_loop nodes (plan_children nodes) stack order = Some (order @ concat (map (preorder nodes) stack))"
  using assms(3)
proof (induction "length (concat (map (preorder nodes) stack))" arbitrary: stack order rule: less_induct)
  case less
  show ?case
  proof (cases stack)
    case Nil
    then show ?thesis by (simp add: order_loop_end)
  next
    case (Cons i rest)
    with less.prems have i: "i < length nodes" by simp
    note pre = preorder_kids [OF assms(1,2) i]
    have "set (kids nodes i @ rest) \<subseteq> {..<length nodes}"
      using kid_above [OF assms(1,2) i] less.prems Cons by auto
    moreover have "length (concat (map (preorder nodes) (kids nodes i @ rest))) < length (concat (map (preorder nodes) stack))"
      using Cons pre by simp
    ultimately have "order_loop nodes (plan_children nodes) (kids nodes i @ rest) (order @ [i]) =
        Some ((order @ [i]) @ concat (map (preorder nodes) (kids nodes i @ rest)))"
      using less.hyps by blast
    with Cons pre show ?thesis by (simp add: order_loop_step)
  qed
qed

lemma execution_order_eq:
  "plan_wf plan \<Longrightarrow> execution_order plan = Some (concat (map (preorder (lp_nodes plan)) (plan_roots (lp_nodes plan))))"
  using order_loop_preorder [of "lp_nodes plan" "plan_roots (lp_nodes plan)" "[]"]
  by (auto simp: plan_wf_def execution_order_def plan_roots_eq)

section \<open>Every entry once\<close>

lemma parent_of_Some:
  assumes "distinct (map pn_id nodes)" and "parents_first nodes" and "j < length nodes"
    and "pn_parent (nodes ! j) = Some (pn_id (nodes ! i))" and "i < length nodes"
  shows "parent_of nodes j = Some i"
proof -
  have "j \<in> set (kids nodes i)" using assms(3,4) by (simp add: kids_def)
  from kid_above [OF assms(1,2,5) this] have ij: "i < j" by simp
  have "pn_id (nodes ! i') \<noteq> pn_id (nodes ! i)" if "i' < i" for i'
  proof
    assume "pn_id (nodes ! i') = pn_id (nodes ! i)"
    with pn_id_inj [OF assms(1) _ assms(5), of i'] that assms(5) show False by simp
  qed
  then show ?thesis
    using ij assms(4) unfolding parent_of_def find_Some_iff
    by (intro exI [of _ i]) (simp, metis)
qed

lemma parent_of_kid:
  assumes "distinct (map pn_id nodes)" and "parents_first nodes" and "j < length nodes" and "i < length nodes"
  shows "parent_of nodes j = Some i \<longleftrightarrow> j \<in> set (kids nodes i)"
proof
  assume "parent_of nodes j = Some i"
  then have "pn_parent (nodes ! j) = Some (pn_id (nodes ! i))" by (auto simp: parent_of_def find_Some_iff)
  with assms(3) show "j \<in> set (kids nodes i)" by (simp add: kids_def)
next
  assume "j \<in> set (kids nodes i)"
  then have "pn_parent (nodes ! j) = Some (pn_id (nodes ! i))" by (simp add: kids_def)
  from parent_of_Some [OF assms(1-3) this assms(4)] show "parent_of nodes j = Some i" .
qed

lemma root_path_below: "k \<in> set (root_path nodes j) \<Longrightarrow> k \<le> j"
proof (induction nodes j rule: root_path.induct)
  case (1 nodes j)
  show ?case
  proof (cases "parent_of nodes j")
    case None
    with "1.prems" show ?thesis by (simp add: root_path.simps)
  next
    case (Some i)
    then have "i < j" by (auto simp: parent_of_def find_Some_iff)
    with "1.IH" [OF Some] "1.prems" Some show ?thesis by (auto simp: root_path.simps [of nodes j])
  qed
qed

lemma count_concat_kids:
  "count_list (concat (map g ks)) j = (\<Sum>k \<leftarrow> ks. count_list (g k) j)"
  by (induction ks) simp_all

lemma kids_distinct: "distinct (kids nodes i)"
  by (simp add: kids_def)

definition hits :: "nat list \<Rightarrow> nat set \<Rightarrow> nat" where
  "hits ks S = (\<Sum>k \<leftarrow> ks. if k \<in> S then 1 else 0)"

lemma hits_insert: "distinct ks \<Longrightarrow> j \<notin> S \<Longrightarrow> hits ks (insert j S) = (if j \<in> set ks then 1 else 0) + hits ks S"
  by (induction ks) (auto simp: hits_def)

lemma hits_empty [simp]: "hits ks {} = 0"
  by (simp add: hits_def)

lemma path_hits:
  assumes d: "distinct (map pn_id nodes)" and p: "parents_first nodes" and i: "i < length nodes"
  shows "j < length nodes \<Longrightarrow>
    hits (kids nodes i) (set (root_path nodes j)) + (if i = j then 1 else 0) = (if i \<in> set (root_path nodes j) then 1 else 0)"
proof (induction j rule: less_induct)
  case (less j)
  show ?case
  proof (cases "parent_of nodes j")
    case None
    then have path: "set (root_path nodes j) = {j}" by (simp add: root_path.simps)
    have "j \<notin> set (kids nodes i)" using parent_of_kid [OF d p less.prems i] None by simp
    with hits_insert [OF kids_distinct [of nodes i], of j "{}"] show ?thesis by (simp add: path)
  next
    case (Some i0)
    then have below: "i0 < j" by (auto simp: parent_of_def find_Some_iff)
    have path: "set (root_path nodes j) = insert j (set (root_path nodes i0))"
      using Some by (simp add: root_path.simps [of nodes j])
    have fresh: "j \<notin> set (root_path nodes i0)" using root_path_below below by fastforce
    have kid: "j \<in> set (kids nodes i) \<longleftrightarrow> i = i0" using parent_of_kid [OF d p less.prems i] Some by auto
    have "hits (kids nodes i) (set (root_path nodes i0)) + (if i = i0 then 1 else 0) =
        (if i \<in> set (root_path nodes i0) then 1 else 0)"
      using less.IH [OF below] below less.prems by simp
    with fresh kid show ?thesis
      unfolding path hits_insert [OF kids_distinct [of nodes i] fresh] by (auto split: if_splits)
  qed
qed

text \<open>An entry occurs in the tree of each of its ancestors once and nowhere else.\<close>

lemma preorder_count:
  assumes d: "distinct (map pn_id nodes)" and p: "parents_first nodes" and j: "j < length nodes"
  shows "i < length nodes \<Longrightarrow> count_list (preorder nodes i) j = (if i \<in> set (root_path nodes j) then 1 else 0)"
proof (induction "length nodes - i" arbitrary: i rule: less_induct)
  case less
  have "count_list (preorder nodes k) j = (if k \<in> set (root_path nodes j) then 1 else 0)" if "k \<in> set (kids nodes i)" for k
    using less.hyps [of k] kid_above [OF d p less.prems that] by auto
  then have "(\<Sum>k \<leftarrow> kids nodes i. count_list (preorder nodes k) j) = hits (kids nodes i) (set (root_path nodes j))"
    unfolding hits_def by (intro arg_cong [of _ _ sum_list] map_cong) auto
  then have "count_list (preorder nodes i) j = hits (kids nodes i) (set (root_path nodes j)) + (if i = j then 1 else 0)"
    by (auto simp: preorder_kids [OF d p less.prems] count_concat_kids)
  with path_hits [OF d p less.prems j] show ?case by simp
qed

lemma path_root:
  assumes d: "distinct (map pn_id nodes)" and p: "parents_first nodes"
  shows "j < length nodes \<Longrightarrow> hits (plan_roots nodes) (set (root_path nodes j)) = 1"
proof (induction j rule: less_induct)
  case (less j)
  have roots: "distinct (plan_roots nodes)" by (simp add: plan_roots_eq)
  have root: "j \<in> set (plan_roots nodes) \<longleftrightarrow> pn_parent (nodes ! j) = None" using less.prems by (simp add: plan_roots_eq)
  show ?case
  proof (cases "parent_of nodes j")
    case None
    have "pn_parent (nodes ! j) = None"
    proof (rule ccontr)
      assume "pn_parent (nodes ! j) \<noteq> None"
      then obtain q where q: "pn_parent (nodes ! j) = Some q" by blast
      with p less.prems obtain i where i: "i < j" "pn_id (nodes ! i) = q" unfolding parents_first_def by blast
      with parent_of_Some [OF d p less.prems, of i] q less.prems None show False by simp
    qed
    with root hits_insert [OF roots, of j "{}"] None show ?thesis by (simp add: root_path.simps [of nodes j])
  next
    case (Some i0)
    then have below: "i0 < j" and par: "pn_parent (nodes ! j) \<noteq> None" by (auto simp: parent_of_def find_Some_iff)
    have path: "set (root_path nodes j) = insert j (set (root_path nodes i0))"
      using Some by (simp add: root_path.simps [of nodes j])
    have fresh: "j \<notin> set (root_path nodes i0)" using root_path_below below by fastforce
    from hits_insert [OF roots fresh] root par less.IH [OF below] below less.prems show ?thesis by (simp add: path)
  qed
qed

lemma order_counts:
  assumes "distinct (map pn_id nodes)" and "parents_first nodes" and "j < length nodes"
  shows "count_list (concat (map (preorder nodes) (plan_roots nodes))) j = 1"
proof -
  have "count_list (preorder nodes r) j = (if r \<in> set (root_path nodes j) then 1 else 0)" if "r \<in> set (plan_roots nodes)" for r
    using preorder_count [OF assms(1-3), of r] that by (simp add: plan_roots_eq)
  then have "(\<Sum>r \<leftarrow> plan_roots nodes. count_list (preorder nodes r) j) = hits (plan_roots nodes) (set (root_path nodes j))"
    unfolding hits_def by (intro arg_cong [of _ _ sum_list] map_cong) auto
  with path_root [OF assms] show ?thesis by (simp add: count_concat_kids)
qed

lemma preorder_bound:
  assumes "distinct (map pn_id nodes)" and "parents_first nodes"
  shows "i < length nodes \<Longrightarrow> set (preorder nodes i) \<subseteq> {..<length nodes}"
proof (induction "length nodes - i" arbitrary: i rule: less_induct)
  case less
  have "set (preorder nodes k) \<subseteq> {..<length nodes}" if "k \<in> set (kids nodes i)" for k
    using less.hyps [of k] kid_above [OF assms less.prems that] by (simp add: diff_less_mono2)
  with less.prems show ?case by (auto simp: preorder_kids [OF assms less.prems])
qed

lemma distinct_count_le: "(\<And>x. x \<in> set xs \<Longrightarrow> count_list xs x \<le> 1) \<Longrightarrow> distinct xs"
proof (induction xs)
  case (Cons x xs)
  have "x \<notin> set xs" using Cons.prems [of x] by (auto simp: count_list_0_iff)
  moreover have "distinct xs" by (rule Cons.IH) (use Cons.prems in \<open>force split: if_splits\<close>)
  ultimately show ?case by simp
qed simp

lemma order_permutes:
  assumes "distinct (map pn_id nodes)" and "parents_first nodes"
  defines "order \<equiv> concat (map (preorder nodes) (plan_roots nodes))"
  shows "set order = {..<length nodes}" and "distinct order"
proof -
  have "set (preorder nodes r) \<subseteq> {..<length nodes}" if "r \<in> set (plan_roots nodes)" for r
    using preorder_bound [OF assms(1,2), of r] that by (simp add: plan_roots_eq)
  then have sub: "set order \<subseteq> {..<length nodes}" by (auto simp: order_def)
  have "j \<in> set order" if "j < length nodes" for j
    using order_counts [OF assms(1,2) that] count_list_0_iff [of order j] by (auto simp: order_def)
  with sub show "set order = {..<length nodes}" by auto
  show "distinct order"
    by (rule distinct_count_le) (use sub order_counts [OF assms(1,2)] in \<open>auto simp: order_def\<close>)
qed

end
