(* ===== verification/Loader_Run.thy ===== *)
theory Loader_Run
  imports Loader_Order
begin

text \<open>
  One execution of a frozen plan (\<open>LoadPlan::load\<close> in \<open>plan.rs\<close>) with the resolver firewall
  (\<open>resolver.rs\<close>), the outcome it returns (\<open>outcome.rs\<close>) and the handoff that rolls an
  abandoned execution back (\<open>handoff.rs\<close>).

  The resolver is user code: a function from the request to what the call returned or the
  payload it unwound with.  \<open>Context::spawn\<close> is a parameter over the realm counter of the Runtime
  and the state \<open>'w\<close> of everything else.
\<close>

section \<open>The resolver firewall\<close>

record plugin_request =
  rq_resolve_key :: string
  rq_config :: json
  rq_inject :: "plan_inject list"

definition resolve_identity :: "plugin_entry \<Rightarrow> string option" where
  "resolve_identity e = (case pe_key e of Some k \<Rightarrow> Some k | None \<Rightarrow> pe_name e)"

text \<open>\<open>None\<close> is the \<open>expect\<close> on an entry without identity.\<close>

definition request_from_entry :: "plugin_entry \<Rightarrow> plugin_request option" where
  "request_from_entry e =
     (case resolve_identity e of
        None \<Rightarrow> None
      | Some k \<Rightarrow> Some \<lparr>rq_resolve_key = k, rq_config = pe_config e, rq_inject = pe_inject e\<rparr>)"

datatype resolver_failure_kind = ReturnedError | ResolverPanic

record resolver_failure =
  rf_kind :: resolver_failure_kind
  rf_diagnostic :: string

definition resolver_failure_returned :: "string \<Rightarrow> resolver_failure" where
  "resolver_failure_returned d = \<lparr>rf_kind = ReturnedError, rf_diagnostic = d\<rparr>"

definition resolver_failure_panicked :: "string \<Rightarrow> resolver_failure" where
  "resolver_failure_panicked d = \<lparr>rf_kind = ResolverPanic, rf_diagnostic = d\<rparr>"

definition resolver_failure_display :: "resolver_failure \<Rightarrow> string" where
  "resolver_failure_display f =
     (case rf_kind f of
        ReturnedError \<Rightarrow> ''resolver returned an error: '' @ rf_diagnostic f
      | ResolverPanic \<Rightarrow> ''resolver panicked: '' @ rf_diagnostic f)"

datatype panic_payload = PayloadStr string | PayloadString string | PayloadOther

datatype 'p resolver_call = ResolverReturned "string + 'p option" | ResolverUnwound panic_payload

type_synonym 'p resolver = "plugin_request \<Rightarrow> 'p resolver_call"

definition resolve_entry :: "plugin_entry \<Rightarrow> 'p resolver \<Rightarrow> (resolver_failure + 'p option) option" where
  "resolve_entry e resolver =
     (case request_from_entry e of
        None \<Rightarrow> None
      | Some request \<Rightarrow>
          Some (case resolver request of
                  ResolverReturned (Inr prepared) \<Rightarrow> Inr prepared
                | ResolverReturned (Inl diagnostic) \<Rightarrow> Inl (resolver_failure_returned diagnostic)
                | ResolverUnwound payload \<Rightarrow>
                    Inl (resolver_failure_panicked
                      (case payload of
                         PayloadStr message \<Rightarrow> message
                       | PayloadString message \<Rightarrow> message
                       | PayloadOther \<Rightarrow> ''non-string panic payload''))))"

text \<open>\<open>prepare_plugin_json\<close> and \<open>prepare_service_json\<close>: the JSON decoder and the typed
  preparation are user code, \<open>seal\<close> is \<open>PreparedPlugin::from_input\<close>.\<close>

datatype ('j, 'e) json_prepare_error = JsonDeserialize 'j | JsonPrepare 'e

definition prepare_error :: "('j, 'e) json_prepare_error \<Rightarrow> 'e option" where
  "prepare_error err = (case err of JsonDeserialize _ \<Rightarrow> None | JsonPrepare e \<Rightarrow> Some e)"

definition json_prepare_display :: "('j \<Rightarrow> string) \<Rightarrow> ('e \<Rightarrow> string) \<Rightarrow> ('j, 'e) json_prepare_error \<Rightarrow> string" where
  "json_prepare_display show_json show_error err =
     (case err of
        JsonDeserialize e \<Rightarrow> ''JSON source deserialization failed: '' @ show_json e
      | JsonPrepare e \<Rightarrow> ''typed source preparation failed: '' @ show_error e)"

definition json_prepare_source :: "('j, 'e) json_prepare_error \<Rightarrow> 'j option" where
  "json_prepare_source err = (case err of JsonDeserialize e \<Rightarrow> Some e | JsonPrepare _ \<Rightarrow> None)"

definition prepare_service_json ::
  "(json \<Rightarrow> 'j + 'c) \<Rightarrow> ('c \<Rightarrow> 'e + 'l) \<Rightarrow> json \<Rightarrow> ('j, 'e) json_prepare_error + 'l"
where
  "prepare_service_json from_value prepare config =
     (case from_value config of
        Inl e \<Rightarrow> Inl (JsonDeserialize e)
      | Inr typed \<Rightarrow> (case prepare typed of Inl e \<Rightarrow> Inl (JsonPrepare e) | Inr layer \<Rightarrow> Inr layer))"

definition prepare_plugin_json ::
  "(json \<Rightarrow> 'j + 'c) \<Rightarrow> ('c \<Rightarrow> 'e + 'i) \<Rightarrow> ('i \<Rightarrow> 'p) \<Rightarrow> json \<Rightarrow> ('j, 'e) json_prepare_error + 'p"
where
  "prepare_plugin_json from_value prepare seal config =
     (case from_value config of
        Inl e \<Rightarrow> Inl (JsonDeserialize e)
      | Inr typed \<Rightarrow> (case prepare typed of Inl e \<Rightarrow> Inl (JsonPrepare e) | Inr input \<Rightarrow> Inr (seal input)))"

section \<open>Outcomes\<close>

datatype 'e loader_failure = UnresolvedKey string | ResolverFailed resolver_failure | SpawnFailed 'e

datatype ('h, 'e) entry_outcome =
    OutGroup entry_id
  | OutDisabled entry_id
  | OutPruned entry_id entry_id
  | OutSpawned entry_id string 'h
  | OutFailed entry_id string "'e loader_failure"

fun outcome_id :: "('h, 'e) entry_outcome \<Rightarrow> entry_id" where
  "outcome_id (OutGroup i) = i"
| "outcome_id (OutDisabled i) = i"
| "outcome_id (OutPruned i _) = i"
| "outcome_id (OutSpawned i _ _) = i"
| "outcome_id (OutFailed i _ _) = i"

fun outcome_handle :: "('h, 'e) entry_outcome \<Rightarrow> 'h option" where
  "outcome_handle (OutSpawned _ _ h) = Some h"
| "outcome_handle _ = None"

fun outcome_failed :: "('h, 'e) entry_outcome \<Rightarrow> bool" where
  "outcome_failed (OutFailed _ _ _) = True"
| "outcome_failed _ = False"

record ('h, 'e) load_outcome =
  lo_entries :: "('h, 'e) entry_outcome list"

definition load_entry :: "entry_id \<Rightarrow> ('h, 'e) load_outcome \<Rightarrow> ('h, 'e) entry_outcome option" where
  "load_entry i o' = find (\<lambda>e. outcome_id e = i) (lo_entries o')"

definition fiber_handles :: "('h, 'e) load_outcome \<Rightarrow> 'h list" where
  "fiber_handles o' = List.map_filter outcome_handle (lo_entries o')"

definition load_is_ok :: "('h, 'e) load_outcome \<Rightarrow> bool" where
  "load_is_ok o' = (\<not> list_ex outcome_failed (lo_entries o'))"

section \<open>The handoff\<close>

record ('h, 'e) result_handoff =
  rh_entries :: "('h, 'e) entry_outcome list option"

definition handoff_new :: "('h, 'e) result_handoff" where
  "handoff_new = \<lparr>rh_entries = Some []\<rparr>"

text \<open>\<open>None\<close> is the \<open>expect\<close> on a finished handoff.\<close>

definition handoff_push :: "('h, 'e) entry_outcome \<Rightarrow> ('h, 'e) result_handoff \<Rightarrow> ('h, 'e) result_handoff option" where
  "handoff_push out h =
     (case rh_entries h of None \<Rightarrow> None | Some entries \<Rightarrow> Some (h\<lparr>rh_entries := Some (entries @ [out])\<rparr>))"

definition handoff_finish :: "('h, 'e) result_handoff \<Rightarrow> (('h, 'e) load_outcome \<times> ('h, 'e) result_handoff) option" where
  "handoff_finish h =
     (case rh_entries h of
        None \<Rightarrow> None
      | Some entries \<Rightarrow> Some (\<lparr>lo_entries = entries\<rparr>, h\<lparr>rh_entries := None\<rparr>))"

text \<open>The rollback the drop detaches: the successful handles, disposed one after the other.\<close>

definition rollback_handles :: "('h, 'e) entry_outcome list \<Rightarrow> 'h list" where
  "rollback_handles entries = List.map_filter outcome_handle (rev entries)"

definition rollback :: "('h \<Rightarrow> 'w \<Rightarrow> 'w) \<Rightarrow> ('h, 'e) entry_outcome list \<Rightarrow> 'w \<Rightarrow> 'w" where
  "rollback rollback_fiber entries w = fold rollback_fiber (rollback_handles entries) w"

definition handoff_drop :: "('h \<Rightarrow> 'w \<Rightarrow> 'w) \<Rightarrow> ('h, 'e) result_handoff \<Rightarrow> 'w \<Rightarrow> 'w" where
  "handoff_drop rollback_fiber h w =
     (case rh_entries h of None \<Rightarrow> w | Some entries \<Rightarrow> rollback rollback_fiber entries w)"

section \<open>The realm environment\<close>

type_synonym realm_environment = "(string, service_realm) hashmap"

text \<open>\<open>Inl\<close> is the panic of the realm counter, with the counter it found exhausted.\<close>

definition place_row ::
  "isolate_entry \<Rightarrow> realm_environment \<times> root_ids \<Rightarrow> u64 + (string \<times> service_realm) \<times> realm_environment \<times> root_ids"
where
  "place_row d st =
     (case st of (shared, root) \<Rightarrow>
        (case is_policy d of
           Private \<Rightarrow>
             (case new_service_realm root of
                None \<Rightarrow> Inl (sn_realm (rt_sn root))
              | Some (realm, root') \<Rightarrow> Inr ((is_service d, realm), shared, root'))
         | Shared label \<Rightarrow>
             (case map_of shared label of
                Some realm \<Rightarrow> Inr ((is_service d, realm), shared, root)
              | None \<Rightarrow>
                  (case new_service_realm root of
                     None \<Rightarrow> Inl (sn_realm (rt_sn root))
                   | Some (realm, root') \<Rightarrow> Inr ((is_service d, realm), hm_insert label realm shared, root')))))"

primrec place_rows ::
  "isolate_entry list \<Rightarrow> realm_environment \<times> root_ids \<Rightarrow>
   u64 + (string \<times> service_realm) list \<times> realm_environment \<times> root_ids"
where
  "place_rows [] st = Inr ([], st)"
| "place_rows (d # ds) st =
     (case place_row d st of
        Inl sn \<Rightarrow> Inl sn
      | Inr (pair, st1) \<Rightarrow>
          (case place_rows ds st1 of Inl sn \<Rightarrow> Inl sn | Inr (pairs, st2) \<Rightarrow> Inr (pair # pairs, st2)))"

text \<open>The panics of the code on this path.\<close>

datatype load_panic = NoResolveIdentity | InvalidRealmMapping | RealmSpaceExhausted u64 | HandoffFinished

definition place ::
  "ctx \<Rightarrow> isolate_entry list \<Rightarrow> realm_environment \<times> root_ids \<Rightarrow> load_panic + ctx \<times> realm_environment \<times> root_ids"
where
  "place cx ds st =
     (if ds = [] then Inr (cx, st)
      else (case place_rows ds st of
              Inl sn \<Rightarrow> Inl (RealmSpaceExhausted sn)
            | Inr (pairs, shared, root) \<Rightarrow>
                (case with_service_realms root pairs cx of
                   Inl _ \<Rightarrow> Inl InvalidRealmMapping
                 | Inr cx' \<Rightarrow> Inr (cx', shared, root))))"

section \<open>The execution\<close>

type_synonym ('p, 'h, 'e, 'w) spawner = "ctx \<Rightarrow> 'p \<Rightarrow> sn_counters \<times> 'w \<Rightarrow> ('e + 'h) \<times> (sn_counters \<times> 'w)"

record ('h, 'e, 'w) load_state =
  ls_handoff :: "('h, 'e) result_handoff"
  ls_disabled :: "(entry_id, entry_id) hashmap"
  ls_shared :: realm_environment
  ls_root :: root_ids
  ls_world :: 'w

definition load_state_new :: "root_ids \<Rightarrow> 'w \<Rightarrow> ('h, 'e, 'w) load_state" where
  "load_state_new root w =
     \<lparr>ls_handoff = handoff_new, ls_disabled = [], ls_shared = [], ls_root = root, ls_world = w\<rparr>"

text \<open>One reachable, enabled Plugin.\<close>

definition load_plugin ::
  "ctx \<Rightarrow> 'p resolver \<Rightarrow> ('p, 'h, 'e, 'w) spawner \<Rightarrow> entry_id \<Rightarrow> plugin_entry \<Rightarrow> ('h, 'e, 'w) load_state \<Rightarrow>
   load_panic + ('h, 'e) entry_outcome \<times> ('h, 'e, 'w) load_state"
where
  "load_plugin cx resolver spawn i e st =
     (case resolve_identity e of
        None \<Rightarrow> Inl NoResolveIdentity
      | Some resolve_key \<Rightarrow>
          (case resolve_entry e resolver of
             None \<Rightarrow> Inl NoResolveIdentity
           | Some (Inl failure) \<Rightarrow> Inr (OutFailed i resolve_key (ResolverFailed failure), st)
           | Some (Inr None) \<Rightarrow> Inr (OutFailed i resolve_key (UnresolvedKey resolve_key), st)
           | Some (Inr (Some prepared)) \<Rightarrow>
               (case place cx (pe_isolate e) (ls_shared st, ls_root st) of
                  Inl panic \<Rightarrow> Inl panic
                | Inr (placed, shared, root) \<Rightarrow>
                    (case spawn placed prepared (rt_sn root, ls_world st) of
                       (result, sn, w') \<Rightarrow>
                         Inr (case result of
                                Inr fiber_handle \<Rightarrow> OutSpawned i resolve_key fiber_handle
                              | Inl failure \<Rightarrow> OutFailed i resolve_key (SpawnFailed failure),
                              st\<lparr>ls_shared := shared, ls_root := root\<lparr>rt_sn := sn\<rparr>, ls_world := w'\<rparr>)))))"

definition load_node ::
  "ctx \<Rightarrow> 'p resolver \<Rightarrow> ('p, 'h, 'e, 'w) spawner \<Rightarrow> plan_node \<Rightarrow> ('h, 'e, 'w) load_state \<Rightarrow>
   load_panic + ('h, 'e) entry_outcome \<times> ('h, 'e, 'w) load_state"
where
  "load_node cx resolver spawn node st =
     (case (case pn_parent node of None \<Rightarrow> None | Some p \<Rightarrow> map_of (ls_disabled st) p) of
        Some disabled_ancestor \<Rightarrow>
          Inr (OutPruned (pn_id node) disabled_ancestor,
            st\<lparr>ls_disabled := hm_insert (pn_id node) disabled_ancestor (ls_disabled st)\<rparr>)
      | None \<Rightarrow>
          (case pn_entry node of
             PlanGroup \<Rightarrow> Inr (OutGroup (pn_id node), st)
           | PlanPlugin e \<Rightarrow>
               if pe_disabled e
               then Inr (OutDisabled (pn_id node),
                      st\<lparr>ls_disabled := hm_insert (pn_id node) (pn_id node) (ls_disabled st)\<rparr>)
               else load_plugin cx resolver spawn (pn_id node) e st))"

primrec load_nodes ::
  "ctx \<Rightarrow> 'p resolver \<Rightarrow> ('p, 'h, 'e, 'w) spawner \<Rightarrow> plan_node list \<Rightarrow> ('h, 'e, 'w) load_state \<Rightarrow>
   load_panic + ('h, 'e, 'w) load_state"
where
  "load_nodes cx resolver spawn [] st = Inr st"
| "load_nodes cx resolver spawn (node # rest) st =
     (case load_node cx resolver spawn node st of
        Inl panic \<Rightarrow> Inl panic
      | Inr (out, st1) \<Rightarrow>
          (case handoff_push out (ls_handoff st1) of
             None \<Rightarrow> Inl HandoffFinished
           | Some h \<Rightarrow> load_nodes cx resolver spawn rest (st1\<lparr>ls_handoff := h\<rparr>)))"

text \<open>\<open>None\<close>: the traversal does not end.\<close>

definition load ::
  "ctx \<Rightarrow> 'p resolver \<Rightarrow> ('p, 'h, 'e, 'w) spawner \<Rightarrow> load_plan \<Rightarrow> root_ids \<Rightarrow> 'w \<Rightarrow>
   (load_panic + ('h, 'e) load_outcome \<times> ('h, 'e, 'w) load_state) option"
where
  "load cx resolver spawn plan root w =
     (case execution_order plan of
        None \<Rightarrow> None
      | Some order \<Rightarrow>
          Some (case load_nodes cx resolver spawn (map ((!) (lp_nodes plan)) order) (load_state_new root w) of
                  Inl panic \<Rightarrow> Inl panic
                | Inr st \<Rightarrow>
                    (case handoff_finish (ls_handoff st) of
                       None \<Rightarrow> Inl HandoffFinished
                     | Some (out, h) \<Rightarrow> Inr (out, st\<lparr>ls_handoff := h\<rparr>))))"

text \<open>
  The future dropped between two polls with \<open>k\<close> entries finished; a spawn then in flight is
  completed by its own guard, beside this rollback.
\<close>

definition load_abandoned ::
  "ctx \<Rightarrow> 'p resolver \<Rightarrow> ('p, 'h, 'e, 'w) spawner \<Rightarrow> ('h \<Rightarrow> 'w \<Rightarrow> 'w) \<Rightarrow> nat \<Rightarrow> load_plan \<Rightarrow> root_ids \<Rightarrow> 'w \<Rightarrow>
   (load_panic + 'w) option"
where
  "load_abandoned cx resolver spawn rollback_fiber k plan root w =
     (case execution_order plan of
        None \<Rightarrow> None
      | Some order \<Rightarrow>
          Some (case load_nodes cx resolver spawn (take k (map ((!) (lp_nodes plan)) order)) (load_state_new root w) of
                  Inl panic \<Rightarrow> Inl panic
                | Inr st \<Rightarrow> Inr (handoff_drop rollback_fiber (ls_handoff st) (ls_world st))))"

end
