(* ===== verification/Loader_Properties.thy ===== *)
theory Loader_Properties
  imports Loader_Run "HOL-Library.Multiset"
begin

text \<open>
  What the Loader promises: builders freeze only valid plans, the traversal is the preorder of
  the declarations, an execution yields one row per entry as its own ancestry decides, realm
  labels rendezvous within one execution only, and an abandoned execution rolls back.
\<close>

section \<open>Builders\<close>

datatype builder_op = OpAddPlugin "entry_id option" plugin_entry | OpAddGroup "entry_id option" entry_group

definition builder_step :: "builder_op \<Rightarrow> ident \<times> load_plan_builder \<Rightarrow> (plan_error + entry_id) \<times> load_plan_builder" where
  "builder_step oper s =
     (case oper of
        OpAddPlugin parent e \<Rightarrow> add_plugin (fst s) parent e (snd s)
      | OpAddGroup parent g \<Rightarrow> add_group (fst s) parent g (snd s))"

text \<open>The results of the operations, in order, and the final builder.\<close>

fun builder_run :: "builder_op list \<Rightarrow> ident \<times> load_plan_builder \<Rightarrow> (plan_error + entry_id) list \<times> ident \<times> load_plan_builder" where
  "builder_run [] s = ([], s)"
| "builder_run (oper # opers) s =
     (case builder_step oper s of
        (r, b) \<Rightarrow> (case builder_run opers (Suc (fst s), b) of (rs, s') \<Rightarrow> (r # rs, s')))"

lemma builder_step_wf: "builder_wf (fst s) (snd s) \<Longrightarrow> builder_wf (Suc (fst s)) (snd (builder_step oper s))"
  by (cases oper) (simp_all add: builder_step_def add_plugin_wf add_group_wf)

lemma builder_step_nodes:
  "case builder_step oper s of
     (Inl _, b) \<Rightarrow> b = snd s
   | (Inr i, b) \<Rightarrow> map pn_id (lb_nodes b) = map pn_id (lb_nodes (snd s)) @ [i]"
  by (cases oper) (auto simp: builder_step_def add_plugin_def add_group_def Let_def push_node_def split: sum.split)

lemma builder_run_wf: "builder_wf (fst s) (snd s) \<Longrightarrow> builder_run opers s = (rs, s') \<Longrightarrow> builder_wf (fst s') (snd s')"
proof (induction opers arbitrary: s rs)
  case (Cons oper opers)
  obtain r b where b: "builder_step oper s = (r, b)" by force
  obtain rs' where "builder_run opers (Suc (fst s), b) = (rs', s')"
    using Cons.prems(2) b by (auto split: prod.splits)
  with Cons.IH [of "(Suc (fst s), b)" rs'] builder_step_wf [OF Cons.prems(1), where oper = oper] b show ?case by simp
qed simp

lemma builder_run_ids:
  "builder_run opers s = (rs, s') \<Longrightarrow>
   map pn_id (lb_nodes (snd s')) = map pn_id (lb_nodes (snd s)) @ List.map_filter (\<lambda>r. case r of Inl _ \<Rightarrow> None | Inr i \<Rightarrow> Some i) rs"
proof (induction opers arbitrary: s rs)
  case Nil
  then show ?case by (simp add: List.map_filter_simps)
next
  case (Cons oper opers)
  obtain r b where b: "builder_step oper s = (r, b)" by force
  obtain rs' where r: "builder_run opers (Suc (fst s), b) = (rs', s')" "rs = r # rs'"
    using Cons.prems b by (auto split: prod.splits)
  from Cons.IH [OF r(1)] builder_step_nodes [where oper = oper and s = s] b r(2) show ?case
    by (auto simp: List.map_filter_simps split: sum.splits)
qed

text \<open>
  A builder freezes exactly what it admitted.  Whatever declarations are offered to a fresh
  builder, in whatever order and with whatever parents, \<open>finish\<close> succeeds: the frozen plan
  holds the entries of the successful additions, in order, with pairwise distinct identities
  and every parent before its children, and a refused addition left nothing behind.
\<close>

theorem builder_freezes_admissions:
  "case builder_run opers (Suc lineage, builder_new lineage) of
     (results, _, b) \<Rightarrow>
       finish b = Inr \<lparr>lp_nodes = lb_nodes b\<rparr> \<and> plan_wf \<lparr>lp_nodes = lb_nodes b\<rparr> \<and>
       map pn_id (lb_nodes b) = List.map_filter (\<lambda>r. case r of Inl _ \<Rightarrow> None | Inr i \<Rightarrow> Some i) results"
proof -
  obtain rs f b where r: "builder_run opers (Suc lineage, builder_new lineage) = (rs, f, b)" by (metis prod_cases3)
  have wf: "builder_wf f b" using builder_run_wf [OF _ r] by simp
  have "plan_wf \<lparr>lp_nodes = lb_nodes b\<rparr>" using wf by (simp add: plan_wf_def builder_wf_def)
  with finish_ok [OF wf] builder_run_ids [OF r] r show ?thesis by (simp add: builder_new_def)
qed

section \<open>The traversal\<close>

text \<open>
  C27: The traversal of a frozen plan ends and is the depth-first preorder of the declared
  forest: roots in declaration order, every entry directly followed by the trees of its
  children in declaration order, every entry exactly once.
\<close>

theorem execution_order_is_preorder:
  assumes "plan_wf plan"
  shows "\<exists>order. execution_order plan = Some order \<and>
    order = concat (map (preorder (lp_nodes plan)) (plan_roots (lp_nodes plan))) \<and>
    mset order = mset [0..<length (lp_nodes plan)]"
proof -
  let ?order = "concat (map (preorder (lp_nodes plan)) (plan_roots (lp_nodes plan)))"
  have "distinct (map pn_id (lp_nodes plan))" "parents_first (lp_nodes plan)"
    using assms by (simp_all add: plan_wf_def)
  from order_permutes [OF this] have "mset ?order = mset [0..<length (lp_nodes plan)]"
    by (subst set_eq_iff_mset_eq_distinct [symmetric]) (simp_all add: atLeast_upt)
  with execution_order_eq [OF assms] show ?thesis by blast
qed

definition demo_plan :: load_plan where
  "demo_plan =
     (let e = (plugin_entry_new 0)\<lparr>pe_key := Some ''k''\<rparr>;
          i = (\<lambda>n. \<lparr>ei_lineage = 0, ei_occurrence = n\<rparr>)
      in \<lparr>lp_nodes =
           [\<lparr>pn_id = i 1, pn_parent = None, pn_entry = PlanGroup\<rparr>,
            \<lparr>pn_id = i 2, pn_parent = None, pn_entry = PlanPlugin e\<rparr>,
            \<lparr>pn_id = i 3, pn_parent = Some (i 1), pn_entry = PlanPlugin (e\<lparr>pe_disabled := True\<rparr>)\<rparr>,
            \<lparr>pn_id = i 4, pn_parent = Some (i 3), pn_entry = PlanPlugin e\<rparr>]\<rparr>)"

lemma demo_plan_wf: "plan_wf demo_plan"
proof -
  have "\<forall>i < 4. \<forall>p. pn_parent (lp_nodes demo_plan ! i) = Some p \<longrightarrow> (\<exists>j < i. pn_id (lp_nodes demo_plan ! j) = p)"
    by (auto simp: demo_plan_def Let_def less_Suc_eq numeral_eq_Suc)
  moreover have "length (lp_nodes demo_plan) = 4" "distinct (map pn_id (lp_nodes demo_plan))"
    by (simp_all add: demo_plan_def Let_def)
  ultimately show ?thesis by (simp add: plan_wf_def parents_first_def)
qed

theorem execution_order_is_preorder_witness:
  "execution_order demo_plan = Some [0, 2, 3, 1]"
proof -
  from execution_order_is_preorder [OF demo_plan_wf]
  have "execution_order demo_plan = Some (concat (map (preorder (lp_nodes demo_plan)) (plan_roots (lp_nodes demo_plan))))"
    by blast
  moreover have "concat (map (preorder (lp_nodes demo_plan)) (plan_roots (lp_nodes demo_plan))) = [0, 2, 3, 1]"
    by code_simp
  ultimately show ?thesis by simp
qed

section \<open>Parents before children\<close>

primrec parents_seen :: "plan_node list \<Rightarrow> nat set \<Rightarrow> nat list \<Rightarrow> bool" where
  "parents_seen nodes S [] = True"
| "parents_seen nodes S (j # js) =
     ((\<forall>i. parent_of nodes j = Some i \<longrightarrow> i \<in> S) \<and> parents_seen nodes (insert j S) js)"

lemma parents_seen_append:
  "parents_seen nodes S (xs @ ys) \<longleftrightarrow> parents_seen nodes S xs \<and> parents_seen nodes (S \<union> set xs) ys"
  by (induction xs arbitrary: S) simp_all

lemma parents_seen_mono: "parents_seen nodes S xs \<Longrightarrow> S \<subseteq> T \<Longrightarrow> parents_seen nodes T xs"
proof (induction xs arbitrary: S T)
  case (Cons x xs)
  then have "parents_seen nodes (insert x T) xs" by (auto intro: Cons.IH [of "insert x S"])
  with Cons.prems show ?case by auto
qed simp

lemma parents_seen_concat:
  "(\<And>x. x \<in> set xss \<Longrightarrow> parents_seen nodes S x) \<Longrightarrow> parents_seen nodes S (concat xss)"
  by (induction xss) (auto simp: parents_seen_append intro: parents_seen_mono)

lemma preorder_parents_seen:
  assumes d: "distinct (map pn_id nodes)" and p: "parents_first nodes"
  shows "i < length nodes \<Longrightarrow> (\<forall>q. parent_of nodes i = Some q \<longrightarrow> q \<in> S) \<Longrightarrow> parents_seen nodes S (preorder nodes i)"
proof (induction "length nodes - i" arbitrary: i S rule: less_induct)
  case less
  have "parents_seen nodes (insert i S) (preorder nodes k)" if k: "k \<in> set (kids nodes i)" for k
  proof -
    from kid_above [OF d p less.prems(1) k] have above: "i < k" "k < length nodes" by simp_all
    with parent_of_kid [OF d p above(2) less.prems(1)] k have "parent_of nodes k = Some i" by simp
    with less.hyps [of k "insert i S"] above show ?thesis by simp
  qed
  then have "parents_seen nodes (insert i S) (concat (map (preorder nodes) (kids nodes i)))"
    by (intro parents_seen_concat) auto
  with less.prems show ?case by (simp add: preorder_kids [OF d p less.prems(1)])
qed

lemma root_no_parent: "pn_parent (nodes ! j) = None \<Longrightarrow> parent_of nodes j = None"
  by (simp add: parent_of_def find_None_iff)

lemma order_parents_seen:
  assumes "distinct (map pn_id nodes)" and "parents_first nodes"
  shows "parents_seen nodes {} (concat (map (preorder nodes) (plan_roots nodes)))"
  using preorder_parents_seen [OF assms] root_no_parent
  by (intro parents_seen_concat) (auto simp: plan_roots_eq)

section \<open>Rows\<close>

definition disabled_node :: "plan_node \<Rightarrow> bool" where
  "disabled_node n = (case pn_entry n of PlanPlugin e \<Rightarrow> pe_disabled e | PlanGroup \<Rightarrow> False)"

text \<open>The outermost disabled Plugin on the way from the root to an entry, itself included.\<close>

definition disabled_root :: "plan_node list \<Rightarrow> nat \<Rightarrow> nat option" where
  "disabled_root nodes j =
     (case filter (\<lambda>i. disabled_node (nodes ! i)) (root_path nodes j) of
        [] \<Rightarrow> None
      | d # ds \<Rightarrow> Some (last (d # ds)))"

lemma disabled_root_step:
  "disabled_root nodes j =
     (case (case parent_of nodes j of None \<Rightarrow> None | Some i \<Rightarrow> disabled_root nodes i) of
        Some d \<Rightarrow> Some d
      | None \<Rightarrow> if disabled_node (nodes ! j) then Some j else None)"
  by (auto simp: disabled_root_def root_path.simps [of nodes j] split: option.split list.split)

definition row_of_entry :: "plan_node list \<Rightarrow> nat \<Rightarrow> ('h, 'e) entry_outcome \<Rightarrow> bool" where
  "row_of_entry nodes j out \<longleftrightarrow>
     (let i = pn_id (nodes ! j) in
      case disabled_root nodes j of
        Some d \<Rightarrow> out = (if d = j then OutDisabled i else OutPruned i (pn_id (nodes ! d)))
      | None \<Rightarrow>
          (case pn_entry (nodes ! j) of
             PlanGroup \<Rightarrow> out = OutGroup i
           | PlanPlugin e \<Rightarrow>
               (\<exists>key. resolve_identity e = Some key \<and>
                  ((\<exists>h. out = OutSpawned i key h) \<or> (\<exists>failure. out = OutFailed i key failure)))))"

text \<open>Every realm of a label table was allocated by this Runtime.\<close>

definition of_runtime :: "ident \<Rightarrow> realm_environment \<Rightarrow> bool" where
  "of_runtime membership shared \<longleftrightarrow> (\<forall>realm \<in> snd ` set shared. sr_membership realm = membership)"

text \<open>What holds between two entries, once those in \<open>S\<close> are done.\<close>

definition load_inv :: "plan_node list \<Rightarrow> nat set \<Rightarrow> ('h, 'e, 'w) load_state \<Rightarrow> bool" where
  "load_inv nodes S st \<longleftrightarrow>
     (\<forall>j < length nodes. map_of (ls_disabled st) (pn_id (nodes ! j)) =
        (if j \<in> S then map_option (\<lambda>d. pn_id (nodes ! d)) (disabled_root nodes j) else None)) \<and>
     of_runtime (rt_realm_membership (ls_root st)) (ls_shared st)"

lemma new_service_realm_member:
  "new_service_realm root = Some (realm, root') \<Longrightarrow>
   sr_membership realm = rt_realm_membership root \<and> rt_realm_membership root' = rt_realm_membership root"
  by (auto simp: new_service_realm_def split: option.splits)

lemma of_runtime_insert: "of_runtime m shared \<Longrightarrow> sr_membership realm = m \<Longrightarrow> of_runtime m (hm_insert label realm shared)"
  using set_hm_insert_subset [of label realm shared] by (auto simp: of_runtime_def)

lemma of_runtime_lookup: "of_runtime m shared \<Longrightarrow> map_of shared label = Some realm \<Longrightarrow> sr_membership realm = m"
  by (force simp: of_runtime_def dest: map_of_SomeD)

lemma place_row_member:
  assumes row: "place_row d (shared, root) = Inr (pair, shared', root')" and of: "of_runtime (rt_realm_membership root) shared"
  shows "fst pair = is_service d \<and> sr_membership (snd pair) = rt_realm_membership root \<and>
    rt_realm_membership root' = rt_realm_membership root \<and> of_runtime (rt_realm_membership root) shared'"
proof (cases "is_policy d")
  case Private
  with row of show ?thesis by (auto simp: place_row_def dest: new_service_realm_member split: option.splits)
next
  case (Shared label)
  show ?thesis
  proof (cases "map_of shared label")
    case None
    with Shared row obtain realm where r: "new_service_realm root = Some (realm, root')"
      "pair = (is_service d, realm)" "shared' = hm_insert label realm shared"
      by (auto simp: place_row_def split: option.splits)
    from new_service_realm_member [OF r(1)] of_runtime_insert [OF of] r(2,3) show ?thesis by simp
  next
    case (Some realm)
    with of_runtime_lookup [OF of Some] Shared row of show ?thesis by (auto simp: place_row_def)
  qed
qed

lemma place_rows_member:
  assumes "place_rows ds (shared, root) = Inr (pairs, shared', root')" and "of_runtime (rt_realm_membership root) shared"
  shows "map fst pairs = map is_service ds \<and> sr_membership ` snd ` set pairs \<subseteq> {rt_realm_membership root} \<and>
    rt_realm_membership root' = rt_realm_membership root \<and> of_runtime (rt_realm_membership root) shared'"
  using assms
proof (induction ds arbitrary: shared root pairs)
  case (Cons d ds)
  then obtain pair shared1 root1 pairs1 where
    one: "place_row d (shared, root) = Inr (pair, shared1, root1)"
    and rest: "place_rows ds (shared1, root1) = Inr (pairs1, shared', root')" "pairs = pair # pairs1"
    by (auto split: sum.splits prod.splits)
  from place_row_member [OF one Cons.prems(2)]
  have m: "fst pair = is_service d" "sr_membership (snd pair) = rt_realm_membership root"
    "rt_realm_membership root1 = rt_realm_membership root" "of_runtime (rt_realm_membership root1) shared1" by simp_all
  from Cons.IH [OF rest(1) m(4)] m rest(2) show ?case by simp
qed simp

lemma place_row_exhausted: "place_row d (shared, root) = Inl sn \<Longrightarrow> sn = - 1"
  by (auto simp: place_row_def new_service_realm_def next_realm_key_def split: realm_policy.splits option.splits)

lemma place_rows_exhausted: "place_rows ds st = Inl sn \<Longrightarrow> sn = - 1"
proof (induction ds arbitrary: st)
  case (Cons d ds)
  then show ?case by (cases st) (auto dest: place_row_exhausted split: sum.splits)
qed simp

lemma place_outcome:
  assumes "distinct (map is_service ds)" and of: "of_runtime (rt_realm_membership root) shared"
  shows "case place cx ds (shared, root) of
      Inl panic \<Rightarrow> panic = RealmSpaceExhausted (- 1)
    | Inr (cx', shared', root') \<Rightarrow>
        rt_realm_membership root' = rt_realm_membership root \<and> of_runtime (rt_realm_membership root) shared'"
proof (cases "ds = []")
  case True
  with of show ?thesis by (simp add: place_def)
next
  case False
  show ?thesis
  proof (cases "place_rows ds (shared, root)")
    case (Inl sn)
    with place_rows_exhausted [OF Inl] False show ?thesis by (simp add: place_def)
  next
    case (Inr r)
    obtain pairs shared' root' where r: "r = (pairs, shared', root')" by (cases r)
    note m = place_rows_member [OF Inr [unfolded r] of]
    have "first_duplicate [] (map fst pairs) = None" using m assms(1) by (simp add: first_duplicate_None)
    moreover have "first_foreign (rt_realm_membership root') pairs = None"
      using m by (force simp: first_foreign_None realm_belongs_to_def)
    ultimately have "with_service_realms root' pairs cx = Inr (derive_isolate (realm_map pairs) cx)"
      by (simp add: with_service_realms_def)
    with Inr r False m show ?thesis by (simp add: place_def)
  qed
qed

section \<open>One entry\<close>

lemma parent_lookup:
  assumes d: "distinct (map pn_id nodes)" and p: "parents_first nodes" and j: "j < length nodes"
    and seen: "\<forall>i. parent_of nodes j = Some i \<longrightarrow> i \<in> S" and inv: "load_inv nodes S st"
  shows "(case pn_parent (nodes ! j) of None \<Rightarrow> None | Some q \<Rightarrow> map_of (ls_disabled st) q) =
    map_option (\<lambda>d. pn_id (nodes ! d)) (case parent_of nodes j of None \<Rightarrow> None | Some i \<Rightarrow> disabled_root nodes i)"
proof (cases "pn_parent (nodes ! j)")
  case None
  with root_no_parent [OF None] show ?thesis by simp
next
  case (Some q)
  with p j obtain i where i: "i < j" "pn_id (nodes ! i) = q" unfolding parents_first_def by blast
  with parent_of_Some [OF d p j, of i] Some j have par: "parent_of nodes j = Some i" by simp
  with seen have "i \<in> S" by blast
  moreover have "i < length nodes" using i j by simp
  ultimately have "map_of (ls_disabled st) q = map_option (\<lambda>d. pn_id (nodes ! d)) (disabled_root nodes i)"
    using inv i(2) by (auto simp: load_inv_def)
  with Some par show ?thesis by simp
qed

lemma load_inv_keep:
  assumes "load_inv nodes S st" and "disabled_root nodes j = None"
    and "ls_disabled st' = ls_disabled st" and "of_runtime (rt_realm_membership (ls_root st')) (ls_shared st')"
  shows "load_inv nodes (insert j S) st'"
  using assms unfolding load_inv_def by auto

lemma load_inv_disable:
  assumes inv: "load_inv nodes S st" and dist: "distinct (map pn_id nodes)" and j: "j < length nodes"
    and root: "disabled_root nodes j = Some d"
  shows "load_inv nodes (insert j S) (st\<lparr>ls_disabled := hm_insert (pn_id (nodes ! j)) (pn_id (nodes ! d)) (ls_disabled st)\<rparr>)"
proof -
  have "pn_id (nodes ! k) = pn_id (nodes ! j) \<longleftrightarrow> k = j" if "k < length nodes" for k
    using pn_id_inj [OF dist that j] by blast
  with inv root show ?thesis by (auto simp: load_inv_def)
qed

definition load_result ::
  "plan_node list \<Rightarrow> nat \<Rightarrow> nat set \<Rightarrow> ('h, 'e, 'w) load_state \<Rightarrow>
   load_panic + ('h, 'e) entry_outcome \<times> ('h, 'e, 'w) load_state \<Rightarrow> bool"
where
  "load_result nodes j S st r \<longleftrightarrow>
     (case r of
        Inl panic \<Rightarrow> panic = RealmSpaceExhausted (- 1)
      | Inr (out, st') \<Rightarrow>
          row_of_entry nodes j out \<and> load_inv nodes (insert j S) st' \<and> ls_handoff st' = ls_handoff st)"

lemma load_plugin_result:
  assumes entry: "pn_entry (nodes ! j) = PlanPlugin e" and valid: "validate_plugin (pn_id (nodes ! j)) e = Inr ()"
    and root: "disabled_root nodes j = None" and inv: "load_inv nodes S st"
  shows "load_result nodes j S st (load_plugin cx resolver spawn (pn_id (nodes ! j)) e st)"
proof -
  let ?i = "pn_id (nodes ! j)"
  obtain key where key: "resolve_identity e = Some key"
    using valid by (cases "pe_key e"; cases "pe_name e") (auto simp: validate_plugin_def resolve_identity_def)
  have dist: "distinct (map is_service (pe_isolate e))"
    using valid by (auto simp: validate_plugin_def first_duplicate_None split: if_splits option.splits)
  have of: "of_runtime (rt_realm_membership (ls_root st)) (ls_shared st)" using inv by (simp add: load_inv_def)
  have row: "row_of_entry nodes j (OutSpawned ?i key h)" "row_of_entry nodes j (OutFailed ?i key failure)" for h failure
    using entry root key by (simp_all add: row_of_entry_def Let_def)
  have keep: "load_inv nodes (insert j S) st" by (rule load_inv_keep [OF inv root refl of])
  obtain req where req: "request_from_entry e = Some req" using key by (simp add: request_from_entry_def)
  then obtain r where r: "resolve_entry e resolver = Some r" by (simp add: resolve_entry_def)
  show ?thesis
  proof (cases r)
    case (Inl failure)
    with key r row keep show ?thesis by (simp add: load_plugin_def load_result_def)
  next
    case (Inr prepared)
    show ?thesis
    proof (cases prepared)
      case None
      with Inr key r row keep show ?thesis by (simp add: load_plugin_def load_result_def)
    next
      case (Some p)
      note placed = place_outcome [OF dist of, of cx]
      show ?thesis
      proof (cases "place cx (pe_isolate e) (ls_shared st, ls_root st)")
        case (Inl panic)
        with Some Inr key r placed show ?thesis by (simp add: load_plugin_def load_result_def)
      next
        case pl: (Inr t)
        obtain cx' shared root' where t: "t = (cx', shared, root')" by (cases t)
        obtain result sn w where sp: "spawn cx' p (rt_sn root', ls_world st) = (result, sn, w)" by (metis prod_cases3)
        let ?st = "st\<lparr>ls_shared := shared, ls_root := root'\<lparr>rt_sn := sn\<rparr>, ls_world := w\<rparr>"
        have "load_inv nodes (insert j S) ?st"
          by (rule load_inv_keep [OF inv root]) (use placed pl t in simp_all)
        with Some Inr key r pl t sp row show ?thesis
          by (cases result) (simp_all add: load_plugin_def load_result_def)
      qed
    qed
  qed
qed

lemma disabled_root_below: "disabled_root nodes i = Some r \<Longrightarrow> r \<le> i"
proof -
  assume "disabled_root nodes i = Some r"
  then obtain d ds where f: "filter (\<lambda>i. disabled_node (nodes ! i)) (root_path nodes i) = d # ds" and r: "r = last (d # ds)"
    by (auto simp: disabled_root_def split: list.splits)
  have "r \<in> set (d # ds)" unfolding r by (rule last_in_set) simp
  then have "r \<in> set (root_path nodes i)" unfolding f [symmetric] by simp
  then show "r \<le> i" by (rule root_path_below)
qed

lemma parent_of_below: "parent_of nodes j = Some i \<Longrightarrow> i < j"
  by (auto simp: parent_of_def find_Some_iff)

lemma load_node_result:
  assumes d: "distinct (map pn_id nodes)" and p: "parents_first nodes" and j: "j < length nodes"
    and seen: "\<forall>i. parent_of nodes j = Some i \<longrightarrow> i \<in> S" and inv: "load_inv nodes S st" and valid: "node_valid (nodes ! j)"
  shows "load_result nodes j S st (load_node cx resolver spawn (nodes ! j) st)"
proof -
  let ?above = "case parent_of nodes j of None \<Rightarrow> None | Some i \<Rightarrow> disabled_root nodes i"
  note look = parent_lookup [OF d p j seen inv]
  note step = disabled_root_step [of nodes j]
  have of: "of_runtime (rt_realm_membership (ls_root st)) (ls_shared st)" using inv by (simp add: load_inv_def)
  show ?thesis
  proof (cases ?above)
    case (Some r)
    then have root: "disabled_root nodes j = Some r" using step by simp
    have "r \<noteq> j"
    proof -
      from Some obtain i where i: "parent_of nodes j = Some i" "disabled_root nodes i = Some r" by (auto split: option.splits)
      from disabled_root_below [OF i(2)] parent_of_below [OF i(1)] show ?thesis by simp
    qed
    with root look Some load_inv_disable [OF inv d j root] show ?thesis
      by (simp add: load_node_def load_result_def row_of_entry_def Let_def)
  next
    case None
    with look have none: "(case pn_parent (nodes ! j) of None \<Rightarrow> None | Some q \<Rightarrow> map_of (ls_disabled st) q) = None" by simp
    show ?thesis
    proof (cases "pn_entry (nodes ! j)")
      case PlanGroup
      then have "disabled_root nodes j = None" using step None by (simp add: disabled_node_def)
      with PlanGroup none load_inv_keep [OF inv this refl of] show ?thesis
        by (simp add: load_node_def load_result_def row_of_entry_def Let_def)
    next
      case (PlanPlugin e)
      show ?thesis
      proof (cases "pe_disabled e")
        case True
        then have root: "disabled_root nodes j = Some j" using step None PlanPlugin by (simp add: disabled_node_def)
        with True PlanPlugin none load_inv_disable [OF inv d j root] show ?thesis
          by (simp add: load_node_def load_result_def row_of_entry_def Let_def)
      next
        case False
        then have root: "disabled_root nodes j = None" using step None PlanPlugin by (simp add: disabled_node_def)
        have "validate_plugin (pn_id (nodes ! j)) e = Inr ()" using valid PlanPlugin by (simp add: node_valid_def)
        from load_plugin_result [OF PlanPlugin this root inv] False PlanPlugin none show ?thesis
          by (simp add: load_node_def)
      qed
    qed
  qed
qed

section \<open>The whole execution\<close>

lemma load_nodes_rows:
  assumes d: "distinct (map pn_id nodes)" and p: "parents_first nodes" and valid: "\<forall>n \<in> set nodes. node_valid n"
  shows "set js \<subseteq> {..<length nodes} \<Longrightarrow> parents_seen nodes S js \<Longrightarrow> load_inv nodes S st \<Longrightarrow>
    rh_entries (ls_handoff st) = Some entries \<Longrightarrow>
    (case load_nodes cx resolver spawn (map ((!) nodes) js) st of
       Inl panic \<Rightarrow> panic = RealmSpaceExhausted (- 1)
     | Inr st' \<Rightarrow> \<exists>outs. rh_entries (ls_handoff st') = Some (entries @ outs) \<and> list_all2 (row_of_entry nodes) js outs)"
proof (induction js arbitrary: S st entries)
  case Nil
  then show ?case by simp
next
  case (Cons j js)
  have j: "j < length nodes" and sub: "set js \<subseteq> {..<length nodes}" using Cons.prems(1) by simp_all
  have seen: "\<forall>i. parent_of nodes j = Some i \<longrightarrow> i \<in> S" and rest: "parents_seen nodes (insert j S) js"
    using Cons.prems(2) by simp_all
  have "node_valid (nodes ! j)" using valid j by simp
  note one = load_node_result [OF d p j seen Cons.prems(3) this, of cx resolver spawn]
  show ?case
  proof (cases "load_node cx resolver spawn (nodes ! j) st")
    case (Inl panic)
    with one show ?thesis by (simp add: load_result_def)
  next
    case (Inr r)
    obtain out st1 where r: "r = (out, st1)" by (cases r)
    have row: "row_of_entry nodes j out" and inv: "load_inv nodes (insert j S) st1" and h: "ls_handoff st1 = ls_handoff st"
      using one Inr r by (simp_all add: load_result_def)
    let ?h = "(ls_handoff st)\<lparr>rh_entries := Some (entries @ [out])\<rparr>"
    let ?st2 = "st1\<lparr>ls_handoff := ?h\<rparr>"
    have push: "handoff_push out (ls_handoff st1) = Some ?h" using h Cons.prems(4) by (simp add: handoff_push_def)
    have inv2: "load_inv nodes (insert j S) ?st2" using inv by (simp add: load_inv_def)
    have step: "load_nodes cx resolver spawn (map ((!) nodes) (j # js)) st = load_nodes cx resolver spawn (map ((!) nodes) js) ?st2"
      using Inr r push by simp
    have entries2: "rh_entries (ls_handoff ?st2) = Some (entries @ [out])" by simp
    note ih = Cons.IH [OF sub rest inv2 entries2]
    show ?thesis
    proof (cases "load_nodes cx resolver spawn (map ((!) nodes) js) ?st2")
      case (Inl panic)
      with ih show ?thesis unfolding step by simp
    next
      case (Inr st')
      with ih obtain outs where "rh_entries (ls_handoff st') = Some ((entries @ [out]) @ outs)" "list_all2 (row_of_entry nodes) js outs"
        by auto
      with Inr row show ?thesis unfolding step by (auto intro!: exI [of _ "out # outs"])
    qed
  qed
qed

lemma load_inv_new: "load_inv nodes {} (load_state_new root w)"
  by (simp add: load_inv_def load_state_new_def of_runtime_def)

lemma row_id: "row_of_entry nodes j out \<Longrightarrow> outcome_id out = pn_id (nodes ! j)"
  by (auto simp: row_of_entry_def Let_def split: option.splits plan_entry.splits if_splits)

definition frozen :: "load_plan \<Rightarrow> bool" where
  "frozen plan \<longleftrightarrow> plan_wf plan \<and> (\<forall>n \<in> set (lp_nodes plan). node_valid n)"

lemma load_prefix_rows:
  assumes "frozen plan"
  shows "\<exists>order. execution_order plan = Some order \<and> set order = {..<length (lp_nodes plan)} \<and> distinct order \<and>
    (\<forall>k. case load_nodes cx resolver spawn (take k (map ((!) (lp_nodes plan)) order)) (load_state_new root w) of
       Inl panic \<Rightarrow> panic = RealmSpaceExhausted (- 1)
     | Inr st \<Rightarrow> \<exists>outs. rh_entries (ls_handoff st) = Some outs \<and> list_all2 (row_of_entry (lp_nodes plan)) (take k order) outs)"
proof -
  let ?nodes = "lp_nodes plan" and ?order = "concat (map (preorder (lp_nodes plan)) (plan_roots (lp_nodes plan)))"
  have d: "distinct (map pn_id ?nodes)" and p: "parents_first ?nodes" and valid: "\<forall>n \<in> set ?nodes. node_valid n"
    and wf: "plan_wf plan"
    using assms by (simp_all add: frozen_def plan_wf_def)
  have seen: "parents_seen ?nodes {} (take k ?order)" for k
    using order_parents_seen [OF d p] parents_seen_append [of ?nodes "{}" "take k ?order" "drop k ?order"] by simp
  have "set (take k ?order) \<subseteq> {..<length ?nodes}" for k
    using order_permutes(1) [OF d p] set_take_subset [of k ?order] by blast
  moreover have "rh_entries (ls_handoff (load_state_new root w)) = Some []" by (simp add: load_state_new_def handoff_new_def)
  ultimately have "case load_nodes cx resolver spawn (map ((!) ?nodes) (take k ?order)) (load_state_new root w) of
       Inl panic \<Rightarrow> panic = RealmSpaceExhausted (- 1)
     | Inr st \<Rightarrow> \<exists>outs. rh_entries (ls_handoff st) = Some outs \<and> list_all2 (row_of_entry ?nodes) (take k ?order) outs" for k
    by (rule load_nodes_rows [OF d p valid _ seen load_inv_new, where entries = "[]", unfolded append_Nil])
  with execution_order_eq [OF wf] order_permutes [OF d p] show ?thesis by (auto simp: take_map)
qed

text \<open>
  C28: An execution of a frozen plan yields one row per entry, in traversal order, as the
  declarations decide: an entry whose outermost disabled ancestor-or-self is itself is
  \<open>Disabled\<close>, below one it is \<open>Pruned\<close> with that ancestor, otherwise a group is \<open>Group\<close> and a
  Plugin is \<open>Spawned\<close> or \<open>Failed\<close> under its resolve key, whatever happened to other entries.
  None of the \<open>expect\<close>s on the way can fire: the only panic is a Runtime that has used up its
  realm keys.
\<close>

theorem load_reports_every_entry:
  assumes "frozen plan"
  shows "\<exists>order result. execution_order plan = Some order \<and> load cx resolver spawn plan root w = Some result \<and>
    (case result of
       Inl panic \<Rightarrow> panic = RealmSpaceExhausted (- 1)
     | Inr (outcome, st) \<Rightarrow> list_all2 (row_of_entry (lp_nodes plan)) order (lo_entries outcome))"
proof -
  obtain order where order: "execution_order plan = Some order"
    and pre: "\<forall>k. case load_nodes cx resolver spawn (take k (map ((!) (lp_nodes plan)) order)) (load_state_new root w) of
       Inl panic \<Rightarrow> panic = RealmSpaceExhausted (- 1)
     | Inr st \<Rightarrow> \<exists>outs. rh_entries (ls_handoff st) = Some outs \<and> list_all2 (row_of_entry (lp_nodes plan)) (take k order) outs"
    using load_prefix_rows [OF assms, of cx resolver spawn root w] by blast
  from pre [THEN spec, of "length order"] have
    "case load_nodes cx resolver spawn (map ((!) (lp_nodes plan)) order) (load_state_new root w) of
       Inl panic \<Rightarrow> panic = RealmSpaceExhausted (- 1)
     | Inr st \<Rightarrow> \<exists>outs. rh_entries (ls_handoff st) = Some outs \<and> list_all2 (row_of_entry (lp_nodes plan)) order outs"
    unfolding take_map take_all [OF order.refl] .
  with order show ?thesis
    by (auto simp: load_def handoff_finish_def split: sum.splits)
qed

lemma demo_frozen: "frozen demo_plan"
  using demo_plan_wf
  by (simp add: frozen_def) (simp add: demo_plan_def Let_def node_valid_def validate_plugin_def plugin_entry_new_def)

definition loader_root :: root_ids where
  "loader_root = \<lparr>rt_sn = \<lparr>sn_realm = 0\<rparr>, rt_realm_membership = 0, rt_scope_membership = 0, rt_root_fiber = 0\<rparr>"

definition demo_loader_ctx :: ctx where
  "demo_loader_ctx = context_root loader_root"

abbreviation demo_resolver :: "nat resolver" where
  "demo_resolver \<equiv> \<lambda>request. ResolverReturned (Inr (Some (rq_config request)))"

abbreviation demo_spawner :: "(nat, nat, unit, nat) spawner" where
  "demo_spawner \<equiv> \<lambda>cx prepared (sn, n). (Inr n, sn, Suc n)"

definition demo_order :: "nat list" where
  "demo_order = [0, 2, 3, 1]"

lemma demo_order: "execution_order demo_plan = Some demo_order"
proof -
  have "concat (map (preorder (lp_nodes demo_plan)) (plan_roots (lp_nodes demo_plan))) = demo_order" by code_simp
  with execution_order_eq [OF demo_plan_wf] show ?thesis by simp
qed

lemma demo_run:
  "\<exists>st. load_nodes demo_loader_ctx demo_resolver demo_spawner (map ((!) (lp_nodes demo_plan)) demo_order)
      (load_state_new loader_root 5) = Inr st \<and>
    map_option (List.map_filter outcome_handle) (rh_entries (ls_handoff st)) = Some [5] \<and> ls_world st = 6"
proof -
  let ?run = "load_nodes demo_loader_ctx demo_resolver demo_spawner (map ((!) (lp_nodes demo_plan)) demo_order)
      (load_state_new loader_root 5)"
  have "map_sum (\<lambda>_. ()) (\<lambda>st. (map_option (List.map_filter outcome_handle) (rh_entries (ls_handoff st)), ls_world st)) ?run =
      Inr (Some [5], 6)"
    by code_simp
  then show ?thesis by (cases ?run) auto
qed

lemma demo_load:
  obtains outcome st where "load demo_loader_ctx demo_resolver demo_spawner demo_plan loader_root 5 = Some (Inr (outcome, st))"
proof -
  from demo_run obtain st where "load_nodes demo_loader_ctx demo_resolver demo_spawner
      (map ((!) (lp_nodes demo_plan)) demo_order) (load_state_new loader_root 5) = Inr st"
    "rh_entries (ls_handoff st) \<noteq> None" by auto
  then obtain outcome st' where "load demo_loader_ctx demo_resolver demo_spawner demo_plan loader_root 5 = Some (Inr (outcome, st'))"
    by (auto simp: load_def demo_order handoff_finish_def)
  then show ?thesis by (rule that)
qed

theorem load_reports_every_entry_witness:
  "\<exists>outcome st. load demo_loader_ctx demo_resolver demo_spawner demo_plan loader_root 5 = Some (Inr (outcome, st)) \<and>
     list_all2 (row_of_entry (lp_nodes demo_plan)) demo_order (lo_entries outcome)"
proof -
  obtain outcome st where l: "load demo_loader_ctx demo_resolver demo_spawner demo_plan loader_root 5 = Some (Inr (outcome, st))"
    by (rule demo_load)
  with load_reports_every_entry [OF demo_frozen, of demo_loader_ctx demo_resolver demo_spawner loader_root 5] demo_order
  show ?thesis by auto
qed

section \<open>Correlation\<close>

lemma find_row:
  assumes "list_all2 (row_of_entry nodes) order outs" and "set order = {..<length nodes}" and "distinct (map pn_id nodes)"
    and j: "j < length nodes"
  shows "\<exists>out. find (\<lambda>e. outcome_id e = pn_id (nodes ! j)) outs = Some out \<and> row_of_entry nodes j out"
proof -
  have "set order \<subseteq> {..<length nodes}" "j \<in> set order" using assms(2) j by simp_all
  from assms(1) this show ?thesis
  proof (induction order outs rule: list_all2_induct)
    case (Cons i js out outs)
    show ?case
    proof (cases "i = j")
      case True
      with Cons row_id show ?thesis by auto
    next
      case False
      with Cons.prems have "outcome_id out \<noteq> pn_id (nodes ! j)"
        using row_id [OF Cons.hyps(1)] pn_id_inj [OF assms(3) _ j, of i] by auto
      with False Cons show ?thesis by auto
    qed
  qed simp
qed

text \<open>
  C29: Identities survive the round trip through an execution.  Looking an outcome up by the
  identity the builder returned for an entry finds the row of exactly that entry; there are as
  many rows as entries, an identity the plan does not hold finds nothing, and the outcome is
  ok exactly when no row failed.
\<close>

theorem load_entry_roundtrip:
  assumes "frozen plan" and "load cx resolver spawn plan root w = Some (Inr (outcome, st))"
  shows "(\<forall>j < length (lp_nodes plan).
       \<exists>out. load_entry (pn_id (lp_nodes plan ! j)) outcome = Some out \<and> row_of_entry (lp_nodes plan) j out) \<and>
    length (lo_entries outcome) = length (lp_nodes plan) \<and>
    (\<forall>i. i \<notin> pn_id ` set (lp_nodes plan) \<longrightarrow> load_entry i outcome = None) \<and>
    (load_is_ok outcome \<longleftrightarrow> (\<forall>out \<in> set (lo_entries outcome). \<not> outcome_failed out))"
proof -
  obtain order where order: "execution_order plan = Some order"
    and all: "set order = {..<length (lp_nodes plan)}" and dist: "distinct order"
    and pre: "\<forall>k. case load_nodes cx resolver spawn (take k (map ((!) (lp_nodes plan)) order)) (load_state_new root w) of
       Inl panic \<Rightarrow> panic = RealmSpaceExhausted (- 1)
     | Inr st \<Rightarrow> \<exists>outs. rh_entries (ls_handoff st) = Some outs \<and> list_all2 (row_of_entry (lp_nodes plan)) (take k order) outs"
    using load_prefix_rows [OF assms(1), of cx resolver spawn root w] by blast
  from pre [THEN spec, of "length order"] assms(2) order
  have rows: "list_all2 (row_of_entry (lp_nodes plan)) order (lo_entries outcome)"
    unfolding take_map take_all [OF order.refl]
    by (auto simp: load_def handoff_finish_def split: sum.splits)
  have d: "distinct (map pn_id (lp_nodes plan))" using assms(1) by (simp add: frozen_def plan_wf_def)
  have "length order = length (lp_nodes plan)" using distinct_card [OF dist] all by simp
  then have "length (lo_entries outcome) = length (lp_nodes plan)" using list_all2_lengthD [OF rows] by simp
  moreover have "load_entry i outcome = None" if "i \<notin> pn_id ` set (lp_nodes plan)" for i
  proof -
    have "outcome_id out \<noteq> i" if "out \<in> set (lo_entries outcome)" for out
    proof -
      from that rows obtain j where "j \<in> set order" "row_of_entry (lp_nodes plan) j out"
        by (metis in_set_conv_nth list_all2_conv_all_nth)
      with row_id all have "outcome_id out \<in> pn_id ` set (lp_nodes plan)" by fastforce
      with \<open>i \<notin> _\<close> show ?thesis by blast
    qed
    then show ?thesis by (simp add: load_entry_def find_None_iff)
  qed
  ultimately show ?thesis
    using find_row [OF rows all d] by (auto simp: load_entry_def load_is_ok_def list_ex_iff)
qed

theorem load_entry_roundtrip_witness:
  "\<exists>outcome st. load demo_loader_ctx demo_resolver demo_spawner demo_plan loader_root 5 = Some (Inr (outcome, st)) \<and>
     load_entry \<lparr>ei_lineage = 0, ei_occurrence = 4\<rparr> outcome =
       Some (OutPruned \<lparr>ei_lineage = 0, ei_occurrence = 4\<rparr> \<lparr>ei_lineage = 0, ei_occurrence = 3\<rparr>)"
proof -
  obtain outcome st where l: "load demo_loader_ctx demo_resolver demo_spawner demo_plan loader_root 5 = Some (Inr (outcome, st))"
    by (rule demo_load)
  note found = load_entry_roundtrip [OF demo_frozen l]
  have "3 < length (lp_nodes demo_plan)" by (simp add: demo_plan_def Let_def)
  with found obtain out where out: "load_entry (pn_id (lp_nodes demo_plan ! 3)) outcome = Some out"
    "row_of_entry (lp_nodes demo_plan) 3 out" by blast
  have "disabled_root (lp_nodes demo_plan) 3 = Some 2" by code_simp
  with out have "load_entry \<lparr>ei_lineage = 0, ei_occurrence = 4\<rparr> outcome =
       Some (OutPruned \<lparr>ei_lineage = 0, ei_occurrence = 4\<rparr> \<lparr>ei_lineage = 0, ei_occurrence = 3\<rparr>)"
    by (simp add: row_of_entry_def demo_plan_def Let_def)
  with l show ?thesis by blast
qed

section \<open>Abandonment\<close>

lemma map_filter_rev: "List.map_filter f (rev xs) = rev (List.map_filter f xs)"
  by (induction xs) (simp_all add: List.map_filter_simps map_filter_append split: option.split)

text \<open>
  Either the caller owns every handle or the framework rolls all of them back.  Dropping
  the future after any number of entries disposes exactly the Fibers spawned so far, each
  once, the latest first, and nothing else; once the outcome was delivered the handoff owns
  nothing and its drop does nothing.
\<close>

theorem abandoned_load_rolls_back:
  assumes "frozen plan" and "execution_order plan = Some order"
    and "load_nodes cx resolver spawn (take k (map ((!) (lp_nodes plan)) order)) (load_state_new root w) = Inr st"
  shows "\<exists>outs. list_all2 (row_of_entry (lp_nodes plan)) (take k order) outs \<and>
    load_abandoned cx resolver spawn rollback_fiber k plan root w =
      Some (Inr (fold rollback_fiber (rev (List.map_filter outcome_handle outs)) (ls_world st))) \<and>
    (case handoff_finish (ls_handoff st) of
       None \<Rightarrow> False
     | Some (outcome, h) \<Rightarrow> lo_entries outcome = outs \<and> (\<forall>w'. handoff_drop rollback_fiber h w' = w'))"
proof -
  from load_prefix_rows [OF assms(1), of cx resolver spawn root w] assms(2,3) obtain outs where
    "rh_entries (ls_handoff st) = Some outs" "list_all2 (row_of_entry (lp_nodes plan)) (take k order) outs"
    by (auto dest!: spec [of _ k])
  with assms(2,3) show ?thesis
    by (auto simp: load_abandoned_def handoff_drop_def rollback_def rollback_handles_def map_filter_rev handoff_finish_def)
qed

theorem abandoned_load_rolls_back_witness:
  "load_abandoned demo_loader_ctx demo_resolver demo_spawner (\<lambda>h w. 10 * w + h) 4 demo_plan loader_root 5 = Some (Inr 65)"
proof -
  from demo_run obtain st where st: "load_nodes demo_loader_ctx demo_resolver demo_spawner
      (map ((!) (lp_nodes demo_plan)) demo_order) (load_state_new loader_root 5) = Inr st"
    "map_option (List.map_filter outcome_handle) (rh_entries (ls_handoff st)) = Some [5]" "ls_world st = 6" by blast
  have four: "take 4 (map ((!) (lp_nodes demo_plan)) demo_order) = map ((!) (lp_nodes demo_plan)) demo_order"
    by (simp add: demo_order_def)
  from abandoned_load_rolls_back [OF demo_frozen demo_order, of demo_loader_ctx demo_resolver demo_spawner 4 loader_root 5 st,
      unfolded four, OF st(1)] st(2,3)
  show ?thesis by (auto simp: handoff_finish_def split: option.splits)
qed

end
