(* ===== verification/Loader_Realms.thy ===== *)
theory Loader_Realms
  imports Loader_Properties
begin

text \<open>
  Placement of the declarations of one execution: which rows share a realm, with the realm
  counter also advanced by everybody else in between.
\<close>

datatype realm_event = RowPlaced isolate_entry | OtherAllocation

record placed_row =
  pr_policy :: realm_policy
  pr_key :: realm_key

fun realm_run :: "realm_event list \<Rightarrow> placed_row list \<Rightarrow> realm_environment \<times> root_ids \<Rightarrow> u64 + placed_row list \<times> realm_environment \<times> root_ids"
where
  "realm_run [] rows st = Inr (rows, st)"
| "realm_run (RowPlaced d # evs) rows st =
     (case place_row d st of
        Inl sn \<Rightarrow> Inl sn
      | Inr ((_, realm), st') \<Rightarrow> realm_run evs (rows @ [\<lparr>pr_policy = is_policy d, pr_key = sr_key realm\<rparr>]) st')"
| "realm_run (OtherAllocation # evs) rows (shared, root) =
     (case new_service_realm root of
        None \<Rightarrow> Inl (sn_realm (rt_sn root))
      | Some (_, root') \<Rightarrow> realm_run evs rows (shared, root'))"

text \<open>A placement of one entry is the run of its rows.\<close>

lemma realm_run_rows:
  "place_rows ds st = Inr (pairs, st') \<Longrightarrow>
   realm_run (map RowPlaced ds) rows st =
     Inr (rows @ map2 (\<lambda>d (_, realm). \<lparr>pr_policy = is_policy d, pr_key = sr_key realm\<rparr>) ds pairs, st')"
proof (induction ds arbitrary: st rows pairs)
  case (Cons d ds)
  then obtain pair st1 pairs1 where "place_row d st = Inr (pair, st1)" "place_rows ds st1 = Inr (pairs1, st')" "pairs = pair # pairs1"
    by (auto split: sum.splits)
  with Cons.IH show ?case by (cases pair) simp
qed simp

definition shares :: "realm_policy \<Rightarrow> realm_policy \<Rightarrow> bool" where
  "shares p q \<longleftrightarrow> (\<exists>label. p = Shared label \<and> q = Shared label)"

definition issued :: "u64 \<Rightarrow> root_ids \<Rightarrow> realm_key \<Rightarrow> bool" where
  "issued start root k \<longleftrightarrow> unat start < unat k \<and> unat k \<le> unat (sn_realm (rt_sn root))"

definition realm_inv :: "u64 \<Rightarrow> placed_row list \<Rightarrow> realm_environment \<times> root_ids \<Rightarrow> bool" where
  "realm_inv start rows st \<longleftrightarrow>
     (\<forall>r \<in> set rows. issued start (snd st) (pr_key r)) \<and>
     (\<forall>label realm. map_of (fst st) label = Some realm \<longrightarrow> issued start (snd st) (sr_key realm)) \<and>
     (\<forall>r \<in> set rows. \<forall>label realm. map_of (fst st) label = Some realm \<longrightarrow>
        (pr_key r = sr_key realm \<longleftrightarrow> pr_policy r = Shared label)) \<and>
     (\<forall>r \<in> set rows. \<forall>label. pr_policy r = Shared label \<longrightarrow> map_of (fst st) label \<noteq> None) \<and>
     (\<forall>l l' realm realm'. map_of (fst st) l = Some realm \<longrightarrow> map_of (fst st) l' = Some realm' \<longrightarrow>
        sr_key realm = sr_key realm' \<longrightarrow> l = l') \<and>
     sorted_wrt (\<lambda>r r'. pr_key r = pr_key r' \<longleftrightarrow> shares (pr_policy r) (pr_policy r')) rows \<and>
     unat start \<le> unat (sn_realm (rt_sn (snd st)))"

lemma new_realm_key:
  "new_service_realm root = Some (realm, root') \<Longrightarrow>
   unat (sr_key realm) = Suc (unat (sn_realm (rt_sn root))) \<and> sn_realm (rt_sn root') = sr_key realm"
  by (auto simp: new_service_realm_def dest!: next_realm_key_Some split: option.splits)

lemma issued_mono: "issued start root k \<Longrightarrow> new_service_realm root = Some (realm, root') \<Longrightarrow> issued start root' k"
  using new_realm_key [of root realm root'] by (simp add: issued_def)

lemma issued_new:
  "new_service_realm root = Some (realm, root') \<Longrightarrow> unat start \<le> unat (sn_realm (rt_sn root)) \<Longrightarrow> issued start root' (sr_key realm)"
  using new_realm_key [of root realm root'] by (simp add: issued_def)

lemma issued_fresh: "issued start root k \<Longrightarrow> new_service_realm root = Some (realm, root') \<Longrightarrow> k \<noteq> sr_key realm"
  using new_realm_key [of root realm root'] by (auto simp: issued_def)

lemma realm_inv_other:
  assumes inv: "realm_inv start rows (shared, root)" and new: "new_service_realm root = Some (realm, root')"
  shows "realm_inv start rows (shared, root')"
  using inv issued_mono [OF _ new] new_realm_key [OF new] unfolding realm_inv_def by auto

lemma realm_inv_place:
  assumes inv: "realm_inv start rows (shared, root)" and row: "place_row d (shared, root) = Inr ((n, realm), shared', root')"
  shows "realm_inv start (rows @ [\<lparr>pr_policy = is_policy d, pr_key = sr_key realm\<rparr>]) (shared', root')"
proof (cases "is_policy d")
  case Private
  with row have new: "new_service_realm root = Some (realm, root')" "shared' = shared"
    by (auto simp: place_row_def split: option.splits)
  have old: "pr_key r \<noteq> sr_key realm" if "r \<in> set rows" for r
    using inv that issued_fresh [OF _ new(1)] unfolding realm_inv_def by auto
  have table: "sr_key r \<noteq> sr_key realm" if "map_of shared label = Some r" for label r
    using inv that issued_fresh [OF _ new(1)] unfolding realm_inv_def by (metis fst_conv snd_conv)
  show ?thesis
    using inv old issued_new [OF new(1)] realm_inv_other [OF inv new(1)]
    unfolding realm_inv_def new(2) by (auto simp: sorted_wrt_append shares_def Private dest: table)
next
  case (Shared label)
  show ?thesis
  proof (cases "map_of shared label")
    case (Some known)
    with Shared row have eq: "known = realm" "shared' = shared" "root' = root" by (auto simp: place_row_def)
    have same: "pr_key r = sr_key realm \<longleftrightarrow> pr_policy r = Shared label" if "r \<in> set rows" for r
      using inv Some that eq unfolding realm_inv_def by auto
    with inv Some eq Shared show ?thesis
      unfolding realm_inv_def by (auto simp: sorted_wrt_append shares_def)
  next
    case None
    with Shared row have new: "new_service_realm root = Some (realm, root')" "shared' = hm_insert label realm shared"
      by (auto simp: place_row_def split: option.splits)
    have old: "pr_key r \<noteq> sr_key realm" if "r \<in> set rows" for r
      using inv that issued_fresh [OF _ new(1)] unfolding realm_inv_def by auto
    have table: "sr_key r \<noteq> sr_key realm" if "map_of shared l = Some r" for l r
      using inv that issued_fresh [OF _ new(1)] unfolding realm_inv_def by (metis fst_conv snd_conv)
    have unlabelled: "pr_policy r \<noteq> Shared label" if "r \<in> set rows" for r
      using inv None that unfolding realm_inv_def by auto
    from inv old issued_new [OF new(1)] realm_inv_other [OF inv new(1)] unlabelled show ?thesis
      unfolding realm_inv_def new(2) by (auto simp: sorted_wrt_append shares_def Shared dest: table)
  qed
qed

lemma realm_run_inv: "realm_run evs rows st = Inr (rows', st') \<Longrightarrow> realm_inv start rows st \<Longrightarrow> realm_inv start rows' st'"
proof (induction evs rows st rule: realm_run.induct)
  case (2 d evs rows st)
  obtain shared root where st: "st = (shared, root)" by force
  from 2 st obtain n realm shared' root1 where row: "place_row d (shared, root) = Inr ((n, realm), shared', root1)"
    by (auto split: sum.splits prod.splits)
  from "2.IH" [OF row [folded st] refl refl] "2.prems" row st realm_inv_place [OF _ row] show ?case by simp
next
  case (3 evs rows shared root)
  then obtain realm root1 where new: "new_service_realm root = Some (realm, root1)" by (auto split: option.splits)
  from "3.IH" [OF new refl] "3.prems" new realm_inv_other [OF _ new] show ?case by simp
qed simp

text \<open>
  Labels rendezvous within one execution and nowhere else.  Over one execution, with any
  realm allocations of others in between, two placed rows get the same realm exactly when both
  are shared under the same label; and every realm of the execution is newer than anything
  allocated before it began, so no row can meet a row of an earlier execution.
\<close>

theorem labels_rendezvous_per_execution:
  assumes "realm_run evs [] ([], root) = Inr (rows, shared, root')"
  shows "(\<forall>j < length rows. \<forall>i < j.
       pr_key (rows ! i) = pr_key (rows ! j) \<longleftrightarrow> shares (pr_policy (rows ! i)) (pr_policy (rows ! j))) \<and>
    (\<forall>r \<in> set rows. unat (sn_realm (rt_sn root)) < unat (pr_key r))"
proof -
  have "realm_inv (sn_realm (rt_sn root)) rows (shared, root')"
    by (rule realm_run_inv [OF assms]) (simp add: realm_inv_def)
  then show ?thesis unfolding realm_inv_def issued_def sorted_wrt_iff_nth_less by auto
qed

theorem labels_rendezvous_per_execution_witness:
  "\<exists>rows shared root'.
     realm_run [RowPlaced \<lparr>is_service = ''a'', is_policy = Shared ''x''\<rparr>, OtherAllocation,
        RowPlaced \<lparr>is_service = ''b'', is_policy = Private\<rparr>, RowPlaced \<lparr>is_service = ''c'', is_policy = Shared ''x''\<rparr>]
       [] ([], loader_root) = Inr (rows, shared, root') \<and>
     pr_key (rows ! 0) = pr_key (rows ! 2) \<and> pr_key (rows ! 0) \<noteq> pr_key (rows ! 1)"
proof -
  let ?evs = "[RowPlaced \<lparr>is_service = ''a'', is_policy = Shared ''x''\<rparr>, OtherAllocation,
        RowPlaced \<lparr>is_service = ''b'', is_policy = Private\<rparr>, RowPlaced \<lparr>is_service = ''c'', is_policy = Shared ''x''\<rparr>]"
  have "map_sum (\<lambda>_. ()) (\<lambda>r. map pr_policy (fst r)) (realm_run ?evs [] ([], loader_root)) = Inr [Shared ''x'', Private, Shared ''x'']"
    by code_simp
  then obtain rows shared root' where r: "realm_run ?evs [] ([], loader_root) = Inr (rows, shared, root')"
    and p: "map pr_policy rows = [Shared ''x'', Private, Shared ''x'']"
    by (cases "realm_run ?evs [] ([], loader_root)") auto
  have len: "length rows = 3" using arg_cong [OF p, of length] by simp
  have pol: "pr_policy (rows ! 0) = Shared ''x''" "pr_policy (rows ! 1) = Private" "pr_policy (rows ! 2) = Shared ''x''"
    using arg_cong [OF p, of "\<lambda>xs. xs ! 0"] arg_cong [OF p, of "\<lambda>xs. xs ! 1"] arg_cong [OF p, of "\<lambda>xs. xs ! 2"] len by simp_all
  note all = labels_rendezvous_per_execution [OF r, THEN conjunct1, unfolded len]
  have "pr_key (rows ! 0) = pr_key (rows ! 2)" using all [rule_format, of 2 0] pol by (simp add: shares_def)
  moreover have "pr_key (rows ! 0) \<noteq> pr_key (rows ! 1)" using all [rule_format, of 1 0] pol by (simp add: shares_def)
  ultimately show ?thesis using r by blast
qed

end
