(* ===== verification/Lifecycle.thy ===== *)
theory Lifecycle
  imports Service_Properties
begin

text \<open>
  The lifecycle of one Fiber on the Runtime (\<open>crates/cordis-core/src/fiber/mod.rs\<close>): state
  transitions with their visibility drift and observations, the drain, one settle pass, and
  the terminal teardown.

  User code is a parameter, the record \<open>lifecycle_env\<close>: the apply of a Plugin and the run of
  one claimed cleanup, each with everything that happens on the Runtime while it is awaited
  (its own calls and those of other tasks).  A cleanup that withdraws a publication is
  framework code and synchronous.  \<open>None\<close> is an \<open>unreachable!\<close> of the code.
\<close>

record lifecycle_env =
  le_apply :: "fid \<Rightarrow> ident \<Rightarrow> ctx \<Rightarrow> runtime \<Rightarrow> (plugin_failure + unit) completion \<times> runtime"
  le_cleanup :: "fid \<Rightarrow> cleanup \<Rightarrow> runtime \<Rightarrow> (effect_failure + unit) completion \<times> runtime"

section \<open>Transitions\<close>

definition has_root :: "fid \<Rightarrow> runtime \<Rightarrow> bool" where
  "has_root f rn \<longleftrightarrow> fb_spawn (fiber_at rn f) \<noteq> None"

definition visibility_observations ::
  "fiber_state \<Rightarrow> fiber_state \<Rightarrow> (string \<times> realm_key \<times> ident) list \<Rightarrow> runtime_observation list" where
  "visibility_observations old next visibility =
     map (\<lambda>(name, key, occurrence).
            ServiceVisibility name key (if old = Active then Some occurrence else None)
              (if next = Active then Some occurrence else None)) visibility"

definition transition :: "fid \<Rightarrow> fiber_state \<Rightarrow> runtime \<Rightarrow> runtime" where
  "transition f next rn =
     (let old = current_state (fiber_at rn f) in
      if old = next then rn
      else (case (if (old = Active) \<noteq> (next = Active) \<and> has_root f rn
                  then commit_fiber_transition f next rn
                  else (([], None), update_fiber f (set_state next) rn)) of
              ((visibility, drift), rn1) \<Rightarrow>
                (let rn2 = (case drift of None \<Rightarrow> rn1 | Some affected \<Rightarrow> drift_kick affected rn1)
                 in if has_root f rn
                    then fold observe (visibility_observations old next visibility @ [FiberStateChanged f old next]) rn2
                    else rn2)))"

section \<open>The drain\<close>

definition run_claimed ::
  "lifecycle_env \<Rightarrow> fid \<Rightarrow> cleanup \<Rightarrow> runtime \<Rightarrow> (effect_failure + unit) completion \<times> runtime" where
  "run_claimed env f c rn =
     (case run c of
        WithdrawPublication key name occurrence \<Rightarrow> (Finished (Inr ()), withdraw_exact key name occurrence rn)
      | _ \<Rightarrow> le_cleanup env f c rn)"

text \<open>The failures reported, in order.\<close>

fun drain_tokens :: "lifecycle_env \<Rightarrow> fid \<Rightarrow> token list \<Rightarrow> runtime \<Rightarrow> effect_failure list \<times> runtime" where
  "drain_tokens env f [] rn = ([], rn)"
| "drain_tokens env f (t # ts) rn =
     (case remove_disposable t (fiber_at rn f) of
        (None, fb) \<Rightarrow> drain_tokens env f ts (update_fiber f (\<lambda>_. fb) rn)
      | (Some c, fb) \<Rightarrow>
          (case run_claimed env f c (update_fiber f (\<lambda>_. fb) rn) of
             (result, rn1) \<Rightarrow>
               (case drain_tokens env f ts rn1 of
                  (reports, rn2) \<Rightarrow> (run_cleanup_contained True result @ reports, rn2))))"

definition set_draining :: "bool \<Rightarrow> fiber \<Rightarrow> fiber" where
  "set_draining b x = x\<lparr>fb_draining := b\<rparr>"

definition drain :: "lifecycle_env \<Rightarrow> fid \<Rightarrow> runtime \<Rightarrow> runtime" where
  "drain env f rn =
     (let tokens = journal_tokens (fb_journal (fiber_at rn f)) in
      update_fiber f (set_draining False)
        (snd (drain_tokens env f (rev tokens) (update_fiber f (set_draining True) rn))))"

section \<open>One settle pass\<close>

definition set_replacing :: "bool \<Rightarrow> fiber \<Rightarrow> fiber" where
  "set_replacing b x = x\<lparr>fb_replacing := b\<rparr>"

definition set_applied :: "fiber \<Rightarrow> fiber" where
  "set_applied x = x\<lparr>fb_applied := True\<rparr>"

text \<open>A failed apply: the rollback comes before \<open>Failed\<close> is published.\<close>

definition settle_failed :: "lifecycle_env \<Rightarrow> fid \<Rightarrow> plugin_failure \<Rightarrow> runtime \<Rightarrow> runtime" where
  "settle_failed env f failure rn =
     (let rn1 = drain env f (transition f Unloading rn);
          rn2 = update_fiber f (store_error (Some failure)) rn1
      in transition f Failed rn2)"

definition settle_apply :: "lifecycle_env \<Rightarrow> fid \<Rightarrow> ident \<Rightarrow> ctx \<Rightarrow> runtime \<Rightarrow> runtime" where
  "settle_apply env f plugin scope rn =
     (let rn1 = transition f Loading (update_fiber f (set_replacing False) rn) in
      case le_apply env f plugin (with_fiber f scope) rn1 of
        (outcome, rn2) \<Rightarrow>
          (let rn3 = update_fiber f set_applied rn2 in
           case outcome of
             Finished (Inr _) \<Rightarrow> transition f Active (update_fiber f (store_error None) rn3)
           | Finished (Inl failure) \<Rightarrow> settle_failed env f failure rn3
           | Unwound payload \<Rightarrow> settle_failed env f (plugin_failure_panicked payload) rn3))"

definition settle_unload :: "lifecycle_env \<Rightarrow> fid \<Rightarrow> runtime \<Rightarrow> runtime" where
  "settle_unload env f rn =
     (case current_state (fiber_at rn f) of
        Active \<Rightarrow> drain env f (transition f Unloading rn)
      | Failed \<Rightarrow> drain env f (transition f Unloading rn)
      | Loading \<Rightarrow> drain env f (transition f Unloading rn)
      | Pending \<Rightarrow> rn
      | Unloading \<Rightarrow> rn
      | Disposed \<Rightarrow> rn)"

definition settle_once :: "lifecycle_env \<Rightarrow> fid \<Rightarrow> semantic_target \<Rightarrow> bool \<Rightarrow> runtime \<Rightarrow> runtime option" where
  "settle_once env f target owns_first_apply rn =
     (if \<not> is_alive (fiber_at rn f) then Some rn
      else (let rn1 = settle_unload env f rn; x = fiber_at rn1 f in
            if has_missing target
            then Some (transition f Pending (update_fiber f (store_error None) rn1))
            else if \<not> owns_first_apply \<and> fb_creation_pending x \<and> \<not> fb_applied x then Some rn1
            else (case apply_snapshot (fb_spawn x) of
                    Inl _ \<Rightarrow> None
                  | Inr (plugin, scope) \<Rightarrow> Some (settle_apply env f plugin scope rn1))))"

section \<open>Teardown and disposal\<close>

definition close_creation :: "fiber \<Rightarrow> fiber" where
  "close_creation x = x\<lparr>fb_creation_pending := False\<rparr>"

definition mark_dead :: "fiber \<Rightarrow> fiber" where
  "mark_dead x = x\<lparr>fb_alive := False\<rparr>"

definition on_fiber_slot :: "(inertia_slot \<Rightarrow> inertia_slot) \<Rightarrow> fiber \<Rightarrow> fiber" where
  "on_fiber_slot g x = x\<lparr>fb_slot := g (fb_slot x)\<rparr>"

definition unregister_edges :: "fid \<Rightarrow> runtime \<Rightarrow> runtime" where
  "unregister_edges f rn = rn\<lparr>rn_deps := deps_unregister (edges_at rn) f (rn_deps rn)\<rparr>"

definition teardown_body :: "lifecycle_env \<Rightarrow> fid \<Rightarrow> runtime \<Rightarrow> runtime" where
  "teardown_body env f rn0 =
     (let rn = update_fiber f close_creation rn0 in
      if current_state (fiber_at rn f) = Disposed then rn
      else (let rn1 = transition f Unloading rn;
                rn2 = update_fiber f mark_dead (update_fiber f (on_fiber_slot pin_inactive) rn1);
                rn3 = (if has_root f rn2 then unregister_edges f rn2 else rn2);
                rn4 = transition f Disposed (drain env f rn3)
            in update_fiber f (store_error None) rn4))"

definition release_resident :: "fid \<Rightarrow> runtime \<Rightarrow> runtime" where
  "release_resident f rn =
     (if map_of (rg_claims (rn_registry rn)) f = None then rn
      else (let rn1 = rn\<lparr>rn_registry := release_residency f (rn_registry rn)\<rparr>
            in if has_root f rn then observe (FiberResidencyRemoved f) rn1 else rn1))"

definition publish_dispose_complete :: "fiber \<Rightarrow> fiber" where
  "publish_dispose_complete x = x\<lparr>fb_dispose_complete := True\<rparr>"

definition complete_claimed_dispose :: "lifecycle_env \<Rightarrow> fid \<Rightarrow> runtime \<Rightarrow> runtime" where
  "complete_claimed_dispose env f rn =
     update_fiber f publish_dispose_complete
       (release_resident f (update_fiber f (on_fiber_slot abandon) (teardown_body env f rn)))"

text \<open>
  \<open>Fiber::dispose\<close> once the slot is claimed; \<open>rn\<close> is the state right after the claim.  The
  result says whether this caller owns the disposal (a loser waits for the owner's barrier).
\<close>

definition dispose_claimed :: "lifecycle_env \<Rightarrow> fid \<Rightarrow> runtime \<Rightarrow> bool \<times> runtime" where
  "dispose_claimed env f rn =
     (if fb_dispose_complete (fiber_at rn f) then (False, update_fiber f (on_fiber_slot abandon) rn)
      else (case claim_terminal (fiber_at rn f) of
              (True, _) \<Rightarrow> (False, update_fiber f (on_fiber_slot abandon) rn)
            | (False, x) \<Rightarrow> (True, complete_claimed_dispose env f (update_fiber f (\<lambda>_. x) rn))))"

definition creation_teardown :: "lifecycle_env \<Rightarrow> fid \<Rightarrow> runtime \<Rightarrow> runtime" where
  "creation_teardown env f rn =
     update_fiber f publish_dispose_complete
       (release_resident f (teardown_body env f (update_fiber f mark_terminal rn)))"

text \<open>
  \<open>creation_interrupted_teardown\<close>: the slot is inherited when the cancelled pass died with
  it; otherwise the terminal claim arbitrates (\<open>None\<close>: another disposer owns the barrier and
  is awaited), and \<open>rn'\<close> is the state in which the slot was claimed.
\<close>

definition creation_interrupted_teardown ::
  "lifecycle_env \<Rightarrow> fid \<Rightarrow> runtime \<Rightarrow> (runtime \<Rightarrow> runtime) \<Rightarrow> runtime option" where
  "creation_interrupted_teardown env f rn claim_slot =
     (case take_creation_ownership (fb_slot (fiber_at rn f)) of
        (inherited, sl) \<Rightarrow>
          (let rn1 = update_fiber f (on_fiber_slot (\<lambda>_. sl)) rn;
               finish = (\<lambda>rn. update_fiber f publish_dispose_complete
                 (release_resident f (update_fiber f (on_fiber_slot abandon) (teardown_body env f rn))))
           in if inherited then Some (finish (update_fiber f mark_terminal rn1))
              else (case claim_terminal (fiber_at rn1 f) of
                      (True, _) \<Rightarrow> None
                    | (False, x) \<Rightarrow>
                        (let rn2 = claim_slot (update_fiber f (\<lambda>_. x) rn1)
                         in if \<not> is_alive (fiber_at rn2 f) then Some (update_fiber f (on_fiber_slot abandon) rn2)
                            else Some (finish rn2)))))"

end
