(* ===== verification/Lifecycle_Laws.thy ===== *)
theory Lifecycle_Laws
  imports Lifecycle
begin

text \<open>
  The laws of the lifecycle: what user code may do to a Fiber whose settle slot is held
  (\<open>slot_environment\<close>), and the effect of transitions, drains, settle passes and teardown on
  that Fiber, stated on its view without the settle slot.
\<close>

section \<open>The view of one Fiber\<close>

definition fiber_view :: "fid \<Rightarrow> runtime \<Rightarrow> fiber" where
  "fiber_view f rn = fiber_core (fiber_at rn f)"

text \<open>The published transitions of a Fiber.\<close>

definition history :: "fid \<Rightarrow> runtime \<Rightarrow> (fiber_state \<times> fiber_state) list" where
  "history f rn =
     List.map_filter
       (\<lambda>obs. case obs of FiberStateChanged g old next \<Rightarrow> if g = f then Some (old, next) else None | _ \<Rightarrow> None)
       (rn_observed rn)"

lemma fiber_core_fields [simp]:
  "fb_state (fiber_core x) = fb_state x" "fb_journal (fiber_core x) = fb_journal x"
  "fb_error (fiber_core x) = fb_error x" "fb_spawn (fiber_core x) = fb_spawn x"
  "fb_alive (fiber_core x) = fb_alive x" "fb_disposing (fiber_core x) = fb_disposing x"
  "fb_replacing (fiber_core x) = fb_replacing x" "fb_applied (fiber_core x) = fb_applied x"
  "fb_draining (fiber_core x) = fb_draining x" "fb_edges (fiber_core x) = fb_edges x"
  "fb_creation_pending (fiber_core x) = fb_creation_pending x"
  "fb_dispose_complete (fiber_core x) = fb_dispose_complete x" "current_state (fiber_core x) = current_state x"
  "fiber_core (fiber_core x) = fiber_core x" "assert_can_register (fiber_core x) = assert_can_register x"
  by (simp_all add: fiber_core_def current_state_def assert_can_register_cases)

lemma fiber_core_ops [simp]:
  "fiber_core (set_state s x) = set_state s (fiber_core x)"
  "fiber_core (store_error e x) = store_error e (fiber_core x)"
  "fiber_core (set_replacing b x) = set_replacing b (fiber_core x)"
  "fiber_core (set_draining b x) = set_draining b (fiber_core x)"
  "fiber_core (set_applied x) = set_applied (fiber_core x)"
  "fiber_core (close_creation x) = close_creation (fiber_core x)"
  "fiber_core (mark_dead x) = mark_dead (fiber_core x)"
  "fiber_core (mark_terminal x) = mark_terminal (fiber_core x)"
  "fiber_core (mark_replacing x) = mark_replacing (fiber_core x)"
  "fiber_core (publish_dispose_complete x) = publish_dispose_complete (fiber_core x)"
  "fiber_core (on_fiber_slot g x) = fiber_core x"
  "fiber_core (snd (remove_disposable t x)) = snd (remove_disposable t (fiber_core x))"
  by (simp_all add: fiber_core_def set_state_def store_error_def set_replacing_def set_draining_def set_applied_def
      close_creation_def mark_dead_def mark_terminal_def mark_replacing_def publish_dispose_complete_def
      on_fiber_slot_def remove_disposable_def case_prod_beta split: option.split)

lemma view_state [simp]:
  "fb_state (fiber_view f rn) = fb_state (fiber_at rn f)" "fb_journal (fiber_view f rn) = fb_journal (fiber_at rn f)"
  "fb_error (fiber_view f rn) = fb_error (fiber_at rn f)" "fb_spawn (fiber_view f rn) = fb_spawn (fiber_at rn f)"
  "fb_alive (fiber_view f rn) = fb_alive (fiber_at rn f)" "fb_disposing (fiber_view f rn) = fb_disposing (fiber_at rn f)"
  "fb_replacing (fiber_view f rn) = fb_replacing (fiber_at rn f)" "fb_applied (fiber_view f rn) = fb_applied (fiber_at rn f)"
  "fb_creation_pending (fiber_view f rn) = fb_creation_pending (fiber_at rn f)"
  "current_state (fiber_view f rn) = current_state (fiber_at rn f)"
  by (simp_all add: fiber_view_def)

lemma update_fiber_same:
  "upgrades rn f \<Longrightarrow> fiber_at (update_fiber f g rn) f = g (fiber_at rn f)"
  by (auto simp: update_fiber_def fiber_at_def upgrades_def)

lemma update_fiber_frame [simp]:
  "upgrades (update_fiber f g rn) h = upgrades rn h" "history h (update_fiber f g rn) = history h rn"
  "rn_observed (update_fiber f g rn) = rn_observed rn"
  by (auto simp: update_fiber_def upgrades_def history_def)

lemma view_update:
  "upgrades rn f \<Longrightarrow> fiber_core (g (fiber_at rn f)) = g' (fiber_view f rn) \<Longrightarrow> fiber_view f (update_fiber f g rn) = g' (fiber_view f rn)"
  by (simp add: fiber_view_def update_fiber_same)

lemma view_updates [simp]:
  assumes "upgrades rn f"
  shows "fiber_view f (update_fiber f (set_state s) rn) = set_state s (fiber_view f rn)"
    and "fiber_view f (update_fiber f (store_error e) rn) = store_error e (fiber_view f rn)"
    and "fiber_view f (update_fiber f (set_replacing b) rn) = set_replacing b (fiber_view f rn)"
    and "fiber_view f (update_fiber f (set_draining b) rn) = set_draining b (fiber_view f rn)"
    and "fiber_view f (update_fiber f set_applied rn) = set_applied (fiber_view f rn)"
    and "fiber_view f (update_fiber f close_creation rn) = close_creation (fiber_view f rn)"
    and "fiber_view f (update_fiber f mark_dead rn) = mark_dead (fiber_view f rn)"
    and "fiber_view f (update_fiber f mark_terminal rn) = mark_terminal (fiber_view f rn)"
    and "fiber_view f (update_fiber f mark_replacing rn) = mark_replacing (fiber_view f rn)"
    and "fiber_view f (update_fiber f publish_dispose_complete rn) = publish_dispose_complete (fiber_view f rn)"
    and "fiber_view f (update_fiber f (on_fiber_slot h) rn) = fiber_view f rn"
  using assms by (simp_all add: fiber_view_def update_fiber_same)

section \<open>Transitions\<close>

lemma observe_view [simp]:
  "fiber_view f (observe obs rn) = fiber_view f rn" "upgrades (observe obs rn) g = upgrades rn g"
  "fiber_at (observe obs rn) f = fiber_at rn f" "has_root f (observe obs rn) = has_root f rn"
  by (simp_all add: observe_def fiber_view_def fiber_at_def upgrades_def has_root_def)

lemma history_observe [simp]:
  "history f (observe obs rn) = history f rn @
     (case obs of FiberStateChanged g old next \<Rightarrow> if g = f then [(old, next)] else [] | _ \<Rightarrow> [])"
  by (simp add: history_def observe_def map_filter_append List.map_filter_simps split: runtime_observation.split)

lemma fold_observe_view [simp]:
  "fiber_view f (fold observe os rn) = fiber_view f rn" "upgrades (fold observe os rn) g = upgrades rn g"
  by (induction os arbitrary: rn) simp_all

lemma same_cores_view: "same_cores rn rn' \<Longrightarrow> upgrades rn f \<Longrightarrow> fiber_view f rn' = fiber_view f rn \<and> upgrades rn' f"
  using same_cores_fiber [of rn rn' f] by (auto simp: upgrades_def fiber_view_def fiber_at_def)

lemma drift_commit_view:
  assumes "drift_commit es rn = (fs, rn')" and "upgrades rn f"
  shows "fiber_view f rn' = fiber_view f rn" and "upgrades rn' f" and "history g rn' = history g rn"
  using drift_commit_frame(2,6) [OF assms(1)] same_cores_view [of rn rn' f] assms(2)
  by (simp_all add: history_def)

lemma commit_transition_view:
  assumes "commit_fiber_transition f next rn = ((visibility, drift), rn')" and "upgrades rn f"
  shows "fiber_view f rn' = set_state next (fiber_view f rn)" and "upgrades rn' f" and "history g rn' = history g rn"
proof -
  obtain fs rn1 where d: "drift_commit (map (\<lambda>(name, key, _). (name, key))
      (map (\<lambda>((key, name), slot). (name, key, ss_occurrence slot)) (slots_owned_by f rn))) rn = (fs, rn1)" by force
  note v = drift_commit_view [OF d assms(2)]
  have "rn' = update_fiber f (set_state next) (if slots_owned_by f rn = [] then rn else rn1)"
    using assms(1) d by (simp add: commit_fiber_transition_def Let_def split: if_splits)
  with v assms(2) show "fiber_view f rn' = set_state next (fiber_view f rn)" "upgrades rn' f" "history g rn' = history g rn"
    by simp_all
qed

lemma set_state_same: "current_state x = s \<Longrightarrow> set_state s x = x"
  by (simp add: set_state_def publication_publish_def current_state_def)

lemma drift_kick_view [simp]:
  "fiber_view f (drift_kick fs rn) = fiber_view f rn" "upgrades (drift_kick fs rn) f = upgrades rn f"
  "history g (drift_kick fs rn) = history g rn" "rn_observed (drift_kick fs rn) = rn_observed rn"
  by (simp_all add: fiber_view_def fiber_at_def drift_kick_def upgrades_def history_def)

lemma visibility_no_history [simp]:
  "history f (fold observe (visibility_observations old next visibility) rn) = history f rn"
  unfolding visibility_observations_def by (induction visibility arbitrary: rn) auto

text \<open>A transition changes the state of its Fiber and nothing else of it, and is published once.\<close>

lemma transition_view:
  assumes up: "upgrades rn f"
  shows "fiber_view f (transition f next rn) = set_state next (fiber_view f rn)"
    and "upgrades (transition f next rn) f"
    and "history f (transition f next rn) = history f rn @
      (if current_state (fiber_at rn f) \<noteq> next \<and> has_root f rn then [(current_state (fiber_at rn f), next)] else [])"
proof -
  let ?old = "current_state (fiber_at rn f)"
  have all: "fiber_view f (transition f next rn) = set_state next (fiber_view f rn) \<and> upgrades (transition f next rn) f \<and>
    history f (transition f next rn) = history f rn @ (if ?old \<noteq> next \<and> has_root f rn then [(?old, next)] else [])"
  proof (cases "?old = next")
    case True
    then show ?thesis using up by (simp add: transition_def set_state_same)
  next
    case False
    obtain visibility drift rn1 where c: "(if (?old = Active) \<noteq> (next = Active) \<and> has_root f rn
        then commit_fiber_transition f next rn
        else (([], None), update_fiber f (set_state next) rn)) = ((visibility, drift), rn1)"
      by (metis prod.collapse)
    have v: "fiber_view f rn1 = set_state next (fiber_view f rn)" "upgrades rn1 f" "history f rn1 = history f rn"
      using c up commit_transition_view [of f "next" rn visibility drift rn1] by (auto split: if_splits)
    let ?rn2 = "case drift of None \<Rightarrow> rn1 | Some affected \<Rightarrow> drift_kick affected rn1"
    have v2: "fiber_view f ?rn2 = set_state next (fiber_view f rn)" "upgrades ?rn2 f" "history f ?rn2 = history f rn"
      using v by (simp_all split: option.split)
    have "transition f next rn = (if has_root f rn
        then fold observe (visibility_observations ?old next visibility @ [FiberStateChanged f ?old next]) ?rn2 else ?rn2)"
      using c False by (simp add: transition_def Let_def)
    with v2 False show ?thesis by simp
  qed
  then show "fiber_view f (transition f next rn) = set_state next (fiber_view f rn)" "upgrades (transition f next rn) f"
    "history f (transition f next rn) = history f rn @ (if ?old \<noteq> next \<and> has_root f rn then [(?old, next)] else [])"
    by blast+
qed

section \<open>Room for publications\<close>

text \<open>The counters of a publication admit \<open>k\<close> more transitions.\<close>

definition publication_room :: "nat \<Rightarrow> state_publication \<Rightarrow> bool" where
  "publication_room k sp \<longleftrightarrow>
     publication_wf sp \<and> unat (sp_sequence sp) + k < 2 ^ 64 \<and> (\<forall>r \<in> set (sp_revisions sp). unat r + k < 2 ^ 64)"

abbreviation room :: "nat \<Rightarrow> fid \<Rightarrow> runtime \<Rightarrow> bool" where
  "room k f rn \<equiv> publication_room k (fb_state (fiber_at rn f))"

lemma publication_room_mono: "publication_room k sp \<Longrightarrow> j \<le> k \<Longrightarrow> publication_room j sp"
  by (fastforce simp: publication_room_def)

lemma checked_succ_room:
  "unat (x :: 64 word) + Suc k < 2 ^ 64 \<Longrightarrow> \<exists>y. checked_succ x = Some y \<and> unat y + k < 2 ^ 64"
proof -
  assume bound: "unat x + Suc k < 2 ^ 64"
  have "unat (- 1 :: 64 word) = 2 ^ 64 - 1" by (simp add: unsigned_minus_1_eq_mask mask_eq_exp_minus_1)
  with bound have "x \<noteq> - 1" by auto
  then have y: "checked_succ x = Some (x + 1)" by (simp add: checked_succ_def)
  from unat_checked_succ [OF this] bound y show ?thesis by simp
qed

lemma publish_room:
  assumes "publication_room (Suc k) sp"
  shows "\<exists>sp'. publication_publish s sp = Some (if sp_current sp = s then None else Some (sp_current sp), sp') \<and>
    sp_current sp' = s \<and> publication_room k sp'"
proof (cases "sp_current sp = s")
  case True
  then show ?thesis using publication_room_mono [OF assms, of k] by (simp add: publication_publish_def)
next
  case False
  have "sp_revisions sp ! publication_index s \<in> set (sp_revisions sp)"
    using assms publication_index_less [of s] by (simp add: publication_room_def publication_wf_def)
  then obtain y z where y: "checked_succ (sp_revisions sp ! publication_index s) = Some y" "unat y + k < 2 ^ 64"
    and z: "checked_succ (sp_sequence sp) = Some z" "unat z + k < 2 ^ 64"
    using assms checked_succ_room unfolding publication_room_def by blast
  have "\<forall>r \<in> set ((sp_revisions sp)[publication_index s := y]). unat r + k < 2 ^ 64"
    using assms y(2) set_update_subset_insert [of "sp_revisions sp" "publication_index s" y]
    by (fastforce simp: publication_room_def)
  with y z False assms show ?thesis
    by (simp add: publication_publish_def publication_room_def publication_wf_def)
qed

lemma set_state_room:
  "publication_room (Suc k) (fb_state x) \<Longrightarrow> current_state (set_state s x) = s \<and> publication_room k (fb_state (set_state s x))"
  using publish_room [of k "fb_state x" s] by (auto simp: set_state_def current_state_def)

lemma set_state_fields [simp]:
  "fb_error (set_state s x) = fb_error x" "fb_spawn (set_state s x) = fb_spawn x" "fb_alive (set_state s x) = fb_alive x"
  "fb_disposing (set_state s x) = fb_disposing x" "fb_replacing (set_state s x) = fb_replacing x"
  "fb_applied (set_state s x) = fb_applied x" "fb_journal (set_state s x) = fb_journal x"
  "fb_creation_pending (set_state s x) = fb_creation_pending x"
  by (simp_all add: set_state_def split: option.split)

lemma transition_fields [simp]:
  assumes "upgrades rn f"
  shows "upgrades (transition f s rn) f"
    and "fb_error (fiber_at (transition f s rn) f) = fb_error (fiber_at rn f)"
    and "fb_spawn (fiber_at (transition f s rn) f) = fb_spawn (fiber_at rn f)"
    and "fb_alive (fiber_at (transition f s rn) f) = fb_alive (fiber_at rn f)"
    and "fb_disposing (fiber_at (transition f s rn) f) = fb_disposing (fiber_at rn f)"
    and "fb_replacing (fiber_at (transition f s rn) f) = fb_replacing (fiber_at rn f)"
    and "fb_applied (fiber_at (transition f s rn) f) = fb_applied (fiber_at rn f)"
    and "fb_journal (fiber_at (transition f s rn) f) = fb_journal (fiber_at rn f)"
    and "fb_creation_pending (fiber_at (transition f s rn) f) = fb_creation_pending (fiber_at rn f)"
proof -
  note v = transition_view(1) [OF assms, of s]
  show "upgrades (transition f s rn) f" by (rule transition_view(2) [OF assms])
  show "fb_error (fiber_at (transition f s rn) f) = fb_error (fiber_at rn f)"
    "fb_spawn (fiber_at (transition f s rn) f) = fb_spawn (fiber_at rn f)"
    "fb_alive (fiber_at (transition f s rn) f) = fb_alive (fiber_at rn f)"
    "fb_disposing (fiber_at (transition f s rn) f) = fb_disposing (fiber_at rn f)"
    "fb_replacing (fiber_at (transition f s rn) f) = fb_replacing (fiber_at rn f)"
    "fb_applied (fiber_at (transition f s rn) f) = fb_applied (fiber_at rn f)"
    "fb_journal (fiber_at (transition f s rn) f) = fb_journal (fiber_at rn f)"
    "fb_creation_pending (fiber_at (transition f s rn) f) = fb_creation_pending (fiber_at rn f)"
    using arg_cong [OF v, of fb_error] arg_cong [OF v, of fb_spawn] arg_cong [OF v, of fb_alive]
      arg_cong [OF v, of fb_disposing] arg_cong [OF v, of fb_replacing] arg_cong [OF v, of fb_applied]
      arg_cong [OF v, of fb_journal] arg_cong [OF v, of fb_creation_pending] by simp_all
qed

lemma transition_room:
  assumes "upgrades rn f" and "room (Suc k) f rn"
  shows "current_state (fiber_at (transition f s rn) f) = s" and "room k f (transition f s rn)"
proof -
  note v = transition_view(1) [OF assms(1), of s]
  show "current_state (fiber_at (transition f s rn) f) = s" "room k f (transition f s rn)"
    using arg_cong [OF v, of fb_state] arg_cong [OF v, of current_state] set_state_room [of k "fiber_view f rn" s] assms(2)
    by simp_all
qed

lemma transition_history:
  "upgrades rn f \<Longrightarrow> history f (transition f s rn) = history f rn @
    (if current_state (fiber_at rn f) \<noteq> s \<and> fb_spawn (fiber_at rn f) \<noteq> None then [(current_state (fiber_at rn f), s)] else [])"
  using transition_view(3) [of rn f s] by (simp add: has_root_def)

section \<open>What happens while user code runs\<close>

text \<open>
  The part of a Fiber only the holder of its settle slot writes.  Registration and manual
  control write the journal, drift the slot counters; the terminal claim of an interrupted
  creation and the handoff of a spawn come without the slot.
\<close>

definition protected :: "fiber \<Rightarrow> fiber" where
  "protected x = x\<lparr>fb_journal := journal_new, fb_slot := slot_new, fb_creation_pending := False, fb_disposing := False\<rparr>"

definition gate_open :: "fid \<Rightarrow> runtime \<Rightarrow> bool" where
  "gate_open f rn \<longleftrightarrow> assert_can_register (fiber_at rn f) = Inr ()"

definition obligations :: "fid \<Rightarrow> runtime \<Rightarrow> token \<Rightarrow> cleanup option" where
  "obligations f rn = map_of (jr_map (fb_journal (fiber_at rn f)))"

definition abides :: "fid \<Rightarrow> runtime \<Rightarrow> runtime \<Rightarrow> bool" where
  "abides f rn rn' \<longleftrightarrow>
     upgrades rn' f \<and> protected (fiber_at rn' f) = protected (fiber_at rn f) \<and>
     (fb_disposing (fiber_at rn f) \<longrightarrow> fb_disposing (fiber_at rn' f)) \<and>
     history f rn' = history f rn \<and>
     (\<not> gate_open f rn \<longrightarrow> map_le (obligations f rn') (obligations f rn))"

lemma protected_fields:
  assumes "protected x = protected y"
  shows "fb_state x = fb_state y" "fb_error x = fb_error y" "fb_spawn x = fb_spawn y" "fb_alive x = fb_alive y"
    "fb_replacing x = fb_replacing y" "fb_applied x = fb_applied y" "current_state x = current_state y"
    "fb_edges x = fb_edges y" "fb_name x = fb_name y" "fb_draining x = fb_draining y"
    "fb_dispose_complete x = fb_dispose_complete y"
proof -
  have "fb_state (protected x) = fb_state (protected y)" "fb_error (protected x) = fb_error (protected y)"
    "fb_spawn (protected x) = fb_spawn (protected y)" "fb_alive (protected x) = fb_alive (protected y)"
    "fb_replacing (protected x) = fb_replacing (protected y)" "fb_applied (protected x) = fb_applied (protected y)"
    "fb_edges (protected x) = fb_edges (protected y)" "fb_name (protected x) = fb_name (protected y)"
    "fb_draining (protected x) = fb_draining (protected y)"
    "fb_dispose_complete (protected x) = fb_dispose_complete (protected y)"
    using assms by simp_all
  then show "fb_state x = fb_state y" "fb_error x = fb_error y" "fb_spawn x = fb_spawn y" "fb_alive x = fb_alive y"
    "fb_replacing x = fb_replacing y" "fb_applied x = fb_applied y" "current_state x = current_state y"
    "fb_edges x = fb_edges y" "fb_name x = fb_name y" "fb_draining x = fb_draining y"
    "fb_dispose_complete x = fb_dispose_complete y"
    by (simp_all add: protected_def current_state_def)
qed

lemma abides_gate: "abides f rn rn' \<Longrightarrow> \<not> gate_open f rn \<Longrightarrow> \<not> gate_open f rn'"
  using protected_fields [of "fiber_at rn' f" "fiber_at rn f"]
  by (auto simp: abides_def gate_open_def assert_can_register_iff)

lemma abides_refl: "upgrades rn f \<Longrightarrow> abides f rn rn"
  by (simp add: abides_def)

lemma abides_trans: "abides f rn rn1 \<Longrightarrow> abides f rn1 rn2 \<Longrightarrow> abides f rn rn2"
  using abides_gate [of f rn rn1] unfolding abides_def by (auto intro: map_le_trans)

lemma abides_heap:
  "upgrades rn f \<Longrightarrow> rn_heap rn' = rn_heap rn \<Longrightarrow> rn_observed rn' = rn_observed rn \<Longrightarrow> abides f rn rn'"
  by (simp add: abides_def upgrades_def fiber_at_def history_def obligations_def)

lemma withdraw_heap [simp]:
  "rn_heap (withdraw_exact k n occ rn) = rn_heap rn" "rn_observed (withdraw_exact k n occ rn) = rn_observed rn"
  by (simp_all add: withdraw_exact_def drop_slot_def split: option.split)

lemma map_le_None: "map_le m m' \<Longrightarrow> m' t = None \<Longrightarrow> m t = None"
  by (cases "m t") (auto simp: map_le_def dom_def)

lemma abides_gone:
  "abides f rn rn' \<Longrightarrow> \<not> gate_open f rn \<Longrightarrow> obligations f rn t = None \<Longrightarrow> obligations f rn' t = None"
  using map_le_None [of "obligations f rn'" "obligations f rn" t] by (simp add: abides_def)

lemma abides_upgrades: "abides f rn rn' \<Longrightarrow> upgrades rn' f"
  by (simp add: abides_def)

lemma abides_fields:
  assumes "abides f rn rn'"
  shows "upgrades rn' f" and "fb_state (fiber_at rn' f) = fb_state (fiber_at rn f)"
    and "fb_error (fiber_at rn' f) = fb_error (fiber_at rn f)" and "fb_spawn (fiber_at rn' f) = fb_spawn (fiber_at rn f)"
    and "fb_alive (fiber_at rn' f) = fb_alive (fiber_at rn f)" and "fb_replacing (fiber_at rn' f) = fb_replacing (fiber_at rn f)"
    and "fb_applied (fiber_at rn' f) = fb_applied (fiber_at rn f)" and "current_state (fiber_at rn' f) = current_state (fiber_at rn f)"
    and "history f rn' = history f rn" and "fb_disposing (fiber_at rn f) \<Longrightarrow> fb_disposing (fiber_at rn' f)"
  using assms protected_fields [of "fiber_at rn' f" "fiber_at rn f"] by (simp_all add: abides_def)

lemma journal_empty: "obligations f rn = Map.empty \<longleftrightarrow> jr_map (fb_journal (fiber_at rn f)) = []"
  by (simp add: obligations_def map_of_eq_empty_iff)

lemma journal_tokens_obligations: "obligations f rn t \<noteq> None \<Longrightarrow> t \<in> set (journal_tokens (fb_journal (fiber_at rn f)))"
  by (simp add: obligations_def map_of_eq_None_iff journal_tokens_def)

lemma abides_draining: "upgrades rn f \<Longrightarrow> history f (update_fiber f (set_draining b) rn) = history f rn \<and>
    obligations f (update_fiber f (set_draining b) rn) = obligations f rn \<and>
    gate_open f (update_fiber f (set_draining b) rn) = gate_open f rn"
  by (simp add: obligations_def gate_open_def update_fiber_same set_draining_def assert_can_register_cases current_state_def)

lemma set_draining_fields [simp]:
  "fb_state (set_draining b x) = fb_state x" "fb_error (set_draining b x) = fb_error x" "fb_spawn (set_draining b x) = fb_spawn x"
  "fb_alive (set_draining b x) = fb_alive x" "fb_disposing (set_draining b x) = fb_disposing x"
  "fb_replacing (set_draining b x) = fb_replacing x" "fb_applied (set_draining b x) = fb_applied x"
  "fb_journal (set_draining b x) = fb_journal x" "current_state (set_draining b x) = current_state x"
  by (simp_all add: set_draining_def current_state_def)

text \<open>Claiming a token removes it for good while the gate is closed.\<close>

lemma claim_token:
  assumes "upgrades rn f"
  shows "abides f rn (update_fiber f (\<lambda>_. snd (remove_disposable t (fiber_at rn f))) rn)"
    and "obligations f (update_fiber f (\<lambda>_. snd (remove_disposable t (fiber_at rn f))) rn) = (obligations f rn)(t := None)"
  using assms
  by (auto simp: abides_def update_fiber_same obligations_def remove_disposable_def journal_remove_def
      protected_def map_le_def)

locale slot_environment =
  fixes env :: lifecycle_env and f :: fid
  assumes apply_abides: "upgrades rn f \<Longrightarrow> abides f rn (snd (le_apply env f plugin cx rn))"
    and cleanup_abides: "upgrades rn f \<Longrightarrow> abides f rn (snd (le_cleanup env f c rn))"
begin

lemma run_claimed_abides: "upgrades rn f \<Longrightarrow> abides f rn (snd (run_claimed env f c rn))"
  by (auto simp: run_claimed_def cleanup_abides abides_heap split: cleanup_run.split)

lemma drain_tokens_abides:
  assumes "upgrades rn f" and "\<not> gate_open f rn" and "drain_tokens env f ts rn = (reports, rn')"
  shows "abides f rn rn' \<and> (\<forall>t \<in> set ts. obligations f rn' t = None)"
  using assms
proof (induction ts arbitrary: rn reports)
  case Nil
  then show ?case by (simp add: abides_refl)
next
  case (Cons t ts)
  let ?fb = "snd (remove_disposable t (fiber_at rn f))"
  let ?rn1 = "update_fiber f (\<lambda>_. ?fb) rn"
  note claim = claim_token [OF Cons.prems(1), of t]
  have up1: "upgrades ?rn1 f" using Cons.prems(1) by simp
  have closed1: "\<not> gate_open f ?rn1" using claim(1) Cons.prems(2) by (rule abides_gate)
  have gone1: "obligations f ?rn1 t = None" using claim(2) by simp
  have "\<exists>rn2 reports2. abides f rn rn2 \<and> obligations f rn2 t = None \<and> drain_tokens env f ts rn2 = (reports2, rn')"
  proof (cases "fst (remove_disposable t (fiber_at rn f))")
    case None
    then have "drain_tokens env f (t # ts) rn = drain_tokens env f ts ?rn1"
      by (simp add: case_prod_beta)
    with Cons.prems(3) claim(1) gone1 show ?thesis by metis
  next
    case (Some c)
    obtain result rn2 where r: "run_claimed env f c ?rn1 = (result, rn2)" by force
    have resp: "abides f ?rn1 rn2" using run_claimed_abides [OF up1, of c] r by simp
    from abides_gone [OF resp closed1 gone1] have gone: "obligations f rn2 t = None" .
    from Some r have "snd (drain_tokens env f (t # ts) rn) = snd (drain_tokens env f ts rn2)"
      by (simp add: case_prod_beta)
    with Cons.prems(3) have "drain_tokens env f ts rn2 = (fst (drain_tokens env f ts rn2), rn')"
      by (simp add: prod_eq_iff)
    with abides_trans [OF claim(1) resp] gone show ?thesis by blast
  qed
  then obtain rn2 reports2 where s: "abides f rn rn2" "obligations f rn2 t = None" "drain_tokens env f ts rn2 = (reports2, rn')"
    by blast
  have up2: "upgrades rn2 f" using s(1) by (rule abides_upgrades)
  have closed: "\<not> gate_open f rn2" using s(1) Cons.prems(2) by (rule abides_gate)
  from Cons.IH [OF up2 closed s(3)] have ih: "abides f rn2 rn'" "\<forall>t \<in> set ts. obligations f rn' t = None" by simp_all
  from abides_gone [OF ih(1) closed s(2)] have "obligations f rn' t = None" .
  with abides_trans [OF s(1) ih(1)] ih(2) show ?case by simp
qed

text \<open>
  A drain behind a closed gate empties the journal, whatever the cleanups do, and moves
  nothing else of the Fiber.
\<close>

lemma drain_effect:
  assumes up: "upgrades rn f" and closed: "\<not> gate_open f rn"
  defines "rn' \<equiv> drain env f rn"
  shows "upgrades rn' f" and "jr_map (fb_journal (fiber_at rn' f)) = []"
    and "fb_state (fiber_at rn' f) = fb_state (fiber_at rn f)"
    and "fb_error (fiber_at rn' f) = fb_error (fiber_at rn f)"
    and "fb_spawn (fiber_at rn' f) = fb_spawn (fiber_at rn f)"
    and "fb_alive (fiber_at rn' f) = fb_alive (fiber_at rn f)"
    and "fb_replacing (fiber_at rn' f) = fb_replacing (fiber_at rn f)"
    and "fb_applied (fiber_at rn' f) = fb_applied (fiber_at rn f)"
    and "current_state (fiber_at rn' f) = current_state (fiber_at rn f)"
    and "history f rn' = history f rn"
    and "fb_disposing (fiber_at rn f) \<Longrightarrow> fb_disposing (fiber_at rn' f)"
proof -
  let ?ts = "rev (journal_tokens (fb_journal (fiber_at rn f)))"
  let ?rn0 = "update_fiber f (set_draining True) rn"
  obtain reports rn1 where d: "drain_tokens env f ?ts ?rn0 = (reports, rn1)" by force
  have rn': "rn' = update_fiber f (set_draining False) rn1" using d by (simp add: rn'_def drain_def Let_def)
  have up0: "upgrades ?rn0 f" using up by simp
  have closed0: "\<not> gate_open f ?rn0" using closed abides_draining [OF up] by simp
  from drain_tokens_abides [OF up0 closed0 d]
  have a: "abides f ?rn0 rn1" and gone: "\<forall>t \<in> set ?ts. obligations f rn1 t = None" by blast+
  note fields = abides_fields [OF a]
  have "obligations f rn1 t = None" for t
  proof (cases "obligations f rn t")
    case None
    with abides_gone [OF a closed0] abides_draining [OF up] show ?thesis by simp
  next
    case (Some c)
    then have "t \<in> set ?ts" using journal_tokens_obligations [of f rn t] by simp
    with gone show ?thesis by blast
  qed
  then have "obligations f rn1 = Map.empty" by blast
  then have empty: "jr_map (fb_journal (fiber_at rn1 f)) = []" by (simp add: journal_empty)
  have at0: "fiber_at ?rn0 f = set_draining True (fiber_at rn f)" using up by (rule update_fiber_same)
  have at1: "fiber_at rn' f = set_draining False (fiber_at rn1 f)" unfolding rn' using fields(1) by (rule update_fiber_same)
  show "upgrades rn' f" using fields(1) by (simp add: rn')
  show "jr_map (fb_journal (fiber_at rn' f)) = []"
    "fb_state (fiber_at rn' f) = fb_state (fiber_at rn f)" "fb_error (fiber_at rn' f) = fb_error (fiber_at rn f)"
    "fb_spawn (fiber_at rn' f) = fb_spawn (fiber_at rn f)" "fb_alive (fiber_at rn' f) = fb_alive (fiber_at rn f)"
    "fb_replacing (fiber_at rn' f) = fb_replacing (fiber_at rn f)" "fb_applied (fiber_at rn' f) = fb_applied (fiber_at rn f)"
    "current_state (fiber_at rn' f) = current_state (fiber_at rn f)"
    "fb_disposing (fiber_at rn f) \<Longrightarrow> fb_disposing (fiber_at rn' f)"
    using fields empty by (simp_all add: at0 at1)
  show "history f rn' = history f rn" using fields(1,9) by (simp add: rn')
qed

end

end
