(* ===== verification/Lifecycle_Properties.thy ===== *)
theory Lifecycle_Properties
  imports Lifecycle_Laws
begin

text \<open>
  The lifecycle of a Fiber under its settle protocol: the paths through the six states, the
  invariant between two passes (\<open>settled\<close>), what one pass and the terminal teardown establish
  from it, and a scripted environment built from the model's own operations.
\<close>

section \<open>The state machine\<close>

fun legal :: "fiber_state \<Rightarrow> fiber_state \<Rightarrow> bool" where
  "legal Pending s = (s \<in> {Loading, Unloading})"
| "legal Loading s = (s \<in> {Active, Unloading})"
| "legal Active s = (s = Unloading)"
| "legal Failed s = (s = Unloading)"
| "legal Unloading s = (s \<in> {Pending, Loading, Failed, Disposed})"
| "legal Disposed s = False"

fun lifecycle_path :: "fiber_state \<Rightarrow> (fiber_state \<times> fiber_state) list \<Rightarrow> fiber_state \<Rightarrow> bool" where
  "lifecycle_path s [] t = (s = t)"
| "lifecycle_path s ((a, b) # h) t = (a = s \<and> legal a b \<and> lifecycle_path b h t)"

lemma lifecycle_path_append:
  "lifecycle_path s (h @ h') t \<longleftrightarrow> (\<exists>m. lifecycle_path s h m \<and> lifecycle_path m h' t)"
  by (induction s h t rule: lifecycle_path.induct) auto

lemma lifecycle_path_snoc: "lifecycle_path s (h @ [(a, b)]) t \<longleftrightarrow> lifecycle_path s h a \<and> legal a b \<and> t = b"
  by (auto simp: lifecycle_path_append)

text \<open>The published transitions form a path from the creation state to the current one.\<close>

definition on_path :: "fid \<Rightarrow> runtime \<Rightarrow> bool" where
  "on_path f rn \<longleftrightarrow> lifecycle_path Pending (history f rn) (current_state (fiber_at rn f))"

definition settled :: "fid \<Rightarrow> runtime \<Rightarrow> bool" where
  "settled f rn \<longleftrightarrow>
     (let x = fiber_at rn f in
      upgrades rn f \<and> fb_spawn x \<noteq> None \<and> on_path f rn \<and>
      current_state x \<in> {Pending, Active, Failed} \<and>
      (fb_error x \<noteq> None \<longleftrightarrow> current_state x = Failed) \<and>
      (current_state x \<noteq> Active \<longrightarrow> jr_map (fb_journal x) = []) \<and>
      (\<not> fb_applied x \<longrightarrow> current_state x = Pending))"

definition no_obligation :: "fid \<Rightarrow> runtime \<Rightarrow> bool" where
  "no_obligation f rn \<longleftrightarrow> jr_map (fb_journal (fiber_at rn f)) = []"

text \<open>What the outcome of an apply leaves on its Fiber.\<close>

definition apply_failure :: "(plugin_failure + unit) completion \<Rightarrow> plugin_failure option" where
  "apply_failure outcome =
     (case outcome of
        Finished (Inr _) \<Rightarrow> None
      | Finished (Inl failure) \<Rightarrow> Some failure
      | Unwound payload \<Rightarrow> Some (plugin_failure_panicked payload))"

definition generation_of :: "(plugin_failure + unit) completion \<Rightarrow> fid \<Rightarrow> runtime \<Rightarrow> bool" where
  "generation_of outcome f rn \<longleftrightarrow>
     fb_error (fiber_at rn f) = apply_failure outcome \<and>
     (if apply_failure outcome = None then current_state (fiber_at rn f) = Active
      else current_state (fiber_at rn f) = Failed \<and> no_obligation f rn)"

text \<open>A generation begins in \<open>Loading\<close> with an empty journal and its replacement mark lifted.\<close>

definition fresh_generation :: "fid \<Rightarrow> runtime \<Rightarrow> bool" where
  "fresh_generation f rn \<longleftrightarrow>
     current_state (fiber_at rn f) = Loading \<and> no_obligation f rn \<and> \<not> fb_replacing (fiber_at rn f)"

section \<open>One settle pass\<close>

lemma gate_closed_state: "current_state (fiber_at rn f) \<notin> {Loading, Active} \<Longrightarrow> \<not> gate_open f rn"
  by (simp add: gate_open_def assert_can_register_iff)

lemma gate_closed_dead: "\<not> fb_alive (fiber_at rn f) \<Longrightarrow> \<not> gate_open f rn"
  by (simp add: gate_open_def assert_can_register_iff)

lemma update_fields [simp]:
  assumes "upgrades rn f"
  shows "fiber_at (update_fiber f (store_error e) rn) f = store_error e (fiber_at rn f)"
    and "fiber_at (update_fiber f (set_replacing b) rn) f = set_replacing b (fiber_at rn f)"
    and "fiber_at (update_fiber f set_applied rn) f = set_applied (fiber_at rn f)"
    and "fiber_at (update_fiber f close_creation rn) f = close_creation (fiber_at rn f)"
    and "fiber_at (update_fiber f mark_dead rn) f = mark_dead (fiber_at rn f)"
    and "fiber_at (update_fiber f mark_terminal rn) f = mark_terminal (fiber_at rn f)"
    and "fiber_at (update_fiber f publish_dispose_complete rn) f = publish_dispose_complete (fiber_at rn f)"
    and "fiber_at (update_fiber f (on_fiber_slot g) rn) f = on_fiber_slot g (fiber_at rn f)"
    and "fiber_at (update_fiber f (\<lambda>_. y) rn) f = y"
  using assms by (simp_all add: update_fiber_same)

lemma update_ops [simp]:
  "fb_state (store_error e x) = fb_state x" "fb_state (set_replacing b x) = fb_state x" "fb_state (set_applied x) = fb_state x"
  "fb_state (close_creation x) = fb_state x" "fb_state (mark_dead x) = fb_state x" "fb_state (mark_terminal x) = fb_state x"
  "fb_state (publish_dispose_complete x) = fb_state x" "fb_state (on_fiber_slot g x) = fb_state x"
  "fb_journal (store_error e x) = fb_journal x" "fb_journal (set_replacing b x) = fb_journal x" "fb_journal (set_applied x) = fb_journal x"
  "fb_journal (close_creation x) = fb_journal x" "fb_journal (mark_dead x) = fb_journal x" "fb_journal (mark_terminal x) = fb_journal x"
  "fb_journal (publish_dispose_complete x) = fb_journal x" "fb_journal (on_fiber_slot g x) = fb_journal x"
  "fb_spawn (store_error e x) = fb_spawn x" "fb_spawn (set_replacing b x) = fb_spawn x" "fb_spawn (set_applied x) = fb_spawn x"
  "fb_spawn (close_creation x) = fb_spawn x" "fb_spawn (mark_dead x) = fb_spawn x" "fb_spawn (mark_terminal x) = fb_spawn x"
  "fb_spawn (publish_dispose_complete x) = fb_spawn x" "fb_spawn (on_fiber_slot g x) = fb_spawn x"
  "fb_alive (store_error e x) = fb_alive x" "fb_alive (set_replacing b x) = fb_alive x" "fb_alive (set_applied x) = fb_alive x"
  "fb_alive (close_creation x) = fb_alive x" "\<not> fb_alive (mark_dead x)" "fb_alive (mark_terminal x) = fb_alive x"
  "fb_alive (publish_dispose_complete x) = fb_alive x" "fb_alive (on_fiber_slot g x) = fb_alive x"
  "fb_error (store_error e x) = e" "fb_error (set_replacing b x) = fb_error x" "fb_error (set_applied x) = fb_error x"
  "fb_error (close_creation x) = fb_error x" "fb_error (mark_dead x) = fb_error x" "fb_error (mark_terminal x) = fb_error x"
  "fb_error (publish_dispose_complete x) = fb_error x" "fb_error (on_fiber_slot g x) = fb_error x"
  "fb_applied (store_error e x) = fb_applied x" "fb_applied (set_replacing b x) = fb_applied x" "fb_applied (set_applied x)"
  "fb_applied (close_creation x) = fb_applied x" "fb_applied (mark_dead x) = fb_applied x" "fb_applied (mark_terminal x) = fb_applied x"
  "fb_applied (publish_dispose_complete x) = fb_applied x" "fb_applied (on_fiber_slot g x) = fb_applied x"
  "fb_replacing (store_error e x) = fb_replacing x" "fb_replacing (set_replacing b x) = b" "fb_replacing (set_applied x) = fb_replacing x"
  "fb_disposing (mark_dead x) = fb_disposing x" "fb_disposing (mark_terminal x)"
  "fb_disposing (on_fiber_slot g x) = fb_disposing x" "fb_disposing (store_error e x) = fb_disposing x"
  "fb_disposing (close_creation x) = fb_disposing x" "fb_disposing (publish_dispose_complete x) = fb_disposing x"
  "current_state (store_error e x) = current_state x" "current_state (set_replacing b x) = current_state x"
  "current_state (set_applied x) = current_state x" "current_state (close_creation x) = current_state x"
  "current_state (mark_dead x) = current_state x" "current_state (mark_terminal x) = current_state x"
  "current_state (publish_dispose_complete x) = current_state x" "current_state (on_fiber_slot g x) = current_state x"
  "fb_dispose_complete (publish_dispose_complete x)"
  by (simp_all add: store_error_def set_replacing_def set_applied_def close_creation_def mark_dead_def mark_terminal_def
      publish_dispose_complete_def on_fiber_slot_def current_state_def)

lemma transition_path:
  assumes "upgrades rn f" and "room (Suc k) f rn" and "fb_spawn (fiber_at rn f) \<noteq> None" and "on_path f rn"
    and "legal (current_state (fiber_at rn f)) s"
  shows "on_path f (transition f s rn)"
proof -
  have "current_state (fiber_at rn f) \<noteq> s" using assms(5) by (cases s) auto
  with assms show ?thesis
    unfolding on_path_def
    by (simp add: transition_history [OF assms(1)] transition_room(1) [OF assms(1,2)] lifecycle_path_snoc)
qed

lemma abides_path: "abides f rn rn' \<Longrightarrow> on_path f rn' = on_path f rn"
  using abides_fields(8,9) [of f rn rn'] by (simp add: on_path_def)

lemma update_path:
  "upgrades rn f \<Longrightarrow> current_state (g (fiber_at rn f)) = current_state (fiber_at rn f) \<Longrightarrow>
   on_path f (update_fiber f g rn) = on_path f rn"
  by (simp add: on_path_def update_fiber_same)

lemma unregister_frame [simp]:
  "upgrades (unregister_edges f rn) g = upgrades rn g" "fiber_at (unregister_edges f rn) g = fiber_at rn g"
  "history g (unregister_edges f rn) = history g rn"
  by (simp_all add: unregister_edges_def upgrades_def fiber_at_def history_def)

lemma release_frame [simp]:
  "upgrades (release_resident f rn) g = upgrades rn g" "fiber_at (release_resident f rn) g = fiber_at rn g"
  "history g (release_resident f rn) = history g rn"
proof -
  let ?rn1 = "rn\<lparr>rn_registry := release_residency f (rn_registry rn)\<rparr>"
  have frame: "upgrades ?rn1 g = upgrades rn g" "fiber_at ?rn1 g = fiber_at rn g" "history g ?rn1 = history g rn"
    by (simp_all add: upgrades_def fiber_at_def history_def)
  show "upgrades (release_resident f rn) g = upgrades rn g" "fiber_at (release_resident f rn) g = fiber_at rn g"
    "history g (release_resident f rn) = history g rn"
    using frame by (simp_all add: release_resident_def Let_def)
qed

context slot_environment
begin

lemma unload_effect:
  assumes "upgrades rn f" and "room (Suc k) f rn"
  defines "rn' \<equiv> drain env f (transition f Unloading rn)"
  shows "upgrades rn' f" and "room k f rn'" and "current_state (fiber_at rn' f) = Unloading"
    and "jr_map (fb_journal (fiber_at rn' f)) = []"
    and "fb_spawn (fiber_at rn' f) = fb_spawn (fiber_at rn f)" and "fb_alive (fiber_at rn' f) = fb_alive (fiber_at rn f)"
    and "fb_error (fiber_at rn' f) = fb_error (fiber_at rn f)" and "fb_applied (fiber_at rn' f) = fb_applied (fiber_at rn f)"
    and "fb_replacing (fiber_at rn' f) = fb_replacing (fiber_at rn f)"
    and "history f rn' = history f rn @
      (if current_state (fiber_at rn f) \<noteq> Unloading \<and> fb_spawn (fiber_at rn f) \<noteq> None
       then [(current_state (fiber_at rn f), Unloading)] else [])"
proof -
  let ?rn1 = "transition f Unloading rn"
  have up: "upgrades ?rn1 f" using assms(1) by simp
  have state: "current_state (fiber_at ?rn1 f) = Unloading" "room k f ?rn1"
    using transition_room [OF assms(1,2), of Unloading] by simp_all
  note d = drain_effect [OF up gate_closed_state, unfolded state(1), simplified]
  show "upgrades rn' f" "room k f rn'" "current_state (fiber_at rn' f) = Unloading"
    "jr_map (fb_journal (fiber_at rn' f)) = []"
    "fb_spawn (fiber_at rn' f) = fb_spawn (fiber_at rn f)" "fb_alive (fiber_at rn' f) = fb_alive (fiber_at rn f)"
    "fb_error (fiber_at rn' f) = fb_error (fiber_at rn f)" "fb_applied (fiber_at rn' f) = fb_applied (fiber_at rn f)"
    "fb_replacing (fiber_at rn' f) = fb_replacing (fiber_at rn f)"
    "history f rn' = history f rn @
      (if current_state (fiber_at rn f) \<noteq> Unloading \<and> fb_spawn (fiber_at rn f) \<noteq> None
       then [(current_state (fiber_at rn f), Unloading)] else [])"
    unfolding rn'_def using d state(2) assms(1) transition_history [OF assms(1), of Unloading] by simp_all
qed

lemma unload_path:
  assumes "upgrades rn f" and "room (Suc k) f rn" and "fb_spawn (fiber_at rn f) \<noteq> None" and "on_path f rn"
    and "legal (current_state (fiber_at rn f)) Unloading"
  shows "on_path f (drain env f (transition f Unloading rn))"
proof -
  let ?rn1 = "transition f Unloading rn"
  have up: "upgrades ?rn1 f" using assms(1) by simp
  have "current_state (fiber_at ?rn1 f) = Unloading" using transition_room [OF assms(1,2)] by simp
  note d = drain_effect(9,10) [OF up gate_closed_state, unfolded this, simplified]
  with \<open>current_state (fiber_at ?rn1 f) = Unloading\<close> transition_path [OF assms] show ?thesis
    by (simp add: on_path_def)
qed

lemma settle_failed_effect:
  fixes failure :: plugin_failure and k :: nat
  assumes "upgrades rn f" and "room (Suc (Suc k)) f rn" and "fb_spawn (fiber_at rn f) \<noteq> None" and "on_path f rn"
    and "current_state (fiber_at rn f) = Loading" and "fb_applied (fiber_at rn f)"
  defines "rn' \<equiv> settle_failed env f failure rn"
  shows "settled f rn'" and "current_state (fiber_at rn' f) = Failed" and "fb_error (fiber_at rn' f) = Some failure"
    and "no_obligation f rn'" and "room k f rn'" and "fb_alive (fiber_at rn' f) = fb_alive (fiber_at rn f)"
    and "fb_replacing (fiber_at rn' f) = fb_replacing (fiber_at rn f)" and "fb_spawn (fiber_at rn' f) = fb_spawn (fiber_at rn f)"
    and "fb_applied (fiber_at rn' f)"
    and "history f rn' = history f rn @ [(Loading, Unloading), (Unloading, Failed)]"
proof -
  let ?rn1 = "drain env f (transition f Unloading rn)"
  let ?rn2 = "update_fiber f (store_error (Some failure)) ?rn1"
  note u = unload_effect [OF assms(1,2)]
  have p: "on_path f ?rn1" using unload_path [OF assms(1-4)] assms(5) by simp
  have up2: "upgrades ?rn2 f" "room (Suc k) f ?rn2" "current_state (fiber_at ?rn2 f) = Unloading" using u(1-3) by simp_all
  have p2: "on_path f ?rn2" using p u(1) by (simp add: update_path)
  have sp2: "fb_spawn (fiber_at ?rn2 f) \<noteq> None" using assms(3) u(1,5) by simp
  have rn': "rn' = transition f Failed ?rn2" by (simp add: rn'_def settle_failed_def Let_def)
  have p3: "on_path f rn'" unfolding rn' by (rule transition_path [OF up2(1,2) sp2 p2]) (simp add: up2(3))
  show state: "current_state (fiber_at rn' f) = Failed" "room k f rn'"
    unfolding rn' using transition_room [OF up2(1,2), of Failed] by simp_all
  show fields: "fb_error (fiber_at rn' f) = Some failure" "no_obligation f rn'"
    "fb_alive (fiber_at rn' f) = fb_alive (fiber_at rn f)"
    "fb_replacing (fiber_at rn' f) = fb_replacing (fiber_at rn f)" "fb_spawn (fiber_at rn' f) = fb_spawn (fiber_at rn f)"
    "fb_applied (fiber_at rn' f)"
    unfolding rn' no_obligation_def using u(1,4-9) up2(1) assms(6) by simp_all
  show "history f rn' = history f rn @ [(Loading, Unloading), (Unloading, Failed)]"
    unfolding rn' using transition_history [OF up2(1), of Failed] up2(3) sp2 u(10) assms(3,5) by simp
  show "settled f rn'"
    using p3 state fields assms(3) up2(1) unfolding settled_def Let_def no_obligation_def rn' by simp
qed

lemma settle_apply_effect:
  fixes plugin :: ident and scope :: ctx and k :: nat
  assumes up: "upgrades rn f" and rm: "room (Suc (Suc (Suc k))) f rn" and sp: "fb_spawn (fiber_at rn f) \<noteq> None"
    and path: "on_path f rn" and old: "current_state (fiber_at rn f) \<in> {Pending, Unloading}" and clean: "no_obligation f rn"
  defines "rnL \<equiv> transition f Loading (update_fiber f (set_replacing False) rn)"
  defines "rn' \<equiv> settle_apply env f plugin scope rn"
  shows "fresh_generation f rnL" and "settled f rn'"
    and "generation_of (fst (le_apply env f plugin (with_fiber f scope) rnL)) f rn'"
    and "room k f rn'" and "fb_alive (fiber_at rn' f) = fb_alive (fiber_at rn f)"
    and "fb_spawn (fiber_at rn' f) = fb_spawn (fiber_at rn f)" and "fb_applied (fiber_at rn' f)"
    and "\<not> fb_replacing (fiber_at rn' f)"
proof -
  let ?rn0 = "update_fiber f (set_replacing False) rn"
  have up0: "upgrades ?rn0 f" "room (Suc (Suc (Suc k))) f ?rn0" "fb_spawn (fiber_at ?rn0 f) \<noteq> None" "on_path f ?rn0"
    using up rm sp path by (simp_all add: update_path)
  have L: "upgrades rnL f" "room (Suc (Suc k)) f rnL" "current_state (fiber_at rnL f) = Loading" "on_path f rnL"
    "fb_spawn (fiber_at rnL f) = fb_spawn (fiber_at rn f)" "fb_alive (fiber_at rnL f) = fb_alive (fiber_at rn f)"
    "\<not> fb_replacing (fiber_at rnL f)"
    unfolding rnL_def using up0(1) transition_room [OF up0(1,2), of Loading] transition_path [OF up0, of Loading] old up
    by auto
  show "fresh_generation f rnL"
    using L(3,7) clean up0(1) up unfolding rnL_def fresh_generation_def no_obligation_def by simp
  obtain outcome rn2 where o: "le_apply env f plugin (with_fiber f scope) rnL = (outcome, rn2)" by force
  have a: "abides f rnL rn2" using apply_abides [OF L(1), of plugin "with_fiber f scope"] o by simp
  note f2 = abides_fields [OF a]
  let ?rn3 = "update_fiber f set_applied rn2"
  have r3: "upgrades ?rn3 f" "room (Suc (Suc k)) f ?rn3" "fb_spawn (fiber_at ?rn3 f) \<noteq> None" "on_path f ?rn3"
    "current_state (fiber_at ?rn3 f) = Loading" "fb_applied (fiber_at ?rn3 f)"
    using f2 L abides_path [OF a] sp by (simp_all add: update_path)
  have f3: "fb_alive (fiber_at ?rn3 f) = fb_alive (fiber_at rn f)" "fb_spawn (fiber_at ?rn3 f) = fb_spawn (fiber_at rn f)"
    "\<not> fb_replacing (fiber_at ?rn3 f)"
    using f2 L by simp_all
  have "settled f rn' \<and> generation_of outcome f rn' \<and> room k f rn' \<and>
    fb_alive (fiber_at rn' f) = fb_alive (fiber_at rn f) \<and> fb_spawn (fiber_at rn' f) = fb_spawn (fiber_at rn f) \<and>
    fb_applied (fiber_at rn' f) \<and> \<not> fb_replacing (fiber_at rn' f)"
  proof (cases "apply_failure outcome")
    case (Some failure)
    then have rn': "rn' = settle_failed env f failure ?rn3"
      unfolding rn'_def settle_apply_def rnL_def [symmetric] Let_def o apply_failure_def
      by (auto split: completion.splits sum.splits)
    from settle_failed_effect [OF r3, of failure] Some f3 show ?thesis by (simp add: rn' generation_of_def)
  next
    case None
    let ?rn4 = "update_fiber f (store_error None) ?rn3"
    have rn': "rn' = transition f Active ?rn4"
      using None unfolding rn'_def settle_apply_def rnL_def [symmetric] Let_def o apply_failure_def
      by (auto split: completion.splits sum.splits)
    have r4: "upgrades ?rn4 f" "room (Suc (Suc k)) f ?rn4" "fb_spawn (fiber_at ?rn4 f) \<noteq> None" "on_path f ?rn4"
      "current_state (fiber_at ?rn4 f) = Loading"
      using r3 by (simp_all add: update_path)
    have "on_path f rn'" unfolding rn' by (rule transition_path [OF r4(1-4)]) (simp add: r4(5))
    moreover have "current_state (fiber_at rn' f) = Active" "room k f rn'"
      unfolding rn' using transition_room [OF r4(1,2), of Active] publication_room_mono [of "Suc k" _ k] by auto
    ultimately show ?thesis
      using r4(1,3) r3(1,6) f3 None f2(1) unfolding settled_def Let_def generation_of_def rn' by simp
  qed
  then show "settled f rn'" "generation_of (fst (le_apply env f plugin (with_fiber f scope) rnL)) f rn'"
    "room k f rn'" "fb_alive (fiber_at rn' f) = fb_alive (fiber_at rn f)"
    "fb_spawn (fiber_at rn' f) = fb_spawn (fiber_at rn f)" "fb_applied (fiber_at rn' f)" "\<not> fb_replacing (fiber_at rn' f)"
    by (simp_all add: o)
qed

lemma settle_once_parked:
  assumes "settled f rn" and "\<not> has_missing target" and "\<not> owns" and "fb_creation_pending (fiber_at rn f)"
    and "\<not> fb_applied (fiber_at rn f)"
  shows "settle_once env f target owns rn = Some rn"
  using assms by (auto simp: settled_def Let_def settle_once_def settle_unload_def)

lemma settle_unload_effect:
  assumes st: "settled f rn" and rm: "room (Suc k) f rn"
  defines "rn1 \<equiv> settle_unload env f rn"
  shows "upgrades rn1 f" and "room k f rn1" and "on_path f rn1" and "no_obligation f rn1"
    and "current_state (fiber_at rn1 f) \<in> {Pending, Unloading}"
    and "fb_spawn (fiber_at rn1 f) = fb_spawn (fiber_at rn f)" and "fb_alive (fiber_at rn1 f) = fb_alive (fiber_at rn f)"
    and "fb_applied (fiber_at rn1 f) = fb_applied (fiber_at rn f)"
    and "current_state (fiber_at rn1 f) = Pending \<Longrightarrow> rn1 = rn"
proof -
  have s: "upgrades rn f" "fb_spawn (fiber_at rn f) \<noteq> None" "on_path f rn"
    "current_state (fiber_at rn f) \<in> {Pending, Active, Failed}"
    "current_state (fiber_at rn f) \<noteq> Active \<longrightarrow> no_obligation f rn"
    using st by (simp_all add: settled_def Let_def no_obligation_def)
  have "upgrades rn1 f \<and> room k f rn1 \<and> on_path f rn1 \<and> no_obligation f rn1 \<and>
    current_state (fiber_at rn1 f) \<in> {Pending, Unloading} \<and> fb_spawn (fiber_at rn1 f) = fb_spawn (fiber_at rn f) \<and>
    fb_alive (fiber_at rn1 f) = fb_alive (fiber_at rn f) \<and> fb_applied (fiber_at rn1 f) = fb_applied (fiber_at rn f) \<and>
    (current_state (fiber_at rn1 f) = Pending \<longrightarrow> rn1 = rn)"
  proof (cases "current_state (fiber_at rn f) = Pending")
    case True
    then have "rn1 = rn" by (simp add: rn1_def settle_unload_def)
    with s True publication_room_mono [OF rm, of k] show ?thesis by simp
  next
    case False
    then have rn1: "rn1 = drain env f (transition f Unloading rn)"
      using s(4) by (auto simp: rn1_def settle_unload_def)
    have "legal (current_state (fiber_at rn f)) Unloading" using False s(4) by auto
    with unload_path [OF s(1) rm s(2,3)] have "on_path f rn1" by (simp add: rn1)
    with unload_effect [OF s(1) rm, folded rn1] show ?thesis by (simp add: no_obligation_def)
  qed
  then show "upgrades rn1 f" "room k f rn1" "on_path f rn1" "no_obligation f rn1"
    "current_state (fiber_at rn1 f) \<in> {Pending, Unloading}" "fb_spawn (fiber_at rn1 f) = fb_spawn (fiber_at rn f)"
    "fb_alive (fiber_at rn1 f) = fb_alive (fiber_at rn f)" "fb_applied (fiber_at rn1 f) = fb_applied (fiber_at rn f)"
    "current_state (fiber_at rn1 f) = Pending \<Longrightarrow> rn1 = rn"
    by blast+
qed

lemma settle_once_missing:
  fixes owns :: bool and k :: nat
  assumes "settled f rn" and "fb_alive (fiber_at rn f)" and "room (Suc (Suc k)) f rn" and "has_missing target"
  shows "\<exists>rn'. settle_once env f target owns rn = Some rn' \<and> settled f rn' \<and> room k f rn' \<and>
    current_state (fiber_at rn' f) = Pending \<and> fb_alive (fiber_at rn' f) \<and>
    fb_spawn (fiber_at rn' f) = fb_spawn (fiber_at rn f)"
proof -
  let ?rn1 = "settle_unload env f rn"
  note u = settle_unload_effect [OF assms(1,3)]
  let ?rn2 = "update_fiber f (store_error None) ?rn1"
  let ?rn' = "transition f Pending ?rn2"
  have run: "settle_once env f target owns rn = Some ?rn'"
    using assms(2,4) by (simp add: settle_once_def is_alive_def Let_def)
  have up2: "upgrades ?rn2 f" "room (Suc k) f ?rn2" "fb_spawn (fiber_at ?rn2 f) \<noteq> None" "on_path f ?rn2"
    using u assms(1) by (simp_all add: update_path settled_def Let_def)
  have "on_path f ?rn'"
  proof (cases "current_state (fiber_at ?rn2 f) = Pending")
    case True
    then have "?rn' = ?rn2" by (simp add: transition_def)
    with up2(4) show ?thesis by simp
  next
    case False
    with u(1,5) have "current_state (fiber_at ?rn2 f) = Unloading" by simp
    with transition_path [OF up2, of Pending] show ?thesis by simp
  qed
  moreover have "current_state (fiber_at ?rn' f) = Pending" "room k f ?rn'"
    using transition_room [OF up2(1,2), of Pending] by simp_all
  ultimately have "settled f ?rn'"
    using up2 u(1,4) unfolding settled_def Let_def no_obligation_def by simp
  with run \<open>current_state (fiber_at ?rn' f) = Pending\<close> \<open>room k f ?rn'\<close> u(1,6,7) assms(2) up2(1) show ?thesis by simp
qed

lemma settle_once_apply:
  fixes owns :: bool and k :: nat
  assumes st: "settled f rn" and alive: "fb_alive (fiber_at rn f)" and rm: "room (Suc (Suc (Suc (Suc k)))) f rn"
    and present: "\<not> has_missing target"
    and turn: "owns \<or> \<not> fb_creation_pending (fiber_at rn f) \<or> fb_applied (fiber_at rn f)"
    and snap: "apply_snapshot (fb_spawn (fiber_at rn f)) = Inr (plugin, scope)"
  shows "\<exists>rn' rnL. settle_once env f target owns rn = Some rn' \<and> settled f rn' \<and> room k f rn' \<and>
    fresh_generation f rnL \<and> generation_of (fst (le_apply env f plugin (with_fiber f scope) rnL)) f rn' \<and>
    fb_alive (fiber_at rn' f) \<and> fb_spawn (fiber_at rn' f) = fb_spawn (fiber_at rn f) \<and> fb_applied (fiber_at rn' f)"
proof -
  let ?rn1 = "settle_unload env f rn"
  note u = settle_unload_effect [OF st rm]
  have "owns \<or> \<not> fb_creation_pending (fiber_at ?rn1 f) \<or> fb_applied (fiber_at ?rn1 f)"
  proof (cases "fb_applied (fiber_at rn f)")
    case False
    then have "current_state (fiber_at rn f) = Pending" using st by (simp add: settled_def Let_def)
    then have "?rn1 = rn" by (simp add: settle_unload_def)
    with turn show ?thesis by simp
  qed (simp add: u(8))
  then have run: "settle_once env f target owns rn = Some (settle_apply env f plugin scope ?rn1)"
    using alive present snap u(6) by (auto simp: settle_once_def is_alive_def Let_def)
  have sp: "fb_spawn (fiber_at ?rn1 f) \<noteq> None" using st u(6) by (simp add: settled_def Let_def)
  note a = settle_apply_effect(1) [OF u(1,2) sp u(3,5,4)] settle_apply_effect(2-8) [OF u(1,2) sp u(3,5,4), of plugin scope]
  from run a u(6,7) alive show ?thesis by auto
qed

lemma teardown_effect:
  assumes up: "upgrades rn f" and rm: "room (Suc (Suc k)) f rn" and sp: "fb_spawn (fiber_at rn f) \<noteq> None"
    and path: "on_path f rn" and open_: "current_state (fiber_at rn f) \<noteq> Disposed"
  defines "rn' \<equiv> teardown_body env f rn"
  shows "upgrades rn' f" and "current_state (fiber_at rn' f) = Disposed" and "\<not> fb_alive (fiber_at rn' f)"
    and "no_obligation f rn'" and "fb_error (fiber_at rn' f) = None" and "on_path f rn'"
    and "fb_spawn (fiber_at rn' f) = fb_spawn (fiber_at rn f)"
    and "fb_disposing (fiber_at rn f) \<Longrightarrow> fb_disposing (fiber_at rn' f)"
proof -
  let ?rn0 = "update_fiber f close_creation rn"
  let ?rn1 = "transition f Unloading ?rn0"
  let ?rn3 = "unregister_edges f (update_fiber f mark_dead (update_fiber f (on_fiber_slot pin_inactive) ?rn1))"
  let ?rn4 = "drain env f ?rn3"
  have b0: "upgrades ?rn0 f" "room (Suc (Suc k)) f ?rn0" "fb_spawn (fiber_at ?rn0 f) \<noteq> None" "on_path f ?rn0"
    "current_state (fiber_at ?rn0 f) = current_state (fiber_at rn f)"
    using up rm sp path by (simp_all add: update_path)
  have s1: "upgrades ?rn1 f" "room (Suc k) f ?rn1" "current_state (fiber_at ?rn1 f) = Unloading"
    "fb_spawn (fiber_at ?rn1 f) \<noteq> None"
    using b0(1,3) transition_room [OF b0(1,2), of Unloading] by simp_all
  have p1: "on_path f ?rn1"
  proof (cases "current_state (fiber_at rn f) = Unloading")
    case True
    then have "?rn1 = ?rn0" using b0(5) by (simp add: transition_def)
    with b0(4) show ?thesis by simp
  next
    case False
    with open_ have "legal (current_state (fiber_at rn f)) Unloading" by (cases "current_state (fiber_at rn f)") simp_all
    with transition_path [OF b0(1-4)] b0(5) show ?thesis by simp
  qed
  have s3: "upgrades ?rn3 f" "current_state (fiber_at ?rn3 f) = Unloading" "\<not> fb_alive (fiber_at ?rn3 f)"
    "fb_spawn (fiber_at ?rn3 f) = fb_spawn (fiber_at ?rn1 f)" "room (Suc k) f ?rn3"
    "fb_disposing (fiber_at ?rn3 f) = fb_disposing (fiber_at rn f)"
    using s1 up by simp_all
  have p3: "on_path f ?rn3"
    using p1 s1(1) by (simp add: on_path_def)
  have closed: "\<not> gate_open f ?rn3" using s3(3) by (rule gate_closed_dead)
  note d = drain_effect [OF s3(1) closed]
  have p4: "on_path f ?rn4" using p3 d(9,10) by (simp add: on_path_def)
  have sp4: "fb_spawn (fiber_at ?rn4 f) = fb_spawn (fiber_at rn f)" using d(5) s3(4) b0(1) up by simp
  then have spn: "fb_spawn (fiber_at ?rn4 f) \<noteq> None" using sp by simp
  have rm4: "room (Suc k) f ?rn4" and u4: "current_state (fiber_at ?rn4 f) = Unloading" using d(3,9) s3(2,5) by simp_all
  let ?rn5 = "transition f Disposed ?rn4"
  have "on_path f ?rn5" using transition_path [OF d(1) rm4 spn p4, of Disposed] u4 by simp
  moreover have "current_state (fiber_at ?rn5 f) = Disposed" using transition_room [OF d(1) rm4] by simp
  moreover have rn': "rn' = update_fiber f (store_error None) ?rn5"
    using open_ b0(5) s1(1,4) unfolding rn'_def teardown_body_def Let_def by (simp add: has_root_def)
  moreover have "upgrades ?rn5 f" using d(1) by simp
  ultimately show "upgrades rn' f" "current_state (fiber_at rn' f) = Disposed" "\<not> fb_alive (fiber_at rn' f)"
    "no_obligation f rn'" "fb_error (fiber_at rn' f) = None" "on_path f rn'"
    "fb_spawn (fiber_at rn' f) = fb_spawn (fiber_at rn f)"
    "fb_disposing (fiber_at rn f) \<Longrightarrow> fb_disposing (fiber_at rn' f)"
    using d(1,2,6,11) s3(3,6) sp4 by (simp_all add: no_obligation_def update_path)
qed

end

end
