(* ===== verification/Lifecycle_Contract.thy ===== *)
theory Lifecycle_Contract
  imports Lifecycle_Properties
begin

text \<open>
  What the lifecycle of a Fiber promises: one settle pass, the whole life under any
  interleaving of passes, replacement marks and foreign activity, and the terminal teardown.
  The contract of user code (\<open>slot_environment\<close>) is discharged for scripts of the model's own
  operations.
\<close>

section \<open>Scripts\<close>

datatype user_act =
    ActEffect ident
  | ActReleaseToken token
  | ActWithdraw realm_key string ident
  | ActDrift "dependency_edge list"

definition run_act :: "fid \<Rightarrow> user_act \<Rightarrow> runtime \<Rightarrow> runtime" where
  "run_act f a rn =
     (case a of
        ActEffect callback \<Rightarrow> update_fiber f (\<lambda>x. snd (effect callback x x)) rn
      | ActReleaseToken t \<Rightarrow> update_fiber f (\<lambda>x. snd (remove_disposable t x)) rn
      | ActWithdraw key name occurrence \<Rightarrow> withdraw_exact key name occurrence rn
      | ActDrift es \<Rightarrow> (case drift_commit es rn of (affected, rn') \<Rightarrow> drift_kick affected rn'))"

definition scripted_env ::
  "(plugin_failure + unit) completion \<Rightarrow> user_act list \<Rightarrow> (effect_failure + unit) completion \<Rightarrow> user_act list \<Rightarrow> lifecycle_env"
where
  "scripted_env outcome acts report cleanup_acts =
     \<lparr>le_apply = (\<lambda>f plugin cx rn. (outcome, fold (run_act f) acts rn)),
      le_cleanup = (\<lambda>f c rn. (report, fold (run_act f) cleanup_acts rn))\<rparr>"

lemma protected_journal [simp]: "protected (x\<lparr>fb_journal := j\<rparr>) = protected x"
  by (simp add: protected_def)

lemma abides_journal:
  assumes "upgrades rn f" and "\<not> gate_open f rn \<Longrightarrow> map_le (map_of (jr_map j)) (obligations f rn)"
  shows "abides f rn (update_fiber f (\<lambda>x. x\<lparr>fb_journal := j\<rparr>) rn)"
  using assms by (simp add: abides_def update_fiber_same obligations_def)

lemma abides_core:
  assumes up: "upgrades rn f" and same: "fiber_view f rn' = fiber_view f rn" "upgrades rn' f" "history f rn' = history f rn"
  shows "abides f rn rn'"
proof -
  have c: "fiber_core (fiber_at rn' f) = fiber_core (fiber_at rn f)" using same(1) by (simp add: fiber_view_def)
  have p: "protected x = (fiber_core x)\<lparr>fb_journal := journal_new, fb_creation_pending := False, fb_disposing := False\<rparr>" for x
    by (simp add: protected_def fiber_core_def)
  have "fb_disposing (fiber_at rn' f) = fb_disposing (fiber_at rn f)"
    "fb_journal (fiber_at rn' f) = fb_journal (fiber_at rn f)"
    using arg_cong [OF c, of fb_disposing] arg_cong [OF c, of fb_journal] by simp_all
  with same c p show ?thesis by (simp add: abides_def obligations_def)
qed

lemma run_act_abides: "upgrades rn f \<Longrightarrow> abides f rn (run_act f a rn)"
proof (cases a)
  case (ActEffect callback)
  assume up: "upgrades rn f"
  let ?x = "fiber_at rn f"
  show ?thesis
  proof (cases "gate_open f rn")
    case True
    let ?j = "snd (journal_push \<lparr>run = UserCleanup callback, async_cleanup = True\<rparr> (fb_journal ?x))"
    have "update_fiber f (\<lambda>x. snd (effect callback x x)) rn = update_fiber f (\<lambda>x. x\<lparr>fb_journal := ?j\<rparr>) rn"
      using up True by (auto simp: update_fiber_def effect_def register_cleanup_eq gate_open_def fiber_at_def upgrades_def)
    with abides_journal [OF up, of ?j] True ActEffect show ?thesis by (simp add: run_act_def)
  next
    case False
    have "update_fiber f (\<lambda>x. snd (effect callback x x)) rn = rn"
      using up False by (auto simp: fun_upd_idem update_fiber_def effect_def register_cleanup_eq gate_open_def fiber_at_def upgrades_def)
    with ActEffect abides_refl [OF up] show ?thesis by (simp add: run_act_def)
  qed
next
  case (ActReleaseToken t)
  assume up: "upgrades rn f"
  have "update_fiber f (\<lambda>x. snd (remove_disposable t x)) rn =
    update_fiber f (\<lambda>_. snd (remove_disposable t (fiber_at rn f))) rn"
    using up by (auto simp: update_fiber_def fiber_at_def upgrades_def)
  with claim_token(1) [OF up, of t] ActReleaseToken show ?thesis by (simp add: run_act_def)
next
  case (ActWithdraw key name occurrence)
  assume "upgrades rn f"
  with ActWithdraw show ?thesis by (simp add: run_act_def abides_heap)
next
  case (ActDrift es)
  assume up: "upgrades rn f"
  obtain affected rn' where d: "drift_commit es rn = (affected, rn')" by force
  from drift_commit_view [OF d up] have "abides f rn (drift_kick affected rn')"
    by (intro abides_core [OF up]) simp_all
  with ActDrift d show ?thesis by (simp add: run_act_def)
qed

lemma run_acts_abides: "upgrades rn f \<Longrightarrow> abides f rn (fold (run_act f) acts rn)"
proof (induction acts arbitrary: rn)
  case Nil
  then show ?case by (simp add: abides_refl)
next
  case (Cons a acts)
  from run_act_abides [OF Cons.prems, of a] have a: "abides f rn (run_act f a rn)" .
  from Cons.IH [OF abides_upgrades [OF a]] abides_trans [OF a] show ?case by simp
qed

interpretation scripted: slot_environment "scripted_env outcome acts report cleanup_acts" f
  for outcome acts report cleanup_acts f
  by unfold_locales (simp_all add: scripted_env_def run_acts_abides)

section \<open>The properties\<close>

definition parked :: "bool \<Rightarrow> fid \<Rightarrow> runtime \<Rightarrow> bool" where
  "parked owns_first_apply f rn \<longleftrightarrow>
     \<not> owns_first_apply \<and> fb_creation_pending (fiber_at rn f) \<and> \<not> fb_applied (fiber_at rn f)"

lemma apply_snapshot_installed: "s \<noteq> None \<Longrightarrow> \<exists>plugin scope. apply_snapshot s = Inr (plugin, scope)"
  by (auto simp: apply_snapshot_def)

lemma room_numerals: "room 5 f rn \<longleftrightarrow> room (Suc (Suc (Suc (Suc (Suc 0))))) f rn"
  "room 4 f rn \<longleftrightarrow> room (Suc (Suc (Suc (Suc 0)))) f rn" "room 2 f rn \<longleftrightarrow> room (Suc (Suc 0)) f rn"
  by (simp_all add: numeral_eq_Suc)

lemma settle_pass:
  assumes "slot_environment env f" and "settled f rn" and "fb_alive (fiber_at rn f)" and "room 4 f rn"
  shows "\<exists>rn'. settle_once env f target owns rn = Some rn' \<and> settled f rn' \<and> fb_alive (fiber_at rn' f) \<and>
    (if has_missing target then current_state (fiber_at rn' f) = Pending
     else if parked owns f rn then rn' = rn
     else \<exists>plugin scope rnL. apply_snapshot (fb_spawn (fiber_at rn f)) = Inr (plugin, scope) \<and>
       fresh_generation f rnL \<and>
       generation_of (fst (le_apply env f plugin (with_fiber f scope) rnL)) f rn')"
proof -
  note rm = assms(4) [unfolded room_numerals]
  obtain plugin scope where snap: "apply_snapshot (fb_spawn (fiber_at rn f)) = Inr (plugin, scope)"
    using apply_snapshot_installed [of "fb_spawn (fiber_at rn f)"] assms(2) unfolding settled_def Let_def by blast
  consider (missing) "has_missing target" | (parked) "\<not> has_missing target" "parked owns f rn"
    | (turn) "\<not> has_missing target" "\<not> parked owns f rn" by blast
  then show ?thesis
  proof cases
    case missing
    with slot_environment.settle_once_missing [OF assms(1-3) rm missing, of owns] show ?thesis by auto
  next
    case parked
    have "settle_once env f target owns rn = Some rn"
      using slot_environment.settle_once_parked [OF assms(1,2) parked(1), of owns] parked(2) unfolding parked_def by blast
    with parked assms show ?thesis by simp
  next
    case turn
    then have "owns \<or> \<not> fb_creation_pending (fiber_at rn f) \<or> fb_applied (fiber_at rn f)" by (simp add: parked_def)
    from slot_environment.settle_once_apply [OF assms(1-3) rm turn(1) this snap] turn snap show ?thesis by auto
  qed
qed

text \<open>
  C6: A settle pass always ends in a settled state, whatever user code does behind the slot.
  With a dependency missing it parks the Fiber in \<open>Pending\<close>; a convergence pass that meets an
  untouched creation changes nothing; otherwise the apply of the installed Plugin runs exactly
  at the start of a fresh generation, after the old one was drained, and its outcome decides
  the state: \<open>Active\<close> with no error, or \<open>Failed\<close> with that error and every obligation of the
  generation rolled back.
\<close>

theorem settle_generation:
  assumes "slot_environment env f" and "settled f rn" and "fb_alive (fiber_at rn f)" and "room 4 f rn"
  shows "\<exists>rn'. settle_once env f target owns rn = Some rn' \<and> settled f rn' \<and> fb_alive (fiber_at rn' f) \<and>
    (if has_missing target then current_state (fiber_at rn' f) = Pending
     else if parked owns f rn then rn' = rn
     else \<exists>plugin scope rnL. apply_snapshot (fb_spawn (fiber_at rn f)) = Inr (plugin, scope) \<and>
       fresh_generation f rnL \<and>
       generation_of (fst (le_apply env f plugin (with_fiber f scope) rnL)) f rn')"
  by (rule settle_pass [OF assms])

lemma claim_release_claims [simp]: "rg_claims (claim_release f g r) = rg_claims r"
  by (simp add: claim_release_def Let_def split: option.split prod.split)

lemma release_unlinks: "map_of (rg_claims (release_residency f r)) f = None"
  by (simp add: release_residency_def split: option.split)

definition disposed_for_good :: "fid \<Rightarrow> runtime \<Rightarrow> bool" where
  "disposed_for_good f rn \<longleftrightarrow>
     current_state (fiber_at rn f) = Disposed \<and> \<not> fb_alive (fiber_at rn f) \<and> no_obligation f rn \<and>
     fb_error (fiber_at rn f) = None \<and> assert_can_register (fiber_at rn f) = Inl GenerationClosed"

lemma release_resident_claims:
  "map_of (rg_claims (rn_registry (release_resident f rn))) f = None"
  by (simp add: release_resident_def Let_def observe_def release_unlinks)

text \<open>What every ending of a Fiber does after its terminal mark.\<close>

lemma ending_effect:
  assumes env: "slot_environment env f" and "upgrades rn f" and "room 2 f rn" and "fb_spawn (fiber_at rn f) \<noteq> None"
    and "on_path f rn" and "current_state (fiber_at rn f) \<noteq> Disposed"
    and keep: "\<And>rn. upgrades rn f \<Longrightarrow> fiber_view f (slot_update rn) = fiber_view f rn \<and> upgrades (slot_update rn) f \<and> history f (slot_update rn) = history f rn"
  defines "rn' \<equiv> update_fiber f publish_dispose_complete (release_resident f (slot_update (teardown_body env f rn)))"
  shows "disposed_for_good f rn'" and "on_path f rn'" and "fb_dispose_complete (fiber_at rn' f)"
    and "map_of (rg_claims (rn_registry rn')) f = None" and "upgrades rn' f"
    and "fb_spawn (fiber_at rn' f) = fb_spawn (fiber_at rn f)"
proof -
  note t = slot_environment.teardown_effect [OF assms(1,2) assms(3) [unfolded room_numerals] assms(4-6)]
  let ?rn1 = "slot_update (teardown_body env f rn)"
  note k = keep [OF t(1)]
  have view: "fiber_view f ?rn1 = fiber_view f (teardown_body env f rn)" using k by blast
  have same: "current_state (fiber_at ?rn1 f) = Disposed" "\<not> fb_alive (fiber_at ?rn1 f)" "no_obligation f ?rn1"
    "fb_error (fiber_at ?rn1 f) = None" "fb_spawn (fiber_at ?rn1 f) = fb_spawn (fiber_at rn f)"
    using t(2-5,7) arg_cong [OF view, of current_state] arg_cong [OF view, of fb_alive]
      arg_cong [OF view, of fb_journal] arg_cong [OF view, of fb_error] arg_cong [OF view, of fb_spawn]
    by (simp_all add: no_obligation_def)
  have path: "on_path f ?rn1" using t(2,6) k same(1) by (simp add: on_path_def)
  show "upgrades rn' f" unfolding rn'_def using k by simp
  show "map_of (rg_claims (rn_registry rn')) f = None"
    unfolding rn'_def using release_resident_claims by (simp add: update_fiber_def)
  show "disposed_for_good f rn'" "on_path f rn'" "fb_dispose_complete (fiber_at rn' f)"
    "fb_spawn (fiber_at rn' f) = fb_spawn (fiber_at rn f)"
    unfolding rn'_def disposed_for_good_def no_obligation_def
    using same path k by (simp_all add: update_path on_path_def assert_can_register_cases no_obligation_def)
qed

text \<open>
  C8: The terminal transaction ends a Fiber for good, from every state of its life and whatever
  its cleanups do: it is \<open>Disposed\<close>, dead, with no obligation, no parked failure and no
  residency, its completion barrier is published, no later registration is admitted, a later
  settle pass does nothing, and a later disposer finds the work done.
\<close>

theorem disposal_ends_fiber:
  assumes "slot_environment env f" and "upgrades rn f" and "room 2 f rn" and "fb_spawn (fiber_at rn f) \<noteq> None"
    and "on_path f rn" and "current_state (fiber_at rn f) \<noteq> Disposed" and "\<not> fb_disposing (fiber_at rn f)"
    and "\<not> fb_dispose_complete (fiber_at rn f)"
  shows "\<exists>rn'. dispose_claimed env f rn = (True, rn') \<and> disposed_for_good f rn' \<and> on_path f rn' \<and>
    map_of (rg_claims (rn_registry rn')) f = None \<and> fb_dispose_complete (fiber_at rn' f) \<and>
    settle_once env f target owns rn' = Some rn' \<and> fst (dispose_claimed env f rn') = False"
proof -
  let ?rn0 = "update_fiber f (\<lambda>_. mark_terminal (fiber_at rn f)) rn"
  let ?slot = "update_fiber f (on_fiber_slot abandon)"
  let ?rn' = "update_fiber f publish_dispose_complete (release_resident f (?slot (teardown_body env f ?rn0)))"
  have "claim_terminal (fiber_at rn f) = (False, mark_terminal (fiber_at rn f))"
    using assms(7) by (simp add: claim_terminal_def mark_terminal_def)
  then have run: "dispose_claimed env f rn = (True, ?rn')"
    using assms(8) by (simp add: dispose_claimed_def complete_claimed_dispose_def)
  have b: "upgrades ?rn0 f" "room 2 f ?rn0" "fb_spawn (fiber_at ?rn0 f) \<noteq> None" "on_path f ?rn0"
    "current_state (fiber_at ?rn0 f) \<noteq> Disposed"
    using assms(2-6) by (simp_all add: update_path)
  note e = ending_effect [OF assms(1) b, of ?slot, simplified]
  from e(1) have "\<not> fb_alive (fiber_at ?rn' f)" by (simp add: disposed_for_good_def)
  with run e show ?thesis by (simp add: settle_once_def is_alive_def dispose_claimed_def)
qed

section \<open>The whole life\<close>

inductive life_step :: "lifecycle_env \<Rightarrow> fid \<Rightarrow> runtime \<Rightarrow> runtime \<Rightarrow> bool" for env f where
  life_pass: "settle_once env f target owns rn = Some rn' \<Longrightarrow> room 4 f rn \<Longrightarrow> life_step env f rn rn'"
| life_foreign: "abides f rn rn' \<Longrightarrow> life_step env f rn rn'"
| life_replace: "life_step env f rn (update_fiber f mark_replacing rn)"
| life_dispose: "dispose_claimed env f rn = (owner, rn') \<Longrightarrow> room 2 f rn \<Longrightarrow> life_step env f rn rn'"

text \<open>Between two steps a Fiber is settled and open, or ended.\<close>

definition life_inv :: "fid \<Rightarrow> runtime \<Rightarrow> bool" where
  "life_inv f rn \<longleftrightarrow>
     upgrades rn f \<and> on_path f rn \<and> fb_spawn (fiber_at rn f) \<noteq> None \<and>
     (if fb_alive (fiber_at rn f) then settled f rn else disposed_for_good f rn)"

lemma settled_abides:
  assumes a: "abides f rn rn'" and s: "settled f rn"
  shows "settled f rn'"
proof -
  note fl = abides_fields [OF a]
  have "jr_map (fb_journal (fiber_at rn' f)) = []" if "current_state (fiber_at rn f) \<noteq> Active"
  proof -
    have st: "current_state (fiber_at rn f) \<notin> {Loading, Active}" and e: "jr_map (fb_journal (fiber_at rn f)) = []"
      using s that by (auto simp: settled_def Let_def)
    have "obligations f rn t = None" for t using e by (simp add: obligations_def)
    then have "obligations f rn' t = None" for t by (rule abides_gone [OF a gate_closed_state [OF st]])
    then have "obligations f rn' = Map.empty" by blast
    then show ?thesis by (simp add: journal_empty)
  qed
  with fl abides_path [OF a] s show ?thesis by (simp add: settled_def Let_def)
qed

lemma disposed_abides:
  assumes a: "abides f rn rn'" and d: "disposed_for_good f rn"
  shows "disposed_for_good f rn'"
proof -
  note fl = abides_fields [OF a]
  have dead: "\<not> fb_alive (fiber_at rn f)" "jr_map (fb_journal (fiber_at rn f)) = []"
    using d by (simp_all add: disposed_for_good_def no_obligation_def)
  have "obligations f rn t = None" for t using dead(2) by (simp add: obligations_def)
  then have "obligations f rn' t = None" for t by (rule abides_gone [OF a gate_closed_dead [OF dead(1)]])
  then have "obligations f rn' = Map.empty" by blast
  then have "no_obligation f rn'" by (simp add: journal_empty no_obligation_def)
  with fl d show ?thesis by (simp add: disposed_for_good_def assert_can_register_cases)
qed

lemma mark_replacing_fields [simp]:
  "fb_state (mark_replacing x) = fb_state x" "fb_journal (mark_replacing x) = fb_journal x" "fb_spawn (mark_replacing x) = fb_spawn x"
  "fb_alive (mark_replacing x) = fb_alive x" "fb_error (mark_replacing x) = fb_error x" "fb_applied (mark_replacing x) = fb_applied x"
  "current_state (mark_replacing x) = current_state x"
  by (simp_all add: mark_replacing_def current_state_def)

lemma life_keep:
  assumes up: "upgrades rn f" and inv: "life_inv f rn"
    and same: "fb_state (g (fiber_at rn f)) = fb_state (fiber_at rn f)" "fb_journal (g (fiber_at rn f)) = fb_journal (fiber_at rn f)"
      "fb_spawn (g (fiber_at rn f)) = fb_spawn (fiber_at rn f)" "fb_alive (g (fiber_at rn f)) = fb_alive (fiber_at rn f)"
      "fb_error (g (fiber_at rn f)) = fb_error (fiber_at rn f)" "fb_applied (g (fiber_at rn f)) = fb_applied (fiber_at rn f)"
  shows "life_inv f (update_fiber f g rn)"
proof -
  have st: "current_state (g (fiber_at rn f)) = current_state (fiber_at rn f)" using same(1) by (simp add: current_state_def)
  have "assert_can_register (g (fiber_at rn f)) = Inl GenerationClosed" if "\<not> fb_alive (fiber_at rn f)"
    using that same(4) by (simp add: assert_can_register_cases)
  with inv same st up show ?thesis
    by (cases "fb_alive (fiber_at rn f)")
      (simp_all add: life_inv_def settled_def disposed_for_good_def no_obligation_def Let_def update_fiber_same update_path)
qed

lemma release_life: "life_inv f rn \<Longrightarrow> life_inv f (release_resident f rn)"
  by (cases "fb_alive (fiber_at rn f)")
    (auto simp: life_inv_def settled_def disposed_for_good_def no_obligation_def on_path_def Let_def)

lemma dispose_inv:
  assumes env: "slot_environment env f" and inv: "life_inv f rn" and rm: "room 2 f rn"
    and d: "dispose_claimed env f rn = (owner, rn')"
  shows "life_inv f rn'"
proof -
  have up: "upgrades rn f" using inv by (simp add: life_inv_def)
  have slot: "life_inv f (update_fiber f (on_fiber_slot abandon) rn)" by (rule life_keep [OF up inv]) simp_all
  let ?rn0 = "update_fiber f (\<lambda>_. mark_terminal (fiber_at rn f)) rn"
  consider (skip) "rn' = update_fiber f (on_fiber_slot abandon) rn" | (own) "rn' = complete_claimed_dispose env f ?rn0"
    using d by (auto simp: dispose_claimed_def claim_terminal_def mark_terminal_def split: if_splits bool.splits)
  then show ?thesis
  proof cases
    case skip
    with slot show ?thesis by simp
  next
    case own
    have inv0: "life_inv f ?rn0" by (rule life_keep [OF up inv]) simp_all
    have up0: "upgrades ?rn0 f" using up by simp
    show ?thesis
    proof (cases "fb_alive (fiber_at rn f)")
      case True
      with inv have st: "settled f rn" by (simp add: life_inv_def)
      have b: "room 2 f ?rn0" "fb_spawn (fiber_at ?rn0 f) \<noteq> None" "on_path f ?rn0" "current_state (fiber_at ?rn0 f) \<noteq> Disposed"
        using rm st up by (auto simp: settled_def Let_def update_path)
      note e = ending_effect [OF env up0 b, of "update_fiber f (on_fiber_slot abandon)", simplified]
      show ?thesis
        unfolding own complete_claimed_dispose_def life_inv_def
        using e b(2) by (auto simp: disposed_for_good_def)
    next
      case False
      with inv have "current_state (fiber_at ?rn0 f) = Disposed"
        using up by (simp add: life_inv_def disposed_for_good_def)
      then have body: "teardown_body env f ?rn0 = update_fiber f close_creation ?rn0"
        using up by (simp add: teardown_body_def Let_def)
      let ?rn1 = "update_fiber f close_creation ?rn0"
      have i1: "life_inv f ?rn1" by (rule life_keep [OF up0 inv0]) (use up in simp_all)
      have up1: "upgrades ?rn1 f" using up by simp
      let ?rn2 = "update_fiber f (on_fiber_slot abandon) ?rn1"
      have "life_inv f ?rn2" by (rule life_keep [OF up1 i1]) (use up in simp_all)
      then have i3: "life_inv f (release_resident f ?rn2)" by (rule release_life)
      then have up3: "upgrades (release_resident f ?rn2) f" by (simp add: life_inv_def)
      show ?thesis
        unfolding own complete_claimed_dispose_def body by (rule life_keep [OF up3 i3]) simp_all
    qed
  qed
qed

lemma life_step_inv:
  assumes env: "slot_environment env f" and step: "life_step env f rn rn'" and inv: "life_inv f rn"
  shows "life_inv f rn'"
  using step
proof cases
  case (life_pass target owns)
  show ?thesis
  proof (cases "fb_alive (fiber_at rn f)")
    case True
    with inv have "settled f rn" by (simp add: life_inv_def)
    from settle_pass [OF env this True life_pass(2), of target owns] life_pass(1) show ?thesis
      by (auto simp: life_inv_def settled_def Let_def)
  next
    case False
    with life_pass(1) inv show ?thesis by (simp add: settle_once_def is_alive_def)
  qed
next
  case life_foreign
  with inv abides_fields [OF life_foreign] abides_path [OF life_foreign] settled_abides disposed_abides
  show ?thesis by (auto simp: life_inv_def)
next
  case life_replace
  from inv have "upgrades rn f" by (simp add: life_inv_def)
  from life_keep [OF this inv, of mark_replacing] life_replace show ?thesis by simp
next
  case (life_dispose owner)
  show ?thesis by (rule dispose_inv [OF env inv life_dispose(2,1)])
qed

lemma lifecycle_path_legal: "lifecycle_path s h t \<Longrightarrow> (a, b) \<in> set h \<Longrightarrow> legal a b"
  by (induction s h t rule: lifecycle_path.induct) auto

lemma life_steps_inv:
  assumes "slot_environment env f" and "(life_step env f)\<^sup>*\<^sup>* rn0 rn" and "life_inv f rn0"
  shows "life_inv f rn"
  using assms(2,3)
proof (induction rule: rtranclp_induct)
  case (step rn1 rn2)
  with life_step_inv [OF assms(1) step.hyps(2)] show ?case by blast
qed

text \<open>A Fiber as the spawn transaction hands it to its first pass.\<close>

definition newborn :: "fid \<Rightarrow> runtime \<Rightarrow> bool" where
  "newborn f rn \<longleftrightarrow>
     upgrades rn f \<and> fb_spawn (fiber_at rn f) \<noteq> None \<and> fb_alive (fiber_at rn f) \<and> history f rn = [] \<and>
     current_state (fiber_at rn f) = Pending \<and> fb_error (fiber_at rn f) = None \<and> no_obligation f rn"

lemma newborn_settled: "newborn f rn \<Longrightarrow> settled f rn"
  by (simp add: newborn_def settled_def Let_def on_path_def no_obligation_def)

lemma newborn_life: "newborn f rn \<Longrightarrow> life_inv f rn"
  using newborn_settled [of f rn] by (simp add: life_inv_def newborn_def settled_def Let_def)

text \<open>
  C7: The whole life of a Fiber keeps to its state machine.  From its creation on, under any
  sequence of settle passes, replacement marks, disposals and activity of other tasks, every
  published transition is a legal step and together they lead from \<open>Pending\<close> to the current
  state; at every point in between the Fiber is settled while it lives, and once dead it is
  \<open>Disposed\<close> with nothing left to clean up.
\<close>

theorem fiber_life_invariant:
  assumes "slot_environment env f" and "(life_step env f)\<^sup>*\<^sup>* rn0 rn" and "newborn f rn0"
  shows "lifecycle_path Pending (history f rn) (current_state (fiber_at rn f)) \<and>
    (\<forall>(a, b) \<in> set (history f rn). legal a b \<and> a \<noteq> Disposed) \<and>
    (if fb_alive (fiber_at rn f) then settled f rn else disposed_for_good f rn)"
proof -
  have inv: "life_inv f rn" using life_steps_inv [OF assms(1,2) newborn_life [OF assms(3)]] .
  then have path: "lifecycle_path Pending (history f rn) (current_state (fiber_at rn f))"
    by (simp add: life_inv_def on_path_def)
  have "legal a b \<and> a \<noteq> Disposed" if "(a, b) \<in> set (history f rn)" for a b
    using lifecycle_path_legal [OF path that] by auto
  with path inv show ?thesis by (auto simp: life_inv_def)
qed

section \<open>A concrete life\<close>

definition newborn_fiber :: fiber where
  "newborn_fiber =
     (fiber_new_with_edges ''app'' [])\<lparr>fb_spawn := Some \<lparr>st_plugin = 7, st_name = ''app'', st_inject = [], st_scope = demo_ctx,
        st_plugin_key = TypedKey 5, st_spawning_ctx = demo_ctx, st_effective_input = 8\<rparr>,
      fb_creation_pending := True\<rparr>"

definition newborn_runtime :: runtime where
  "newborn_runtime =
     demo_runtime\<lparr>rn_heap := (rn_heap demo_runtime)(2 := Some newborn_fiber), rn_next := 3,
       rn_registry := the (attach_fiber (TypedKey 5) 2 registry_new)\<rparr>"

abbreviation demo_env :: lifecycle_env where
  "demo_env \<equiv> scripted_env (Finished (Inr ())) [ActEffect 4] (Finished (Inr ())) []"

lemma newborn_fields:
  "fiber_at newborn_runtime 2 = newborn_fiber" "upgrades newborn_runtime 2" "fb_alive newborn_fiber"
  "current_state newborn_fiber = Pending" "fb_spawn newborn_fiber \<noteq> None" "fb_error newborn_fiber = None"
  "jr_map (fb_journal newborn_fiber) = []" "history 2 newborn_runtime = []" "\<not> fb_disposing newborn_fiber"
  "\<not> fb_dispose_complete newborn_fiber" "fb_state newborn_fiber = publication_new Pending"
  by (simp_all add: newborn_runtime_def demo_runtime_def newborn_fiber_def fiber_at_def upgrades_def current_state_def
      history_def fiber_new_with_edges_def publication_new_def journal_new_def)

lemma newborn_demo: "newborn 2 newborn_runtime"
  by (simp add: newborn_def newborn_fields no_obligation_def)

lemma newborn_room: "room 4 2 newborn_runtime" "room 2 2 newborn_runtime"
proof -
  have "set (sp_revisions (publication_new Pending)) \<subseteq> {0, 1}"
    using set_update_subset_insert [of "replicate 6 (0 :: u64)" 2 1] by (auto simp: publication_new_def)
  then have "\<forall>r \<in> set (sp_revisions (publication_new Pending)). unat r \<le> 1" by auto
  then have "publication_room 4 (publication_new Pending)"
    unfolding publication_room_def by (auto simp: publication_new_def publication_wf_def)
  then show "room 4 2 newborn_runtime" "room 2 2 newborn_runtime"
    using publication_room_mono [of 4 _ 2] by (simp_all add: newborn_fields)
qed

lemma demo_slot: "slot_environment demo_env 2"
  by (rule scripted.slot_environment_axioms)

theorem settle_generation_witness:
  "\<exists>rn'. settle_once demo_env 2 \<lparr>tg_input = 8, tg_assignments = []\<rparr> True newborn_runtime = Some rn' \<and>
    current_state (fiber_at rn' 2) = Active"
proof -
  have present: "\<not> has_missing \<lparr>tg_input = 8, tg_assignments = []\<rparr>" by (simp add: has_missing_def)
  have "\<not> parked True 2 newborn_runtime" by (simp add: parked_def)
  with present settle_generation [OF demo_slot newborn_settled [OF newborn_demo] _ newborn_room(1),
      of "\<lparr>tg_input = 8, tg_assignments = []\<rparr>" True]
  show ?thesis by (auto simp: newborn_fields generation_of_def scripted_env_def apply_failure_def)
qed

theorem disposal_ends_fiber_witness:
  "\<exists>rn'. dispose_claimed demo_env 2 newborn_runtime = (True, rn') \<and> disposed_for_good 2 rn'"
proof -
  have "on_path 2 newborn_runtime" using newborn_settled [OF newborn_demo] by (simp add: settled_def Let_def)
  from disposal_ends_fiber [OF demo_slot newborn_fields(2) newborn_room(2) _ this] show ?thesis
    by (simp add: newborn_fields) metis
qed

theorem fiber_life_invariant_witness:
  "disposed_for_good 2 (snd (dispose_claimed demo_env 2 newborn_runtime)) \<and>
   lifecycle_path Pending (history 2 (snd (dispose_claimed demo_env 2 newborn_runtime))) Disposed"
proof -
  let ?rn = "snd (dispose_claimed demo_env 2 newborn_runtime)"
  have "life_step demo_env 2 newborn_runtime ?rn"
    by (rule life_dispose [OF _ newborn_room(2)]) (rule prod.collapse [symmetric])
  then have "(life_step demo_env 2)\<^sup>*\<^sup>* newborn_runtime ?rn" by simp
  note inv = fiber_life_invariant [OF demo_slot this newborn_demo]
  have "\<not> fb_alive (fiber_at ?rn 2)" by code_simp
  with inv have "disposed_for_good 2 ?rn" by simp
  with inv show ?thesis by (simp add: disposed_for_good_def)
qed

end
