(* ===== verification/Passes.thy ===== *)
theory Passes
  imports Lifecycle_Contract Settle_Ctx Event_Store
begin

text \<open>
  The passes that drive a Fiber on the Runtime (\<open>fiber/inertia.rs\<close>), one caller's view of
  them: the claim, the guarded release, the initial, convergence, restart and update passes,
  and the handle operations of \<open>fiber/mod.rs\<close> that run them.

  Everything other tasks do is a schedule: a list of functions on the Runtime, the next of
  which runs at every point where another task can get in between (an await, or the gap
  between two atomic accesses that the code rechecks).  When it is used up nobody else acts.
  What user code does while a settle awaits it is part of \<open>lifecycle_env\<close>.  The interleaving
  of several holders and kicks at single accesses is the subject of the settle protocol.
\<close>

type_synonym schedule = "(runtime \<Rightarrow> runtime) list"
type_synonym world = "schedule \<times> runtime"

text \<open>
  Why a run gives no answer: the caller still waits when the schedule ends, a loop was not
  done within the given number of rounds, or the code panics.
\<close>

datatype pass_stop = StillWaiting | OutOfRounds | PassPanic

type_synonym 'a pass_run = "pass_stop + 'a \<times> world"

fun interfere :: "world \<Rightarrow> world" where
  "interfere ([], rn) = ([], rn)"
| "interfere (g # gs, rn) = (gs, g rn)"

definition slot_of :: "fid \<Rightarrow> runtime \<Rightarrow> inertia_slot" where
  "slot_of f rn = fb_slot (fiber_at rn f)"

abbreviation put_slot :: "fid \<Rightarrow> (inertia_slot \<Rightarrow> inertia_slot) \<Rightarrow> runtime \<Rightarrow> runtime" where
  "put_slot f g rn \<equiv> update_fiber f (on_fiber_slot g) rn"

section \<open>Claim and release\<close>

fun claim_loop :: "fid \<Rightarrow> schedule \<Rightarrow> runtime \<Rightarrow> unit pass_run" where
  "claim_loop f sch rn =
     (case try_claim (slot_of f rn) of
        (True, sl) \<Rightarrow> Inr ((), sch, put_slot f (\<lambda>_. sl) rn)
      | (False, _) \<Rightarrow>
          (case sch of [] \<Rightarrow> Inl StillWaiting | g # gs \<Rightarrow> claim_loop f gs (g rn)))"

definition store_inertia :: "u64 \<Rightarrow> inertia_slot \<Rightarrow> inertia_slot" where
  "store_inertia w sl = sl\<lparr>sl_inertia := w\<rparr>"

definition store_settled :: "u64 \<Rightarrow> inertia_slot \<Rightarrow> inertia_slot" where
  "store_settled r sl = sl\<lparr>sl_settled := r\<rparr>"

definition recheck_revision :: "fid \<Rightarrow> runtime \<Rightarrow> u64" where
  "recheck_revision f rn = sl_committed (slot_of f rn)"

text \<open>The caller's \<open>Arc\<close> keeps the Fiber allocated; a handle that does not upgrade is no input.\<close>

function exit_recheck :: "fid \<Rightarrow> semantic_target \<Rightarrow> u64 \<Rightarrow> world \<Rightarrow> bool pass_run" where
  "exit_recheck f aim revision (sch, rn) =
     (if \<not> upgrades rn f then Inl PassPanic
      else (case interfere (sch, put_slot f (store_inertia INERTIA_RELEASING) rn) of
              (sch1, rn1) \<Rightarrow>
                (case compute_target (fiber_at rn1 f) rn1 of
                   None \<Rightarrow> Inl PassPanic
                 | Some live \<Rightarrow>
                     (let observed = recheck_revision f rn1 in
                      if live \<noteq> aim
                      then Inr (True, sch1, put_slot f (store_inertia INERTIA_ACTIVE \<circ> record_target live) rn1)
                      else if observed \<noteq> revision then exit_recheck f aim observed (sch1, rn1)
                      else (case interfere (sch1, put_slot f (store_settled revision) rn1) of
                              (sch2, rn2) \<Rightarrow>
                                (case compare_exchange INERTIA_RELEASING INERTIA_IDLE (slot_of f rn2) of
                                   (Inr _, sl) \<Rightarrow> Inr (False, sch2, put_slot f (\<lambda>_. sl) rn2)
                                 | (Inl other, _) \<Rightarrow>
                                     if other = INERTIA_ACTIVE
                                     then exit_recheck f aim (recheck_revision f rn2) (sch2, rn2)
                                     else Inl PassPanic))))))"
  by pat_completeness auto

lemma slot_of_put [simp]: "upgrades rn f \<Longrightarrow> slot_of f (put_slot f g rn) = g (slot_of f rn)"
  by (simp add: slot_of_def update_fiber_same on_fiber_slot_def)

lemma interfere_cases: "interfere (sch, rn) = (sch1, rn1) \<Longrightarrow> (sch = [] \<and> sch1 = [] \<and> rn1 = rn) \<or> length sch1 < length sch"
  by (cases sch) auto

termination exit_recheck
proof (relation "measure (\<lambda>(f, aim, revision, sch, rn). 2 * length sch + (if recheck_revision f rn \<noteq> revision then 1 else 0))", goal_cases)
  case (2 f aim revision sch rn sch1 rn1 live observed)
  from 2 have e: "interfere (sch, put_slot f (store_inertia INERTIA_RELEASING) rn) = (sch1, rn1)" by simp
  from 2 interfere_cases [OF e] show ?case
    by (auto simp: e recheck_revision_def store_inertia_def)
next
  case (3 f aim revision sch rn sch1 rn1 live observed sch2 rn2 a b other)
  from 3 have e1: "interfere (sch, put_slot f (store_inertia INERTIA_RELEASING) rn) = (sch1, rn1)"
    and e2: "interfere (sch1, put_slot f (store_settled revision) rn1) = (sch2, rn2)" by simp_all
  note i1 = interfere_cases [OF e1] and i2 = interfere_cases [OF e2]
  have "\<not> (sch = [] \<and> sch1 = [])"
  proof
    assume "sch = [] \<and> sch1 = []"
    with i1 i2 3(1) have "sl_inertia (slot_of f rn2) = INERTIA_RELEASING"
      by (auto simp: store_inertia_def store_settled_def)
    with 3 show False by (auto simp: compare_exchange_def split: if_splits)
  qed
  with i1 i2 show ?case by (auto simp: e1 e2)
qed simp

declare exit_recheck.simps [simp del] claim_loop.simps [simp del]

section \<open>The initial pass\<close>

datatype initial_outcome = InitialActive | InitialPending | InitialFailed plugin_failure | InitialInterrupted

definition parked_failure :: "fid \<Rightarrow> runtime \<Rightarrow> plugin_failure \<times> runtime" where
  "parked_failure f rn =
     (case take_error (fiber_at rn f) of
        (error, x) \<Rightarrow>
          (case error of
             Some failure \<Rightarrow> failure
           | None \<Rightarrow> plugin_failure_returned ''plugin failed without a parked failure'',
           update_fiber f (\<lambda>_. x) rn))"

text \<open>The loop; the first argument bounds the rounds.\<close>

fun initial_loop :: "nat \<Rightarrow> lifecycle_env \<Rightarrow> fid \<Rightarrow> world \<Rightarrow> initial_outcome pass_run" where
  "initial_loop 0 env f w = Inl OutOfRounds"
| "initial_loop (Suc n) env f (sch, rn) =
     (let revision = recheck_revision f rn in
      case compute_target (fiber_at rn f) rn of
        None \<Rightarrow> Inl PassPanic
      | Some target \<Rightarrow>
          (case settle_once env f target True rn of
             None \<Rightarrow> Inl PassPanic
           | Some rn1 \<Rightarrow>
               if has_missing target
               then (case exit_recheck f target revision (sch, put_slot f (mark_pending_if_untouched target) rn1) of
                       Inl stop \<Rightarrow> Inl stop
                     | Inr (True, w) \<Rightarrow> initial_loop n env f w
                     | Inr (False, w) \<Rightarrow> Inr (InitialPending, w))
               else (let rn2 = put_slot f (record_target target) rn1 in
                     if current_state (fiber_at rn2 f) = Failed
                     then (case parked_failure f rn2 of
                             (failure, rn3) \<Rightarrow> Inr (InitialFailed failure, sch, creation_teardown env f rn3))
                     else (case exit_recheck f target revision (sch, rn2) of
                             Inl stop \<Rightarrow> Inl stop
                           | Inr (True, w) \<Rightarrow> initial_loop n env f w
                           | Inr (False, w) \<Rightarrow> Inr (InitialActive, w)))))"

text \<open>After \<open>claim\<close>.  The schedule may act between the release and the last idle check.\<close>

definition initial_spawn_pass :: "nat \<Rightarrow> lifecycle_env \<Rightarrow> fid \<Rightarrow> world \<Rightarrow> initial_outcome pass_run" where
  "initial_spawn_pass n env f w =
     (case w of (sch0, rn0) \<Rightarrow>
        (case claim_loop f sch0 rn0 of
           Inl stop \<Rightarrow> Inl stop
         | Inr (_, sch, rn) \<Rightarrow>
             if \<not> is_alive (fiber_at rn f)
             then Inr (InitialInterrupted, sch, put_slot f abandon (release_resident f rn))
             else (case initial_loop n env f (sch, put_slot f (set_creation_owned True) rn) of
                     Inl stop \<Rightarrow> Inl stop
                   | Inr (outcome, w1) \<Rightarrow>
                       (case interfere w1 of (sch2, rn2) \<Rightarrow>
                          (let rn3 = put_slot f (set_creation_owned False) rn2
                           in Inr (outcome, sch2, if is_idle (slot_of f rn3) then rn3 else put_slot f abandon rn3))))))"

section \<open>Convergence, restart and update\<close>

fun convergence_pass :: "nat \<Rightarrow> lifecycle_env \<Rightarrow> fid \<Rightarrow> world \<Rightarrow> unit pass_run" where
  "convergence_pass 0 env f w = Inl OutOfRounds"
| "convergence_pass (Suc n) env f (sch, rn) =
     (let revision = recheck_revision f rn in
      case sl_target (slot_of f rn) of
        None \<Rightarrow> Inl PassPanic
      | Some target \<Rightarrow>
          (case settle_once env f target False rn of
             None \<Rightarrow> Inl PassPanic
           | Some rn1 \<Rightarrow>
               (case compute_target (fiber_at rn1 f) rn1 of
                  None \<Rightarrow> Inl PassPanic
                | Some live \<Rightarrow>
                    if live \<noteq> target then convergence_pass n env f (sch, put_slot f (record_target live) rn1)
                    else (case exit_recheck f target revision (sch, rn1) of
                            Inl stop \<Rightarrow> Inl stop
                          | Inr (True, w) \<Rightarrow> convergence_pass n env f w
                          | Inr (False, w) \<Rightarrow> Inr ((), w)))))"

text \<open>
  \<open>restart_committed\<close> and \<open>update_committed\<close> differ in the answer they read after a settle:
  the parked failure, and for an update the state beside it.
\<close>

fun committed_loop ::
  "nat \<Rightarrow> lifecycle_env \<Rightarrow> fid \<Rightarrow> (fiber \<Rightarrow> 'a) \<Rightarrow> semantic_target \<Rightarrow> u64 \<Rightarrow> world \<Rightarrow> (plugin_failure + 'a) pass_run"
where
  "committed_loop 0 env f answer target revision w = Inl OutOfRounds"
| "committed_loop (Suc n) env f answer target revision (sch, rn) =
     (case settle_once env f target False rn of
        None \<Rightarrow> Inl PassPanic
      | Some rn1 \<Rightarrow>
          (let result = (case fb_error (fiber_at rn1 f) of Some failure \<Rightarrow> Inl failure | None \<Rightarrow> Inr (answer (fiber_at rn1 f)))
           in case exit_recheck f target revision (sch, rn1) of
                Inl stop \<Rightarrow> Inl stop
              | Inr (False, w) \<Rightarrow> Inr (result, w)
              | Inr (True, sch2, rn2) \<Rightarrow>
                  (case compute_target (fiber_at rn2 f) rn2 of
                     None \<Rightarrow> Inl PassPanic
                   | Some live \<Rightarrow>
                       committed_loop n env f answer live (recheck_revision f rn2)
                         (sch2, put_slot f (record_target live) rn2))))"

definition restart_committed ::
  "nat \<Rightarrow> lifecycle_env \<Rightarrow> fid \<Rightarrow> semantic_target \<Rightarrow> u64 \<Rightarrow> world \<Rightarrow> (plugin_failure + unit) pass_run"
where
  "restart_committed n env f target revision w = committed_loop n env f (\<lambda>_. ()) target revision w"

definition update_committed ::
  "nat \<Rightarrow> lifecycle_env \<Rightarrow> fid \<Rightarrow> semantic_target \<Rightarrow> u64 \<Rightarrow> world \<Rightarrow> (plugin_failure + fiber_state) pass_run"
where
  "update_committed n env f target revision w = committed_loop n env f current_state target revision w"

datatype restart_error = RestartClosed | RestartRecursion lifecycle_recursion | RestartApply plugin_failure

definition restart_pass :: "nat \<Rightarrow> lifecycle_env \<Rightarrow> fid \<Rightarrow> world \<Rightarrow> (restart_error + unit) pass_run" where
  "restart_pass n env f w =
     (case w of (sch0, rn0) \<Rightarrow>
        (case claim_loop f sch0 rn0 of
           Inl stop \<Rightarrow> Inl stop
         | Inr (_, sch, rn) \<Rightarrow>
             if \<not> is_alive (fiber_at rn f) then Inr (Inl RestartClosed, sch, put_slot f abandon rn)
             else (let revision = recheck_revision f rn in
                   case compute_target (fiber_at rn f) rn of
                     None \<Rightarrow> Inl PassPanic
                   | Some target \<Rightarrow>
                       (let rn1 = update_fiber f mark_replacing (put_slot f (record_target target) rn)
                        in case restart_committed n env f target revision (sch, rn1) of
                             Inl stop \<Rightarrow> Inl stop
                           | Inr (Inl failure, w1) \<Rightarrow> Inr (Inl (RestartApply failure), w1)
                           | Inr (Inr _, w1) \<Rightarrow> Inr (Inr (), w1)))))"

datatype update_error =
    UpdateContractMismatch
  | UpdateClosed
  | UpdateRecursion lifecycle_recursion
  | UpdateControl invocation_failure
  | AdmissionLost
  | UpdateApply plugin_failure

text \<open>
  The sealed inputs are a store of their own.  The superseded input is dropped after the
  commit and before the first settle.
\<close>

definition update_pass ::
  "nat \<Rightarrow> lifecycle_env \<Rightarrow> fid \<Rightarrow> prepared_change \<Rightarrow> seals \<Rightarrow> world \<Rightarrow> seals \<times> (update_error + fiber_state) pass_run"
where
  "update_pass n env f change seals w =
     (case w of (sch0, rn0) \<Rightarrow>
        (case claim_loop f sch0 rn0 of
           Inl stop \<Rightarrow> (seals, Inl stop)
         | Inr (_, sch, rn) \<Rightarrow>
             if \<not> is_alive (fiber_at rn f) then (seals, Inr (Inl AdmissionLost, sch, put_slot f abandon rn))
             else (let rn1 = update_fiber f mark_replacing rn in
                   case commit_change (rn_next rn1) change seals (fb_spawn (fiber_at rn1 f)) of
                     (Inl _, seals', _) \<Rightarrow> (seals', Inl PassPanic)
                   | (Inr _, seals', spawn) \<Rightarrow>
                       (let rn2 = (update_fiber f (\<lambda>x. x\<lparr>fb_spawn := spawn\<rparr>) rn1)\<lparr>rn_next := Suc (rn_next rn1)\<rparr>;
                            revision = recheck_revision f rn2
                        in case compute_target (fiber_at rn2 f) rn2 of
                             None \<Rightarrow> (seals', Inl PassPanic)
                           | Some target \<Rightarrow>
                               (seals',
                                case update_committed n env f target revision (sch, put_slot f (record_target target) rn2) of
                                  Inl stop \<Rightarrow> Inl stop
                                | Inr (Inl failure, w1) \<Rightarrow> Inr (Inl (UpdateApply failure), w1)
                                | Inr (Inr state, w1) \<Rightarrow> Inr (Inr state, w1))))))"

section \<open>Handle operations\<close>

definition pending_missing :: "fid \<Rightarrow> runtime \<Rightarrow> string list" where
  "pending_missing f rn =
     (if \<not> is_alive (fiber_at rn f) \<or> current_state (fiber_at rn f) \<noteq> Pending then []
      else if has_root f rn then missing_from (fiber_at rn f) rn else [])"

text \<open>
  \<open>kick\<close> by a task on a Runtime executor; a claimed slot is handed to a convergence task,
  which from then on is one of the others.
\<close>

definition kick_slot :: "fid \<Rightarrow> world \<Rightarrow> unit pass_run" where
  "kick_slot f w =
     (case w of (sch, rn) \<Rightarrow>
        let x = fiber_at rn f; sl = slot_of f rn in
        if \<not> is_alive x \<or> \<not> has_committed_recheck sl then Inr ((), w)
        else if sl_inertia sl = INERTIA_ACTIVE then Inr ((), w)
        else if sl_inertia sl = INERTIA_RELEASING then Inr ((), sch, put_slot f (store_inertia INERTIA_ACTIVE) rn)
        else if sl_inertia sl = INERTIA_IDLE
        then (let rn1 = put_slot f (store_inertia INERTIA_ACTIVE) rn in
              case sl_target sl of
                Some aim \<Rightarrow>
                  (case exit_recheck f aim (recheck_revision f rn1) (sch, rn1) of
                     Inl stop \<Rightarrow> Inl stop
                   | Inr (_, w1) \<Rightarrow> Inr ((), w1))
              | None \<Rightarrow>
                  (case compute_target x rn1 of
                     None \<Rightarrow> Inl PassPanic
                   | Some live \<Rightarrow> Inr ((), sch, put_slot f (record_target live) rn1)))
        else Inl PassPanic)"

fun wait_idle :: "fid \<Rightarrow> schedule \<Rightarrow> runtime \<Rightarrow> unit pass_run" where
  "wait_idle f sch rn =
     (if is_idle (slot_of f rn) then Inr ((), sch, rn)
      else (case sch of [] \<Rightarrow> Inl StillWaiting | g # gs \<Rightarrow> wait_idle f gs (g rn)))"

datatype ready_error = ReadyRecursion lifecycle_recursion | ReadyApply plugin_failure

text \<open>\<open>ready\<close> past its recursion check.  \<open>None\<close>: the loop never ends.\<close>

partial_function (option) ready_loop :: "fid \<Rightarrow> world \<Rightarrow> (ready_error + fiber_state) pass_run option" where
  "ready_loop f w =
     (case (if has_committed_recheck (slot_of f (snd w)) \<and> has_root f (snd w) then kick_slot f w else Inr ((), w)) of
        Inl stop \<Rightarrow> Some (Inl stop)
      | Inr (_, sch1, rn1) \<Rightarrow>
          (case wait_idle f sch1 rn1 of
             Inl stop \<Rightarrow> Some (Inl stop)
           | Inr (_, sch2, rn2) \<Rightarrow>
               (case publication_observe (fb_state (fiber_at rn2 f)) of (observed, sequence) \<Rightarrow>
                  (case interfere (sch2, rn2) of (sch3, rn3) \<Rightarrow>
                     if \<not> is_idle (slot_of f rn3) \<or> has_committed_recheck (slot_of f rn3) then ready_loop f (sch3, rn3)
                     else if sp_sequence (fb_state (fiber_at rn3 f)) \<noteq> sequence then ready_loop f (sch3, rn3)
                     else if observed = Failed
                     then (case fb_error (fiber_at rn3 f) of
                             Some failure \<Rightarrow> Some (Inr (Inl (ReadyApply failure), sch3, rn3))
                           | None \<Rightarrow> ready_loop f (sch3, rn3))
                     else if observed \<in> {Loading, Unloading} then Some (Inl PassPanic)
                     else Some (Inr (Inr observed, sch3, rn3))))))"

text \<open>The handle operations; \<open>t\<close> is the calling task and \<open>st\<close> the attribution state.\<close>

definition handle_ready :: "ident \<Rightarrow> att \<Rightarrow> fid \<Rightarrow> world \<Rightarrow> (ready_error + fiber_state) pass_run option" where
  "handle_ready t st f w =
     (case refuse_recursion t f (fb_draining (fiber_at (snd w) f)) OpReady st of
        Inl e \<Rightarrow> Some (Inr (Inl (ReadyRecursion e), w))
      | Inr _ \<Rightarrow> ready_loop f w)"

definition handle_restart :: "ident \<Rightarrow> att \<Rightarrow> nat \<Rightarrow> lifecycle_env \<Rightarrow> fid \<Rightarrow> world \<Rightarrow> (restart_error + unit) pass_run" where
  "handle_restart t st n env f w =
     (case refuse_recursion t f (fb_draining (fiber_at (snd w) f)) OpRestart st of
        Inl e \<Rightarrow> Inr (Inl (RestartRecursion e), w)
      | Inr _ \<Rightarrow>
          if \<not> is_alive (fiber_at (snd w) f) then Inr (Inl RestartClosed, w)
          else restart_pass n env f w)"

end
