(* ===== verification/Pass_Laws.thy ===== *)
theory Pass_Laws
  imports Passes
begin

text \<open>
  The laws of the passes: what other tasks may do while a pass holds the settle slot
  (\<open>foreign_turns\<close>), and the effect of the guarded release and of one round of a pass under
  them.
\<close>

section \<open>Slot updates\<close>

lemma on_fiber_slot_frame [simp]:
  "protected (on_fiber_slot g x) = protected x" "assert_can_register (on_fiber_slot g x) = assert_can_register x"
  "fb_edges (on_fiber_slot g x) = fb_edges x" "fb_slot (on_fiber_slot g x) = g (fb_slot x)" "is_alive (on_fiber_slot g x) = is_alive x"
  "fb_creation_pending (on_fiber_slot g x) = fb_creation_pending x" "fb_replacing (on_fiber_slot g x) = fb_replacing x"
  by (simp_all add: on_fiber_slot_def protected_def assert_can_register_cases current_state_def is_alive_def)

lemma abides_slot: "upgrades rn f \<Longrightarrow> abides f rn (put_slot f g rn)"
  by (simp add: abides_def obligations_def gate_open_def)

lemma update_fiber_services [simp]:
  "rn_services (update_fiber f g rn) = rn_services rn" "rn_next (update_fiber f g rn) = rn_next rn"
  "rn_registry (update_fiber f g rn) = rn_registry rn"
  by (simp_all add: update_fiber_def)

lemma update_fiber_occurrence:
  assumes "\<And>x. fb_alive (g x) = fb_alive x" and "\<And>x. fb_state (g x) = fb_state x"
  shows "occurrence_id (update_fiber f g rn) key name = occurrence_id rn key name"
proof -
  have "slot_visible (update_fiber f g rn) sl = slot_visible rn sl" for sl
    using assms by (auto simp: slot_visible_def update_fiber_def is_alive_def current_state_def split: option.split)
  then show ?thesis by (simp add: occurrence_id_def slot_at_def split: option.split)
qed

lemma put_slot_occurrence [simp]: "occurrence_id (put_slot f g rn) key name = occurrence_id rn key name"
  by (rule update_fiber_occurrence) simp_all

lemma put_slot_target [simp]:
  "compute_target x (put_slot f g rn) = compute_target x rn" "compute_target (on_fiber_slot g x) rn = compute_target x rn"
  by (simp_all add: compute_target_def split: sum.split)

definition live_at :: "fid \<Rightarrow> runtime \<Rightarrow> semantic_target option" where
  "live_at f rn = compute_target (fiber_at rn f) rn"

lemma live_at_put [simp]: "upgrades rn f \<Longrightarrow> live_at f (put_slot f g rn) = live_at f rn"
  by (simp add: live_at_def)

lemma live_at_installed: "fb_spawn (fiber_at rn f) \<noteq> None \<Longrightarrow> \<exists>live. live_at f rn = Some live"
  by (auto simp: live_at_def compute_target_def effective_input_def)

section \<open>What other tasks may do\<close>

text \<open>
  While the slot is held another task keeps to the rules of \<open>abides\<close>, and of the word of the
  slot it changes at most \<open>RELEASING\<close> to \<open>ACTIVE\<close>.
\<close>

locale foreign_turns = slot_environment env f for env f +
  fixes turns :: "(runtime \<Rightarrow> runtime) set"
  assumes turn_abides: "g \<in> turns \<Longrightarrow> upgrades rn f \<Longrightarrow> \<not> is_idle (slot_of f rn) \<Longrightarrow> abides f rn (g rn)"
    and turn_word: "g \<in> turns \<Longrightarrow> upgrades rn f \<Longrightarrow> \<not> is_idle (slot_of f rn) \<Longrightarrow>
      sl_inertia (slot_of f (g rn)) = sl_inertia (slot_of f rn) \<or>
      sl_inertia (slot_of f rn) = INERTIA_RELEASING \<and> sl_inertia (slot_of f (g rn)) = INERTIA_ACTIVE"
begin

lemma interfere_held:
  assumes "interfere (sch, rn) = (sch', rn')" and "set sch \<subseteq> turns" and "upgrades rn f" and "\<not> is_idle (slot_of f rn)"
  shows "abides f rn rn'" and "set sch' \<subseteq> turns"
    and "sl_inertia (slot_of f rn') = sl_inertia (slot_of f rn) \<or>
      sl_inertia (slot_of f rn) = INERTIA_RELEASING \<and> sl_inertia (slot_of f rn') = INERTIA_ACTIVE"
    and "length sch' \<le> length sch"
  using assms turn_abides [of _ rn] turn_word [of _ rn] by (cases sch; auto simp: abides_refl)+

text \<open>
  The guarded release always comes to an answer.  Kept, the slot is held and records a new
  target; released, it is idle.
\<close>

definition release_answer :: "semantic_target \<Rightarrow> bool \<Rightarrow> runtime \<Rightarrow> bool" where
  "release_answer aim again rn \<longleftrightarrow>
     (if again then sl_inertia (slot_of f rn) = INERTIA_ACTIVE \<and> live_at f rn \<noteq> Some aim \<and> sl_target (slot_of f rn) = live_at f rn
      else is_idle (slot_of f rn))"

text \<open>With nobody else acting the answer is a comparison of targets; otherwise a turn is used up.\<close>

definition release_progress :: "semantic_target \<Rightarrow> schedule \<Rightarrow> runtime \<Rightarrow> bool \<Rightarrow> schedule \<Rightarrow> bool" where
  "release_progress aim sch rn again sch' \<longleftrightarrow>
     (if sch = [] then again = (live_at f rn \<noteq> Some aim) else length sch' < length sch)"

lemma exit_recheck_answers:
  assumes "h = f" and "upgrades (snd w) f" and "fb_spawn (fiber_at (snd w) f) \<noteq> None" and "set (fst w) \<subseteq> turns"
  shows "\<exists>again sch' rn'. exit_recheck h aim revision w = Inr (again, sch', rn') \<and>
    abides f (snd w) rn' \<and> set sch' \<subseteq> turns \<and> length sch' \<le> length (fst w) \<and> release_answer aim again rn' \<and>
    release_progress aim (fst w) (snd w) again sch'"
  using assms
proof (induction h aim revision w rule: exit_recheck.induct)
  case (1 h aim revision sch rn)
  have h: "h = f" and up: "upgrades rn f" and sp: "fb_spawn (fiber_at rn f) \<noteq> None" and ts: "set sch \<subseteq> turns"
    using "1.prems" by simp_all
  let ?rn0 = "put_slot f (store_inertia INERTIA_RELEASING) rn"
  obtain sch1 rn1 where e1: "interfere (sch, ?rn0) = (sch1, rn1)" by force
  have up0: "upgrades ?rn0 f" and busy0: "\<not> is_idle (slot_of f ?rn0)" using up by (simp_all add: store_inertia_def is_idle_def)
  note i1 = interfere_held [OF e1 ts up0 busy0]
  have c1: "sch = [] \<Longrightarrow> sch1 = [] \<and> live_at f rn = live_at f rn1" "sch \<noteq> [] \<Longrightarrow> length sch1 < length sch"
    using interfere_cases [OF e1] up by auto
  have a1: "abides f rn rn1" by (rule abides_trans [OF abides_slot [OF up] i1(1)])
  note f1 = abides_fields [OF a1]
  have w1: "sl_inertia (slot_of f rn1) \<in> {INERTIA_RELEASING, INERTIA_ACTIVE}" using i1(3) up by (auto simp: store_inertia_def)
  have sp1: "fb_spawn (fiber_at rn1 f) \<noteq> None" using f1 sp by simp
  then obtain live where live: "live_at f rn1 = Some live" using live_at_installed by blast
  have target: "compute_target (fiber_at rn1 f) rn1 = Some live" using live by (simp add: live_at_def)
  note run = exit_recheck.simps [of f aim revision sch rn] up e1 target
  show ?case
  proof (cases "live = aim")
    case False
    let ?rn' = "put_slot f (store_inertia INERTIA_ACTIVE \<circ> record_target live) rn1"
    have "exit_recheck h aim revision (sch, rn) = Inr (True, sch1, ?rn')" using False h by (simp add: run Let_def)
    moreover have "abides f rn ?rn'" by (rule abides_trans [OF a1 abides_slot [OF f1(1)]])
    moreover have "release_progress aim sch rn True sch1" using c1 live False by (cases "sch = []") (simp_all add: release_progress_def)
    moreover have "release_answer aim True ?rn'"
      using live False f1(1) by (simp add: release_answer_def store_inertia_def record_target_def)
    ultimately show ?thesis using i1(2,4) by auto
  next
    case same: True
    show ?thesis
    proof (cases "recheck_revision f rn1 = revision")
      case False
      have eq: "exit_recheck h aim revision (sch, rn) = exit_recheck f aim (recheck_revision f rn1) (sch1, rn1)"
        using False h same by (subst exit_recheck.simps) (simp add: run(2-) Let_def)
      have ex: "\<exists>again sch' rn'. exit_recheck f aim (recheck_revision f rn1) (sch1, rn1) = Inr (again, sch', rn') \<and>
          abides f rn1 rn' \<and> set sch' \<subseteq> turns \<and> length sch' \<le> length sch1 \<and> release_answer aim again rn' \<and>
          release_progress aim sch1 rn1 again sch'"
        using "1.IH"(1) [of sch1 rn1 live "recheck_revision f rn1"] h up e1 live same False f1(1) sp1 i1(2)
        by (simp add: live_at_def)
      then obtain again sch' rn' where r: "exit_recheck f aim (recheck_revision f rn1) (sch1, rn1) = Inr (again, sch', rn')"
        "abides f rn1 rn'" "set sch' \<subseteq> turns" "length sch' \<le> length sch1" "release_answer aim again rn'"
        "release_progress aim sch1 rn1 again sch'" by blast
      have "release_progress aim sch rn again sch'" using r(4,6) c1 by (cases "sch = []") (simp_all add: release_progress_def)
      with eq r abides_trans [OF a1 r(2)] i1(4) show ?thesis by auto
    next
      case rev: True
      let ?rn1s = "put_slot f (store_settled revision) rn1"
      obtain sch2 rn2 where e2: "interfere (sch1, ?rn1s) = (sch2, rn2)" by force
      have up1: "upgrades ?rn1s f" and busy1: "\<not> is_idle (slot_of f ?rn1s)"
        using f1(1) w1 by (auto simp: store_settled_def is_idle_def)
      note i2 = interfere_held [OF e2 i1(2) up1 busy1]
      have c2: "sch1 = [] \<Longrightarrow> sch2 = [] \<and> live_at f rn1 = live_at f rn2 \<and> slot_of f rn2 = store_settled revision (slot_of f rn1)"
        using interfere_cases [OF e2] f1(1) by auto
      have a2: "abides f rn rn2" by (rule abides_trans [OF abides_trans [OF a1 abides_slot [OF f1(1)]] i2(1)])
      note f2 = abides_fields [OF a2]
      have w2: "sl_inertia (slot_of f rn2) \<in> {INERTIA_RELEASING, INERTIA_ACTIVE}" using i2(3) w1 f1(1) by (auto simp: store_settled_def)
      show ?thesis
      proof (cases "sl_inertia (slot_of f rn2) = INERTIA_RELEASING")
        case True
        let ?rn' = "put_slot f (\<lambda>_. (slot_of f rn2)\<lparr>sl_inertia := INERTIA_IDLE\<rparr>) rn2"
        have "exit_recheck h aim revision (sch, rn) = Inr (False, sch2, ?rn')"
          using rev h same True e2 by (simp add: run Let_def compare_exchange_def)
        moreover have "abides f rn ?rn'" by (rule abides_trans [OF a2 abides_slot [OF f2(1)]])
        moreover have "release_progress aim sch rn False sch2"
          using c1 i2(4) live same by (cases "sch = []") (simp_all add: release_progress_def)
        moreover have "release_answer aim False ?rn'" using f2(1) by (simp add: release_answer_def is_idle_def)
        ultimately show ?thesis using i1(4) i2(2,4) by auto
      next
        case False
        with w2 have act: "sl_inertia (slot_of f rn2) = INERTIA_ACTIVE" by simp
        have eq: "exit_recheck h aim revision (sch, rn) = exit_recheck f aim (recheck_revision f rn2) (sch2, rn2)"
          using rev h same act e2 by (subst exit_recheck.simps) (simp add: run(2-) Let_def compare_exchange_def)
        have ex: "\<exists>again sch' rn'. exit_recheck f aim (recheck_revision f rn2) (sch2, rn2) = Inr (again, sch', rn') \<and>
            abides f rn2 rn' \<and> set sch' \<subseteq> turns \<and> length sch' \<le> length sch2 \<and> release_answer aim again rn' \<and>
            release_progress aim sch2 rn2 again sch'"
          using "1.IH"(2) [of sch1 rn1 live "recheck_revision f rn1" sch2 rn2 "Inl INERTIA_ACTIVE" "slot_of f rn2" INERTIA_ACTIVE]
            h up e1 e2 live same rev act f2(1,4) sp i2(2)
          by (simp add: live_at_def compare_exchange_def)
        then obtain again sch' rn' where r: "exit_recheck f aim (recheck_revision f rn2) (sch2, rn2) = Inr (again, sch', rn')"
          "abides f rn2 rn'" "set sch' \<subseteq> turns" "length sch' \<le> length sch2" "release_answer aim again rn'"
          "release_progress aim sch2 rn2 again sch'" by blast
        have "release_progress aim sch rn again sch'" using r(4,6) i2(4) c1 c2 by (cases "sch = []") (simp_all add: release_progress_def)
        with eq r abides_trans [OF a2 r(2)] i1(4) i2(4) show ?thesis by auto
      qed
    qed
  qed
qed

lemma exit_recheck_outcome:
  assumes "upgrades rn f" and "fb_spawn (fiber_at rn f) \<noteq> None" and "set sch \<subseteq> turns"
  obtains again sch' rn' where "exit_recheck f aim revision (sch, rn) = Inr (again, sch', rn')"
    and "abides f rn rn'" and "set sch' \<subseteq> turns" and "length sch' \<le> length sch" and "release_answer aim again rn'"
    and "release_progress aim sch rn again sch'"
  using exit_recheck_answers [OF refl, of "(sch, rn)" aim revision] assms by auto

end

section \<open>The shape of a Fiber\<close>

text \<open>Edges, installed record and completion barrier: no settle touches them.\<close>

definition same_shape :: "fid \<Rightarrow> runtime \<Rightarrow> runtime \<Rightarrow> bool" where
  "same_shape f rn rn' \<longleftrightarrow>
     upgrades rn' f \<and> fb_edges (fiber_at rn' f) = fb_edges (fiber_at rn f) \<and> fb_spawn (fiber_at rn' f) = fb_spawn (fiber_at rn f) \<and>
     fb_dispose_complete (fiber_at rn' f) = fb_dispose_complete (fiber_at rn f)"

lemma shape_trans: "same_shape f rn rn1 \<Longrightarrow> same_shape f rn1 rn2 \<Longrightarrow> same_shape f rn rn2"
  by (simp add: same_shape_def)

lemma shape_upgrades: "same_shape f rn rn' \<Longrightarrow> upgrades rn' f"
  by (simp add: same_shape_def)

lemma shape_abides: "abides f rn rn' \<Longrightarrow> same_shape f rn rn'"
  using protected_fields(8,11) [of "fiber_at rn' f" "fiber_at rn f"] abides_fields(4) [of f rn rn']
  by (simp add: same_shape_def abides_def)

lemma shape_update:
  "upgrades rn f \<Longrightarrow> (\<And>x. fb_edges (g x) = fb_edges x \<and> fb_spawn (g x) = fb_spawn x \<and> fb_dispose_complete (g x) = fb_dispose_complete x) \<Longrightarrow>
    same_shape f rn (update_fiber f g rn)"
  by (simp add: same_shape_def update_fiber_same)

lemma edge_fields [simp]:
  "fb_edges (set_state s x) = fb_edges x" "fb_edges (set_draining b x) = fb_edges x" "fb_edges (set_replacing b x) = fb_edges x"
  "fb_edges (set_applied x) = fb_edges x" "fb_edges (store_error e x) = fb_edges x" "fb_edges (mark_replacing x) = fb_edges x"
  by (simp_all add: set_state_def set_draining_def set_replacing_def set_applied_def store_error_def mark_replacing_def
      split: option.split)

lemma complete_fields [simp]:
  "fb_dispose_complete (set_state s x) = fb_dispose_complete x" "fb_dispose_complete (set_draining b x) = fb_dispose_complete x"
  "fb_dispose_complete (set_replacing b x) = fb_dispose_complete x" "fb_dispose_complete (set_applied x) = fb_dispose_complete x"
  "fb_dispose_complete (store_error e x) = fb_dispose_complete x" "fb_dispose_complete (mark_replacing x) = fb_dispose_complete x"
  by (simp_all add: set_state_def set_draining_def set_replacing_def set_applied_def store_error_def mark_replacing_def
      split: option.split)

lemma shape_transition: "upgrades rn f \<Longrightarrow> same_shape f rn (transition f s rn)"
  using arg_cong [OF transition_view(1) [of rn f s], of fb_edges] arg_cong [OF transition_view(1) [of rn f s], of fb_dispose_complete]
  by (simp add: same_shape_def fiber_view_def)

context slot_environment
begin

lemma shape_drain_tokens: "upgrades rn f \<Longrightarrow> same_shape f rn (snd (drain_tokens env f ts rn))"
proof (induction ts arbitrary: rn)
  case Nil
  then show ?case by (simp add: same_shape_def)
next
  case (Cons t ts)
  let ?rn1 = "update_fiber f (\<lambda>_. snd (remove_disposable t (fiber_at rn f))) rn"
  have claim: "same_shape f rn ?rn1" by (rule shape_abides [OF claim_token(1) [OF Cons.prems]])
  show ?case
  proof (cases "fst (remove_disposable t (fiber_at rn f))")
    case None
    with shape_trans [OF claim Cons.IH [OF shape_upgrades [OF claim]]] show ?thesis by (simp add: case_prod_beta)
  next
    case (Some c)
    have r: "same_shape f ?rn1 (snd (run_claimed env f c ?rn1))"
      by (rule shape_abides [OF run_claimed_abides [OF shape_upgrades [OF claim]]])
    from Some shape_trans [OF shape_trans [OF claim r] Cons.IH [OF shape_upgrades [OF r]]] show ?thesis
      by (simp add: case_prod_beta)
  qed
qed

lemma shape_drain: assumes "upgrades rn f" shows "same_shape f rn (drain env f rn)"
proof -
  let ?rn0 = "update_fiber f (set_draining True) rn"
  let ?rn1 = "snd (drain_tokens env f (rev (journal_tokens (fb_journal (fiber_at rn f)))) ?rn0)"
  have a: "same_shape f rn ?rn0" by (rule shape_update [OF assms]) simp
  have b: "same_shape f ?rn0 ?rn1" by (rule shape_drain_tokens [OF shape_upgrades [OF a]])
  have c: "same_shape f ?rn1 (update_fiber f (set_draining False) ?rn1)" by (rule shape_update [OF shape_upgrades [OF b]]) simp
  from shape_trans [OF shape_trans [OF a b] c] show ?thesis by (simp add: drain_def Let_def)
qed

lemma shape_unload: "upgrades rn f \<Longrightarrow> same_shape f rn (drain env f (transition f Unloading rn))"
  using shape_trans [OF shape_transition shape_drain] shape_upgrades [OF shape_transition] by blast

lemma shape_settle_unload: "upgrades rn f \<Longrightarrow> same_shape f rn (settle_unload env f rn)"
  using shape_unload [of rn] by (auto simp: settle_unload_def same_shape_def split: fiber_state.split)

lemma shape_stamp: "upgrades rn f \<Longrightarrow> same_shape f rn (transition f s (update_fiber f (store_error e) rn))"
  using shape_trans [OF shape_update shape_transition, of rn f "store_error e"] shape_upgrades by simp

lemma shape_settle_apply: assumes "upgrades rn f" shows "same_shape f rn (settle_apply env f plugin scope rn)"
proof -
  let ?rn0 = "update_fiber f (set_replacing False) rn"
  let ?rn1 = "transition f Loading ?rn0"
  have a: "same_shape f rn ?rn0" by (rule shape_update [OF assms]) simp
  have b: "same_shape f rn ?rn1" by (rule shape_trans [OF a shape_transition [OF shape_upgrades [OF a]]])
  obtain outcome rn2 where o: "le_apply env f plugin (with_fiber f scope) ?rn1 = (outcome, rn2)" by force
  have "same_shape f ?rn1 rn2"
    using shape_abides [OF apply_abides [OF shape_upgrades [OF b], of plugin "with_fiber f scope"]] o by simp
  then have c: "same_shape f rn rn2" by (rule shape_trans [OF b])
  let ?rn3 = "update_fiber f set_applied rn2"
  have d: "same_shape f rn ?rn3" by (rule shape_trans [OF c shape_update [OF shape_upgrades [OF c]]]) simp
  have up: "upgrades ?rn3 f" by (rule shape_upgrades [OF d])
  have failed: "same_shape f rn (settle_failed env f failure ?rn3)" for failure
    using shape_trans [OF shape_trans [OF d shape_unload [OF up]] shape_stamp] shape_upgrades [OF shape_unload [OF up]]
    by (simp add: settle_failed_def Let_def)
  show ?thesis
    using failed shape_trans [OF d shape_stamp [OF up]]
    by (simp add: settle_apply_def Let_def o split: completion.split sum.split)
qed

lemma shape_settle_once:
  assumes "upgrades rn f" and "settle_once env f target owns rn = Some rn'"
  shows "same_shape f rn rn'"
proof -
  note u = shape_settle_unload [OF assms(1)]
  note up = shape_upgrades [OF u]
  show ?thesis
    using assms shape_trans [OF u shape_stamp [OF up]] shape_trans [OF u shape_settle_apply [OF up]] u
    by (auto simp: settle_once_def Let_def same_shape_def split: if_splits sum.splits)
qed

end

text \<open>A Fiber without declared dependencies has one target.\<close>

lemma edgeless_live: "fb_edges (fiber_at rn f) = [] \<Longrightarrow> same_shape f rn rn' \<Longrightarrow> live_at f rn' = live_at f rn"
  by (simp add: live_at_def compute_target_def same_shape_def split: sum.split)

section \<open>One round of a pass\<close>

lemma abides_room: "abides f rn rn' \<Longrightarrow> room k f rn' = room k f rn"
  by (simp add: abides_fields(2))

text \<open>What the apply that made the current generation reported.\<close>

definition apply_reported :: "lifecycle_env \<Rightarrow> fid \<Rightarrow> plugin_failure option \<Rightarrow> bool" where
  "apply_reported env f report \<longleftrightarrow>
     (\<exists>plugin scope rn. fresh_generation f rn \<and> apply_failure (fst (le_apply env f plugin (with_fiber f scope) rn)) = report)"

lemma settle_round:
  assumes env: "slot_environment env f" and st: "settled f rn" and alive: "fb_alive (fiber_at rn f)" and rm: "room (4 + k) f rn"
  obtains rn' where "settle_once env f target owns rn = Some rn'" and "settled f rn'" and "fb_alive (fiber_at rn' f)" and "room k f rn'"
    and "fb_spawn (fiber_at rn' f) = fb_spawn (fiber_at rn f)"
    and "has_missing target \<Longrightarrow> current_state (fiber_at rn' f) = Pending"
    and "\<not> has_missing target \<Longrightarrow> owns \<Longrightarrow> current_state (fiber_at rn' f) \<in> {Active, Failed} \<and> apply_reported env f (fb_error (fiber_at rn' f))"
proof -
  have rm4: "room (Suc (Suc (Suc (Suc k)))) f rn" using rm by (simp add: eval_nat_numeral)
  have rm2: "room (Suc (Suc k)) f rn" by (rule publication_room_mono [OF rm]) simp
  have rmk: "room k f rn" by (rule publication_room_mono [OF rm]) simp
  obtain plugin scope where snap: "apply_snapshot (fb_spawn (fiber_at rn f)) = Inr (plugin, scope)"
    using apply_snapshot_installed [of "fb_spawn (fiber_at rn f)"] st unfolding settled_def Let_def by blast
  show ?thesis
  proof (cases "has_missing target")
    case True
    from slot_environment.settle_once_missing [OF env st alive rm2 True, of owns] True that show ?thesis by blast
  next
    case False
    show ?thesis
    proof (cases "parked owns f rn")
      case True
      have "settle_once env f target owns rn = Some rn"
        using slot_environment.settle_once_parked [OF env st False, of owns] True unfolding parked_def by blast
      moreover have "\<not> owns" using True by (simp add: parked_def)
      ultimately show ?thesis using that st alive rmk False by blast
    next
      case turn: False
      then have "owns \<or> \<not> fb_creation_pending (fiber_at rn f) \<or> fb_applied (fiber_at rn f)" by (simp add: parked_def)
      from slot_environment.settle_once_apply [OF env st alive rm4 False this snap] obtain rn' rnL where
        r: "settle_once env f target owns rn = Some rn'" "settled f rn'" "room k f rn'" "fresh_generation f rnL"
          "generation_of (fst (le_apply env f plugin (with_fiber f scope) rnL)) f rn'" "fb_alive (fiber_at rn' f)"
          "fb_spawn (fiber_at rn' f) = fb_spawn (fiber_at rn f)" by blast
      have "current_state (fiber_at rn' f) \<in> {Active, Failed} \<and> apply_reported env f (fb_error (fiber_at rn' f))"
        using r(4,5) unfolding generation_of_def apply_reported_def by (auto split: if_splits)
      with that r False show ?thesis by blast
    qed
  qed
qed

lemma settle_keeps:
  assumes "slot_environment env f" and "settled f rn" and "fb_alive (fiber_at rn f)" and "room (4 + k) f rn"
  shows "\<exists>rn'. settle_once env f target owns rn = Some rn' \<and> settled f rn' \<and> fb_alive (fiber_at rn' f) \<and> room k f rn'"
proof (rule settle_round [OF assms, of target owns])
  fix rn'
  assume "settle_once env f target owns rn = Some rn'" "settled f rn'" "fb_alive (fiber_at rn' f)" "room k f rn'"
  then show ?thesis by (intro exI conjI)
qed

end
