(* ===== verification/Pass_Properties.thy ===== *)
theory Pass_Properties
  imports Pass_Laws
begin

text \<open>
  What the passes answer: the initial pass of a spawn, the loop behind a restart and an update,
  and the convergence pass, each under any schedule of other tasks that keeps to the rules of
  the slot (\<open>foreign_turns\<close>).  Where no settle moves the target (\<open>steady_turns\<close>) one round more
  than there are foreign turns is enough.
\<close>

section \<open>The initial pass\<close>

definition initial_answer :: "lifecycle_env \<Rightarrow> fid \<Rightarrow> initial_outcome \<Rightarrow> runtime \<Rightarrow> bool" where
  "initial_answer env f outcome rn \<longleftrightarrow>
     (case outcome of
        InitialActive \<Rightarrow>
          settled f rn \<and> fb_alive (fiber_at rn f) \<and> current_state (fiber_at rn f) = Active \<and>
          is_idle (slot_of f rn) \<and> apply_reported env f None
      | InitialPending \<Rightarrow>
          settled f rn \<and> fb_alive (fiber_at rn f) \<and> current_state (fiber_at rn f) = Pending \<and> is_idle (slot_of f rn)
      | InitialFailed failure \<Rightarrow>
          life_inv f rn \<and> disposed_for_good f rn \<and> fb_dispose_complete (fiber_at rn f) \<and>
          map_of (rg_claims (rn_registry rn)) f = None \<and> apply_reported env f (Some failure)
      | InitialInterrupted \<Rightarrow> False)"

lemma settled_fields:
  assumes "settled f rn"
  shows "upgrades rn f" and "fb_spawn (fiber_at rn f) \<noteq> None" and "on_path f rn"
    and "current_state (fiber_at rn f) \<in> {Pending, Active, Failed}"
    and "fb_error (fiber_at rn f) \<noteq> None \<longleftrightarrow> current_state (fiber_at rn f) = Failed"
  using assms by (simp_all add: settled_def Let_def)

lemma settled_put: "settled f rn \<Longrightarrow> settled f (put_slot f g rn)"
  using settled_abides [OF abides_slot] settled_fields(1) by blast

lemma creation_teardown_effect:
  assumes "slot_environment env f" and "upgrades rn f" and "room 2 f rn" and "fb_spawn (fiber_at rn f) \<noteq> None"
    and "on_path f rn" and "current_state (fiber_at rn f) \<noteq> Disposed"
  shows "disposed_for_good f (creation_teardown env f rn)" and "on_path f (creation_teardown env f rn)"
    and "fb_dispose_complete (fiber_at (creation_teardown env f rn) f)"
    and "map_of (rg_claims (rn_registry (creation_teardown env f rn))) f = None"
    and "life_inv f (creation_teardown env f rn)"
proof -
  let ?rn0 = "update_fiber f mark_terminal rn"
  have b: "upgrades ?rn0 f" "room 2 f ?rn0" "fb_spawn (fiber_at ?rn0 f) \<noteq> None" "on_path f ?rn0"
    "current_state (fiber_at ?rn0 f) \<noteq> Disposed"
    using assms(2-6) by (simp_all add: update_path)
  note e = ending_effect [OF assms(1) b, of "\<lambda>rn. rn"]
  have "fb_spawn (fiber_at (creation_teardown env f rn) f) \<noteq> None"
    using e(6) b(3) by (simp add: creation_teardown_def)
  with e show "disposed_for_good f (creation_teardown env f rn)" "on_path f (creation_teardown env f rn)"
    "fb_dispose_complete (fiber_at (creation_teardown env f rn) f)"
    "map_of (rg_claims (rn_registry (creation_teardown env f rn))) f = None"
    "life_inv f (creation_teardown env f rn)"
    by (simp_all add: creation_teardown_def life_inv_def disposed_for_good_def)
qed

context foreign_turns
begin

lemma initial_failed:
  assumes "settled f rn" and "room 2 f rn" and "current_state (fiber_at rn f) = Failed" and "apply_reported env f (fb_error (fiber_at rn f))"
    and "parked_failure f rn = (failure, rn')"
  shows "initial_answer env f (InitialFailed failure) (creation_teardown env f rn')"
proof -
  note s = settled_fields [OF assms(1)]
  from s(5) assms(3) obtain e where e: "fb_error (fiber_at rn f) = Some e" by auto
  have f: "failure = e" and rn': "rn' = update_fiber f (\<lambda>_. snd (take_error (fiber_at rn f))) rn"
    using assms(5) e by (simp_all add: parked_failure_def take_error_def)
  have b: "upgrades rn' f" "room 2 f rn'" "fb_spawn (fiber_at rn' f) \<noteq> None" "on_path f rn'" "current_state (fiber_at rn' f) \<noteq> Disposed"
    using s assms(2,3) unfolding rn' take_error_def by (simp_all add: update_path current_state_def)
  from creation_teardown_effect [OF slot_environment_axioms b] assms(4) f e show ?thesis
    by (simp add: initial_answer_def)
qed

lemma initial_round:
  assumes "settled f rn" and "fb_alive (fiber_at rn f)" and "room (4 + (4 * n + 2)) f rn" and "set sch \<subseteq> turns"
  obtains (answer) outcome sch' rn' where "initial_loop (Suc n) env f (sch, rn) = Inr (outcome, sch', rn')"
      and "initial_answer env f outcome rn'" and "set sch' \<subseteq> turns"
      and "outcome \<in> {InitialActive, InitialPending} \<Longrightarrow> room (4 * n + 2) f rn' \<and> same_shape f rn rn'"
    | (again) sch' rn1 rn' target where "initial_loop (Suc n) env f (sch, rn) = initial_loop n env f (sch', rn')"
      and "settled f rn'" and "fb_alive (fiber_at rn' f)" and "room (4 * n + 2) f rn'" and "set sch' \<subseteq> turns"
      and "settle_once env f target True rn = Some rn1" and "abides f rn1 rn'"
      and "sch \<noteq> [] \<Longrightarrow> length sch' < length sch" and "sch = [] \<Longrightarrow> live_at f rn1 \<noteq> live_at f rn" and "same_shape f rn rn'"
proof -
  note s = settled_fields [OF assms(1)]
  obtain target where target: "live_at f rn = Some target" using live_at_installed [OF s(2)] by blast
  have t: "compute_target (fiber_at rn f) rn = Some target" using target by (simp add: live_at_def)
  obtain rn1 where r: "settle_once env f target True rn = Some rn1" "settled f rn1" "fb_alive (fiber_at rn1 f)" "room (4 * n + 2) f rn1"
    "fb_spawn (fiber_at rn1 f) = fb_spawn (fiber_at rn f)" "has_missing target \<Longrightarrow> current_state (fiber_at rn1 f) = Pending"
    "\<not> has_missing target \<Longrightarrow> current_state (fiber_at rn1 f) \<in> {Active, Failed} \<and> apply_reported env f (fb_error (fiber_at rn1 f))"
    using settle_round [OF slot_environment_axioms assms(1-3), of target True] by blast
  note s1 = settled_fields [OF r(2)]
  let ?mark = "if has_missing target then mark_pending_if_untouched target else record_target target"
  let ?rn2 = "put_slot f ?mark rn1"
  let ?revision = "recheck_revision f rn"
  have s2: "settled f ?rn2" "fb_alive (fiber_at ?rn2 f)" "room (4 * n + 2) f ?rn2" "upgrades ?rn2 f" "fb_spawn (fiber_at ?rn2 f) \<noteq> None"
    "current_state (fiber_at ?rn2 f) = current_state (fiber_at rn1 f)" "fb_error (fiber_at ?rn2 f) = fb_error (fiber_at rn1 f)"
    using settled_put [OF r(2)] r(3,4) s1 by simp_all
  show ?thesis
  proof (cases "\<not> has_missing target \<and> current_state (fiber_at rn1 f) = Failed")
    case True
    obtain failure rn3 where p: "parked_failure f ?rn2 = (failure, rn3)" by force
    have "room 2 f ?rn2" by (rule publication_room_mono [OF s2(3)]) simp
    then have failed: "initial_answer env f (InitialFailed failure) (creation_teardown env f rn3)"
      using initial_failed [OF s2(1) _ _ _ p] True s2(6,7) r(7) by auto
    have "initial_loop (Suc n) env f (sch, rn) = Inr (InitialFailed failure, sch, creation_teardown env f rn3)"
      using t r(1) True p s2(6) by (simp add: Let_def)
    from answer [OF this failed assms(4)] show ?thesis by simp
  next
    case False
    obtain ag sch' rn' where x: "exit_recheck f target ?revision (sch, ?rn2) = Inr (ag, sch', rn')" "abides f ?rn2 rn'"
      "set sch' \<subseteq> turns" "length sch' \<le> length sch" "release_answer target ag rn'" "release_progress target sch ?rn2 ag sch'"
      using exit_recheck_outcome [OF s2(4,5) assms(4), of target ?revision] by blast
    have a: "abides f rn1 rn'" by (rule abides_trans [OF abides_slot [OF s1(1)] x(2)])
    have st: "settled f rn'" "fb_alive (fiber_at rn' f)" "room (4 * n + 2) f rn'"
      using settled_abides [OF a r(2)] abides_fields(5) [OF a] r(3,4) abides_room [OF a] by simp_all
    have shape: "same_shape f rn rn'" by (rule shape_trans [OF shape_settle_once [OF s(1) r(1)] shape_abides [OF a]])
    show ?thesis
    proof (cases ag)
      case True
      have "initial_loop (Suc n) env f (sch, rn) = initial_loop n env f (sch', rn')"
        using t r(1) False x(1) True s2(6) by (simp add: Let_def split: if_splits)
      then show ?thesis
        using st x(3) r(1) a
      proof (rule again)
        show "sch \<noteq> [] \<Longrightarrow> length sch' < length sch" using x(6) by (simp add: release_progress_def)
        show "sch = [] \<Longrightarrow> live_at f rn1 \<noteq> live_at f rn"
          using x(6) True target s1(1) by (simp add: release_progress_def)
        show "same_shape f rn rn'" by (rule shape)
      qed
    next
      case release: False
      let ?outcome = "if has_missing target then InitialPending else InitialActive"
      have "initial_loop (Suc n) env f (sch, rn) = Inr (?outcome, sch', rn')"
        using t r(1) False x(1) release s2(6) by (simp add: Let_def split: if_splits)
      moreover have "initial_answer env f ?outcome rn'"
        using st x(5) release False r(6,7) abides_fields(8) [OF a] s1(5)
        by (auto simp: initial_answer_def release_answer_def)
      ultimately show ?thesis using x(3) by (rule answer) (use st(3) shape in blast)+
    qed
  qed
qed

lemma initial_loop_answers:
  assumes "settled f rn" and "fb_alive (fiber_at rn f)" and "room (4 * n + 2) f rn" and "set sch \<subseteq> turns"
  shows "initial_loop n env f (sch, rn) = Inl OutOfRounds \<or>
    (\<exists>outcome sch' rn'. initial_loop n env f (sch, rn) = Inr (outcome, sch', rn') \<and> initial_answer env f outcome rn' \<and>
      set sch' \<subseteq> turns)"
  using assms
proof (induction n arbitrary: sch rn)
  case (Suc n)
  have "room (4 + (4 * n + 2)) f rn" using Suc.prems(3) by (simp add: ac_simps)
  from initial_round [OF Suc.prems(1,2) this Suc.prems(4)] show ?case
    by (cases) (use Suc.IH in auto)
qed simp

end

text \<open>States from which no settle of the Fiber moves its target.\<close>

locale steady_turns = foreign_turns +
  fixes calm :: "runtime \<Rightarrow> bool"
  assumes calm_abides: "calm rn \<Longrightarrow> abides f rn rn' \<Longrightarrow> calm rn'"
    and calm_settle: "calm rn \<Longrightarrow> upgrades rn f \<Longrightarrow> settle_once env f target owns rn = Some rn' \<Longrightarrow>
      calm rn' \<and> live_at f rn' = live_at f rn"
    and calm_replacing: "calm rn \<Longrightarrow> upgrades rn f \<Longrightarrow> calm (update_fiber f mark_replacing rn)"
begin

lemma initial_loop_ends:
  assumes "calm rn" and "settled f rn" and "fb_alive (fiber_at rn f)" and "room (4 * n + 2) f rn" and "set sch \<subseteq> turns" and "length sch < n"
  shows "\<exists>outcome sch' rn'. initial_loop n env f (sch, rn) = Inr (outcome, sch', rn') \<and> initial_answer env f outcome rn'"
  using assms
proof (induction n arbitrary: sch rn)
  case (Suc n)
  have rm: "room (4 + (4 * n + 2)) f rn" using Suc.prems(4) by (simp add: ac_simps)
  have up: "upgrades rn f" using settled_fields [OF Suc.prems(2)] by blast
  from Suc.prems(2,3) rm Suc.prems(5) show ?case
  proof (cases rule: initial_round)
    case answer
    then show ?thesis by blast
  next
    case (again sch' rn1 rn' target)
    note c = calm_settle [OF Suc.prems(1) up again(6)]
    with again(9) have "sch \<noteq> []" by blast
    with again(8) Suc.prems(6) have "length sch' < n" by simp
    moreover have "calm rn'" using c calm_abides [OF _ again(7)] by blast
    ultimately show ?thesis using Suc.IH [of rn' sch'] again(1-5) by simp
  qed
qed simp

end

section \<open>Convergence\<close>

text \<open>A released pass: settled, idle.\<close>

definition released :: "fid \<Rightarrow> runtime \<Rightarrow> bool" where
  "released f rn \<longleftrightarrow> settled f rn \<and> fb_alive (fiber_at rn f) \<and> is_idle (slot_of f rn)"

definition parked_answer :: "fid \<Rightarrow> (fiber \<Rightarrow> 'a) \<Rightarrow> runtime \<Rightarrow> plugin_failure + 'a" where
  "parked_answer f answer rn =
     (case fb_error (fiber_at rn f) of Some failure \<Rightarrow> Inl failure | None \<Rightarrow> Inr (answer (fiber_at rn f)))"

lemma parked_answer_abides:
  assumes "abides f rn rn'" and "\<forall>x y. protected x = protected y \<longrightarrow> answer x = answer y"
  shows "parked_answer f answer rn' = parked_answer f answer rn"
proof -
  have "protected (fiber_at rn' f) = protected (fiber_at rn f)" using assms(1) by (simp add: abides_def)
  with assms(2) have "answer (fiber_at rn' f) = answer (fiber_at rn f)" by blast
  with abides_fields(3) [OF assms(1)] show ?thesis by (simp add: parked_answer_def split: option.split)
qed

context foreign_turns
begin

lemma settle_release:
  assumes "settled f rn" and "fb_alive (fiber_at rn f)" and "room (4 + k) f rn" and "set sch \<subseteq> turns"
  obtains rn1 ag sch' rn' where "settle_once env f target False rn = Some rn1" and "settled f rn1"
    and "exit_recheck f target revision (sch, rn1) = Inr (ag, sch', rn')"
    and "abides f rn1 rn'" and "settled f rn'" and "fb_alive (fiber_at rn' f)" and "room k f rn'" and "set sch' \<subseteq> turns"
    and "release_answer target ag rn'" and "release_progress target sch rn1 ag sch'"
    and "fb_alive (fiber_at rn1 f)" and "room k f rn1" and "same_shape f rn rn'"
proof -
  obtain rn1 where r: "settle_once env f target False rn = Some rn1" "settled f rn1" "fb_alive (fiber_at rn1 f)" "room k f rn1"
    using settle_keeps [OF slot_environment_axioms assms(1-3), of target False] by blast
  note s1 = settled_fields [OF r(2)]
  obtain ag sch' rn' where x: "exit_recheck f target revision (sch, rn1) = Inr (ag, sch', rn')" "abides f rn1 rn'"
    "set sch' \<subseteq> turns" "length sch' \<le> length sch" "release_answer target ag rn'" "release_progress target sch rn1 ag sch'"
    by (rule exit_recheck_outcome [OF s1(1,2) assms(4), of target revision]) (rule that; assumption)
  have "settled f rn'" "fb_alive (fiber_at rn' f)" "room k f rn'"
    using settled_abides [OF x(2) r(2)] abides_fields(5) [OF x(2)] r(3,4) abides_room [OF x(2)] by simp_all
  moreover have "same_shape f rn rn'"
    by (rule shape_trans [OF shape_settle_once [OF settled_fields(1) [OF assms(1)] r(1)] shape_abides [OF x(2)]])
  ultimately show ?thesis by (rule that [OF r(1,2) x(1,2) _ _ _ x(3,5,6) r(3,4)])
qed

lemma committed_round:
  assumes "settled f rn" and "fb_alive (fiber_at rn f)" and "room (4 + (4 * n + 2)) f rn" and "set sch \<subseteq> turns"
    and dep: "\<forall>x y. protected x = protected y \<longrightarrow> answer x = answer y"
  obtains (answer) sch' rn' where "committed_loop (Suc n) env f answer target revision (sch, rn) = Inr (parked_answer f answer rn', sch', rn')"
      and "released f rn'" and "same_shape f rn rn'"
    | (again) sch' rn1 rn' live revision' where
        "committed_loop (Suc n) env f answer target revision (sch, rn) = committed_loop n env f answer live revision' (sch', rn')"
      and "settled f rn'" and "fb_alive (fiber_at rn' f)" and "room (4 * n + 2) f rn'" and "set sch' \<subseteq> turns"
      and "settle_once env f target False rn = Some rn1" and "abides f rn1 rn'" and "live_at f rn' = Some live"
      and "sch \<noteq> [] \<Longrightarrow> length sch' < length sch" and "sch = [] \<Longrightarrow> live_at f rn1 \<noteq> Some target"
      and "same_shape f rn rn'"
proof -
  obtain rn1 ag sch' rn' where r: "settle_once env f target False rn = Some rn1" "settled f rn1"
    "exit_recheck f target revision (sch, rn1) = Inr (ag, sch', rn')" "abides f rn1 rn'" "settled f rn'" "fb_alive (fiber_at rn' f)"
    "room (4 * n + 2) f rn'" "set sch' \<subseteq> turns" "release_answer target ag rn'" "release_progress target sch rn1 ag sch'"
    "same_shape f rn rn'"
    by (rule settle_release [OF assms(1-4), of target revision]) (rule that; assumption)
  note s' = settled_fields [OF r(5)]
  show ?thesis
  proof (cases ag)
    case True
    obtain live where live: "live_at f rn' = Some live" using live_at_installed [OF s'(2)] by blast
    then have t: "compute_target (fiber_at rn' f) rn' = Some live" by (simp add: live_at_def)
    let ?rn2 = "put_slot f (record_target live) rn'"
    have "committed_loop (Suc n) env f answer target revision (sch, rn) =
        committed_loop n env f answer live (recheck_revision f rn') (sch', ?rn2)"
      using r(1,3) True t by (simp add: Let_def)
    moreover have "settled f ?rn2" "fb_alive (fiber_at ?rn2 f)" "room (4 * n + 2) f ?rn2" "live_at f ?rn2 = Some live"
      using settled_put [OF r(5)] r(6,7) s'(1) live by simp_all
    moreover have "abides f rn1 ?rn2" by (rule abides_trans [OF r(4) abides_slot [OF s'(1)]])
    moreover have "sch \<noteq> [] \<Longrightarrow> length sch' < length sch" "sch = [] \<Longrightarrow> live_at f rn1 \<noteq> Some target"
      using r(10) True by (simp_all add: release_progress_def)
    moreover have "same_shape f rn ?rn2" by (rule shape_trans [OF r(11) shape_abides [OF abides_slot [OF s'(1)]]])
    ultimately show ?thesis using r(1,8) by (intro again)
  next
    case False
    have "committed_loop (Suc n) env f answer target revision (sch, rn) = Inr (parked_answer f answer rn1, sch', rn')"
      using r(1,3) False by (simp add: Let_def parked_answer_def)
    moreover have "parked_answer f answer rn' = parked_answer f answer rn1" by (rule parked_answer_abides [OF r(4) dep])
    moreover have "released f rn'" using r(5,6,9) False by (simp add: released_def release_answer_def)
    ultimately show ?thesis using answer r(11) by simp
  qed
qed

lemma committed_answers:
  assumes "settled f rn" and "fb_alive (fiber_at rn f)" and "room (4 * n + 2) f rn" and "set sch \<subseteq> turns"
    and dep: "\<forall>x y. protected x = protected y \<longrightarrow> answer x = answer y"
  shows "committed_loop n env f answer target revision (sch, rn) = Inl OutOfRounds \<or>
    (\<exists>sch' rn'. committed_loop n env f answer target revision (sch, rn) = Inr (parked_answer f answer rn', sch', rn') \<and> released f rn' \<and>
      same_shape f rn rn')"
  using assms(1-4)
proof (induction n arbitrary: sch rn target revision)
  case (Suc n)
  have "room (4 + (4 * n + 2)) f rn" using Suc.prems(3) by (simp add: ac_simps)
  from Suc.prems(1,2) this Suc.prems(4) dep show ?case
  proof (cases rule: committed_round [where target = target and revision = revision])
    case answer
    then show ?thesis by blast
  next
    case (again sch' rn1 rn' live revision')
    from Suc.IH [OF again(2-5), of live revision'] show ?thesis
      unfolding again(1) using shape_trans [OF again(11)] by blast
  qed
qed simp

end

context steady_turns
begin

lemma committed_ends:
  assumes "calm rn" and "live_at f rn = Some target" and "settled f rn" and "fb_alive (fiber_at rn f)" and "room (4 * n + 2) f rn"
    and "set sch \<subseteq> turns" and "length sch < n" and dep: "\<forall>x y. protected x = protected y \<longrightarrow> answer x = answer y"
  shows "\<exists>sch' rn'. committed_loop n env f answer target revision (sch, rn) = Inr (parked_answer f answer rn', sch', rn') \<and> released f rn'"
  using assms(1-7)
proof (induction n arbitrary: sch rn target revision)
  case (Suc n)
  have rm: "room (4 + (4 * n + 2)) f rn" using Suc.prems(5) by (simp add: ac_simps)
  have up: "upgrades rn f" using settled_fields [OF Suc.prems(3)] by blast
  from Suc.prems(3,4) rm Suc.prems(6) dep show ?case
  proof (cases rule: committed_round [where target = target and revision = revision])
    case answer
    then show ?thesis by blast
  next
    case (again sch' rn1 rn' live revision')
    note c = calm_settle [OF Suc.prems(1) up again(6)]
    have "sch \<noteq> []" using c again(10) Suc.prems(2) by auto
    with again(9) Suc.prems(7) have "length sch' < n" by simp
    moreover have "calm rn'" using c calm_abides [OF _ again(7)] by blast
    ultimately show ?thesis using Suc.IH [of rn' live sch' revision'] again(1-5,8) by simp
  qed
qed simp

end

context foreign_turns
begin

lemma convergence_round:
  assumes "settled f rn" and "fb_alive (fiber_at rn f)" and "room (4 + (4 * n + 2)) f rn" and "set sch \<subseteq> turns"
    and target: "sl_target (slot_of f rn) = Some target"
  obtains (answer) sch' rn' where "convergence_pass (Suc n) env f (sch, rn) = Inr ((), sch', rn')" and "released f rn'"
    | (again) sch' rn1 rn' live where
        "convergence_pass (Suc n) env f (sch, rn) = convergence_pass n env f (sch', rn')"
      and "settled f rn'" and "fb_alive (fiber_at rn' f)" and "room (4 * n + 2) f rn'" and "set sch' \<subseteq> turns"
      and "settle_once env f target False rn = Some rn1" and "abides f rn1 rn'" and "sl_target (slot_of f rn') = Some live"
      and "live_at f rn' = Some live"
      and "live_at f rn1 = Some target \<Longrightarrow> sch \<noteq> [] \<and> length sch' < length sch" and "length sch' \<le> length sch"
proof -
  let ?revision = "recheck_revision f rn"
  obtain rn1 ag sch' rn' where r: "settle_once env f target False rn = Some rn1" "settled f rn1"
    "exit_recheck f target ?revision (sch, rn1) = Inr (ag, sch', rn')" "abides f rn1 rn'" "settled f rn'" "fb_alive (fiber_at rn' f)"
    "room (4 * n + 2) f rn'" "set sch' \<subseteq> turns" "release_answer target ag rn'" "release_progress target sch rn1 ag sch'"
    "fb_alive (fiber_at rn1 f)" "room (4 * n + 2) f rn1"
    by (rule settle_release [OF assms(1-4), of target ?revision]) (rule that; assumption)
  note s1 = settled_fields [OF r(2)]
  obtain live where live: "live_at f rn1 = Some live" using live_at_installed [OF s1(2)] by blast
  then have t: "compute_target (fiber_at rn1 f) rn1 = Some live" by (simp add: live_at_def)
  show ?thesis
  proof (cases "live = target")
    case False
    let ?rn2 = "put_slot f (record_target live) rn1"
    have "convergence_pass (Suc n) env f (sch, rn) = convergence_pass n env f (sch, ?rn2)"
      using target r(1) t False by (simp add: Let_def)
    moreover have "settled f ?rn2" "fb_alive (fiber_at ?rn2 f)" "room (4 * n + 2) f ?rn2" "live_at f ?rn2 = Some live"
      "sl_target (slot_of f ?rn2) = Some live"
      using settled_put [OF r(2)] r(11,12) s1(1) live by (simp_all add: record_target_def)
    moreover have "abides f rn1 ?rn2" by (rule abides_slot [OF s1(1)])
    moreover have "live_at f rn1 \<noteq> Some target" using live False by simp
    ultimately show ?thesis using r(1) assms(4) by (intro again) auto
  next
    case same: True
    show ?thesis
    proof (cases ag)
      case True
      obtain live' where live': "live_at f rn' = Some live'" using live_at_installed [OF settled_fields(2) [OF r(5)]] by blast
      have "convergence_pass (Suc n) env f (sch, rn) = convergence_pass n env f (sch', rn')"
        using target r(1,3) t same True by (simp add: Let_def)
      moreover have "sl_target (slot_of f rn') = Some live'" using r(9) True live' by (simp add: release_answer_def)
      moreover have "sch \<noteq> [] \<and> length sch' < length sch"
        using r(10) True live same by (simp add: release_progress_def split: if_splits)
      ultimately show ?thesis using r(1,4-8) live' by (intro again) auto
    next
      case False
      have "convergence_pass (Suc n) env f (sch, rn) = Inr ((), sch', rn')"
        using target r(1,3) t same False by (simp add: Let_def)
      moreover have "released f rn'" using r(5,6,9) False by (simp add: released_def release_answer_def)
      ultimately show ?thesis by (rule answer)
    qed
  qed
qed

lemma convergence_answers:
  assumes "settled f rn" and "fb_alive (fiber_at rn f)" and "room (4 * n + 2) f rn" and "set sch \<subseteq> turns"
    and "sl_target (slot_of f rn) = Some target"
  shows "convergence_pass n env f (sch, rn) = Inl OutOfRounds \<or>
    (\<exists>sch' rn'. convergence_pass n env f (sch, rn) = Inr ((), sch', rn') \<and> released f rn')"
  using assms
proof (induction n arbitrary: sch rn target)
  case (Suc n)
  have "room (4 + (4 * n + 2)) f rn" using Suc.prems(3) by (simp add: ac_simps)
  from Suc.prems(1,2) this Suc.prems(4,5) show ?case
    by (cases rule: convergence_round) (use Suc.IH in auto)
qed simp

end

context steady_turns
begin

lemma convergence_ends:
  assumes "calm rn" and "settled f rn" and "fb_alive (fiber_at rn f)" and "room (4 * n + 2) f rn" and "set sch \<subseteq> turns"
    and "sl_target (slot_of f rn) = Some target" and "length sch + (if live_at f rn = Some target then 0 else 1) < n"
  shows "\<exists>sch' rn'. convergence_pass n env f (sch, rn) = Inr ((), sch', rn') \<and> released f rn'"
  using assms
proof (induction n arbitrary: sch rn target)
  case (Suc n)
  have rm: "room (4 + (4 * n + 2)) f rn" using Suc.prems(4) by (simp add: ac_simps)
  have up: "upgrades rn f" using settled_fields [OF Suc.prems(2)] by blast
  from Suc.prems(2,3) rm Suc.prems(5,6) show ?case
  proof (cases rule: convergence_round)
    case answer
    then show ?thesis by blast
  next
    case (again sch' rn1 rn' live)
    note c = calm_settle [OF Suc.prems(1) up again(6)]
    have "length sch' < n" using again(10,11) c Suc.prems(7) by (auto split: if_splits)
    moreover have "calm rn'" using c calm_abides [OF _ again(7)] by blast
    ultimately show ?thesis using Suc.IH [of rn' sch' live] again(1-5,8,9) by simp
  qed
qed simp

end

end
