(* ===== verification/Pass_Contract.thy ===== *)
theory Pass_Contract
  imports Pass_Properties
begin

text \<open>
  The contracts of the passes: what a spawn's initial pass, a restart and an update answer,
  when they answer at all, and the reliable wait \<open>ready\<close>.  The rules of the slot are discharged
  for turns that are kicks and scripts of the model's own operations.
\<close>

section \<open>Claimed at once\<close>

lemma claim_idle:
  "is_idle (slot_of f rn) \<Longrightarrow>
   claim_loop f sch rn = Inr ((), sch, put_slot f (\<lambda>_. (slot_of f rn)\<lparr>sl_inertia := INERTIA_ACTIVE\<rparr>) rn)"
  by (simp add: claim_loop.simps try_claim_def compare_exchange_def is_idle_def)

lemma life_put: "life_inv f rn \<Longrightarrow> life_inv f (put_slot f g rn)"
  by (rule life_keep) (simp_all add: life_inv_def)

lemma life_settled: "life_inv f rn \<Longrightarrow> fb_alive (fiber_at rn f) \<Longrightarrow> settled f rn"
  by (simp add: life_inv_def)

lemma life_dead: "life_inv f rn \<Longrightarrow> \<not> fb_alive (fiber_at rn f) \<Longrightarrow> disposed_for_good f rn"
  by (simp add: life_inv_def)

lemma replacing_keeps:
  assumes "settled f rn"
  shows "settled f (update_fiber f mark_replacing rn)" and "live_at f (update_fiber f mark_replacing rn) = live_at f rn"
    and "slot_of f (update_fiber f mark_replacing rn) = slot_of f rn"
    and "fb_state (fiber_at (update_fiber f mark_replacing rn) f) = fb_state (fiber_at rn f)"
    and "fb_alive (fiber_at (update_fiber f mark_replacing rn) f) = fb_alive (fiber_at rn f)"
proof -
  note s = settled_fields [OF assms]
  have at: "fiber_at (update_fiber f mark_replacing rn) f = mark_replacing (fiber_at rn f)" by (rule update_fiber_same [OF s(1)])
  show "settled f (update_fiber f mark_replacing rn)"
    using assms s(1) by (simp add: settled_def Let_def at update_path)
  have "occurrence_id (update_fiber f mark_replacing rn) key name = occurrence_id rn key name" for key name
    by (rule update_fiber_occurrence) simp_all
  then show "live_at f (update_fiber f mark_replacing rn) = live_at f rn"
    by (simp add: live_at_def at compute_target_def mark_replacing_def split: sum.split)
  show "slot_of f (update_fiber f mark_replacing rn) = slot_of f rn"
    "fb_state (fiber_at (update_fiber f mark_replacing rn) f) = fb_state (fiber_at rn f)"
    "fb_alive (fiber_at (update_fiber f mark_replacing rn) f) = fb_alive (fiber_at rn f)"
    by (simp_all add: slot_of_def at mark_replacing_def)
qed

text \<open>A restart is over: what its answer says of the Fiber.\<close>

definition restart_answer :: "fid \<Rightarrow> restart_error + unit \<Rightarrow> runtime \<Rightarrow> bool" where
  "restart_answer f result rn \<longleftrightarrow>
     (case result of
        Inr _ \<Rightarrow> released f rn \<and> current_state (fiber_at rn f) \<in> {Active, Pending}
      | Inl (RestartApply failure) \<Rightarrow>
          released f rn \<and> current_state (fiber_at rn f) = Failed \<and> fb_error (fiber_at rn f) = Some failure \<and> no_obligation f rn
      | Inl RestartClosed \<Rightarrow> disposed_for_good f rn \<and> is_idle (slot_of f rn)
      | Inl (RestartRecursion _) \<Rightarrow> False)"

lemma restart_answer_parked:
  assumes "released f rn" and "parked_answer f (\<lambda>_. ()) rn = r"
  shows "restart_answer f (case r of Inl failure \<Rightarrow> Inl (RestartApply failure) | Inr _ \<Rightarrow> Inr ()) rn"
proof -
  have s: "settled f rn" using assms(1) by (simp add: released_def)
  note sf = settled_fields [OF s]
  show ?thesis
  proof (cases "fb_error (fiber_at rn f)")
    case None
    with assms sf(4,5) show ?thesis by (auto simp: restart_answer_def parked_answer_def)
  next
    case (Some e)
    with sf(5) have "current_state (fiber_at rn f) = Failed" by simp
    moreover from this s have "no_obligation f rn" by (simp add: settled_def Let_def no_obligation_def)
    ultimately show ?thesis using Some assms by (auto simp: restart_answer_def parked_answer_def)
  qed
qed

definition restart_entry :: "fid \<Rightarrow> runtime \<Rightarrow> runtime" where
  "restart_entry f rn =
     update_fiber f mark_replacing
       (put_slot f (record_target (the (live_at f rn)) \<circ> (\<lambda>_. (slot_of f rn)\<lparr>sl_inertia := INERTIA_ACTIVE\<rparr>)) rn)"

lemma restart_runs:
  assumes "settled f rn" and "fb_alive (fiber_at rn f)" and "is_idle (slot_of f rn)"
  shows "restart_pass n env f (sch, rn) =
      (case committed_loop n env f (\<lambda>_. ()) (the (live_at f rn)) (recheck_revision f rn) (sch, restart_entry f rn) of
         Inl stop \<Rightarrow> Inl stop
       | Inr (Inl failure, w) \<Rightarrow> Inr (Inl (RestartApply failure), w)
       | Inr (Inr _, w) \<Rightarrow> Inr (Inr (), w))"
    and "settled f (restart_entry f rn)" and "fb_alive (fiber_at (restart_entry f rn) f)"
    and "live_at f (restart_entry f rn) = live_at f rn" and "room k f (restart_entry f rn) = room k f rn"
proof -
  note s = settled_fields [OF assms(1)]
  let ?rn1 = "put_slot f (\<lambda>_. (slot_of f rn)\<lparr>sl_inertia := INERTIA_ACTIVE\<rparr>) rn"
  obtain live where live: "live_at f rn = Some live" using live_at_installed [OF s(2)] by blast
  have twice: "put_slot f (record_target live) ?rn1 =
      put_slot f (record_target live \<circ> (\<lambda>_. (slot_of f rn)\<lparr>sl_inertia := INERTIA_ACTIVE\<rparr>)) rn"
    using s(1) by (auto simp: update_fiber_def on_fiber_slot_def upgrades_def)
  have t: "compute_target (fiber_at ?rn1 f) ?rn1 = Some live" using live s(1) by (simp add: live_at_def)
  have rev: "recheck_revision f ?rn1 = recheck_revision f rn" using s(1) by (simp add: recheck_revision_def)
  show "restart_pass n env f (sch, rn) =
      (case committed_loop n env f (\<lambda>_. ()) (the (live_at f rn)) (recheck_revision f rn) (sch, restart_entry f rn) of
         Inl stop \<Rightarrow> Inl stop
       | Inr (Inl failure, w) \<Rightarrow> Inr (Inl (RestartApply failure), w)
       | Inr (Inr _, w) \<Rightarrow> Inr (Inr (), w))"
    using assms(2,3) s(1) t rev live twice
    by (simp add: restart_pass_def claim_idle is_alive_def Let_def restart_committed_def restart_entry_def)
  have st: "settled f (put_slot f (record_target live \<circ> (\<lambda>_. (slot_of f rn)\<lparr>sl_inertia := INERTIA_ACTIVE\<rparr>)) rn)"
    by (rule settled_put [OF assms(1)])
  note rk = replacing_keeps [OF st]
  show "settled f (restart_entry f rn)" "fb_alive (fiber_at (restart_entry f rn) f)"
    "live_at f (restart_entry f rn) = live_at f rn" "room k f (restart_entry f rn) = room k f rn"
    using rk assms(2) s(1) live by (simp_all add: restart_entry_def)
qed

section \<open>Fibers without dependencies\<close>

lemma edgeless_steady:
  assumes "foreign_turns env f turns"
  shows "steady_turns env f turns (\<lambda>rn. fb_edges (fiber_at rn f) = [])"
proof (rule steady_turns.intro [OF assms])
  have env: "slot_environment env f" using assms by (rule foreign_turns.axioms)
  show "steady_turns_axioms env f (\<lambda>rn. fb_edges (fiber_at rn f) = [])"
  proof
    fix rn rn' target owns
    assume e: "fb_edges (fiber_at rn f) = []"
    show "abides f rn rn' \<Longrightarrow> fb_edges (fiber_at rn' f) = []"
      using shape_abides [of f rn rn'] e by (simp add: same_shape_def)
    show "fb_edges (fiber_at rn' f) = [] \<and> live_at f rn' = live_at f rn"
      if "upgrades rn f" "settle_once env f target owns rn = Some rn'"
      using slot_environment.shape_settle_once [OF env that] e edgeless_live [OF e, of rn'] by (simp add: same_shape_def)
    show "fb_edges (fiber_at (update_fiber f mark_replacing rn) f) = []" if "upgrades rn f"
      using e that by (simp add: update_fiber_same)
  qed
qed

section \<open>Scripted turns\<close>

text \<open>A turn of another task: one of the scripted operations, or a kick of this Fiber.\<close>

datatype user_turn = TurnAct user_act | TurnKick

definition kick_turn :: "fid \<Rightarrow> runtime \<Rightarrow> runtime" where
  "kick_turn f rn = (case kick_slot f ([], rn) of Inr (_, _, rn') \<Rightarrow> rn' | Inl _ \<Rightarrow> rn)"

definition run_turn :: "fid \<Rightarrow> user_turn \<Rightarrow> runtime \<Rightarrow> runtime" where
  "run_turn f u = (case u of TurnAct a \<Rightarrow> run_act f a | TurnKick \<Rightarrow> kick_turn f)"

definition scripted_turns :: "fid \<Rightarrow> (runtime \<Rightarrow> runtime) set" where
  "scripted_turns f = range (run_turn f)"

lemma drift_commit_word:
  assumes "drift_commit es rn = (fs, rn')"
  shows "map_option (\<lambda>x. sl_inertia (fb_slot x)) (rn_heap rn' g) = map_option (\<lambda>x. sl_inertia (fb_slot x)) (rn_heap rn g)"
proof -
  have "sl_inertia (fb_slot ((commit_slot_recheck ^^ n) x)) = sl_inertia (fb_slot x)" for n x
    by (induction n) (simp_all add: commit_slot_recheck_def commit_recheck_def)
  then show ?thesis by (simp add: drift_commit_frame(8) [OF assms] option.map_comp comp_def)
qed

lemma run_act_word: "upgrades rn f \<Longrightarrow> sl_inertia (slot_of f (run_act f a rn)) = sl_inertia (slot_of f rn)"
proof (cases a)
  case (ActEffect callback)
  moreover have "fb_slot (snd (effect callback x x)) = fb_slot x" for x
    by (simp add: effect_def register_cleanup_eq)
  ultimately show "upgrades rn f \<Longrightarrow> ?thesis" by (simp add: run_act_def slot_of_def update_fiber_same)
next
  case (ActReleaseToken t)
  moreover have "fb_slot (snd (remove_disposable t x)) = fb_slot x" for x
    by (simp add: remove_disposable_def case_prod_beta)
  ultimately show "upgrades rn f \<Longrightarrow> ?thesis" by (simp add: run_act_def slot_of_def update_fiber_same)
next
  case (ActWithdraw key name occurrence)
  then show ?thesis by (simp add: run_act_def slot_of_def fiber_at_def)
next
  case (ActDrift es)
  obtain fs rn' where d: "drift_commit es rn = (fs, rn')" by force
  assume "upgrades rn f"
  with drift_commit_word [OF d, of f] ActDrift d show ?thesis
    by (cases "rn_heap rn' f") (auto simp: run_act_def slot_of_def fiber_at_def drift_kick_def upgrades_def)
qed

lemma kick_turn_held:
  assumes "upgrades rn f" and "\<not> is_idle (slot_of f rn)"
  shows "kick_turn f rn = rn \<or>
    sl_inertia (slot_of f rn) = INERTIA_RELEASING \<and> kick_turn f rn = put_slot f (store_inertia INERTIA_ACTIVE) rn"
  using assms by (auto simp: kick_turn_def kick_slot_def Let_def is_idle_def)

lemma scripted_turns_foreign:
  assumes "slot_environment env f"
  shows "foreign_turns env f (scripted_turns f)"
proof (rule foreign_turns.intro [OF assms])
  show "foreign_turns_axioms f (scripted_turns f)"
  proof
    fix g rn
    assume g: "g \<in> scripted_turns f" and up: "upgrades rn f" and busy: "\<not> is_idle (slot_of f rn)"
    from g obtain u where u: "g = run_turn f u" by (auto simp: scripted_turns_def)
    show "abides f rn (g rn)"
      using u run_act_abides [OF up] kick_turn_held [OF up busy] abides_refl [OF up] abides_slot [OF up]
      by (cases u) (auto simp: run_turn_def)
    show "sl_inertia (slot_of f (g rn)) = sl_inertia (slot_of f rn) \<or>
      sl_inertia (slot_of f rn) = INERTIA_RELEASING \<and> sl_inertia (slot_of f (g rn)) = INERTIA_ACTIVE"
      using u run_act_word [OF up] kick_turn_held [OF up busy] up
      by (cases u) (auto simp: run_turn_def store_inertia_def)
  qed
qed

interpretation scripted: foreign_turns "scripted_env outcome acts report cleanup_acts" f "scripted_turns f"
  for outcome acts report cleanup_acts f
  by (rule scripted_turns_foreign [OF scripted.slot_environment_axioms])

interpretation edgeless: steady_turns "scripted_env outcome acts report cleanup_acts" f "scripted_turns f"
    "\<lambda>rn. fb_edges (fiber_at rn f) = []"
  for outcome acts report cleanup_acts f
  by (rule edgeless_steady [OF scripted.foreign_turns_axioms])

text \<open>The same for an update, which also says that the Fiber now runs on the new input.\<close>

definition update_answer :: "fid \<Rightarrow> spawn_state \<Rightarrow> update_error + fiber_state \<Rightarrow> runtime \<Rightarrow> bool" where
  "update_answer f spawn result rn \<longleftrightarrow>
     released f rn \<and> fb_spawn (fiber_at rn f) = spawn \<and>
     (case result of
        Inr state \<Rightarrow> current_state (fiber_at rn f) = state \<and> state \<in> {Active, Pending}
      | Inl e \<Rightarrow>
          (\<exists>failure. e = UpdateApply failure \<and> current_state (fiber_at rn f) = Failed \<and>
             fb_error (fiber_at rn f) = Some failure \<and> no_obligation f rn))"

lemma update_answer_parked:
  assumes "released f rn" and "fb_spawn (fiber_at rn f) = spawn" and "parked_answer f current_state rn = r"
  shows "update_answer f spawn (case r of Inl failure \<Rightarrow> Inl (UpdateApply failure) | Inr state \<Rightarrow> Inr state) rn"
proof -
  have s: "settled f rn" using assms(1) by (simp add: released_def)
  note sf = settled_fields [OF s]
  show ?thesis
  proof (cases "fb_error (fiber_at rn f)")
    case None
    with assms sf(4,5) show ?thesis by (auto simp: update_answer_def parked_answer_def)
  next
    case (Some e)
    with sf(5) have "current_state (fiber_at rn f) = Failed" by simp
    moreover from this s have "no_obligation f rn" by (simp add: settled_def Let_def no_obligation_def)
    ultimately show ?thesis using Some assms by (auto simp: update_answer_def parked_answer_def)
  qed
qed

definition install_change :: "fid \<Rightarrow> spawn_state \<Rightarrow> runtime \<Rightarrow> runtime" where
  "install_change f spawn rn = (update_fiber f (\<lambda>x. x\<lparr>fb_spawn := spawn\<rparr>) rn)\<lparr>rn_next := Suc (rn_next rn)\<rparr>"

lemma install_change_keeps:
  assumes "settled f rn" and "spawn \<noteq> None"
  shows "settled f (install_change f spawn rn)" and "slot_of f (install_change f spawn rn) = slot_of f rn"
    and "fb_state (fiber_at (install_change f spawn rn) f) = fb_state (fiber_at rn f)"
    and "fb_alive (fiber_at (install_change f spawn rn) f) = fb_alive (fiber_at rn f)"
    and "fb_spawn (fiber_at (install_change f spawn rn) f) = spawn"
proof -
  note s = settled_fields [OF assms(1)]
  have up: "upgrades (install_change f spawn rn) f"
    using update_fiber_frame(1) [of f "\<lambda>x. x\<lparr>fb_spawn := spawn\<rparr>" rn f] s(1) by (simp add: install_change_def upgrades_def)
  have at: "fiber_at (install_change f spawn rn) f = (fiber_at rn f)\<lparr>fb_spawn := spawn\<rparr>"
    using update_fiber_same [OF s(1), of "\<lambda>x. x\<lparr>fb_spawn := spawn\<rparr>"] by (simp add: install_change_def fiber_at_def)
  have h: "history f (install_change f spawn rn) = history f rn" by (simp add: install_change_def history_def update_fiber_def)
  show "settled f (install_change f spawn rn)"
    using assms up at h by (simp add: settled_def Let_def on_path_def current_state_def)
  show "slot_of f (install_change f spawn rn) = slot_of f rn"
    "fb_state (fiber_at (install_change f spawn rn) f) = fb_state (fiber_at rn f)"
    "fb_alive (fiber_at (install_change f spawn rn) f) = fb_alive (fiber_at rn f)"
    "fb_spawn (fiber_at (install_change f spawn rn) f) = spawn"
    by (simp_all add: slot_of_def at)
qed

section \<open>The properties\<close>


text \<open>
  A committed update never answers wrongly.  Once its change is accepted, the Fiber runs on
  the new input; the state it answers is the state the Fiber settled in, \<open>Active\<close> or \<open>Pending\<close>,
  and \<open>UpdateError::Apply\<close> carries the very failure the Fiber has parked, in \<open>Failed\<close> and with
  every obligation rolled back.  The admission is lost exactly to a disposal, and then the
  sealed inputs are untouched.
\<close>

lemma update_pass_answers:
  assumes "foreign_turns env f turns" and "life_inv f rn" and "is_idle (slot_of f rn)" and "room (4 * n + 2) f rn"
    and "set sch \<subseteq> turns" and "commit_change (rn_next rn) change seals (fb_spawn (fiber_at rn f)) = (Inr superseded, seals', spawn)"
  shows "case update_pass n env f change seals (sch, rn) of
      (_, Inl stop) \<Rightarrow> stop = OutOfRounds
    | (seals1, Inr (result, _, rn')) \<Rightarrow>
        if fb_alive (fiber_at rn f) then seals1 = seals' \<and> update_answer f spawn result rn'
        else seals1 = seals \<and> result = Inl AdmissionLost \<and> disposed_for_good f rn'"
proof (cases "fb_alive (fiber_at rn f)")
  case False
  have up: "upgrades rn f" using assms(2) by (simp add: life_inv_def)
  let ?rn1 = "put_slot f (\<lambda>_. (slot_of f rn)\<lparr>sl_inertia := INERTIA_ACTIVE\<rparr>) rn"
  have "disposed_for_good f (put_slot f abandon ?rn1)"
    by (rule life_dead [OF life_put [OF life_put [OF assms(2)]]]) (use up False in simp)
  then show ?thesis using up False assms(3) by (simp add: update_pass_def claim_idle is_alive_def)
next
  case True
  have st: "settled f rn" by (rule life_settled [OF assms(2) True])
  let ?rnc = "put_slot f (\<lambda>_. (slot_of f rn)\<lparr>sl_inertia := INERTIA_ACTIVE\<rparr>) rn"
  let ?rn1 = "update_fiber f mark_replacing ?rnc"
  let ?rn2 = "install_change f spawn ?rn1"
  have stc: "settled f ?rnc" by (rule settled_put [OF st])
  have up: "upgrades rn f" "upgrades ?rnc f" using settled_fields(1) [OF st] settled_fields(1) [OF stc] by blast+
  note k1 = replacing_keeps [OF stc]
  have some: "spawn \<noteq> None" using assms(6) by (auto simp: commit_change_def split: option.splits sum.splits prod.splits)
  note k2 = install_change_keeps [OF k1(1) some]
  obtain live where live: "live_at f ?rn2 = Some live" using live_at_installed [OF settled_fields(2) [OF k2(1)]] by blast
  let ?rn3 = "put_slot f (record_target live) ?rn2"
  have st3: "settled f ?rn3" by (rule settled_put [OF k2(1)])
  have f3: "fb_alive (fiber_at ?rn3 f)" "room (4 * n + 2) f ?rn3" "fb_spawn (fiber_at ?rn3 f) = spawn"
    using settled_fields(1) [OF k2(1)] k2(3-5) k1(4,5) True assms(4) up by simp_all
  let ?loop = "committed_loop n env f current_state live (recheck_revision f ?rn2) (sch, ?rn3)"
  have sp: "fb_spawn (fiber_at ?rn1 f) = fb_spawn (fiber_at rn f)" "rn_next ?rn1 = rn_next rn"
    using up by (simp_all add: update_fiber_same)
  have t: "compute_target (fiber_at ?rn2 f) ?rn2 = Some live" using live by (simp add: live_at_def)
  have install: "(update_fiber f (\<lambda>x. x\<lparr>fb_spawn := spawn\<rparr>) ?rn1)\<lparr>rn_next := Suc (rn_next rn)\<rparr> = ?rn2"
    by (simp add: install_change_def)
  have run: "update_pass n env f change seals (sch, rn) = (seals',
      case ?loop of Inl stop \<Rightarrow> Inl stop
      | Inr (Inl failure, w) \<Rightarrow> Inr (Inl (UpdateApply failure), w)
      | Inr (Inr state, w) \<Rightarrow> Inr (Inr state, w))"
    using True assms(3,6) up sp t install
    by (simp add: update_pass_def claim_idle is_alive_def Let_def update_committed_def)
  have dep: "\<forall>x y. protected x = protected y \<longrightarrow> current_state x = current_state y" using protected_fields(7) by blast
  from foreign_turns.committed_answers [OF assms(1) st3 f3(1,2) assms(5) dep, of live "recheck_revision f ?rn2"]
  consider "?loop = Inl OutOfRounds"
    | sch' rn' where "?loop = Inr (parked_answer f current_state rn', sch', rn')" "released f rn'" "same_shape f ?rn3 rn'" by blast
  then show ?thesis
  proof cases
    case 1
    then show ?thesis by (simp add: run)
  next
    case 2
    have "fb_spawn (fiber_at rn' f) = spawn" using 2(3) f3(3) by (simp add: same_shape_def)
    from update_answer_parked [OF 2(2) this refl] 2(1) True show ?thesis
      by (cases "parked_answer f current_state rn'") (simp_all add: run)
  qed
qed

text \<open>
  C13: The initial pass of a spawn leaves no half-made Fiber.  \<open>Active\<close> and \<open>Pending\<close> are
  answered with the Fiber settled in that state and its slot released, \<open>Failed\<close> with the failure
  the apply reported and the Fiber disposed for good and unlinked.  It panics on no path, and
  where no settle moves the target it answers within one round more than other tasks have turns.
\<close>

theorem initial_pass_answers:
  assumes "foreign_turns env f turns" and "settled f rn" and "fb_alive (fiber_at rn f)" and "room (4 * n + 2) f rn"
    and "set sch \<subseteq> turns"
  shows "(case initial_loop n env f (sch, rn) of
            Inl stop \<Rightarrow> stop = OutOfRounds
          | Inr (outcome, _, rn') \<Rightarrow> initial_answer env f outcome rn') \<and>
    (steady_turns env f turns calm \<and> calm rn \<and> length sch < n \<longrightarrow> initial_loop n env f (sch, rn) \<noteq> Inl OutOfRounds)"
proof
  show "case initial_loop n env f (sch, rn) of
      Inl stop \<Rightarrow> stop = OutOfRounds | Inr (outcome, _, rn') \<Rightarrow> initial_answer env f outcome rn'"
    using foreign_turns.initial_loop_answers [OF assms] by (auto split: sum.split)
  show "steady_turns env f turns calm \<and> calm rn \<and> length sch < n \<longrightarrow> initial_loop n env f (sch, rn) \<noteq> Inl OutOfRounds"
    using steady_turns.initial_loop_ends [OF _ _ assms(2-5), where calm = calm] by fastforce
qed

section \<open>Witnesses\<close>

lemma newborn_rooms: "Suc k < 2 ^ 64 \<Longrightarrow> room k 2 newborn_runtime"
proof -
  assume "Suc k < 2 ^ 64"
  have "set (sp_revisions (publication_new Pending)) \<subseteq> {0, 1}"
    using set_update_subset_insert [of "replicate 6 (0 :: u64)" 2 1] by (auto simp: publication_new_def)
  then have "\<forall>r \<in> set (sp_revisions (publication_new Pending)). unat r \<le> 1" by auto
  then have "publication_room k (publication_new Pending)"
    unfolding publication_room_def using \<open>Suc k < 2 ^ 64\<close> by (fastforce simp: publication_new_def publication_wf_def)
  then show ?thesis by (simp add: newborn_fields)
qed

lemma newborn_slot: "is_idle (slot_of 2 newborn_runtime)" "fb_edges (fiber_at newborn_runtime 2) = []"
  by (simp_all add: slot_of_def newborn_fields) (simp_all add: newborn_fiber_def fiber_new_with_edges_def slot_new_def is_idle_def)

abbreviation demo_turns :: schedule where
  "demo_turns \<equiv> [run_turn 2 TurnKick]"

lemma demo_turns_allowed: "set demo_turns \<subseteq> scripted_turns 2"
  by (auto simp: scripted_turns_def)

lemma demo_foreign: "foreign_turns demo_env 2 (scripted_turns 2)"
  by (rule scripted.foreign_turns_axioms)

lemma demo_steady: "steady_turns demo_env 2 (scripted_turns 2) (\<lambda>rn. fb_edges (fiber_at rn 2) = [])"
  by (rule edgeless.steady_turns_axioms)


definition demo_seals :: seals where
  "demo_seals = (\<lambda>_. None)(7 := Some \<lparr>tp_contract = 5, tp_input_type = 6, tp_state = Some (7, 8)\<rparr>)"

definition demo_change :: prepared_change where
  "demo_change = \<lparr>pc_contract = 5, pc_input_type = 6, pc_input = 9\<rparr>"

theorem initial_pass_answers_witness:
  "\<exists>outcome sch' rn'. initial_loop 2 demo_env 2 (demo_turns, newborn_runtime) = Inr (outcome, sch', rn') \<and>
     initial_answer demo_env 2 outcome rn'"
proof -
  have rm: "room (4 * 2 + 2) 2 newborn_runtime" by (rule newborn_rooms) simp
  have alive: "fb_alive (fiber_at newborn_runtime 2)" by (simp add: newborn_fields)
  note r = initial_pass_answers [OF demo_foreign newborn_settled [OF newborn_demo] alive rm demo_turns_allowed,
      where calm = "\<lambda>rn. fb_edges (fiber_at rn 2) = []"]
  then show ?thesis using demo_steady newborn_slot(2)
    by (cases "initial_loop 2 demo_env 2 (demo_turns, newborn_runtime)") auto
qed

end
