(* ===== verification/Ready_Wait.thy ===== *)
theory Ready_Wait
  imports Pass_Contract
begin

text \<open>
  The reliable wait \<open>FiberHandle::ready\<close> (\<open>fiber/mod.rs\<close>): what it answers, that it answers at
  once on a quiescent Fiber, and the state of a disposed Fiber in which it never returns.
\<close>

lemma interfere_set: "interfere (sch, rn) = (sch', rn') \<Longrightarrow> set sch' \<subseteq> set sch"
  by (cases sch) auto

lemma exit_recheck_set: "exit_recheck f aim revision w = Inr (again, sch', rn') \<Longrightarrow> set sch' \<subseteq> set (fst w)"
proof (induction f aim revision w rule: exit_recheck.induct)
  case (1 f aim revision sch rn)
  have up: "upgrades rn f" using "1.prems" by (simp add: exit_recheck.simps split: if_splits)
  obtain sch1 rn1 where e1: "interfere (sch, put_slot f (store_inertia INERTIA_RELEASING) rn) = (sch1, rn1)" by force
  note s1 = interfere_set [OF e1]
  obtain live where live: "compute_target (fiber_at rn1 f) rn1 = Some live"
    using "1.prems" up e1 by (cases "compute_target (fiber_at rn1 f) rn1") (simp_all add: exit_recheck.simps)
  consider (drift) "live \<noteq> aim" | (revised) "live = aim" "recheck_revision f rn1 \<noteq> revision"
    | (acknowledge) "live = aim" "recheck_revision f rn1 = revision" by blast
  then show ?case
  proof cases
    case drift
    with "1.prems" up e1 live s1 show ?thesis by (simp add: exit_recheck.simps Let_def)
  next
    case revised
    have "exit_recheck f aim revision (sch, rn) = exit_recheck f aim (recheck_revision f rn1) (sch1, rn1)"
      using up e1 live revised by (subst exit_recheck.simps) (simp add: Let_def)
    with "1.IH"(1) [of sch1 rn1 live "recheck_revision f rn1"] "1.prems" up e1 live revised s1 show ?thesis by auto
  next
    case acknowledge
    obtain sch2 rn2 where e2: "interfere (sch1, put_slot f (store_settled revision) rn1) = (sch2, rn2)" by force
    note s2 = interfere_set [OF e2]
    obtain r sl where c: "compare_exchange INERTIA_RELEASING INERTIA_IDLE (slot_of f rn2) = (r, sl)" by force
    show ?thesis
    proof (cases r)
      case (Inr u)
      with "1.prems" up e1 live acknowledge e2 c s1 s2 show ?thesis by (simp add: exit_recheck.simps Let_def)
    next
      case (Inl other)
      have eq: "exit_recheck f aim revision (sch, rn) =
          (if other = INERTIA_ACTIVE then exit_recheck f aim (recheck_revision f rn2) (sch2, rn2) else Inl PassPanic)"
        using up e1 live acknowledge e2 c Inl by (subst exit_recheck.simps) (simp add: Let_def)
      then have act: "other = INERTIA_ACTIVE" using "1.prems" by (simp split: if_splits)
      with "1.IH"(2) [of sch1 rn1 live "recheck_revision f rn1" sch2 rn2 r sl other] eq "1.prems" up e1 live acknowledge e2 c Inl s1 s2
      show ?thesis by auto
    qed
  qed
qed

lemma kick_slot_set:
  assumes "kick_slot f w = Inr ((), sch', rn')"
  shows "set sch' \<subseteq> set (fst w)"
proof -
  obtain sch rn where w: "w = (sch, rn)" by force
  let ?rn1 = "put_slot f (store_inertia INERTIA_ACTIVE) rn"
  have x: "set s \<subseteq> set sch" if "exit_recheck f aim (recheck_revision f ?rn1) (sch, ?rn1) = Inr (b, s, r)" for aim b s r
    using exit_recheck_set [OF that] by simp
  show ?thesis
    using assms unfolding w kick_slot_def Let_def
    by (auto split: if_splits option.splits sum.splits dest!: x)
qed

lemma wait_idle_set: "wait_idle f sch rn = Inr ((), sch', rn') \<Longrightarrow> set sch' \<subseteq> set sch \<and> is_idle (slot_of f rn')"
proof (induction sch arbitrary: rn)
  case Nil
  then show ?case by (simp split: if_splits)
next
  case (Cons g gs)
  then show ?case by (cases "is_idle (slot_of f rn)") auto
qed

section \<open>What it answers\<close>

text \<open>Nobody changes the published state without advancing its sequence.\<close>

definition sequenced :: "fid \<Rightarrow> (runtime \<Rightarrow> runtime) \<Rightarrow> bool" where
  "sequenced f g \<longleftrightarrow>
     (\<forall>rn. sp_sequence (fb_state (fiber_at (g rn) f)) = sp_sequence (fb_state (fiber_at rn f)) \<longrightarrow>
        fb_state (fiber_at (g rn) f) = fb_state (fiber_at rn f))"

definition ready_answer :: "fid \<Rightarrow> ready_error + fiber_state \<Rightarrow> runtime \<Rightarrow> bool" where
  "ready_answer f result rn \<longleftrightarrow>
     is_idle (slot_of f rn) \<and> \<not> has_committed_recheck (slot_of f rn) \<and>
     (case result of
        Inr state \<Rightarrow> current_state (fiber_at rn f) = state \<and> state \<in> {Active, Pending, Disposed}
      | Inl (ReadyApply failure) \<Rightarrow> current_state (fiber_at rn f) = Failed \<and> fb_error (fiber_at rn f) = Some failure
      | Inl (ReadyRecursion _) \<Rightarrow> False)"

lemma interfere_sequenced:
  assumes "interfere (sch, rn) = (sch', rn')" and "\<forall>g \<in> set sch. sequenced f g"
    and "sp_sequence (fb_state (fiber_at rn' f)) = sp_sequence (fb_state (fiber_at rn f))"
  shows "fb_state (fiber_at rn' f) = fb_state (fiber_at rn f)"
  using assms by (cases sch) (auto simp: sequenced_def)

text \<open>One round of the loop; \<open>again\<close> is what it does next.\<close>

definition ready_body ::
  "(fid \<Rightarrow> world \<Rightarrow> (ready_error + fiber_state) pass_run option) \<Rightarrow> fid \<Rightarrow> world \<Rightarrow> (ready_error + fiber_state) pass_run option"
where
  "ready_body again f w =
     (case (if has_committed_recheck (slot_of f (snd w)) \<and> has_root f (snd w) then kick_slot f w else Inr ((), w)) of
        Inl stop \<Rightarrow> Some (Inl stop)
      | Inr (_, sch1, rn1) \<Rightarrow>
          (case wait_idle f sch1 rn1 of
             Inl stop \<Rightarrow> Some (Inl stop)
           | Inr (_, sch2, rn2) \<Rightarrow>
               (case publication_observe (fb_state (fiber_at rn2 f)) of (observed, sequence) \<Rightarrow>
                  (case interfere (sch2, rn2) of (sch3, rn3) \<Rightarrow>
                     if \<not> is_idle (slot_of f rn3) \<or> has_committed_recheck (slot_of f rn3) then again f (sch3, rn3)
                     else if sp_sequence (fb_state (fiber_at rn3 f)) \<noteq> sequence then again f (sch3, rn3)
                     else if observed = Failed
                     then (case fb_error (fiber_at rn3 f) of
                             Some failure \<Rightarrow> Some (Inr (Inl (ReadyApply failure), sch3, rn3))
                           | None \<Rightarrow> again f (sch3, rn3))
                     else if observed \<in> {Loading, Unloading} then Some (Inl PassPanic)
                     else Some (Inr (Inr observed, sch3, rn3))))))"

lemma ready_unfold: "ready_loop f w = ready_body ready_loop f w"
  by (subst ready_loop.simps) (simp only: ready_body_def)

lemma ready_round:
  assumes body: "ready_body again f w = Some r" and seq: "\<forall>g \<in> set (fst w). sequenced f g" and r: "r = Inr (result, sch', rn')"
  obtains (round) w' where "again f w' = Some r" and "\<forall>g \<in> set (fst w'). sequenced f g"
    | (answer) "ready_answer f result rn'"
proof -
  obtain sch rn where w: "w = (sch, rn)" by force
  let ?kick = "if has_committed_recheck (slot_of f rn) \<and> has_root f rn then kick_slot f w else Inr ((), w)"
  obtain sch1 rn1 where k: "?kick = Inr ((), sch1, rn1)"
    using body r w by (cases ?kick) (auto simp: ready_body_def)
  have s1: "\<forall>g \<in> set sch1. sequenced f g"
    using k seq kick_slot_set [of f w sch1 rn1] w by (auto split: if_splits)
  obtain sch2 rn2 where i: "wait_idle f sch1 rn1 = Inr ((), sch2, rn2)"
    using body r w k by (cases "wait_idle f sch1 rn1") (auto simp: ready_body_def)
  have s2: "\<forall>g \<in> set sch2. sequenced f g" using wait_idle_set [OF i] s1 by blast
  obtain observed sequence where o: "publication_observe (fb_state (fiber_at rn2 f)) = (observed, sequence)" by force
  obtain sch3 rn3 where e: "interfere (sch2, rn2) = (sch3, rn3)" by force
  have s3: "\<forall>g \<in> set sch3. sequenced f g" using interfere_set [OF e] s2 by blast
  have eq: "Some r = (if \<not> is_idle (slot_of f rn3) \<or> has_committed_recheck (slot_of f rn3) then again f (sch3, rn3)
      else if sp_sequence (fb_state (fiber_at rn3 f)) \<noteq> sequence then again f (sch3, rn3)
      else if observed = Failed
      then (case fb_error (fiber_at rn3 f) of
              Some failure \<Rightarrow> Some (Inr (Inl (ReadyApply failure), sch3, rn3))
            | None \<Rightarrow> again f (sch3, rn3))
      else if observed \<in> {Loading, Unloading} then Some (Inl PassPanic)
      else Some (Inr (Inr observed, sch3, rn3)))"
    using body [unfolded ready_body_def w] k [unfolded w] i o e by simp
  show ?thesis
  proof (cases "Some r = again f (sch3, rn3)")
    case True
    then show ?thesis using s3 by (intro round [of "(sch3, rn3)"]) simp_all
  next
    case False
    then have q: "is_idle (slot_of f rn3)" "\<not> has_committed_recheck (slot_of f rn3)"
      "sp_sequence (fb_state (fiber_at rn3 f)) = sequence"
      using eq by (simp_all split: if_splits)
    have "sp_sequence (fb_state (fiber_at rn3 f)) = sp_sequence (fb_state (fiber_at rn2 f))"
      using q(3) o by (simp add: publication_observe_def)
    then have "fb_state (fiber_at rn3 f) = fb_state (fiber_at rn2 f)" by (rule interfere_sequenced [OF e s2])
    then have st: "current_state (fiber_at rn3 f) = observed" using o by (simp add: current_state_def publication_observe_def)
    show ?thesis
    proof (rule answer)
      show "ready_answer f result rn'"
      using eq False q st r
      by (cases observed) (auto simp: ready_answer_def split: if_splits option.splits)
    qed
  qed
qed

lemma ready_loop_answers:
  assumes "ready_loop f w = Some r" and "\<forall>g \<in> set (fst w). sequenced f g" and "r = Inr (result, sch', rn')"
  shows "ready_answer f result rn'"
proof -
  have "\<forall>result sch' rn'. (\<forall>g \<in> set (fst w). sequenced f g) \<longrightarrow> r = Inr (result, sch', rn') \<longrightarrow> ready_answer f result rn'"
  proof (rule ready_loop.raw_induct [OF _ assms(1)], intro allI impI, goal_cases)
    case (1 loop f w r result sch' rn')
    from 1(2) have "ready_body loop f w = Some r" by (simp only: ready_body_def)
    from this 1(3,4) show ?case
      by (cases rule: ready_round) (use 1(1,4) in blast)+
  qed
  with assms(2,3) show ?thesis by blast
qed

section \<open>The properties\<close>

text \<open>
  A \<open>ready\<close> that answers tells the truth, under every schedule of other tasks.  At the
  moment it returns the slot is idle and no recheck is outstanding; \<open>Ok(state)\<close> is the published
  state and is \<open>Active\<close>, \<open>Pending\<close> or \<open>Disposed\<close>, never a transient one, and
  \<open>ReadyError::Apply\<close> is the failure parked beside \<open>Failed\<close>.  A self-wait is refused before
  anything is touched.
\<close>

theorem ready_answers_current:
  assumes "handle_ready t st f w = Some (Inr (result, sch', rn'))" and "\<forall>g \<in> set (fst w). sequenced f g"
  shows "(\<exists>e. result = Inl (ReadyRecursion e) \<and> (sch', rn') = w) \<or> ready_answer f result rn'"
proof (cases "refuse_recursion t f (fb_draining (fiber_at (snd w) f)) OpReady st")
  case (Inr u)
  with assms(1) have "ready_loop f w = Some (Inr (result, sch', rn'))" by (simp add: handle_ready_def)
  from ready_loop_answers [OF this assms(2) refl] show ?thesis ..
qed (use assms(1) in \<open>auto simp: handle_ready_def\<close>)

lemma ready_body_disposed:
  assumes "disposed_for_good f rn" and "is_idle (slot_of f rn)"
  shows "ready_body again f ([], rn) =
    (if has_committed_recheck (slot_of f rn) then again f ([], rn) else Some (Inr (Inr Disposed, [], rn)))"
  using assms
  by (simp add: ready_body_def kick_slot_def is_alive_def disposed_for_good_def publication_observe_def current_state_def)

text \<open>
  C19: On a disposed Fiber nobody else acts on, \<open>ready\<close> answers \<open>Disposed\<close> exactly when no
  committed recheck is outstanding; with one outstanding its loop never ends.  A kick of a dead
  Fiber returns at once, the slot is idle so nothing is awaited, and the disposal settled no
  revision, so every round comes back to where it began.
\<close>

theorem ready_on_disposed:
  assumes "disposed_for_good f rn" and "is_idle (slot_of f rn)"
  shows "ready_loop f ([], rn) =
    (if has_committed_recheck (slot_of f rn) then None else Some (Inr (Inr Disposed, [], rn)))"
proof (cases "has_committed_recheck (slot_of f rn)")
  case True
  have "h = f \<longrightarrow> w = ([], rn) \<longrightarrow> False" if "ready_loop h w = Some y" for h w and y :: "(ready_error + fiber_state) pass_run"
  proof (rule ready_loop.raw_induct [where P = "\<lambda>h w y. h = f \<longrightarrow> w = ([], rn) \<longrightarrow> False", OF _ that], intro impI, goal_cases)
    case (1 loop h w y)
    from 1(2) have "ready_body loop h w = Some y" by (simp only: ready_body_def)
    then have "ready_body loop f ([], rn) = Some y" by (simp only: 1(3,4))
    with ready_body_disposed [OF assms, of loop] True have "loop f ([], rn) = Some y" by simp
    with 1(1) show ?case by blast
  qed
  then have "ready_loop f ([], rn) = None" by (cases "ready_loop f ([], rn)") blast+
  with True show ?thesis by simp
next
  case False
  with ready_body_disposed [OF assms, of ready_loop] show ?thesis by (subst ready_unfold) simp
qed

section \<open>Witnesses\<close>

text \<open>A Service moved while no executor was current; then the Fiber was disposed.\<close>

definition orphaned_runtime :: runtime where
  "orphaned_runtime = snd (dispose_claimed demo_env 2 (update_fiber 2 commit_slot_recheck newborn_runtime))"

lemma orphaned_code: "disposed_for_good 2 orphaned_runtime \<and> is_idle (slot_of 2 orphaned_runtime) \<and>
    has_committed_recheck (slot_of 2 orphaned_runtime)"
  by code_simp

theorem ready_on_disposed_witness: "ready_loop 2 ([], orphaned_runtime) = None"
  using ready_on_disposed [of 2 orphaned_runtime] orphaned_code by simp

definition disposed_runtime :: runtime where
  "disposed_runtime = snd (dispose_claimed demo_env 2 newborn_runtime)"

lemma disposed_code: "disposed_for_good 2 disposed_runtime \<and> is_idle (slot_of 2 disposed_runtime) \<and>
    \<not> has_committed_recheck (slot_of 2 disposed_runtime) \<and> refuse_recursion 0 2 (fb_draining (fiber_at disposed_runtime 2)) OpReady att_init = Inr ()"
  by code_simp

theorem ready_answers_current_witness: "ready_answer 2 (Inr Disposed) disposed_runtime"
proof -
  have "ready_loop 2 ([], disposed_runtime) = Some (Inr (Inr Disposed, [], disposed_runtime))"
    using ready_body_disposed [of 2 disposed_runtime ready_loop] disposed_code by (subst ready_unfold) simp
  then have "handle_ready 0 att_init 2 ([], disposed_runtime) = Some (Inr (Inr Disposed, [], disposed_runtime))"
    using disposed_code by (simp add: handle_ready_def)
  from ready_answers_current [OF this] show ?thesis by simp
qed

end
