(* ===== verification/Spawn.thy ===== *)
theory Spawn
  imports Ready_Wait
begin

text \<open>
  The spawn transaction (\<open>crates/cordis-core/src/fiber/spawn.rs\<close>): admission, the residency
  commit, the initial pass and the handoff recheck, and the creation guard that takes over when
  the caller drops the future.

  The sealed Plugin moves from its \<open>PreparedPlugin\<close> to a fresh seal of the store of seals.
\<close>

datatype spawn_error = InactiveContext | InitialApply plugin_failure | SpawnInterrupted

definition plugin_failure_display :: "plugin_failure \<Rightarrow> string" where
  "plugin_failure_display failure =
     (case pf_kind failure of
        PluginReturnedError \<Rightarrow> ''returned an error: '' @ pf_diagnostic failure
      | PluginPanic \<Rightarrow> ''panicked: '' @ pf_diagnostic failure)"

definition spawn_error_display :: "spawn_error \<Rightarrow> string" where
  "spawn_error_display e =
     (case e of
        InactiveContext \<Rightarrow> ''the spawning context's fiber generation is closed to new fibers''
      | InitialApply failure \<Rightarrow> ''the initial apply '' @ plugin_failure_display failure
      | SpawnInterrupted \<Rightarrow> ''the creation was invalidated by the framework before its FiberHandle was delivered'')"

definition dependency_edges :: "ctx \<Rightarrow> inject_spec \<Rightarrow> dependency_edge list" where
  "dependency_edges cx inject = map (\<lambda>entry. (ie_name entry, isolate_key cx (ie_name entry))) (inject_entries inject)"

definition spawn_scope :: "ident \<Rightarrow> ctx \<Rightarrow> inject_spec \<Rightarrow> ctx" where
  "spawn_scope fresh cx inject =
     fold (\<lambda>entry scope. case ie_configured entry of
             None \<Rightarrow> scope
           | Some configured \<Rightarrow> with_configured_intercept (ie_name entry) configured scope)
       (inject_entries inject) (with_child_scope fresh cx)"

definition set_creation_pending :: "bool \<Rightarrow> fiber \<Rightarrow> fiber" where
  "set_creation_pending b x = x\<lparr>fb_creation_pending := b\<rparr>"

text \<open>
  From the allocation to the observation of the new residency; the fresh identities are the
  Fiber, its seal, its scope node and its effective input.  \<open>None\<close> is an assertion of the
  Registry or the \<open>expect\<close> on the installation.
\<close>

definition spawn_commit :: "ctx \<Rightarrow> prepared_plugin \<Rightarrow> seals \<Rightarrow> runtime \<Rightarrow> (fid \<times> seals \<times> runtime) option" where
  "spawn_commit cx prepared seals rn =
     (let f = rn_next rn; seal = f + 1; scope = f + 2; input = f + 3;
          inject = pp_inject prepared; key = TypedKey (pp_contract prepared);
          x = set_creation_pending True (fiber_new_with_edges (pp_name prepared) (dependency_edges cx inject))
      in case attach_fiber key f (rn_registry rn) of
           None \<Rightarrow> None
         | Some registry \<Rightarrow>
             (case spawn_state_install input seal (pp_name prepared) inject (spawn_scope scope cx inject) key cx (fb_spawn x) of
                (Inl _, _) \<Rightarrow> None
              | (Inr _, spawn) \<Rightarrow>
                  (let rn1 = rn\<lparr>rn_heap := (rn_heap rn)(f \<mapsto> x\<lparr>fb_spawn := spawn\<rparr>), rn_next := f + 4, rn_registry := registry\<rparr>;
                       rn2 = rn1\<lparr>rn_deps := deps_register (alive_at rn1) (edges_at rn1) f (rn_deps rn1)\<rparr>
                   in Some (f, seals(seal \<mapsto> pp_plugin prepared), observe (FiberResidencyAdded f) rn2))))"

text \<open>Delivery after the initial pass: wait the slot back, then judge whether the Fiber is alive.\<close>

definition spawn_handoff :: "fid \<Rightarrow> initial_outcome \<Rightarrow> world \<Rightarrow> (spawn_error + fid) pass_run" where
  "spawn_handoff f outcome w =
     (case w of (sch, rn) \<Rightarrow>
        (if outcome = InitialActive \<or> outcome = InitialPending
         then (case claim_loop f sch rn of
                 Inl stop \<Rightarrow> Inl stop
               | Inr (_, sch1, rn1) \<Rightarrow>
                   (let alive = is_alive (fiber_at rn1 f); rn2 = put_slot f abandon rn1
                    in if alive then Inr (Inr f, sch1, update_fiber f (set_creation_pending False) rn2)
                       else Inr (Inl SpawnInterrupted, sch1, release_resident f rn2)))
         else (case outcome of
                 InitialFailed failure \<Rightarrow> Inr (Inl (InitialApply failure), sch, rn)
               | _ \<Rightarrow> Inr (Inl SpawnInterrupted, sch, rn))))"

definition spawn_prepared_inner ::
  "nat \<Rightarrow> lifecycle_env \<Rightarrow> ctx \<Rightarrow> prepared_plugin \<Rightarrow> bool \<Rightarrow> seals \<Rightarrow> world \<Rightarrow> seals \<times> (spawn_error + fid) pass_run"
where
  "spawn_prepared_inner n env cx prepared require_origin_open seals w =
     (case w of (sch, rn) \<Rightarrow>
        if require_origin_open \<and> assert_can_register (fiber_at rn (cx_fiber cx)) \<noteq> Inr ()
        then (seals, Inr (Inl InactiveContext, sch, rn))
        else (case spawn_commit cx prepared seals rn of
                None \<Rightarrow> (seals, Inl PassPanic)
              | Some (f, seals', rn1) \<Rightarrow>
                  (seals',
                   case initial_spawn_pass n env f (interfere (sch, rn1)) of
                     Inl stop \<Rightarrow> Inl stop
                   | Inr (outcome, w1) \<Rightarrow> spawn_handoff f outcome w1)))"

definition spawn_prepared :: "nat \<Rightarrow> lifecycle_env \<Rightarrow> ctx \<Rightarrow> prepared_plugin \<Rightarrow> seals \<Rightarrow> world \<Rightarrow> seals \<times> (spawn_error + fid) pass_run" where
  "spawn_prepared n env cx prepared seals w = spawn_prepared_inner n env cx prepared True seals w"

definition spawn_prepared_era_successor ::
  "nat \<Rightarrow> lifecycle_env \<Rightarrow> ctx \<Rightarrow> prepared_plugin \<Rightarrow> seals \<Rightarrow> world \<Rightarrow> seals \<times> (spawn_error + fid) pass_run"
where
  "spawn_prepared_era_successor n env cx prepared seals w = spawn_prepared_inner n env cx prepared False seals w"

text \<open>\<open>CreationGuard\<close>: armed with the Fiber until an ending is delivered.\<close>

definition guard_disarm :: "fid option \<Rightarrow> fid option" where
  "guard_disarm g = None"

definition creation_guard_drop ::
  "lifecycle_env \<Rightarrow> fid option \<Rightarrow> (runtime \<Rightarrow> runtime) \<Rightarrow> runtime \<Rightarrow> runtime option"
where
  "creation_guard_drop env g claim_slot rn =
     (case g of None \<Rightarrow> Some rn | Some f \<Rightarrow> creation_interrupted_teardown env f rn claim_slot)"

section \<open>The commit\<close>

lemma attach_fresh:
  assumes "registry_wf r" and "f \<notin> set (snapshot_fibers r)"
  shows "\<exists>r'. attach_fiber key f r = Some r'"
proof -
  obtain g r1 where c: "current_or_new key r = (g, r1)" by force
  have "map_of (rg_claims r) f = None" using assms registry_wfD(2) [OF assms(1), of f] by (simp add: snapshot_fibers_def)
  moreover have "rg_claims r1 = rg_claims r" using c by (auto simp: current_or_new_def split: option.splits)
  moreover have "\<exists>pg. map_of (rg_groups r1) g = Some pg"
  proof (cases "map_of (rg_allocations r) key")
    case None
    with c show ?thesis by (auto simp: current_or_new_def)
  next
    case (Some h)
    with assms(1) have "\<exists>pg. map_of (rg_groups r) h = Some pg" unfolding registry_wf_def by blast
    with Some c show ?thesis by (simp add: current_or_new_def)
  qed
  ultimately show ?thesis using c by (auto simp: attach_fiber_def)
qed

text \<open>What the commit leaves of the Runtime beside the new Fiber.\<close>

lemma spawn_commit_effect:
  assumes "registry_wf (rn_registry rn)" and "rn_next rn \<notin> set (snapshot_fibers (rn_registry rn))" and "history (rn_next rn) rn = []"
  obtains seals' rn' x where "spawn_commit cx prepared seals rn = Some (rn_next rn, seals', rn')"
    and "newborn (rn_next rn) rn'" and "is_idle (slot_of (rn_next rn) rn')"
    and "fb_state (fiber_at rn' (rn_next rn)) = publication_new Pending" and "fb_creation_pending (fiber_at rn' (rn_next rn))"
    and "fb_edges (fiber_at rn' (rn_next rn)) = dependency_edges cx (pp_inject prepared)"
    and "snapshot_fibers (rn_registry rn') = snapshot_fibers (rn_registry rn) @ [rn_next rn]"
    and "\<not> fb_dispose_complete (fiber_at rn' (rn_next rn))"
proof -
  let ?f = "rn_next rn"
  let ?key = "TypedKey (pp_contract prepared)"
  obtain r' where r': "attach_fiber ?key ?f (rn_registry rn) = Some r'" using attach_fresh [OF assms(1,2)] by blast
  have res: "snapshot_fibers r' = snapshot_fibers (rn_registry rn) @ [?f]"
    using attach_fiber_effect [OF assms(1) r'] by (simp add: snapshot_fibers_def)
  obtain seals' rn' where s: "spawn_commit cx prepared seals rn = Some (?f, seals', rn')"
    using r' by (simp add: spawn_commit_def Let_def spawn_state_install_def set_creation_pending_def fiber_new_with_edges_def)
  obtain spawn where rn': "fiber_at rn' ?f = (set_creation_pending True
        (fiber_new_with_edges (pp_name prepared) (dependency_edges cx (pp_inject prepared))))\<lparr>fb_spawn := Some spawn\<rparr>"
    "upgrades rn' ?f"
    "history ?f rn' = history ?f rn" "rn_registry rn' = r'"
    using s r' by (auto simp: spawn_commit_def Let_def spawn_state_install_def set_creation_pending_def fiber_new_with_edges_def
        observe_def fiber_at_def upgrades_def history_def map_filter_append List.map_filter_simps)
  then have f: "fb_alive (fiber_at rn' ?f)" "current_state (fiber_at rn' ?f) = Pending" "fb_error (fiber_at rn' ?f) = None"
    "jr_map (fb_journal (fiber_at rn' ?f)) = []" "fb_slot (fiber_at rn' ?f) = slot_new"
    "fb_state (fiber_at rn' ?f) = publication_new Pending" "fb_creation_pending (fiber_at rn' ?f)"
    "fb_edges (fiber_at rn' ?f) = dependency_edges cx (pp_inject prepared)" "fb_spawn (fiber_at rn' ?f) \<noteq> None"
    "\<not> fb_dispose_complete (fiber_at rn' ?f)"
    by (simp_all add: set_creation_pending_def fiber_new_with_edges_def current_state_def
        publication_new_def journal_new_def)
  show ?thesis
    by (rule that [OF s])
      (use f rn' assms(3) res in \<open>simp_all add: newborn_def no_obligation_def slot_of_def slot_new_def is_idle_def\<close>)
qed

section \<open>Other tasks around the creation\<close>

text \<open>
  Whatever the state of the slot, other tasks keep the life invariant of the Fiber, revive
  nothing, relink nothing and use up a bounded number of transitions.
\<close>

locale open_turns = foreign_turns +
  assumes turn_life: "g \<in> turns \<Longrightarrow> life_inv f rn \<Longrightarrow> life_inv f (g rn)"
    and turn_dead: "g \<in> turns \<Longrightarrow> life_inv f rn \<Longrightarrow> \<not> fb_alive (fiber_at rn f) \<Longrightarrow> \<not> fb_alive (fiber_at (g rn) f)"
    and turn_unlinked: "g \<in> turns \<Longrightarrow> life_inv f rn \<Longrightarrow> map_of (rg_claims (rn_registry rn)) f = None \<Longrightarrow>
      map_of (rg_claims (rn_registry (g rn))) f = None"
    and turn_room: "g \<in> turns \<Longrightarrow> life_inv f rn \<Longrightarrow> room (8 + k) f rn \<Longrightarrow> room k f (g rn)"
begin

definition ended :: "runtime \<Rightarrow> bool" where
  "ended rn \<longleftrightarrow> life_inv f rn \<and> \<not> fb_alive (fiber_at rn f) \<and> map_of (rg_claims (rn_registry rn)) f = None"

lemma interfere_life:
  assumes "interfere (sch, rn) = (sch', rn')" and "set sch \<subseteq> turns" and "life_inv f rn"
  shows "life_inv f rn'" and "set sch' \<subseteq> turns" and "ended rn \<Longrightarrow> ended rn'"
    and "room (8 * length sch + k) f rn \<Longrightarrow> room (8 * length sch' + k) f rn'" and "length sch' \<le> length sch"
  using assms turn_life turn_dead turn_unlinked turn_room [of "hd sch" rn "8 * length sch' + k"]
  by (cases sch; auto simp: ended_def ac_simps)+

lemma claim_loop_life:
  assumes "set sch \<subseteq> turns" and "life_inv f rn"
  shows "claim_loop f sch rn = Inl StillWaiting \<or>
    (\<exists>sch' rn'. claim_loop f sch rn = Inr ((), sch', rn') \<and> life_inv f rn' \<and> set sch' \<subseteq> turns \<and>
       (\<forall>k. room (8 * length sch + k) f rn \<longrightarrow> room (8 * length sch' + k) f rn') \<and> length sch' \<le> length sch \<and> \<not> is_idle (slot_of f rn'))"
  using assms
proof (induction sch arbitrary: rn)
  case Nil
  then have up: "upgrades rn f" by (simp add: life_inv_def)
  show ?case
  proof (cases "is_idle (slot_of f rn)")
    case True
    with Nil up life_put [OF Nil(2), of "\<lambda>_. (slot_of f rn)\<lparr>sl_inertia := INERTIA_ACTIVE\<rparr>"] show ?thesis
      by (simp add: claim_idle) (simp add: is_idle_def)
  next
    case False
    then show ?thesis by (simp add: claim_loop.simps try_claim_def compare_exchange_def is_idle_def)
  qed
next
  case (Cons g gs)
  then have up: "upgrades rn f" by (simp add: life_inv_def)
  show ?case
  proof (cases "is_idle (slot_of f rn)")
    case True
    with Cons.prems up life_put [OF Cons.prems(2), of "\<lambda>_. (slot_of f rn)\<lparr>sl_inertia := INERTIA_ACTIVE\<rparr>"] show ?thesis
      by (simp add: claim_idle) (simp add: is_idle_def)
  next
    case False
    then have "claim_loop f (g # gs) rn = claim_loop f gs (g rn)"
      by (subst claim_loop.simps) (simp add: try_claim_def compare_exchange_def is_idle_def)
    moreover have "room (8 * length gs + k) f (g rn)" if "room (8 * length (g # gs) + k) f rn" for k
      using turn_room [of g rn "8 * length gs + k"] Cons.prems that by (simp add: ac_simps)
    ultimately show ?thesis using Cons.IH [of "g rn"] Cons.prems turn_life [of g rn] by fastforce
  qed
qed

end

section \<open>The property\<close>

definition spawn_answer :: "lifecycle_env \<Rightarrow> fid \<Rightarrow> spawn_error + fid \<Rightarrow> runtime \<Rightarrow> bool" where
  "spawn_answer env f result rn \<longleftrightarrow>
     life_inv f rn \<and>
     (case result of
        Inr h \<Rightarrow> h = f \<and> settled f rn \<and> fb_alive (fiber_at rn f) \<and> is_idle (slot_of f rn) \<and> \<not> fb_creation_pending (fiber_at rn f)
      | Inl e \<Rightarrow>
          disposed_for_good f rn \<and> map_of (rg_claims (rn_registry rn)) f = None \<and> e \<noteq> InactiveContext \<and>
          (\<forall>failure. e = InitialApply failure \<longrightarrow> apply_reported env f (Some failure)))"

context open_turns
begin

lemma life_slot: "life_inv f rn \<Longrightarrow> ended rn \<Longrightarrow> ended (put_slot f g rn)"
  using life_put [of f rn g] by (simp add: ended_def life_inv_def)

lemma ended_for_good: "ended rn \<Longrightarrow> disposed_for_good f rn"
  by (simp add: ended_def life_dead)

lemma ended_release:
  assumes "life_inv f rn" and "\<not> fb_alive (fiber_at rn f)"
  shows "ended (release_resident f rn)"
  using release_life [OF assms(1)] release_resident_claims assms(2) by (simp add: ended_def)

lemma spawn_handoff_answers:
  assumes life: "life_inv f rn" and ts: "set sch \<subseteq> turns"
    and out: "outcome \<noteq> InitialActive \<and> outcome \<noteq> InitialPending \<longrightarrow> ended rn"
    and failed: "\<forall>failure. outcome = InitialFailed failure \<longrightarrow> apply_reported env f (Some failure)"
  shows "case spawn_handoff f outcome (sch, rn) of
      Inl stop \<Rightarrow> stop = StillWaiting | Inr (result, _, rn') \<Rightarrow> spawn_answer env f result rn'"
proof (cases "outcome = InitialActive \<or> outcome = InitialPending")
  case False
  with out have e: "ended rn" by blast
  with ended_for_good [OF e] False failed life show ?thesis
    by (cases outcome) (simp_all add: spawn_handoff_def spawn_answer_def ended_def)
next
  case True
  show ?thesis
  proof (cases "claim_loop f sch rn")
    case (Inl stop)
    with claim_loop_life [OF ts life] True show ?thesis by (auto simp: spawn_handoff_def)
  next
    case (Inr a)
    with claim_loop_life [OF ts life] obtain sch1 rn1 where c: "claim_loop f sch rn = Inr ((), sch1, rn1)" "life_inv f rn1"
      by auto
    let ?rn2 = "put_slot f abandon rn1"
    have up: "upgrades rn1 f" using c(2) by (simp add: life_inv_def)
    have l2: "life_inv f ?rn2" by (rule life_put [OF c(2)])
    show ?thesis
    proof (cases "fb_alive (fiber_at rn1 f)")
      case alive: True
      let ?rn3 = "update_fiber f (set_creation_pending False) ?rn2"
      have l3: "life_inv f ?rn3" by (rule life_keep [OF _ l2]) (use up in \<open>simp_all add: set_creation_pending_def\<close>)
      have at: "fiber_at ?rn3 f = set_creation_pending False (on_fiber_slot abandon (fiber_at rn1 f))"
        using up by (simp add: update_fiber_same)
      have run: "spawn_handoff f outcome (sch, rn) = Inr (Inr f, sch1, ?rn3)"
        using True c(1) alive by (simp add: spawn_handoff_def is_alive_def Let_def)
      have al3: "fb_alive (fiber_at ?rn3 f)" using at alive by (simp add: set_creation_pending_def)
      have "settled f ?rn3" by (rule life_settled [OF l3 al3])
      with l3 al3 at show ?thesis
        unfolding run by (simp add: spawn_answer_def slot_of_def set_creation_pending_def abandon_def is_idle_def)
    next
      case False
      have run: "spawn_handoff f outcome (sch, rn) = Inr (Inl SpawnInterrupted, sch1, release_resident f ?rn2)"
        using True c(1) False by (simp add: spawn_handoff_def is_alive_def Let_def)
      have "ended (release_resident f ?rn2)" by (rule ended_release [OF l2]) (use up False in simp)
      with ended_for_good [OF this] show ?thesis unfolding run by (simp add: spawn_answer_def ended_def)
    qed
  qed
qed

lemma initial_spawn_pass_answers:
  assumes life: "life_inv f rn" and ts: "set sch \<subseteq> turns" and rm: "room (8 * length sch + (4 * n + 2)) f rn"
  shows "case initial_spawn_pass n env f (sch, rn) of
      Inl stop \<Rightarrow> stop = StillWaiting \<or> stop = OutOfRounds
    | Inr (outcome, sch', rn') \<Rightarrow>
        life_inv f rn' \<and> set sch' \<subseteq> turns \<and> (outcome \<noteq> InitialActive \<and> outcome \<noteq> InitialPending \<longrightarrow> ended rn') \<and>
        (\<forall>failure. outcome = InitialFailed failure \<longrightarrow> apply_reported env f (Some failure))"
proof (cases "claim_loop f sch rn")
  case (Inl stop)
  with claim_loop_life [OF ts life] show ?thesis by (auto simp: initial_spawn_pass_def)
next
  case (Inr a)
  with claim_loop_life [OF ts life] obtain sch1 rn1 where c: "claim_loop f sch rn = Inr ((), sch1, rn1)" "life_inv f rn1"
    "set sch1 \<subseteq> turns" "\<forall>k. room (8 * length sch + k) f rn \<longrightarrow> room (8 * length sch1 + k) f rn1" by auto
  have up: "upgrades rn1 f" using c(2) by (simp add: life_inv_def)
  show ?thesis
  proof (cases "fb_alive (fiber_at rn1 f)")
    case False
    have "ended (put_slot f abandon (release_resident f rn1))"
      using life_slot [OF release_life [OF c(2)] ended_release [OF c(2) False]] by simp
    with c(1,3) False show ?thesis by (simp add: initial_spawn_pass_def is_alive_def ended_def)
  next
    case True
    let ?rn2 = "put_slot f (set_creation_owned True) rn1"
    have st: "settled f ?rn2" by (rule settled_put [OF life_settled [OF c(2) True]])
    have al: "fb_alive (fiber_at ?rn2 f)" using up True by simp
    have "room (8 * length sch1 + (4 * n + 2)) f rn1" using c(4) rm by blast
    then have "room (4 * n + 2) f rn1" by (rule publication_room_mono) simp
    then have rm2: "room (4 * n + 2) f ?rn2" using up by simp
    from initial_loop_answers [OF st al rm2 c(3)]
    consider (rounds) "initial_loop n env f (sch1, ?rn2) = Inl OutOfRounds"
      | (answer) outcome sch3 rn3 where "initial_loop n env f (sch1, ?rn2) = Inr (outcome, sch3, rn3)"
        "initial_answer env f outcome rn3" "set sch3 \<subseteq> turns" by blast
    then show ?thesis
    proof cases
      case rounds
      with c(1) True show ?thesis by (simp add: initial_spawn_pass_def is_alive_def)
    next
      case answer
      have l3: "life_inv f rn3"
        using answer(2) settled_fields [of f rn3] by (cases outcome) (auto simp: initial_answer_def life_inv_def)
      obtain sch4 rn4 where e: "interfere (sch3, rn3) = (sch4, rn4)" by force
      note i = interfere_life [OF e answer(3) l3]
      let ?rn5 = "put_slot f (set_creation_owned False) rn4"
      let ?rn6 = "if is_idle (slot_of f ?rn5) then ?rn5 else put_slot f abandon ?rn5"
      have run: "initial_spawn_pass n env f (sch, rn) = Inr (outcome, sch4, ?rn6)"
        using c(1) True answer(1) e by (simp add: initial_spawn_pass_def is_alive_def Let_def)
      have l6: "life_inv f ?rn6" using life_put [OF life_put [OF i(1)]] life_put [OF i(1)] by simp
      have end6: "ended ?rn6" if "outcome \<noteq> InitialActive \<and> outcome \<noteq> InitialPending"
      proof -
        have "ended rn3" using answer(2) that l3
          by (cases outcome) (auto simp: initial_answer_def ended_def disposed_for_good_def)
        then have e4: "ended rn4" by (rule i(3))
        have "ended ?rn5" by (rule life_slot [OF i(1) e4])
        with life_slot [OF life_put [OF i(1)] this, of abandon] show ?thesis by simp
      qed
      show ?thesis unfolding run using l6 end6 i(2) answer(2) by (auto simp: initial_answer_def)
    qed
  qed
qed

end

section \<open>Scripted turns\<close>

lemma put_slot_twice: "put_slot f g (put_slot f h rn) = put_slot f (g \<circ> h) rn"
proof -
  have "on_fiber_slot g (on_fiber_slot h x) = on_fiber_slot (g \<circ> h) x" for x
    by (simp add: on_fiber_slot_def)
  then show ?thesis by (simp add: update_fiber_def option.map_comp comp_def)
qed

text \<open>A guarded release nobody interferes with touches the slot alone.\<close>

lemma exit_recheck_quiet:
  assumes "upgrades rn f" and "live_at f rn = Some live"
  shows "\<exists>g. exit_recheck f aim revision ([], rn) = Inr (live \<noteq> aim, [], put_slot f g rn)"
proof -
  let ?R = "put_slot f (store_inertia INERTIA_RELEASING)"
  have t: "compute_target (fiber_at (?R rn) f) (?R rn) = Some live" if "upgrades rn f" "live_at f rn = Some live" for rn
    using that by (simp add: live_at_def)
  note twice = put_slot_twice [of f]
  have settle: "\<exists>g. exit_recheck f live (recheck_revision f rn) ([], rn) = Inr (False, [], put_slot f g rn)"
    if "upgrades rn f" "live_at f rn = Some live" for rn
  proof -
    have "exit_recheck f live (recheck_revision f rn) ([], rn) =
        Inr (False, [], put_slot f (\<lambda>_. (slot_of f (put_slot f (store_settled (recheck_revision f rn)) (?R rn)))\<lparr>sl_inertia := INERTIA_IDLE\<rparr>)
          (put_slot f (store_settled (recheck_revision f rn)) (?R rn)))"
      using that t [OF that]
      by (simp add: exit_recheck.simps recheck_revision_def Let_def compare_exchange_def store_inertia_def store_settled_def)
    then show ?thesis unfolding twice by blast
  qed
  show ?thesis
  proof (cases "live = aim")
    case False
    then show ?thesis using assms t [OF assms] by (auto simp: exit_recheck.simps Let_def twice)
  next
    case True
    show ?thesis
    proof (cases "recheck_revision f (?R rn) = revision")
      case rev: True
      then have "revision = recheck_revision f rn" using assms(1) by (simp add: recheck_revision_def store_inertia_def)
      with settle [OF assms] True show ?thesis by simp
    next
      case False
      have "exit_recheck f aim revision ([], rn) = exit_recheck f live (recheck_revision f (?R rn)) ([], ?R rn)"
        using True False assms(1) t [OF assms] by (subst exit_recheck.simps) (simp add: Let_def)
      with settle [of "?R rn"] assms True show ?thesis by (simp add: twice) blast
    qed
  qed
qed

lemma kick_turn_slot:
  assumes "life_inv f rn"
  shows "\<exists>g. kick_turn f rn = put_slot f g rn \<or> kick_turn f rn = rn"
proof -
  have up: "upgrades rn f" and sp: "fb_spawn (fiber_at rn f) \<noteq> None" using assms by (simp_all add: life_inv_def)
  obtain live where live: "live_at f rn = Some live" using live_at_installed [OF sp] by blast
  let ?rn1 = "put_slot f (store_inertia INERTIA_ACTIVE) rn"
  note twice = put_slot_twice [of f]
  have x: "\<exists>b g. exit_recheck f aim (recheck_revision f ?rn1) ([], ?rn1) = Inr (b, [], put_slot f g rn)" for aim
    using exit_recheck_quiet [of ?rn1 f live aim "recheck_revision f ?rn1"] up live unfolding twice by auto
  have t: "compute_target (fiber_at rn f) rn = Some live" using live by (simp add: live_at_def)
  show ?thesis
  proof (cases "sl_target (slot_of f rn)")
    case None
    with t twice show ?thesis by (auto simp: kick_turn_def kick_slot_def Let_def)
  next
    case (Some aim)
    from x [of aim] obtain b g where "exit_recheck f aim (recheck_revision f ?rn1) ([], ?rn1) = Inr (b, [], put_slot f g rn)" by blast
    with Some show ?thesis by (auto simp: kick_turn_def kick_slot_def Let_def)
  qed
qed

lemma run_act_registry: "rn_registry (run_act f a rn) = rn_registry rn"
proof (cases a)
  case (ActDrift es)
  obtain affected rn' where "drift_commit es rn = (affected, rn')" by force
  with drift_commit_frame(4) ActDrift show ?thesis by (auto simp: run_act_def drift_kick_def)
qed (simp_all add: run_act_def withdraw_exact_def drop_slot_def split: option.split)

lemma scripted_turn:
  assumes "g \<in> scripted_turns f" and "life_inv f rn"
  shows "abides f rn (g rn)" and "rn_registry (g rn) = rn_registry rn"
proof -
  from assms(1) obtain u where u: "g = run_turn f u" by (auto simp: scripted_turns_def)
  have up: "upgrades rn f" using assms(2) by (simp add: life_inv_def)
  have "abides f rn (g rn) \<and> rn_registry (g rn) = rn_registry rn"
  proof (cases u)
    case (TurnAct a)
    then show ?thesis using u run_act_abides [OF up] run_act_registry by (simp add: run_turn_def)
  next
    case TurnKick
    with u kick_turn_slot [OF assms(2)] abides_slot [OF up] abides_refl [OF up] show ?thesis by (auto simp: run_turn_def)
  qed
  then show "abides f rn (g rn)" "rn_registry (g rn) = rn_registry rn" by blast+
qed

lemma abides_life: "abides f rn rn' \<Longrightarrow> life_inv f rn \<Longrightarrow> life_inv f rn'"
  using abides_fields [of f rn rn'] abides_path [of f rn rn'] settled_abides [of f rn rn'] disposed_abides [of f rn rn']
  by (auto simp: life_inv_def)

interpretation scripted: open_turns "scripted_env outcome acts report cleanup_acts" f "scripted_turns f"
  for outcome acts report cleanup_acts f
proof
  fix g :: "runtime \<Rightarrow> runtime" and rn :: runtime and k :: nat
  assume g: "g \<in> scripted_turns f" and l: "life_inv f rn"
  note t = scripted_turn [OF g l]
  show "life_inv f (g rn)" by (rule abides_life [OF t(1) l])
  show "\<not> fb_alive (fiber_at rn f) \<Longrightarrow> \<not> fb_alive (fiber_at (g rn) f)" using abides_fields(5) [OF t(1)] by simp
  show "map_of (rg_claims (rn_registry rn)) f = None \<Longrightarrow> map_of (rg_claims (rn_registry (g rn))) f = None" using t(2) by simp
  show "room k f (g rn)" if r: "room (8 + k) f rn"
    using publication_room_mono [OF r, of k] abides_room [OF t(1)] by simp
qed

lemma publication_new_room: "Suc k < 2 ^ 64 \<Longrightarrow> publication_room k (publication_new Pending)"
proof -
  assume "Suc k < 2 ^ 64"
  have "set (sp_revisions (publication_new Pending)) \<subseteq> {0, 1}"
    using set_update_subset_insert [of "replicate 6 (0 :: u64)" 2 1] by (auto simp: publication_new_def)
  then have "\<forall>r \<in> set (sp_revisions (publication_new Pending)). unat r \<le> 1" by auto
  then show ?thesis
    unfolding publication_room_def using \<open>Suc k < 2 ^ 64\<close> by (fastforce simp: publication_new_def publication_wf_def)
qed

text \<open>Once admitted, a creation answers with a live Fiber or leaves none behind.\<close>

lemma spawn_admitted:
  assumes "open_turns env (rn_next rn) turns" and "set sch \<subseteq> turns" and "8 * length sch + (4 * n + 2) < 2 ^ 63"
    and "registry_wf (rn_registry rn)" and "rn_next rn \<notin> set (snapshot_fibers (rn_registry rn))" and "history (rn_next rn) rn = []"
    and admitted: "gated \<longrightarrow> assert_can_register (fiber_at rn (cx_fiber cx)) = Inr ()"
  shows "case snd (spawn_prepared_inner n env cx prepared gated seals (sch, rn)) of
      Inl stop \<Rightarrow> stop \<in> {StillWaiting, OutOfRounds}
    | Inr (result, sch', rn') \<Rightarrow> spawn_answer env (rn_next rn) result rn'"
proof -
  have gate: "\<not> (gated \<and> assert_can_register (fiber_at rn (cx_fiber cx)) \<noteq> Inr ())" using admitted by blast
  let ?f = "rn_next rn"
  obtain seals' rn1 x where s: "spawn_commit cx prepared seals rn = Some (?f, seals', rn1)" and nb: "newborn ?f rn1"
    and pub: "fb_state (fiber_at rn1 ?f) = publication_new Pending"
    by (rule spawn_commit_effect [OF assms(4-6)]) (rule that; assumption)
  have life: "life_inv ?f rn1" by (rule newborn_life [OF nb])
  have rm: "room (8 * length sch + (4 * n + 2)) ?f rn1" unfolding pub by (rule publication_new_room) (use assms(3) in simp)
  obtain sch2 rn2 where e: "interfere (sch, rn1) = (sch2, rn2)" by force
  note i = open_turns.interfere_life [OF assms(1) e assms(2) life]
  have rm2: "room (8 * length sch2 + (4 * n + 2)) ?f rn2" by (rule i(4) [OF rm])
  note p = open_turns.initial_spawn_pass_answers [OF assms(1) i(1,2) rm2]
  show ?thesis
  proof (cases "initial_spawn_pass n env ?f (sch2, rn2)")
    case (Inl stop)
    with p gate s e show ?thesis by (auto simp: spawn_prepared_inner_def)
  next
    case (Inr a)
    then obtain outcome sch3 rn3 where a: "initial_spawn_pass n env ?f (sch2, rn2) = Inr (outcome, sch3, rn3)" by (cases a) auto
    with p have q: "life_inv ?f rn3" "set sch3 \<subseteq> turns"
      "outcome \<noteq> InitialActive \<and> outcome \<noteq> InitialPending \<longrightarrow> open_turns.ended ?f rn3"
      "\<forall>failure. outcome = InitialFailed failure \<longrightarrow> apply_reported env ?f (Some failure)" by simp_all
    have run: "spawn_prepared_inner n env cx prepared gated seals (sch, rn) = (seals', spawn_handoff ?f outcome (sch3, rn3))"
      using gate s e a by (simp add: spawn_prepared_inner_def del: de_Morgan_conj)
    from open_turns.spawn_handoff_answers [OF assms(1) q] show ?thesis
      unfolding run by (cases "spawn_handoff ?f outcome (sch3, rn3)") (auto simp: spawn_answer_def)
  qed
qed


section \<open>A creation whose caller went away\<close>

text \<open>
  A Fiber that is installed and on its path, whatever a pass was doing with it when it was cut
  off; nobody kills a Fiber without the terminal mark.
\<close>

definition unfinished :: "fid \<Rightarrow> runtime \<Rightarrow> bool" where
  "unfinished f rn \<longleftrightarrow>
     upgrades rn f \<and> fb_spawn (fiber_at rn f) \<noteq> None \<and> on_path f rn \<and> current_state (fiber_at rn f) \<noteq> Disposed \<and>
     room 2 f rn \<and> (fb_disposing (fiber_at rn f) \<or> fb_alive (fiber_at rn f))"

text \<open>A pass is cut off where user code suspends: inside the apply, or inside a cleanup of a drain.\<close>

lemma unfinished_abides:
  assumes "unfinished f rn" and "abides f rn rn'"
  shows "unfinished f rn'"
  using assms abides_fields [OF assms(2)] abides_path [OF assms(2)] abides_room [OF assms(2)] by (auto simp: unfinished_def)

lemma unfinished_transition:
  assumes "unfinished f rn" and "room 3 f rn" and "s \<noteq> Disposed" and "legal (current_state (fiber_at rn f)) s"
  shows "unfinished f (transition f s rn)"
proof -
  have u: "upgrades rn f" "room (Suc 2) f rn" "fb_spawn (fiber_at rn f) \<noteq> None" "on_path f rn"
    using assms(1,2) by (simp_all add: unfinished_def eval_nat_numeral)
  note v = transition_view(1) [OF u(1), of s]
  have "fb_alive (fiber_at (transition f s rn) f) = fb_alive (fiber_at rn f)"
    "fb_disposing (fiber_at (transition f s rn) f) = fb_disposing (fiber_at rn f)"
    "fb_spawn (fiber_at (transition f s rn) f) = fb_spawn (fiber_at rn f)"
    using arg_cong [OF v, of fb_alive] arg_cong [OF v, of fb_disposing] arg_cong [OF v, of fb_spawn]
    by (simp_all add: fiber_view_def)
  with assms u transition_room [OF u(1,2), of s] transition_path [OF u assms(4)] transition_view(2) [OF u(1)]
  show ?thesis by (simp add: unfinished_def)
qed

lemma terminal_unfinished: "unfinished f rn \<Longrightarrow> unfinished f (update_fiber f mark_terminal rn)"
  by (auto simp: unfinished_def update_path)

lemma unfinished_ends:
  assumes env: "slot_environment env f" and u: "unfinished f rn"
  defines "rn' \<equiv> complete_claimed_dispose env f rn"
  shows "disposed_for_good f rn' \<and> on_path f rn' \<and> map_of (rg_claims (rn_registry rn')) f = None \<and>
    fb_dispose_complete (fiber_at rn' f) \<and> is_idle (slot_of f rn')"
proof -
  have h: "upgrades rn f" "room 2 f rn" "fb_spawn (fiber_at rn f) \<noteq> None" "on_path f rn" "current_state (fiber_at rn f) \<noteq> Disposed"
    using u by (simp_all add: unfinished_def)
  have keep: "fiber_view f (put_slot f abandon rn) = fiber_view f rn \<and> upgrades (put_slot f abandon rn) f \<and>
      history f (put_slot f abandon rn) = history f rn" if "upgrades rn f" for rn
    using that by simp
  note e = ending_effect [OF env h keep, folded complete_claimed_dispose_def, folded rn'_def]
  have "upgrades (teardown_body env f rn) f" using e(5) unfolding rn'_def complete_claimed_dispose_def by simp
  then have "is_idle (slot_of f rn')"
    by (simp add: rn'_def complete_claimed_dispose_def slot_of_def update_fiber_same publish_dispose_complete_def
        on_fiber_slot_def abandon_def is_idle_def)
  with e show ?thesis by blast
qed

text \<open>
  C3: A creation whose caller went away is completed by the framework.  Wherever the future of a
  spawn is dropped after its commit - inside the apply, inside a cleanup of the rollback, between
  the pass and the handoff - the guard disposes the undelivered Fiber for good: its state is
  \<open>Disposed\<close>, it is dead, drained and unlinked, its completion barrier is published, and the slot
  the cancelled pass died with is free again.  The one exception is a disposer that already
  committed while the pass did not own the slot: the barrier is then that disposer's, and it is
  awaited.  After a delivery or a reported failure the guard is disarmed and does nothing.
\<close>

theorem dropped_creation_ends:
  assumes env: "slot_environment env f" and u: "unfinished f rn"
    and claim: "\<And>rn1. unfinished f rn1 \<Longrightarrow> fb_alive (fiber_at rn1 f) \<Longrightarrow>
      unfinished f (claim_slot rn1) \<and> fb_alive (fiber_at (claim_slot rn1) f)"
  shows "(case creation_guard_drop env (Some f) claim_slot rn of
      None \<Rightarrow> \<not> sl_creation_owned (slot_of f rn) \<and> fb_disposing (fiber_at rn f)
    | Some rn' \<Rightarrow>
        disposed_for_good f rn' \<and> on_path f rn' \<and> map_of (rg_claims (rn_registry rn')) f = None \<and>
        fb_dispose_complete (fiber_at rn' f) \<and> is_idle (slot_of f rn')) \<and>
    creation_guard_drop env (guard_disarm (Some f)) claim_slot rn = Some rn"
proof -
  obtain owned sl where own: "take_creation_ownership (fb_slot (fiber_at rn f)) = (owned, sl)" by force
  then have owned: "owned = sl_creation_owned (slot_of f rn)" by (simp add: take_creation_ownership_def slot_of_def)
  let ?rn1 = "put_slot f (\<lambda>_. sl) rn"
  have up: "upgrades rn f" using u by (simp add: unfinished_def)
  have u1: "unfinished f ?rn1" by (rule unfinished_abides [OF u abides_slot [OF up]])
  note drop = own creation_guard_drop_def creation_interrupted_teardown_def Let_def
  note finish = complete_claimed_dispose_def [symmetric]
  note d1 = unfinished_ends [OF env terminal_unfinished [OF u1]]
  consider (inherited) owned | (other) "\<not> owned" "fb_disposing (fiber_at rn f)" | (won) "\<not> owned" "\<not> fb_disposing (fiber_at rn f)"
    by blast
  then show ?thesis
  proof cases
    case inherited
    with d1 show ?thesis by (simp add: drop guard_disarm_def finish)
  next
    case other
    with owned up show ?thesis
      by (simp add: drop guard_disarm_def claim_terminal_def update_fiber_same on_fiber_slot_def)
  next
    case won
    let ?rn2 = "update_fiber f mark_terminal ?rn1"
    have same: "update_fiber f (\<lambda>_. snd (claim_terminal (fiber_at ?rn1 f))) ?rn1 = ?rn2"
      using up by (auto simp: update_fiber_def claim_terminal_def mark_terminal_def fiber_at_def upgrades_def)
    have al: "fb_alive (fiber_at ?rn2 f)" using u won up by (simp add: unfinished_def update_fiber_same mark_terminal_def on_fiber_slot_def)
    note c = claim [OF terminal_unfinished [OF u1] al]
    have "creation_guard_drop env (Some f) claim_slot rn = Some (complete_claimed_dispose env f (claim_slot ?rn2))"
      using won up c same
      by (simp add: drop finish is_alive_def claim_terminal_def update_fiber_same on_fiber_slot_def)
    with unfinished_ends [OF env, of "claim_slot ?rn2"] c show ?thesis
      by (simp add: guard_disarm_def) (simp add: creation_guard_drop_def)
  qed
qed

definition demo_plugin :: prepared_plugin where
  "demo_plugin = \<lparr>pp_plugin = \<lparr>tp_contract = 5, tp_input_type = 6, tp_state = Some (7, 8)\<rparr>, pp_name = ''db'', pp_inject = [], pp_contract = 5\<rparr>"

lemma spawn_demo_runs:
  "case spawn_prepared 1 demo_env demo_ctx demo_plugin (\<lambda>_. None) ([], newborn_runtime) of
     (_, Inr (Inr h, _, rn')) \<Rightarrow> h = 3 \<and> current_state (fiber_at rn' 3) = Active
   | _ \<Rightarrow> False"
  by code_simp


text \<open>A newborn Fiber cut off inside its first apply, the slot still owned by the dead pass.\<close>

definition cut_runtime :: runtime where
  "cut_runtime = put_slot 2 (\<lambda>sl. set_creation_owned True (store_inertia INERTIA_ACTIVE sl)) (transition 2 Loading newborn_runtime)"

lemma newborn_slot_owned: "sl_creation_owned (slot_of 2 cut_runtime)"
proof -
  have "upgrades (transition 2 Loading newborn_runtime) 2" by (rule transition_view(2) [OF newborn_fields(2)])
  then show ?thesis by (simp add: cut_runtime_def set_creation_owned_def)
qed

theorem dropped_creation_ends_witness:
  "case creation_guard_drop demo_env (Some 2) (put_slot 2 (store_inertia INERTIA_ACTIVE)) cut_runtime of
     None \<Rightarrow> False
   | Some rn' \<Rightarrow> disposed_for_good 2 rn' \<and> is_idle (slot_of 2 rn')"
proof -
  have nb: "unfinished 2 newborn_runtime"
    using newborn_life [OF newborn_demo] newborn_room(2) by (simp add: unfinished_def newborn_fields life_inv_def)
  have "room 3 2 newborn_runtime" by (rule publication_room_mono [OF newborn_room(1)]) simp
  from unfinished_transition [OF nb this, of Loading] have l: "unfinished 2 (transition 2 Loading newborn_runtime)"
    by (simp add: newborn_fields)
  have u: "unfinished 2 cut_runtime" unfolding cut_runtime_def
    by (rule unfinished_abides [OF l abides_slot]) (use l in \<open>simp add: unfinished_def\<close>)
  have claim: "unfinished 2 (put_slot 2 (store_inertia INERTIA_ACTIVE) rn1) \<and>
      fb_alive (fiber_at (put_slot 2 (store_inertia INERTIA_ACTIVE) rn1) 2)"
    if "unfinished 2 rn1" "fb_alive (fiber_at rn1 2)" for rn1
  proof -
    have a: "abides 2 rn1 (put_slot 2 (store_inertia INERTIA_ACTIVE) rn1)"
      by (rule abides_slot) (use that(1) in \<open>simp add: unfinished_def\<close>)
    from unfinished_abides [OF that(1) a] abides_fields(5) [OF a] that(2) show ?thesis by simp
  qed
  have env: "slot_environment demo_env 2" by (rule scripted.slot_environment_axioms)
  note t = dropped_creation_ends [OF env u, of "put_slot 2 (store_inertia INERTIA_ACTIVE)", OF claim]
  show ?thesis
    using t newborn_slot_owned
    by (cases "creation_guard_drop demo_env (Some 2) (put_slot 2 (store_inertia INERTIA_ACTIVE)) cut_runtime") auto
qed

end
