(* ===== verification/Update_Control.thy ===== *)
theory Update_Control
  imports Event_Dispatch Spawn
begin

text \<open>
  Typed update control (\<open>crates/cordis-core/src/update.rs\<close>): the precommit policies registered
  per Plugin contract, the chain one \<open>FiberHandle::update\<close> runs through them, and the update
  itself (\<open>fiber/mod.rs\<close>).

  The user's callbacks are a parameter, functions on the whole world of the chain, which they
  may change at will.  A hook carries the Plugin type it was registered for, as the closure of
  the code does; \<open>reached\<close> is the flag the private tail sets.
\<close>

section \<open>The store\<close>

datatype update_kind = UpdateMapper plugin_type ident | UpdateAround plugin_type ident

record update_hook =
  uh_id :: ident
  uh_prepend :: bool
  uh_global :: bool
  uh_scope :: "scope_node option"
  uh_once :: bool
  uh_kind :: update_kind

record update_snap =
  us_id :: ident
  us_kind :: update_kind

type_synonym update_store = "(type_id, update_hook list) hashmap"

definition update_store_new :: update_store where
  "update_store_new = []"

definition update_list :: "type_id \<Rightarrow> update_store \<Rightarrow> update_hook list" where
  "update_list contract st = (case map_of st contract of None \<Rightarrow> [] | Some list \<Rightarrow> list)"

definition update_add :: "type_id \<Rightarrow> update_hook \<Rightarrow> update_store \<Rightarrow> update_store" where
  "update_add contract hook st =
     hm_insert contract (if uh_prepend hook then hook # update_list contract st else update_list contract st @ [hook]) st"

text \<open>An emptied list is dropped with its key.  \<open>List.extract\<close> splits at the first match, as
  \<open>position\<close> does.\<close>

definition update_keep :: "type_id \<Rightarrow> update_hook list \<Rightarrow> update_store \<Rightarrow> update_store" where
  "update_keep contract rest st = (if rest = [] then hm_remove contract st else hm_insert contract rest st)"

definition update_remove :: "type_id \<Rightarrow> ident \<Rightarrow> update_store \<Rightarrow> bool \<times> update_store" where
  "update_remove contract i st =
     (case map_of st contract of
        None \<Rightarrow> (False, st)
      | Some list \<Rightarrow>
          (case List.extract (\<lambda>h. uh_id h = i) list of
             None \<Rightarrow> (False, st)
           | Some (before, _, after) \<Rightarrow> (True, update_keep contract (before @ after) st)))"

definition update_claim :: "type_id \<Rightarrow> ident \<Rightarrow> update_store \<Rightarrow> bool \<times> update_store" where
  "update_claim contract i st =
     (case map_of st contract of
        None \<Rightarrow> (False, st)
      | Some list \<Rightarrow>
          (case List.extract (\<lambda>h. uh_id h = i) list of
             None \<Rightarrow> (False, st)
           | Some (before, hook, after) \<Rightarrow>
               if \<not> uh_once hook then (True, st) else (True, update_keep contract (before @ after) st)))"

definition update_in_scope :: "scope_node option \<Rightarrow> update_hook \<Rightarrow> bool" where
  "update_in_scope target hook =
     (uh_global hook \<or>
      (case (uh_scope hook, target) of
         (None, _) \<Rightarrow> True
       | (Some _, None) \<Rightarrow> False
       | (Some registration, Some dispatch) \<Rightarrow> scope_reaches dispatch registration))"

definition update_snapshot :: "type_id \<Rightarrow> scope_node option \<Rightarrow> update_store \<Rightarrow> update_snap list" where
  "update_snapshot contract target st =
     map (\<lambda>h. \<lparr>us_id = uh_id h, us_kind = uh_kind h\<rparr>) (List.filter (update_in_scope target) (update_list contract st))"

section \<open>The chain\<close>

record 'u update_world =
  uw_store :: update_store
  uw_user :: 'u

datatype 'u update_around_step =
    UpdateDone "ident call_outcome"
  | UpdateCalls ident "invocation_failure + ident \<Rightarrow> 'u update_world \<Rightarrow> ident call_outcome \<times> 'u update_world"

record 'u update_code =
  uc_mapper :: "ident \<Rightarrow> ident \<Rightarrow> 'u update_world \<Rightarrow> ident call_outcome \<times> 'u update_world"
  uc_around :: "ident \<Rightarrow> ident \<Rightarrow> 'u update_world \<Rightarrow> 'u update_around_step \<times> 'u update_world"

text \<open>\<open>None\<close> is the panic over a candidate sealed for another Plugin: the \<open>expect\<close> of the downcast,
  or the \<open>debug_assert_eq\<close> on the contract of a debug build (whose own message is not modelled).\<close>

definition take_input :: "plugin_type \<Rightarrow> prepared_change \<Rightarrow> ident option" where
  "take_input P change =
     (if pc_contract change = pt_contract P \<and> pc_input_type change = pt_input_type P then Some (pc_input change) else None)"

definition take_input_panic :: string where
  "take_input_panic = ''PreparedChange seals one Plugin contract with its Input type''"

definition reseal :: "plugin_type \<Rightarrow> ident \<Rightarrow> prepared_change" where
  "reseal P input = prepared_change_from_input P input"

definition resealed :: "plugin_type \<Rightarrow> ident call_outcome \<Rightarrow> invocation_failure + prepared_change" where
  "resealed P outcome = settle_outcome (map_outcome (reseal P) outcome)"

definition invoke_mapper ::
  "'u update_code \<Rightarrow> plugin_type \<Rightarrow> ident \<Rightarrow> prepared_change \<Rightarrow> 'u update_world \<Rightarrow>
   (invocation_failure + prepared_change) \<times> 'u update_world"
where
  "invoke_mapper code P callback change w =
     (case take_input P change of
        None \<Rightarrow> (Inl (failure_panic take_input_panic), w)
      | Some input \<Rightarrow> (case uc_mapper code callback input w of (outcome, w1) \<Rightarrow> (resealed P outcome, w1)))"

text \<open>What one chain did, in order.\<close>

datatype update_attempt =
    UpdSkipped ident
  | UpdMapped ident prepared_change
  | UpdWrapped ident prepared_change
  | UpdAccepted prepared_change

type_synonym 'u update_chain =
  "prepared_change \<Rightarrow> 'u update_world \<Rightarrow> (invocation_failure + prepared_change) \<times> update_attempt list \<times> 'u update_world"

definition invoke_around ::
  "'u update_code \<Rightarrow> plugin_type \<Rightarrow> ident \<Rightarrow> 'u update_chain \<Rightarrow> 'u update_chain"
where
  "invoke_around code P callback downstream change w =
     (case take_input P change of
        None \<Rightarrow> (Inl (failure_panic take_input_panic), [], w)
      | Some input \<Rightarrow>
          (case uc_around code callback input w of
             (UpdateDone outcome, w1) \<Rightarrow> (resealed P outcome, [], w1)
           | (UpdateCalls input' resume, w1) \<Rightarrow>
               (case downstream (reseal P input') w1 of
                  (inner, tr, w2) \<Rightarrow>
                    (let given = (case inner of
                           Inl failure \<Rightarrow> Some (Inl failure)
                         | Inr accepted \<Rightarrow> map_option Inr (take_input P accepted))
                     in case given of
                          None \<Rightarrow> (Inl (failure_panic take_input_panic), tr, w2)
                        | Some answer \<Rightarrow> (case resume answer w2 of (outcome, w3) \<Rightarrow> (resealed P outcome, tr, w3))))))"

fun run_chain :: "'u update_code \<Rightarrow> type_id \<Rightarrow> update_snap list \<Rightarrow> 'u update_chain" where
  "run_chain code contract [] change w = (Inr change, [UpdAccepted change], w)"
| "run_chain code contract (h # hooks) change w =
     (case update_claim contract (us_id h) (uw_store w) of
        (False, st) \<Rightarrow>
          (case run_chain code contract hooks change (w\<lparr>uw_store := st\<rparr>) of
             (r, tr, w1) \<Rightarrow> (r, UpdSkipped (us_id h) # tr, w1))
      | (True, st) \<Rightarrow>
          (case us_kind h of
             UpdateMapper P callback \<Rightarrow>
               (case invoke_mapper code P callback change (w\<lparr>uw_store := st\<rparr>) of
                  (Inl failure, w1) \<Rightarrow> (Inl (correlate (us_id h) failure), [UpdMapped (us_id h) change], w1)
                | (Inr mapped, w1) \<Rightarrow>
                    (case run_chain code contract hooks mapped w1 of
                       (r, tr, w2) \<Rightarrow> (correlated (us_id h) r, UpdMapped (us_id h) change # tr, w2)))
           | UpdateAround P callback \<Rightarrow>
               (case invoke_around code P callback (run_chain code contract hooks) change (w\<lparr>uw_store := st\<rparr>) of
                  (r, tr, w1) \<Rightarrow> (correlated (us_id h) r, UpdWrapped (us_id h) change # tr, w1))))"

fun reached_tail :: "update_attempt list \<Rightarrow> bool" where
  "reached_tail [] = False"
| "reached_tail (UpdAccepted _ # _) = True"
| "reached_tail (_ # tr) = reached_tail tr"

definition control ::
  "'u update_code \<Rightarrow> type_id \<Rightarrow> scope_node option \<Rightarrow> prepared_change \<Rightarrow> 'u update_world \<Rightarrow>
   (invocation_failure + prepared_change option) \<times> update_attempt list \<times> 'u update_world"
where
  "control code contract target change w =
     (case run_chain code contract (update_snapshot contract target (uw_store w)) change w of
        (Inl failure, tr, w1) \<Rightarrow> (Inl failure, tr, w1)
      | (Inr output, tr, w1) \<Rightarrow> (Inr (if reached_tail tr then Some output else None), tr, w1))"

section \<open>Registration\<close>

definition update_publish :: "type_id \<Rightarrow> update_hook \<Rightarrow> update_store publish_step" where
  "update_publish contract hook st = (True, update_add contract hook st)"

text \<open>\<open>f0\<close> is the Fiber at the gate, \<open>s\<close> the state under the journal lock, \<open>i\<close> the fresh identity.\<close>

definition on_update ::
  "ctx \<Rightarrow> plugin_type \<Rightarrow> update_kind \<Rightarrow> listener_options \<Rightarrow> ident \<Rightarrow> fiber \<Rightarrow> fiber \<times> update_store \<Rightarrow>
   (listener_registration_error + token) \<times> fiber \<times> update_store"
where
  "on_update cx P kind options i f0 s =
     (let hook = \<lparr>uh_id = i, uh_prepend = lo_prepend options, uh_global = lo_global options, uh_scope = cx_scope cx,
            uh_once = lo_once options, uh_kind = kind\<rparr>
      in case push_gated fst put_fst (sync_cleanup (RemoveUpdateHook (pt_contract P) i))
                (lift_publish (update_publish (pt_contract P) hook)) (f0, snd s) s of
           (Inl _, s') \<Rightarrow> (Inl ListenerInactiveContext, s')
         | (Inr token, s') \<Rightarrow> (Inr token, s'))"

definition update_cleanup :: "type_id \<Rightarrow> ident \<Rightarrow> update_store \<Rightarrow> update_store" where
  "update_cleanup contract i st = snd (update_remove contract i st)"

interpretation update_publish: gated_step fst put_fst "lift_publish (update_publish contract hook)" "\<lambda>_. True"
  for contract hook
  by unfold_locales (simp_all add: lift_publish_def update_publish_def put_fst_def)

section \<open>The update\<close>

datatype update_outcome = Vetoed | Committed fiber_state

text \<open>The chain runs on the world of the passes.\<close>

definition handle_update ::
  "ident \<Rightarrow> att \<Rightarrow> nat \<Rightarrow> lifecycle_env \<Rightarrow> world update_code \<Rightarrow> fid \<Rightarrow> prepared_change \<Rightarrow> seals \<Rightarrow>
   world update_world \<Rightarrow> seals \<times> update_store \<times> (update_error + update_outcome) pass_run"
where
  "handle_update t st n env code f change seals w =
     (let x = fiber_at (snd (uw_user w)) f;
          refused = (\<lambda>e. (seals, uw_store w, Inr (Inl e, uw_user w)))
      in case refuse_recursion t f (fb_draining x) OpUpdate st of
           Inl e \<Rightarrow> refused (UpdateRecursion e)
         | Inr _ \<Rightarrow>
             if \<not> is_alive x then refused UpdateClosed
             else if spawn_state_contract (fb_spawn x) \<noteq> Some (pc_contract change) then refused UpdateContractMismatch
             else (case context_for f (fb_spawn x) of
                     None \<Rightarrow> refused UpdateClosed
                   | Some cx \<Rightarrow>
                       (case control code (pc_contract change) (cx_scope cx) change w of
                          (Inl failure, _, w1) \<Rightarrow> (seals, uw_store w1, Inr (Inl (UpdateControl failure), uw_user w1))
                        | (Inr None, _, w1) \<Rightarrow> (seals, uw_store w1, Inr (Inr Vetoed, uw_user w1))
                        | (Inr (Some accepted), _, w1) \<Rightarrow>
                            (case update_pass n env f accepted seals (uw_user w1) of
                               (seals', Inl stop) \<Rightarrow> (seals', uw_store w1, Inl stop)
                             | (seals', Inr (Inl e, w2)) \<Rightarrow> (seals', uw_store w1, Inr (Inl e, w2))
                             | (seals', Inr (Inr state, w2)) \<Rightarrow> (seals', uw_store w1, Inr (Inr (Committed state), w2))))))"

end
