(* ===== verification/Update_Properties.thy ===== *)
theory Update_Properties
  imports Update_Control Pass_Contract
begin

text \<open>
  What update control promises: the type-erased chain is the typed one (so no seal is ever
  broken), the store keeps its typing, the chain enters the matching policies in their order,
  a veto is exactly a tail that was not reached, a failure names a policy that ran, and how a
  \<open>FiberHandle::update\<close> composes the chain with the committed pass.
\<close>

section \<open>The typing of the store\<close>

fun kind_plugin :: "update_kind \<Rightarrow> plugin_type" where
  "kind_plugin (UpdateMapper P _) = P"
| "kind_plugin (UpdateAround P _) = P"

text \<open>A catalogue says which Plugin type a contract is the \<open>TypeId\<close> of.\<close>

type_synonym catalogue = "type_id \<Rightarrow> plugin_type"

definition catalogued :: "catalogue \<Rightarrow> plugin_type \<Rightarrow> bool" where
  "catalogued \<Gamma> P \<longleftrightarrow> \<Gamma> (pt_contract P) = P"

definition typed_hook :: "catalogue \<Rightarrow> type_id \<Rightarrow> update_hook \<Rightarrow> bool" where
  "typed_hook \<Gamma> contract hook \<longleftrightarrow> kind_plugin (uh_kind hook) = \<Gamma> contract"

text \<open>No list is empty, no identity is registered twice under a contract.\<close>

definition typed_store :: "catalogue \<Rightarrow> update_store \<Rightarrow> bool" where
  "typed_store \<Gamma> st \<longleftrightarrow>
     (\<forall>contract list. map_of st contract = Some list \<longrightarrow>
        list \<noteq> [] \<and> distinct (map uh_id list) \<and> list_all (typed_hook \<Gamma> contract) list)"

definition update_ids :: "type_id \<Rightarrow> update_store \<Rightarrow> ident set" where
  "update_ids contract st = uh_id ` set (update_list contract st)"

definition sealed_by :: "plugin_type \<Rightarrow> prepared_change \<Rightarrow> bool" where
  "sealed_by P change \<longleftrightarrow> pc_contract change = pt_contract P \<and> pc_input_type change = pt_input_type P"

lemma typed_storeD:
  "typed_store \<Gamma> st \<Longrightarrow> map_of st contract = Some list \<Longrightarrow>
     list \<noteq> [] \<and> distinct (map uh_id list) \<and> list_all (typed_hook \<Gamma> contract) list"
  by (simp add: typed_store_def)

lemma typed_store_list:
  "typed_store \<Gamma> st \<Longrightarrow> list_all (typed_hook \<Gamma> contract) (update_list contract st)"
  by (simp add: typed_store_def update_list_def split: option.split)

lemma typed_store_ids: "typed_store \<Gamma> st \<Longrightarrow> distinct (map uh_id (update_list contract st))"
  by (simp add: typed_store_def update_list_def split: option.split)

lemma typed_keep:
  assumes "typed_store \<Gamma> st" and "map_of st contract = Some (before @ hook # after)"
  shows "typed_store \<Gamma> (update_keep contract (before @ after) st)"
  using assms(1) typed_storeD [OF assms]
  by (auto simp: typed_store_def update_keep_def)

lemma update_add_typed:
  assumes "typed_store \<Gamma> st" and "typed_hook \<Gamma> contract hook" and "uh_id hook \<notin> update_ids contract st"
  shows "typed_store \<Gamma> (update_add contract hook st)"
  using assms typed_store_list [OF assms(1), of contract] typed_store_ids [OF assms(1), of contract]
  by (auto simp: typed_store_def update_add_def update_ids_def)

lemma update_remove_typed: "typed_store \<Gamma> st \<Longrightarrow> typed_store \<Gamma> (snd (update_remove contract i st))"
  by (auto simp: update_remove_def extract_Some_iff dest: typed_keep split: option.split)

lemma update_claim_typed: "typed_store \<Gamma> st \<Longrightarrow> typed_store \<Gamma> (snd (update_claim contract i st))"
  by (auto simp: update_claim_def extract_Some_iff dest: typed_keep split: option.split)

lemma update_list_keep:
  "update_list c (update_keep contract rest st) = (if c = contract then rest else update_list c st)"
  by (auto simp: update_list_def update_keep_def)

lemma update_list_add:
  "update_list c (update_add contract hook st) =
     (if c = contract then if uh_prepend hook then hook # update_list c st else update_list c st @ [hook] else update_list c st)"
  by (auto simp: update_list_def update_add_def)

lemma update_list_remove:
  assumes "typed_store \<Gamma> st"
  shows "update_list c (snd (update_remove contract i st)) =
    (if c = contract then List.filter (\<lambda>h. uh_id h \<noteq> i) (update_list c st) else update_list c st)"
proof (cases "map_of st contract")
  case None
  then show ?thesis by (simp add: update_remove_def update_list_def)
next
  case (Some list)
  show ?thesis
  proof (cases "List.extract (\<lambda>h. uh_id h = i) list")
    case None
    then have "List.filter (\<lambda>h. uh_id h \<noteq> i) list = list" by (simp add: extract_None_iff filter_id_conv)
    with None Some show ?thesis by (simp add: update_remove_def) (simp add: update_list_def)
  next
    case (Some found)
    obtain before hook after where x: "found = (before, hook, after)" by (metis prod_cases3)
    with Some have l: "list = before @ hook # after" "uh_id hook = i" by (auto simp: extract_Some_iff)
    from typed_storeD [OF assms \<open>map_of st contract = Some list\<close>] have "distinct (map uh_id list)" by simp
    with l have "List.filter (\<lambda>h. uh_id h \<noteq> i) before = before" "List.filter (\<lambda>h. uh_id h \<noteq> i) after = after"
      by (auto simp: filter_id_conv image_iff)
    with l have "List.filter (\<lambda>h. uh_id h \<noteq> i) list = before @ after" by simp
    with Some x \<open>map_of st contract = Some list\<close> show ?thesis
      by (auto simp: update_remove_def update_list_keep) (simp add: update_list_def)
  qed
qed

lemma typed_snapshot:
  "typed_store \<Gamma> st \<Longrightarrow> list_all (\<lambda>h. kind_plugin (us_kind h) = \<Gamma> contract) (update_snapshot contract target st)"
  using typed_store_list [of \<Gamma> st contract]
  by (auto simp: update_snapshot_def typed_hook_def list_all_iff)

section \<open>The typed chain\<close>

lemma take_reseal [simp]: "take_input P (reseal P input) = Some input"
  by (simp add: take_input_def reseal_def prepared_change_from_input_def)

lemma take_sealed: "sealed_by P change \<Longrightarrow> take_input P change = Some (pc_input change)"
  by (simp add: take_input_def sealed_by_def)

lemma sealed_reseal [simp]: "sealed_by P (reseal P input)"
  by (simp add: sealed_by_def reseal_def prepared_change_from_input_def)

lemma sealed_iff: "sealed_by P change \<longleftrightarrow> change = reseal P (pc_input change)"
  by (cases change) (auto simp: sealed_by_def reseal_def prepared_change_from_input_def)

lemma resealed_map: "resealed P outcome = map_sum (\<lambda>e. e) (reseal P) (settle_outcome outcome)"
  by (cases outcome) (simp_all add: resealed_def settle_outcome_def)

text \<open>The reference: the chain the user's types describe, on plain inputs, with no erasure.\<close>

fun typed_chain ::
  "'u update_code \<Rightarrow> type_id \<Rightarrow> update_snap list \<Rightarrow> ident \<Rightarrow> 'u update_world \<Rightarrow>
   (invocation_failure + ident) \<times> (ident option \<times> ident) list \<times> 'u update_world"
where
  "typed_chain code contract [] input w = (Inr input, [(None, input)], w)"
| "typed_chain code contract (h # hooks) input w =
     (case update_claim contract (us_id h) (uw_store w) of
        (False, st) \<Rightarrow> typed_chain code contract hooks input (w\<lparr>uw_store := st\<rparr>)
      | (True, st) \<Rightarrow>
          (case us_kind h of
             UpdateMapper _ callback \<Rightarrow>
               (case uc_mapper code callback input (w\<lparr>uw_store := st\<rparr>) of
                  (outcome, w1) \<Rightarrow>
                    (case settle_outcome outcome of
                       Inl failure \<Rightarrow> (Inl (correlate (us_id h) failure), [(Some (us_id h), input)], w1)
                     | Inr mapped \<Rightarrow>
                         (case typed_chain code contract hooks mapped w1 of
                            (r, tr, w2) \<Rightarrow> (correlated (us_id h) r, (Some (us_id h), input) # tr, w2))))
           | UpdateAround _ callback \<Rightarrow>
               (case uc_around code callback input (w\<lparr>uw_store := st\<rparr>) of
                  (UpdateDone outcome, w1) \<Rightarrow>
                    (correlated (us_id h) (settle_outcome outcome), [(Some (us_id h), input)], w1)
                | (UpdateCalls input' resume, w1) \<Rightarrow>
                    (case typed_chain code contract hooks input' w1 of
                       (r, tr, w2) \<Rightarrow>
                         (case resume r w2 of
                            (outcome, w3) \<Rightarrow>
                              (correlated (us_id h) (settle_outcome outcome), (Some (us_id h), input) # tr, w3))))))"

fun attempt_input :: "update_attempt \<Rightarrow> (ident option \<times> prepared_change) option" where
  "attempt_input (UpdSkipped _) = None"
| "attempt_input (UpdMapped i change) = Some (Some i, change)"
| "attempt_input (UpdWrapped i change) = Some (Some i, change)"
| "attempt_input (UpdAccepted change) = Some (None, change)"

lemma map_sum_correlated: "map_sum (\<lambda>e. e) g (correlated i r) = correlated i (map_sum (\<lambda>e. e) g r)"
  by (cases r) (simp_all add: correlated_def)

definition erases ::
  "plugin_type \<Rightarrow> (invocation_failure + prepared_change) \<times> update_attempt list \<times> 'u update_world \<Rightarrow>
   (invocation_failure + ident) \<times> (ident option \<times> ident) list \<times> 'u update_world \<Rightarrow> bool"
where
  "erases P erased typed \<longleftrightarrow>
     (case (erased, typed) of ((r, tr, w), (r', tr', w')) \<Rightarrow>
        r = map_sum (\<lambda>e. e) (reseal P) r' \<and> w = w' \<and>
        List.map_filter attempt_input tr = map (map_prod (\<lambda>i. i) (reseal P)) tr')"

lemma erases_mapper:
  assumes "\<And>input w. erases P (downstream (reseal P input) w) (typed input w)"
  shows "erases P
    (case invoke_mapper code P callback (reseal P input) w of
       (Inl failure, w1) \<Rightarrow> (Inl (correlate i failure), [UpdMapped i (reseal P input)], w1)
     | (Inr mapped, w1) \<Rightarrow>
         (case downstream mapped w1 of
            (r, tr, w2) \<Rightarrow> (correlated i r, UpdMapped i (reseal P input) # tr, w2)))
    (case uc_mapper code callback input w of
       (outcome, w1) \<Rightarrow>
         (case settle_outcome outcome of
            Inl failure \<Rightarrow> (Inl (correlate i failure), [(Some i, input)], w1)
          | Inr mapped \<Rightarrow>
              (case typed mapped w1 of
                 (r, tr, w2) \<Rightarrow> (correlated i r, (Some i, input) # tr, w2))))"
proof -
  obtain outcome w1 where o: "uc_mapper code callback input w = (outcome, w1)" by force
  show ?thesis
  proof (cases "settle_outcome outcome")
    case (Inl failure)
    with o show ?thesis by (simp add: invoke_mapper_def resealed_map erases_def map_filter_simps)
  next
    case (Inr mapped)
    with o assms [of mapped w1] show ?thesis
      by (auto simp: invoke_mapper_def resealed_map erases_def map_filter_simps map_sum_correlated split: prod.splits)
  qed
qed

lemma erases_around:
  assumes "\<And>input w. erases P (downstream (reseal P input) w) (typed input w)"
  shows "erases P
    (case invoke_around code P callback downstream (reseal P input) w of
       (r, tr, w1) \<Rightarrow> (correlated i r, UpdWrapped i (reseal P input) # tr, w1))
    (case uc_around code callback input w of
       (UpdateDone outcome, w1) \<Rightarrow> (correlated i (settle_outcome outcome), [(Some i, input)], w1)
     | (UpdateCalls input' resume, w1) \<Rightarrow>
         (case typed input' w1 of
            (r, tr, w2) \<Rightarrow>
              (case resume r w2 of
                 (outcome, w3) \<Rightarrow> (correlated i (settle_outcome outcome), (Some i, input) # tr, w3))))"
proof -
  obtain step w1 where o: "uc_around code callback input w = (step, w1)" by force
  show ?thesis
  proof (cases step)
    case (UpdateDone outcome)
    with o show ?thesis
      by (simp add: invoke_around_def resealed_map erases_def map_filter_simps map_sum_correlated)
  next
    case (UpdateCalls input' resume)
    obtain r tr w2 where t: "typed input' w1 = (r, tr, w2)" by (metis prod_cases3)
    obtain r' tr' w2' where d: "downstream (reseal P input') w1 = (r', tr', w2')" by (metis prod_cases3)
    from assms [of input' w1] t d have e: "r' = map_sum (\<lambda>e. e) (reseal P) r" "w2' = w2"
      "List.map_filter attempt_input tr' = map (map_prod (\<lambda>i. i) (reseal P)) tr" by (simp_all add: erases_def)
    obtain outcome w3 where q: "resume r w2 = (outcome, w3)" by force
    from o UpdateCalls t d e q show ?thesis
      by (cases r) (simp_all add: invoke_around_def resealed_map erases_def map_filter_simps map_sum_correlated)
  qed
qed

lemma run_chain_erases:
  assumes "list_all (\<lambda>h. kind_plugin (us_kind h) = P) hooks"
  shows "erases P (run_chain code contract hooks (reseal P input) w) (typed_chain code contract hooks input w)"
  using assms
proof (induction hooks arbitrary: input w)
  case Nil
  show ?case by (simp add: erases_def map_filter_simps)
next
  case (Cons h hooks)
  have P: "kind_plugin (us_kind h) = P" and rest: "list_all (\<lambda>h. kind_plugin (us_kind h) = P) hooks"
    using Cons.prems by simp_all
  note IH = Cons.IH [OF rest]
  obtain claimed st where c: "update_claim contract (us_id h) (uw_store w) = (claimed, st)" by force
  show ?case
  proof (cases claimed)
    case False
    with c IH [of input "w\<lparr>uw_store := st\<rparr>"] show ?thesis
      by (auto simp: erases_def map_filter_simps split: prod.splits)
  next
    case won: True
    show ?thesis
    proof (cases "us_kind h")
      case (UpdateMapper P' callback)
      with P have "P' = P" by simp
      with c won UpdateMapper erases_mapper [of P "run_chain code contract hooks" "typed_chain code contract hooks", OF IH]
      show ?thesis by simp
    next
      case (UpdateAround P' callback)
      with P have "P' = P" by simp
      with c won UpdateAround erases_around [of P "run_chain code contract hooks" "typed_chain code contract hooks", OF IH]
      show ?thesis by simp
    qed
  qed
qed

section \<open>Order, veto and failures\<close>

fun update_attempt_id :: "update_attempt \<Rightarrow> ident option" where
  "update_attempt_id (UpdSkipped i) = Some i"
| "update_attempt_id (UpdMapped i _) = Some i"
| "update_attempt_id (UpdWrapped i _) = Some i"
| "update_attempt_id (UpdAccepted _) = None"

definition chain_order :: "update_snap list \<Rightarrow> update_attempt list \<Rightarrow> bool" where
  "chain_order hooks tr \<longleftrightarrow>
     map update_attempt_id tr = take (length tr) (map (\<lambda>h. Some (us_id h)) hooks @ [None]) \<and>
     (reached_tail tr \<longleftrightarrow> length tr = Suc (length hooks))"

lemma chain_order_start [simp]: "chain_order hooks []"
  by (simp add: chain_order_def)

lemma chain_order_step:
  "chain_order hooks tr \<Longrightarrow> update_attempt_id a = Some (us_id h) \<Longrightarrow> chain_order (h # hooks) (a # tr)"
  by (cases a) (simp_all add: chain_order_def)

text \<open>One run of the chain: its order, and what a failure or a missing tail says.\<close>

definition chain_outcome ::
  "update_snap list \<Rightarrow> (invocation_failure + prepared_change) \<times> update_attempt list \<times> 'u update_world \<Rightarrow> bool"
where
  "chain_outcome hooks out \<longleftrightarrow>
     (case out of (r, tr, _) \<Rightarrow>
        chain_order hooks tr \<and>
        (\<forall>e. r = Inl e \<longrightarrow> if_registration e \<noteq> None) \<and>
        (\<forall>c. r = Inr c \<longrightarrow> reached_tail tr \<or> (\<exists>i x. UpdWrapped i x \<in> set tr)))"

lemma correlated_failure: "correlated i r = Inl e \<Longrightarrow> if_registration e \<noteq> None"
  by (auto simp: correlated_def correlate_def split: sum.splits if_splits)

lemma correlated_value [simp]: "correlated i r = Inr v \<longleftrightarrow> r = Inr v"
  by (cases r) (simp_all add: correlated_def)

lemma invoke_around_order:
  assumes "\<And>c w. chain_outcome hooks (downstream c w)" and "invoke_around code P callback downstream change w = (r, tr, w')"
  shows "chain_order hooks tr"
proof -
  have "tr = [] \<or> (\<exists>c w1. tr = fst (snd (downstream c w1)))"
    using assms(2) by (auto simp: invoke_around_def split: option.splits prod.splits update_around_step.splits) (metis fst_conv snd_conv)+
  moreover have "chain_order hooks (fst (snd (downstream c w1)))" for c w1
    using assms(1) [of c w1] by (cases "downstream c w1") (simp add: chain_outcome_def)
  ultimately show ?thesis by auto
qed

lemma run_chain_outcome: "chain_outcome hooks (run_chain code contract hooks change w)"
proof (induction hooks arbitrary: change w)
  case Nil
  show ?case by (simp add: chain_outcome_def chain_order_def)
next
  case (Cons h hooks)
  obtain claimed st where c: "update_claim contract (us_id h) (uw_store w) = (claimed, st)" by force
  show ?case
  proof (cases claimed)
    case False
    with c Cons.IH [of change "w\<lparr>uw_store := st\<rparr>"] show ?thesis
      by (auto simp: chain_outcome_def intro!: chain_order_step split: prod.splits)
  next
    case won: True
    show ?thesis
    proof (cases "us_kind h")
      case (UpdateMapper P callback)
      obtain v w1 where m: "invoke_mapper code P callback change (w\<lparr>uw_store := st\<rparr>) = (v, w1)" by force
      show ?thesis
      proof (cases v)
        case (Inl e)
        with c won UpdateMapper m show ?thesis
          by (auto simp: chain_outcome_def correlate_def intro!: chain_order_step)
      next
        case (Inr mapped)
        obtain r tr w2 where d: "run_chain code contract hooks mapped w1 = (r, tr, w2)" by (metis prod_cases3)
        with Cons.IH [of mapped w1] have IH: "chain_outcome hooks (r, tr, w2)" by simp
        have "run_chain code contract (h # hooks) change w = (correlated (us_id h) r, UpdMapped (us_id h) change # tr, w2)"
          using c won UpdateMapper m Inr d by simp
        with IH show ?thesis
          by (auto simp: chain_outcome_def dest: correlated_failure intro!: chain_order_step)
      qed
    next
      case (UpdateAround P callback)
      obtain r tr w1 where a: "invoke_around code P callback (run_chain code contract hooks) change (w\<lparr>uw_store := st\<rparr>) = (r, tr, w1)"
        by (metis prod_cases3)
      have "chain_order hooks tr" by (rule invoke_around_order [OF Cons.IH a])
      moreover have "run_chain code contract (h # hooks) change w = (correlated (us_id h) r, UpdWrapped (us_id h) change # tr, w1)"
        using c won UpdateAround a by simp
      ultimately show ?thesis
        by (auto simp: chain_outcome_def dest: correlated_failure intro!: chain_order_step)
    qed
  qed
qed

section \<open>The composition with the committed pass\<close>

text \<open>What the spawn commit installed: a present seal of the Plugin the key names.\<close>

definition spawn_sealed :: "catalogue \<Rightarrow> type_id \<Rightarrow> seals \<Rightarrow> spawn_state \<Rightarrow> bool" where
  "spawn_sealed \<Gamma> c seals s \<longleftrightarrow>
     (case s of
        None \<Rightarrow> False
      | Some st \<Rightarrow>
          (case seals (st_plugin st) of
             None \<Rightarrow> False
           | Some p \<Rightarrow> tp_contract p = c \<and> tp_input_type p = pt_input_type (\<Gamma> c) \<and> tp_state p \<noteq> None))"

definition runs_on :: "ident \<Rightarrow> seals \<Rightarrow> spawn_state \<Rightarrow> bool" where
  "runs_on input seals s \<longleftrightarrow>
     (case s of
        None \<Rightarrow> False
      | Some st \<Rightarrow> (\<exists>p plugin. seals (st_plugin st) = Some p \<and> tp_state p = Some (plugin, input)))"

lemma sealed_change_commits:
  assumes "spawn_sealed \<Gamma> c seals s" and "pt_contract (\<Gamma> c) = c" and "sealed_by (\<Gamma> c) change"
  shows "\<exists>superseded seals' s'. commit_change fresh change seals s = (Inr superseded, seals', s') \<and>
    runs_on (pc_input change) seals' s'"
proof -
  obtain st p plugin current where st: "s = Some st" "seals (st_plugin st) = Some p" "tp_contract p = c"
    "tp_input_type p = pt_input_type (\<Gamma> c)" "tp_state p = Some (plugin, current)"
    using assms(1) by (auto simp: spawn_sealed_def split: option.splits)
  from assms(2,3) have "pc_contract change = c" "pc_input_type change = pt_input_type (\<Gamma> c)" by (simp_all add: sealed_by_def)
  with st show ?thesis by (simp add: commit_change_def swap_input_def runs_on_def)
qed

text \<open>What the hooks have to leave behind for the committed pass: a Fiber within its invariant,
  an idle slot, and a schedule of turns within the rules.\<close>

definition pass_ready ::
  "nat \<Rightarrow> fid \<Rightarrow> (runtime \<Rightarrow> runtime) set \<Rightarrow> catalogue \<Rightarrow> type_id \<Rightarrow> seals \<Rightarrow> world \<Rightarrow> bool"
where
  "pass_ready n f turns \<Gamma> c seals w \<longleftrightarrow>
     (case w of (sch, rn) \<Rightarrow>
        life_inv f rn \<and> is_idle (slot_of f rn) \<and> room (4 * n + 2) f rn \<and> set sch \<subseteq> turns \<and>
        spawn_sealed \<Gamma> c seals (fb_spawn (fiber_at rn f)))"

definition committed_answer :: "fid \<Rightarrow> ident \<Rightarrow> seals \<Rightarrow> update_error + fiber_state \<Rightarrow> runtime \<Rightarrow> bool" where
  "committed_answer f input seals result rn \<longleftrightarrow>
     runs_on input seals (fb_spawn (fiber_at rn f)) \<and> update_answer f (fb_spawn (fiber_at rn f)) result rn"

lemma update_pass_answer:
  assumes ft: "foreign_turns env f turns" and ready: "pass_ready n f turns \<Gamma> c seals w"
    and c: "pt_contract (\<Gamma> c) = c" and sealed: "sealed_by (\<Gamma> c) change"
  shows "case update_pass n env f change seals w of
      (_, Inl stop) \<Rightarrow> stop = OutOfRounds
    | (seals', Inr (result, _, rn')) \<Rightarrow>
        committed_answer f (pc_input change) seals' result rn' \<or>
        (seals' = seals \<and> result = Inl AdmissionLost \<and> disposed_for_good f rn')"
proof -
  obtain sch rn where w: "w = (sch, rn)" by force
  with ready have r: "life_inv f rn" "is_idle (slot_of f rn)" "room (4 * n + 2) f rn" "set sch \<subseteq> turns"
    "spawn_sealed \<Gamma> c seals (fb_spawn (fiber_at rn f))" by (simp_all add: pass_ready_def)
  from sealed_change_commits [OF r(5) c sealed, of "rn_next rn"] obtain superseded seals1 spawn where
    commit: "commit_change (rn_next rn) change seals (fb_spawn (fiber_at rn f)) = (Inr superseded, seals1, spawn)"
      and on: "runs_on (pc_input change) seals1 spawn" by blast
  obtain seals' out where o: "update_pass n env f change seals (sch, rn) = (seals', out)" by force
  show ?thesis
  proof (cases out)
    case (Inl stop)
    with update_pass_answers [OF ft r(1-4) commit] o w show ?thesis by simp
  next
    case (Inr res)
    obtain result sch' rn' where res: "res = (result, sch', rn')" by (metis prod_cases3)
    from update_pass_answers [OF ft r(1-4) commit] o Inr res
    have ans: "if fb_alive (fiber_at rn f) then seals' = seals1 \<and> update_answer f spawn result rn'
      else seals' = seals \<and> result = Inl AdmissionLost \<and> disposed_for_good f rn'" by simp
    show ?thesis
    proof (cases "fb_alive (fiber_at rn f)")
      case True
      with ans have a: "seals' = seals1" "update_answer f spawn result rn'" by simp_all
      then have "fb_spawn (fiber_at rn' f) = spawn" by (simp add: update_answer_def)
      with a on have "committed_answer f (pc_input change) seals' result rn'" by (simp add: committed_answer_def)
      with o Inr res w show ?thesis by simp
    next
      case False
      with ans o Inr res w show ?thesis by simp
    qed
  qed
qed

section \<open>The properties\<close>

lemma reached_tail_attempts: "reached_tail tr \<longleftrightarrow> None \<in> fst ` set (List.map_filter attempt_input tr)"
  by (induction tr rule: reached_tail.induct) (auto simp: map_filter_simps)

lemma control_erases:
  assumes "typed_store \<Gamma> (uw_store w)" and "sealed_by (\<Gamma> contract) change"
    and "control code contract target change w = (result, tr, w1)"
    and "typed_chain code contract (update_snapshot contract target (uw_store w)) (pc_input change) w = (r, entered, w2)"
  shows "w1 = w2"
    and "result = map_sum (\<lambda>e. e) (\<lambda>input. if None \<in> fst ` set entered then Some (reseal (\<Gamma> contract) input) else None) r"
    and "map snd (List.map_filter attempt_input tr) = map (\<lambda>e. reseal (\<Gamma> contract) (snd e)) entered"
proof -
  let ?hooks = "update_snapshot contract target (uw_store w)"
  obtain r1 tr1 w1' where c: "run_chain code contract ?hooks change w = (r1, tr1, w1')" by (metis prod_cases3)
  have change: "reseal (\<Gamma> contract) (pc_input change) = change" using assms(2) sealed_iff by metis
  have "erases (\<Gamma> contract) (r1, tr1, w1') (r, entered, w2)"
    using run_chain_erases [OF typed_snapshot [OF assms(1), of contract target], of code contract "pc_input change" w] c assms(4)
    by (simp add: change)
  then have e: "r1 = map_sum (\<lambda>e. e) (reseal (\<Gamma> contract)) r" "w1' = w2"
    "List.map_filter attempt_input tr1 = map (map_prod (\<lambda>i. i) (reseal (\<Gamma> contract))) entered" by (simp_all add: erases_def)
  have "fst ` set (List.map_filter attempt_input tr1) = fst ` set entered" by (simp add: e(3) image_comp)
  then have reached: "reached_tail tr1 \<longleftrightarrow> None \<in> fst ` set entered" by (simp add: reached_tail_attempts)
  have same: "tr = tr1" "w1 = w1'" using c assms(3) by (auto simp: control_def split: sum.splits)
  show "w1 = w2" using same e(2) by simp
  show "map snd (List.map_filter attempt_input tr) = map (\<lambda>e. reseal (\<Gamma> contract) (snd e)) entered" using same e(3) by simp
  show "result = map_sum (\<lambda>e. e) (\<lambda>input. if None \<in> fst ` set entered then Some (reseal (\<Gamma> contract) input) else None) r"
    using c assms(3) e(1) reached by (cases r) (auto simp: control_def)
qed

lemma control_sealed:
  assumes "typed_store \<Gamma> (uw_store w)" and "sealed_by (\<Gamma> contract) change"
    and "control code contract target change w = (Inr (Some accepted), tr, w1)"
  shows "sealed_by (\<Gamma> contract) accepted"
proof -
  obtain r entered w2 where t: "typed_chain code contract (update_snapshot contract target (uw_store w)) (pc_input change) w
    = (r, entered, w2)" by (metis prod_cases3)
  from control_erases(2) [OF assms t] show ?thesis by (cases r) (auto split: if_splits)
qed

text \<open>
  C16: Update control is typed, although the chain is type-erased: on a store that keeps its
  typing, and for a change sealed by the Plugin of the contract, the chain is the one the
  user's types describe (\<open>typed_chain\<close>, which knows no seal and cannot panic over one), whatever
  the user code does.  Every change a policy or the tail gets is sealed by that very Plugin, so
  is the accepted change, and a result without acceptance is exactly a tail not reached.
\<close>

theorem control_is_typed:
  assumes "typed_store \<Gamma> (uw_store w)" and "sealed_by (\<Gamma> contract) change"
  shows "case control code contract target change w of (result, tr, w1) \<Rightarrow>
    (case typed_chain code contract (update_snapshot contract target (uw_store w)) (pc_input change) w of (r, entered, w2) \<Rightarrow>
       w1 = w2 \<and>
       result = map_sum (\<lambda>e. e) (\<lambda>input. if None \<in> fst ` set entered then Some (reseal (\<Gamma> contract) input) else None) r \<and>
       map snd (List.map_filter attempt_input tr) = map (\<lambda>e. reseal (\<Gamma> contract) (snd e)) entered)"
proof -
  obtain result tr w1 where c: "control code contract target change w = (result, tr, w1)" by (metis prod_cases3)
  obtain r entered w2 where t: "typed_chain code contract (update_snapshot contract target (uw_store w)) (pc_input change) w
    = (r, entered, w2)" by (metis prod_cases3)
  from control_erases [OF assms c t] c t show ?thesis by simp
qed


text \<open>
  Registering a policy is all or nothing and reversible: it is refused exactly at a closed
  generation gate, and then nothing changed; otherwise the hook stands first or last under its
  contract as asked, the store keeps its typing, the Fiber owns exactly one new cleanup, and
  that cleanup takes the hook and nothing else out again.
\<close>

theorem update_registration_exact:
  assumes "typed_store \<Gamma> st" and "kind_plugin kind = \<Gamma> (pt_contract P)" and "i \<notin> update_ids (pt_contract P) st"
  shows "case on_update cx P kind options i f0 (f, st) of
      (Inl e, s') \<Rightarrow> e = ListenerInactiveContext \<and> s' = (f, st) \<and>
        (assert_can_register f0 \<noteq> Inr () \<or> assert_can_register f \<noteq> Inr ())
    | (Inr token, f', st') \<Rightarrow>
        assert_can_register f0 = Inr () \<and> assert_can_register f = Inr () \<and> typed_store \<Gamma> st' \<and>
        map uh_id (update_list (pt_contract P) st') =
          (if lo_prepend options then i # map uh_id (update_list (pt_contract P) st) else map uh_id (update_list (pt_contract P) st) @ [i]) \<and>
        journal_push (sync_cleanup (RemoveUpdateHook (pt_contract P) i)) (fb_journal f) = (token, fb_journal f') \<and>
        (\<forall>c. update_list c (update_cleanup (pt_contract P) i st') = update_list c st)"
proof -
  let ?h = "\<lparr>uh_id = i, uh_prepend = lo_prepend options, uh_global = lo_global options, uh_scope = cx_scope cx,
            uh_once = lo_once options, uh_kind = kind\<rparr>"
  let ?push = "push_gated fst put_fst (sync_cleanup (RemoveUpdateHook (pt_contract P) i))
                (lift_publish (update_publish (pt_contract P) ?h)) (f0, st) (f, st)"
  obtain r s' where p: "?push = (r, s')" by (cases ?push) blast
  show ?thesis
  proof (cases r)
    case (Inl e)
    with p have q: "?push = (Inl e, s')" by simp
    from update_publish.push_gated_refused [OF TrueI q] have "s' = (f, st)" .
    moreover from q have "assert_can_register f0 \<noteq> Inr () \<or> assert_can_register f \<noteq> Inr ()"
      by (auto simp: push_gated_def lift_publish_def update_publish_def split: sum.splits prod.splits)
    ultimately show ?thesis using p Inl by (simp add: on_update_def)
  next
    case (Inr token)
    with p have "?push = (Inr token, s')" by simp
    note c = update_publish.push_gated_committed [OF TrueI this]
    let ?st = "update_add (pt_contract P) ?h st"
    have "s' = put_fst (fb_journal (fst s')) (snd (lift_publish (update_publish (pt_contract P) ?h) (f, st)))" using c by blast
    then have st: "snd s' = ?st" by (cases s') (simp add: put_fst_def lift_publish_def update_publish_def)
    have typed: "typed_store \<Gamma> ?st"
      by (rule update_add_typed [OF assms(1)]) (use assms(2,3) in \<open>simp_all add: typed_hook_def\<close>)
    have others: "List.filter (\<lambda>h. uh_id h \<noteq> i) (update_list (pt_contract P) st) = update_list (pt_contract P) st"
      using assms(3) by (auto simp: update_ids_def filter_id_conv)
    have undone: "update_list c (update_cleanup (pt_contract P) i ?st) = update_list c st" for c
      using others by (auto simp: update_cleanup_def update_list_remove [OF typed] update_list_add)
    from c have g: "assert_can_register f0 = Inr ()" "assert_can_register f = Inr ()"
      "journal_push (sync_cleanup (RemoveUpdateHook (pt_contract P) i)) (fb_journal f) = (token, fb_journal (fst s'))" by simp_all
    have run: "on_update cx P kind options i f0 (f, st) = (Inr token, fst s', ?st)" using p Inr st by (cases s') (simp add: on_update_def)
    have placed: "map uh_id (update_list (pt_contract P) ?st) =
        (if lo_prepend options then i # map uh_id (update_list (pt_contract P) st) else map uh_id (update_list (pt_contract P) st) @ [i])"
      by (simp add: update_list_add)
    show ?thesis unfolding run prod.case sum.case using g typed placed undone by blast
  qed
qed


section \<open>Witnesses\<close>

definition demo_type :: plugin_type where
  "demo_type = \<lparr>pt_contract = 5, pt_input_type = 6, pt_name = (\<lambda>_. ''app''), pt_inject = (\<lambda>_. [])\<rparr>"

text \<open>A Mapper that adds one, and an Around that vetoes the input 13 and else calls on.\<close>

definition demo_update_code :: "'u update_code" where
  "demo_update_code =
     \<lparr>uc_mapper = (\<lambda>_ input w. (Returned (Suc input), w)),
      uc_around = (\<lambda>_ input w.
        if input = 13 then (UpdateDone (Returned input), w)
        else (UpdateCalls input (\<lambda>r w. (case r of Inl e \<Rightarrow> Errored (PassedOn e) | Inr v \<Rightarrow> Returned v, w)), w))\<rparr>"

definition demo_hook :: "ident \<Rightarrow> update_kind \<Rightarrow> update_hook" where
  "demo_hook i kind = \<lparr>uh_id = i, uh_prepend = False, uh_global = True, uh_scope = None, uh_once = False, uh_kind = kind\<rparr>"

definition demo_hooks :: update_store where
  "demo_hooks = [(5, [demo_hook 3 (UpdateMapper demo_type 0), demo_hook 4 (UpdateAround demo_type 0)])]"

lemma demo_hooks_typed: "typed_store (\<lambda>_. demo_type) demo_hooks"
  by (simp add: typed_store_def demo_hooks_def demo_hook_def typed_hook_def)

lemma demo_update_eval:
  "update_snapshot 5 target demo_hooks = [\<lparr>us_id = 3, us_kind = UpdateMapper demo_type 0\<rparr>, \<lparr>us_id = 4, us_kind = UpdateAround demo_type 0\<rparr>]"
  "update_claim 5 3 demo_hooks = (True, demo_hooks)" "update_claim 5 4 demo_hooks = (True, demo_hooks)"
  by (simp_all add: update_snapshot_def update_list_def demo_hooks_def demo_hook_def update_in_scope_def update_claim_def extract_Cons_code)

theorem control_is_typed_witness:
  "case control demo_update_code 5 None (reseal demo_type 12) \<lparr>uw_store = demo_hooks, uw_user = ()\<rparr> of (result, tr, _) \<Rightarrow>
     result = Inr None \<and> map snd (List.map_filter attempt_input tr) = [reseal demo_type 12, reseal demo_type 13]"
proof -
  let ?w = "\<lparr>uw_store = demo_hooks, uw_user = ()\<rparr>"
  have t: "typed_store (\<lambda>_. demo_type) (uw_store ?w)" using demo_hooks_typed by simp
  have c: "typed_chain demo_update_code 5 (update_snapshot 5 None (uw_store ?w)) (pc_input (reseal demo_type 12)) ?w =
      (Inr 13, [(Some 3, 12), (Some 4, 13)], ?w)"
    by (simp add: demo_update_eval demo_update_code_def settle_outcome_def correlated_def)
      (simp add: reseal_def prepared_change_from_input_def)
  from control_is_typed [OF t sealed_reseal [of demo_type 12], where contract = 5 and code = demo_update_code and target = None]
  show ?thesis unfolding c by (auto split: prod.splits)
qed

lemma demo_control:
  "control demo_update_code 5 target (reseal demo_type 9) \<lparr>uw_store = demo_hooks, uw_user = u\<rparr>
     = (Inr (Some (reseal demo_type 10)),
        [UpdMapped 3 (reseal demo_type 9), UpdWrapped 4 (reseal demo_type 10), UpdAccepted (reseal demo_type 10)],
        \<lparr>uw_store = demo_hooks, uw_user = u\<rparr>)"
  by (simp add: control_def demo_update_eval demo_update_code_def invoke_mapper_def invoke_around_def resealed_map
      settle_outcome_def correlated_def)

lemma demo_ready: "pass_ready 2 2 (scripted_turns 2) (\<lambda>_. demo_type) 5 demo_seals (demo_turns, newborn_runtime)"
  using newborn_life [OF newborn_demo] newborn_slot(1) newborn_rooms [of "4 * 2 + 2"] demo_turns_allowed
  by (simp add: pass_ready_def spawn_sealed_def newborn_fields) (simp add: newborn_fiber_def demo_seals_def demo_type_def)


theorem update_registration_exact_witness:
  "case on_update demo_ctx demo_type (UpdateMapper demo_type 1) \<lparr>lo_prepend = True, lo_global = False, lo_once = True\<rparr> 6
       (fiber_at newborn_runtime (cx_fiber demo_ctx)) ((fiber_at newborn_runtime (cx_fiber demo_ctx)), demo_hooks) of
     (Inr _, _, st') \<Rightarrow> map uh_id (update_list 5 st') = [6, 3, 4]
   | _ \<Rightarrow> False"
proof -
  have gate: "assert_can_register (fiber_at newborn_runtime (cx_fiber demo_ctx)) = Inr ()" by code_simp
  have p: "pt_contract demo_type = 5" by (simp add: demo_type_def)
  have ids: "update_ids 5 demo_hooks = {3, 4}" "map uh_id (update_list 5 demo_hooks) = [3, 4]"
    by (simp_all add: update_ids_def update_list_def demo_hooks_def demo_hook_def)
  have fresh: "6 \<notin> update_ids (pt_contract demo_type) demo_hooks" by (simp add: p ids)
  obtain r f' st' where run: "on_update demo_ctx demo_type (UpdateMapper demo_type 1) \<lparr>lo_prepend = True, lo_global = False, lo_once = True\<rparr> 6
      (fiber_at newborn_runtime (cx_fiber demo_ctx)) ((fiber_at newborn_runtime (cx_fiber demo_ctx)), demo_hooks) = (r, f', st')" by (metis prod_cases3)
  have k: "kind_plugin (UpdateMapper demo_type 1) = demo_type" by simp
  note e = update_registration_exact [where cx = demo_ctx and options = "\<lparr>lo_prepend = True, lo_global = False, lo_once = True\<rparr>"
      and ?f0.0 = "fiber_at newborn_runtime (cx_fiber demo_ctx)" and f = "fiber_at newborn_runtime (cx_fiber demo_ctx)",
      OF demo_hooks_typed k fresh, unfolded run gate p ids]
  show ?thesis unfolding run using e by (cases r) simp_all
qed

end
