(* ===== verification/Logger_Model.thy ===== *)
theory Logger_Model
  imports Gated
begin

text \<open>
  Panic containment (\<open>crates/cordis-core/src/contained.rs\<close>) and the Runtime-local log
  (\<open>crates/cordis-core/src/logger.rs\<close>): levels, records, the ring of \<open>BufferExporter\<close>, the
  exporter store with its generation-owned registrations, the fan-out of one record, and the
  channel name derived from a Fiber's name.

  An exporter is user code: functions on the whole log world, which they may change at will
  (they may register, remove or log again).  \<open>lw_stack\<close> is the thread-local callback stack, the
  service of the running callback first.  A panic carries its payload, and a payload's destructor
  may panic in turn.
\<close>

section \<open>Panic containment\<close>

text \<open>\<open>&str\<close> and \<open>String\<close> payloads render; any other payload has a destructor, which may panic.\<close>

datatype panic_payload = TextPayload string | OpaquePayload "panic_payload option"

fun payload_text_or :: "string \<Rightarrow> panic_payload \<Rightarrow> string" where
  "payload_text_or fallback (TextPayload s) = s"
| "payload_text_or fallback (OpaquePayload _) = fallback"

definition payload_text :: "panic_payload \<Rightarrow> string" where
  "payload_text = payload_text_or ''non-string panic payload''"

fun payload_drop :: "panic_payload \<Rightarrow> panic_payload option" where
  "payload_drop (TextPayload _) = None"
| "payload_drop (OpaquePayload d) = d"

text \<open>The diagnostic, and the secondary payload that is forgotten instead of destroyed.\<close>

definition consume_panic_payload :: "panic_payload \<Rightarrow> string \<Rightarrow> string \<times> panic_payload option" where
  "consume_panic_payload payload fallback =
     (let diagnostic = payload_text_or fallback payload
      in case payload_drop payload of
           None \<Rightarrow> (diagnostic, None)
         | Some secondary \<Rightarrow>
             (diagnostic @ ''; panic payload destructor panicked: '' @ payload_text secondary,
              case secondary of TextPayload _ \<Rightarrow> None | OpaquePayload _ \<Rightarrow> Some secondary))"

definition catch_contained :: "panic_payload + 'v \<Rightarrow> string + 'v" where
  "catch_contained r =
     (case r of Inr v \<Rightarrow> Inr v | Inl payload \<Rightarrow> Inl (fst (consume_panic_payload payload ''non-string panic payload'')))"

text \<open>\<open>report\<close> is the routing of \<open>report_text\<close>; the callback answers with its panic, if any.\<close>

definition contain :: "string \<Rightarrow> (string \<Rightarrow> 'w \<Rightarrow> 'w) \<Rightarrow> ('w \<Rightarrow> panic_payload option \<times> 'w) \<Rightarrow> 'w \<Rightarrow> 'w" where
  "contain site report callback w =
     (case callback w of
        (None, w1) \<Rightarrow> w1
      | (Some payload, w1) \<Rightarrow>
          report (''cordis: '' @ site @ '' panicked: '' @ fst (consume_panic_payload payload ''non-string panic payload'')) w1)"

datatype join_error = JoinPanic panic_payload | JoinCancelled

text \<open>The outer panic is that of polling the join handle itself.\<close>

definition contain_join :: "string \<Rightarrow> (string \<Rightarrow> 'w \<Rightarrow> 'w) \<Rightarrow> panic_payload + (join_error + unit) \<Rightarrow> 'w \<Rightarrow> 'w" where
  "contain_join site report join w =
     (let line = (\<lambda>payload. ''cordis: '' @ site @ '' panicked: '' @ fst (consume_panic_payload payload ''non-string panic payload''))
      in case join of
           Inl payload \<Rightarrow> report (line payload) w
         | Inr (Inr _) \<Rightarrow> w
         | Inr (Inl (JoinPanic payload)) \<Rightarrow> report (line payload) w
         | Inr (Inl JoinCancelled) \<Rightarrow> w)"

section \<open>Levels and records\<close>

datatype level = LevelDebug | LevelInfo | LevelWarn | LevelError

fun level_rank :: "level \<Rightarrow> nat" where
  "level_rank LevelDebug = 0"
| "level_rank LevelInfo = 1"
| "level_rank LevelWarn = 2"
| "level_rank LevelError = 3"

lemma level_rank_inject: "level_rank a = level_rank b \<longleftrightarrow> a = b"
  by (cases a; cases b) simp_all

text \<open>The derived order of the code: declaration order.\<close>

instantiation level :: linorder
begin

definition less_eq_level :: "level \<Rightarrow> level \<Rightarrow> bool" where
  "a \<le> b \<longleftrightarrow> level_rank a \<le> level_rank b"

definition less_level :: "level \<Rightarrow> level \<Rightarrow> bool" where
  "a < b \<longleftrightarrow> level_rank a < level_rank b"

instance
  by standard (auto simp: less_eq_level_def less_level_def level_rank_inject)

end

fun level_as_str :: "level \<Rightarrow> string" where
  "level_as_str LevelDebug = ''debug''"
| "level_as_str LevelInfo = ''info''"
| "level_as_str LevelWarn = ''warn''"
| "level_as_str LevelError = ''error''"

record log_record =
  lg_sequence :: u64
  lg_timestamp :: nat
  lg_channel :: string
  lg_level :: level
  lg_text :: string

section \<open>The buffer exporter\<close>

datatype buffer_size_error = BufferSizeZero

record buffer_exporter =
  be_capacity :: nat
  be_buffer :: "log_record list"
  be_min_level :: level

definition buffer_new :: "nat \<Rightarrow> level \<Rightarrow> buffer_size_error + buffer_exporter" where
  "buffer_new capacity min_level =
     (if capacity = 0 then Inl BufferSizeZero
      else Inr \<lparr>be_capacity = capacity, be_buffer = [], be_min_level = min_level\<rparr>)"

text \<open>\<open>pop_front\<close> of an empty deque does nothing.\<close>

definition buffer_export :: "log_record \<Rightarrow> buffer_exporter \<Rightarrow> buffer_exporter" where
  "buffer_export r b =
     (let kept = if length (be_buffer b) = be_capacity b then drop 1 (be_buffer b) else be_buffer b
      in b\<lparr>be_buffer := kept @ [r]\<rparr>)"

definition buffer_snapshot :: "buffer_exporter \<Rightarrow> log_record list" where
  "buffer_snapshot b = be_buffer b"

definition buffer_clear :: "buffer_exporter \<Rightarrow> buffer_exporter" where
  "buffer_clear b = b\<lparr>be_buffer := []\<rparr>"

section \<open>The service\<close>

record exporter_occurrence =
  eo_key :: u64
  eo_exporter :: ident

record 'u log_world =
  lw_sequence :: u64
  lw_exporter_sequence :: u64
  lw_exporters :: "exporter_occurrence list"
  lw_stack :: "ident list"
  lw_clock :: nat
  lw_stderr :: "string list"
  lw_user :: 'u

record 'u exporter_code =
  ec_min_level :: "ident \<Rightarrow> string \<Rightarrow> 'u log_world \<Rightarrow> (panic_payload + level option) \<times> 'u log_world"
  ec_default_level :: "ident \<Rightarrow> 'u log_world \<Rightarrow> (panic_payload + level) \<times> 'u log_world"
  ec_export :: "ident \<Rightarrow> log_record \<Rightarrow> 'u log_world \<Rightarrow> panic_payload option \<times> 'u log_world"
  ec_drop :: "ident \<Rightarrow> 'u log_world \<Rightarrow> panic_payload option \<times> 'u log_world"

definition eprintln :: "string \<Rightarrow> 'u log_world \<Rightarrow> 'u log_world" where
  "eprintln line w = w\<lparr>lw_stderr := lw_stderr w @ [line]\<rparr>"

text \<open>\<open>None\<close> is the \<open>expect\<close> at the end of the identity space.\<close>

definition next_sequence :: "'u log_world \<Rightarrow> (u64 \<times> 'u log_world) option" where
  "next_sequence w = map_option (\<lambda>n. (n, w\<lparr>lw_sequence := n\<rparr>)) (checked_succ (lw_sequence w))"

definition reserve_exporter :: "'u log_world \<Rightarrow> (u64 \<times> 'u log_world) option" where
  "reserve_exporter w = map_option (\<lambda>n. (n, w\<lparr>lw_exporter_sequence := n\<rparr>)) (checked_succ (lw_exporter_sequence w))"

definition insert_reserved :: "u64 \<Rightarrow> ident \<Rightarrow> 'u log_world \<Rightarrow> 'u log_world" where
  "insert_reserved key e w = w\<lparr>lw_exporters := lw_exporters w @ [\<lparr>eo_key = key, eo_exporter = e\<rparr>]\<rparr>"

definition remove_exporter :: "u64 \<Rightarrow> 'u log_world \<Rightarrow> bool \<times> 'u log_world" where
  "remove_exporter key w =
     (case List.extract (\<lambda>x. eo_key x = key) (lw_exporters w) of
        None \<Rightarrow> (False, w)
      | Some (before, _, after) \<Rightarrow> (True, w\<lparr>lw_exporters := before @ after\<rparr>))"

text \<open>What one exporter made of a record; the fan-out lists them in the order it called them.\<close>

datatype delivery = Exported | Filtered | ExporterPanicked

definition push_service :: "ident \<Rightarrow> 'u log_world \<Rightarrow> 'u log_world" where
  "push_service sid w = w\<lparr>lw_stack := sid # lw_stack w\<rparr>"

text \<open>The reset guard pops on a return and on an unwind alike.\<close>

definition pop_service :: "'u log_world \<Rightarrow> 'u log_world" where
  "pop_service w = w\<lparr>lw_stack := tl (lw_stack w)\<rparr>"

definition exporter_threshold ::
  "'u exporter_code \<Rightarrow> ident \<Rightarrow> string \<Rightarrow> 'u log_world \<Rightarrow> (panic_payload + level) \<times> 'u log_world"
where
  "exporter_threshold code e channel w =
     (case ec_min_level code e channel w of
        (Inl payload, w1) \<Rightarrow> (Inl payload, w1)
      | (Inr (Some threshold), w1) \<Rightarrow> (Inr threshold, w1)
      | (Inr None, w1) \<Rightarrow> ec_default_level code e w1)"

definition call_exporter ::
  "'u exporter_code \<Rightarrow> ident \<Rightarrow> ident \<Rightarrow> log_record \<Rightarrow> 'u log_world \<Rightarrow> panic_payload option \<times> delivery \<times> 'u log_world"
where
  "call_exporter code sid e r w =
     (case exporter_threshold code e (lg_channel r) (push_service sid w) of
        (Inl payload, w1) \<Rightarrow> (Some payload, ExporterPanicked, pop_service w1)
      | (Inr threshold, w1) \<Rightarrow>
          (if threshold \<le> lg_level r
           then (case ec_export code e r w1 of
                   (None, w2) \<Rightarrow> (None, Exported, pop_service w2)
                 | (Some payload, w2) \<Rightarrow> (Some payload, ExporterPanicked, pop_service w2))
           else (None, Filtered, pop_service w1)))"

definition export_contained ::
  "'u exporter_code \<Rightarrow> ident \<Rightarrow> ident \<Rightarrow> log_record \<Rightarrow> 'u log_world \<Rightarrow> delivery \<times> 'u log_world"
where
  "export_contained code sid e r w =
     (case call_exporter code sid e r w of
        (panicked, d, w1) \<Rightarrow>
          (d, contain ''log exporter drop'' eprintln (ec_drop code e)
                (contain ''log exporter'' eprintln (\<lambda>w. (panicked, w)) w1)))"

fun fan_out ::
  "'u exporter_code \<Rightarrow> ident \<Rightarrow> log_record \<Rightarrow> ident list \<Rightarrow> 'u log_world \<Rightarrow> (ident \<times> delivery) list \<times> 'u log_world"
where
  "fan_out code sid r [] w = ([], w)"
| "fan_out code sid r (e # es) w =
     (case export_contained code sid e r w of
        (d, w1) \<Rightarrow> (case fan_out code sid r es w1 of (ds, w2) \<Rightarrow> ((e, d) # ds, w2)))"

definition suppressed_line :: "log_record \<Rightarrow> string" where
  "suppressed_line r =
     ''cordis: reentrant log suppressed ['' @ level_as_str (lg_level r) @ ''] '' @ lg_channel r @ '': '' @ lg_text r"

definition log_dispatch ::
  "'u exporter_code \<Rightarrow> ident \<Rightarrow> log_record \<Rightarrow> 'u log_world \<Rightarrow> (ident \<times> delivery) list \<times> 'u log_world"
where
  "log_dispatch code sid r w =
     (if sid \<in> set (lw_stack w) then ([], eprintln (suppressed_line r) w)
      else fan_out code sid r (map eo_exporter (lw_exporters w)) w)"

section \<open>Channel names\<close>

datatype hyphen_state = Delim | Upper | Lower

definition ascii_upper :: "char \<Rightarrow> bool" where
  "ascii_upper c \<longleftrightarrow> of_char c \<in> {65 ..< 91 :: nat}"

definition ascii_lower :: "char \<Rightarrow> bool" where
  "ascii_lower c \<longleftrightarrow> of_char c \<in> {97 ..< 123 :: nat}"

definition to_ascii_lower :: "char \<Rightarrow> char" where
  "to_ascii_lower c = (if ascii_upper c then char_of (of_char c + 32 :: nat) else c)"

text \<open>Characters are single bytes here; every other character of the code passes through.\<close>

fun hyphenate_loop :: "hyphen_state \<Rightarrow> string \<Rightarrow> string" where
  "hyphenate_loop state [] = []"
| "hyphenate_loop state (ch # chars) =
     (if ascii_upper ch then
        (if state = Upper then (case chars of [] \<Rightarrow> [] | c # _ \<Rightarrow> if ascii_lower c then ''-'' else [])
         else if state \<noteq> Delim then ''-''
         else []) @ to_ascii_lower ch # hyphenate_loop Upper chars
      else if ascii_lower ch then ch # hyphenate_loop Lower chars
      else if ch = CHR ''-'' \<or> ch = CHR ''_'' then
        (if state \<noteq> Delim then ''-'' else []) @ hyphenate_loop Delim chars
      else ch # hyphenate_loop state chars)"

definition hyphenate :: "string \<Rightarrow> string" where
  "hyphenate name = hyphenate_loop Delim name"

section \<open>Loggers and registrations\<close>

record logger =
  logger_name :: string
  logger_service :: ident

definition logger_for_fiber :: "ident \<Rightarrow> string \<Rightarrow> logger" where
  "logger_for_fiber sid fiber_name = \<lparr>logger_name = hyphenate fiber_name, logger_service = sid\<rparr>"

definition with_name :: "string \<Rightarrow> logger \<Rightarrow> logger" where
  "with_name name l = l\<lparr>logger_name := name\<rparr>"

definition logger_log :: "'u exporter_code \<Rightarrow> logger \<Rightarrow> level \<Rightarrow> string \<Rightarrow> 'u log_world \<Rightarrow>
  ((ident \<times> delivery) list \<times> 'u log_world) option"
where
  "logger_log code l lv text w =
     (case next_sequence w of
        None \<Rightarrow> None
      | Some (n, w1) \<Rightarrow>
          Some (log_dispatch code (logger_service l)
            \<lparr>lg_sequence = n, lg_timestamp = lw_clock w1, lg_channel = logger_name l, lg_level = lv, lg_text = text\<rparr> w1))"

definition log_warn :: "'u exporter_code \<Rightarrow> logger \<Rightarrow> string \<Rightarrow> 'u log_world \<Rightarrow> ((ident \<times> delivery) list \<times> 'u log_world) option" where
  "log_warn code l text w = logger_log code l LevelWarn text w"

definition report_text :: "'u exporter_code \<Rightarrow> logger option \<Rightarrow> string \<Rightarrow> 'u log_world \<Rightarrow> 'u log_world option" where
  "report_text code l text w =
     (case l of
        Some logger \<Rightarrow> map_option snd (log_warn code logger text w)
      | None \<Rightarrow> Some (eprintln text w))"

text \<open>A framework task's panic is logged as an error and goes on unwinding: \<open>Inl\<close> is the payload.\<close>

definition report_panic ::
  "'u exporter_code \<Rightarrow> logger \<Rightarrow> string \<Rightarrow> string \<Rightarrow> panic_payload + 'v \<Rightarrow> 'u log_world \<Rightarrow>
   (panic_payload + 'v) \<times> 'u log_world option"
where
  "report_panic code l operation details outcome w =
     (case outcome of
        Inr v \<Rightarrow> (Inr v, Some w)
      | Inl payload \<Rightarrow>
          (Inl payload,
           map_option snd (logger_log code l LevelError
             (''cordis: framework task '' @ operation @ '' panicked ('' @ details @ ''): '' @ payload_text payload) w)))"

definition exporter_publish :: "u64 \<Rightarrow> ident \<Rightarrow> 'u log_world publish_step" where
  "exporter_publish key e w = (True, insert_reserved key e w)"

text \<open>\<open>f0\<close> is the Fiber at the gate, \<open>f\<close> the Fiber under the journal lock.  The key is burnt even
  when the gate refuses.\<close>

definition add_exporter ::
  "ident \<Rightarrow> fiber \<Rightarrow> fiber \<Rightarrow> 'u log_world \<Rightarrow> ((effect_registration_error + u64) \<times> fiber \<times> 'u log_world) option"
where
  "add_exporter e f0 f w =
     (case reserve_exporter w of
        None \<Rightarrow> None
      | Some (key, w1) \<Rightarrow>
          (case push_gated fst put_fst (fut_cleanup (RemoveExporter key)) (lift_publish (exporter_publish key e)) (f0, w1) (f, w1) of
             (Inl _, s) \<Rightarrow> Some (Inl EffectInactiveContext, s)
           | (Inr _, s) \<Rightarrow> Some (Inr key, s)))"

interpretation exporter_publish: gated_step fst put_fst "lift_publish (exporter_publish key e)" "\<lambda>_. True"
  for key e
  by unfold_locales (simp_all add: lift_publish_def exporter_publish_def put_fst_def)

end
