(* ===== verification/Logger_Properties.thy ===== *)
theory Logger_Properties
  imports Logger_Model
begin

text \<open>
  What the log promises: the buffer holds exactly the last records (a refinement to the list of
  what was exported), one record reaches every exporter present whatever the others do and never
  recurses, channel names are normal forms, and an exporter registration ends once.
\<close>

section \<open>The buffer\<close>

lemma drop_one_more: "n < length xs \<Longrightarrow> drop 1 (drop n xs) = drop (Suc n) xs"
  by (simp add: drop_drop)

lemma buffer_after:
  assumes "0 < be_capacity b" and "be_buffer b = []"
  shows "be_capacity (fold buffer_export rs b) = be_capacity b \<and> be_min_level (fold buffer_export rs b) = be_min_level b \<and>
    be_buffer (fold buffer_export rs b) = drop (length rs - be_capacity b) rs"
proof (induction rs rule: rev_induct)
  case Nil
  then show ?case using assms by simp
next
  case (snoc r rs)
  let ?c = "be_capacity b" and ?b = "fold buffer_export rs b"
  have step: "be_capacity (buffer_export r ?b) = be_capacity ?b \<and> be_min_level (buffer_export r ?b) = be_min_level ?b \<and>
      be_buffer (buffer_export r ?b) = (if length (be_buffer ?b) = be_capacity ?b then drop 1 (be_buffer ?b) else be_buffer ?b) @ [r]"
    by (simp add: buffer_export_def Let_def)
  have "be_buffer (buffer_export r ?b) = drop (Suc (length rs) - ?c) (rs @ [r])"
  proof (cases "length rs < ?c")
    case True
    with snoc step show ?thesis by simp
  next
    case False
    then have "drop 1 (drop (length rs - ?c) rs) = drop (Suc (length rs) - ?c) rs"
      using assms(1) by (subst drop_one_more) (auto simp: Suc_diff_le)
    with False snoc step assms(1) show ?thesis by simp
  qed
  with snoc step show ?case by simp
qed

text \<open>
  A buffer exporter is refused for capacity zero; otherwise, after any sequence of records, it
  holds exactly the last \<open>capacity\<close> of them, oldest first, never more, and its capacity and level
  stay what they were.
\<close>

theorem buffer_keeps_last:
  "case buffer_new capacity lv of
     Inl e \<Rightarrow> capacity = 0
   | Inr b \<Rightarrow>
       0 < capacity \<and> be_min_level (fold buffer_export rs b) = lv \<and>
       buffer_snapshot (fold buffer_export rs b) = drop (length rs - capacity) rs \<and>
       length (buffer_snapshot (fold buffer_export rs b)) = min capacity (length rs)"
proof (cases "capacity = 0")
  case True
  then show ?thesis by (simp add: buffer_new_def)
next
  case False
  then have "buffer_new capacity lv = Inr \<lparr>be_capacity = capacity, be_buffer = [], be_min_level = lv\<rparr>"
    by (simp add: buffer_new_def)
  with buffer_after [of "\<lparr>be_capacity = capacity, be_buffer = [], be_min_level = lv\<rparr>" rs] False show ?thesis
    by (simp add: buffer_snapshot_def min_def)
qed

section \<open>Channel names\<close>

lemma ascii_disjoint: "ascii_lower c \<Longrightarrow> \<not> ascii_upper c"
  by (simp add: ascii_lower_def ascii_upper_def)

lemma lower_of_upper: "ascii_upper c \<Longrightarrow> ascii_lower (to_ascii_lower c)"
  by (simp add: ascii_upper_def ascii_lower_def to_ascii_lower_def of_char_of)

lemma delimiters_plain: "\<not> ascii_upper CHR ''-''" "\<not> ascii_lower CHR ''-''" "\<not> ascii_upper CHR ''_''" "\<not> ascii_lower CHR ''_''"
  by (simp_all add: ascii_upper_def ascii_lower_def)

text \<open>What the loop may still write, from each state.\<close>

fun kebab :: "bool \<Rightarrow> string \<Rightarrow> bool" where
  "kebab after [] = True"
| "kebab after (c # cs) = (\<not> ascii_upper c \<and> c \<noteq> CHR ''_'' \<and> (if c = CHR ''-'' then \<not> after \<and> kebab True cs else kebab (after \<and> \<not> ascii_lower c) cs))"

fun settled_state :: "hyphen_state \<Rightarrow> hyphen_state" where
  "settled_state Delim = Delim"
| "settled_state Upper = Lower"
| "settled_state Lower = Lower"

lemma settled_eq_Upper [simp]: "settled_state s \<noteq> Upper" and settled_eq_Delim [simp]: "settled_state s = Delim \<longleftrightarrow> s = Delim"
  by (cases s; simp)+

lemma lowered_plain:
  "ascii_upper c \<Longrightarrow> to_ascii_lower c \<noteq> CHR ''-'' \<and> to_ascii_lower c \<noteq> CHR ''_'' \<and>
     \<not> ascii_upper (to_ascii_lower c) \<and> ascii_lower (to_ascii_lower c)"
  using lower_of_upper ascii_disjoint delimiters_plain by metis

text \<open>The dash a capital may get in front of it.\<close>

definition capital_dash :: "hyphen_state \<Rightarrow> string \<Rightarrow> bool" where
  "capital_dash state chars \<longleftrightarrow>
     (if state = Upper then (case chars of [] \<Rightarrow> False | c # _ \<Rightarrow> ascii_lower c) else state \<noteq> Delim)"

lemma hyphenate_capital:
  "ascii_upper c \<Longrightarrow> hyphenate_loop state (c # cs) =
     (if capital_dash state cs then ''-'' else []) @ to_ascii_lower c # hyphenate_loop Upper cs"
  by (simp add: capital_dash_def split: list.split)

lemma hyphenate_small: "ascii_lower c \<Longrightarrow> hyphenate_loop state (c # cs) = c # hyphenate_loop Lower cs"
  by (simp add: ascii_disjoint)

lemma hyphenate_delimiter:
  "hyphenate_loop state (CHR ''-'' # cs) = (if state \<noteq> Delim then ''-'' else []) @ hyphenate_loop Delim cs"
  "hyphenate_loop state (CHR ''_'' # cs) = (if state \<noteq> Delim then ''-'' else []) @ hyphenate_loop Delim cs"
  by (simp_all add: delimiters_plain)

lemma hyphenate_other:
  "\<not> ascii_upper c \<Longrightarrow> \<not> ascii_lower c \<Longrightarrow> c \<noteq> CHR ''-'' \<Longrightarrow> c \<noteq> CHR ''_'' \<Longrightarrow> hyphenate_loop state (c # cs) = c # hyphenate_loop state cs"
  by simp

lemmas hyphenate_steps = hyphenate_capital hyphenate_small hyphenate_delimiter hyphenate_other

lemma capital_dash_state: "capital_dash state cs \<Longrightarrow> state \<noteq> Delim"
  by (auto simp: capital_dash_def)

declare hyphenate_loop.simps(2) [simp del]

lemma kebab_loop: "kebab (state = Delim) (hyphenate_loop state cs)"
proof (induction cs arbitrary: state)
  case Nil
  show ?case by simp
next
  case (Cons c cs)
  consider (upper) "ascii_upper c" | (lower) "ascii_lower c" | (dash) "c = CHR ''-''" | (under) "c = CHR ''_''"
    | (other) "\<not> ascii_upper c" "\<not> ascii_lower c" "c \<noteq> CHR ''-''" "c \<noteq> CHR ''_''" by blast
  then show ?case
  proof cases
    case upper
    from Cons.IH [of Upper] capital_dash_state [of state cs] lowered_plain [OF upper] show ?thesis
      by (simp add: hyphenate_capital [OF upper] delimiters_plain)
  next
    case lower
    with Cons.IH [of Lower] ascii_disjoint [OF lower] delimiters_plain show ?thesis by (auto simp: hyphenate_small)
  next
    case dash
    with Cons.IH [of Delim] show ?thesis by (simp add: hyphenate_delimiter delimiters_plain)
  next
    case under
    with Cons.IH [of Delim] show ?thesis by (simp add: hyphenate_delimiter delimiters_plain)
  next
    case other
    with Cons.IH [of state] show ?thesis by (simp add: hyphenate_other)
  qed
qed

lemma hyphenate_again: "hyphenate_loop (settled_state state) (hyphenate_loop state cs) = hyphenate_loop state cs"
proof (induction cs arbitrary: state)
  case Nil
  show ?case by simp
next
  case (Cons c cs)
  consider (upper) "ascii_upper c" | (lower) "ascii_lower c" | (dash) "c = CHR ''-''" | (under) "c = CHR ''_''"
    | (other) "\<not> ascii_upper c" "\<not> ascii_lower c" "c \<noteq> CHR ''-''" "c \<noteq> CHR ''_''" by blast
  then show ?case
  proof cases
    case upper
    with Cons.IH [of Upper] capital_dash_state [of state cs] lowered_plain [OF upper] show ?thesis
      by (simp add: hyphenate_capital [OF upper] hyphenate_small hyphenate_delimiter)
  next
    case lower
    with Cons.IH [of Lower] show ?thesis by (simp add: hyphenate_small)
  next
    case dash
    with Cons.IH [of Delim] show ?thesis by (simp add: hyphenate_delimiter)
  next
    case under
    with Cons.IH [of Delim] show ?thesis by (simp add: hyphenate_delimiter)
  next
    case other
    with Cons.IH [of state] show ?thesis by (simp add: hyphenate_other)
  qed
qed

lemma kebab_no_double: "kebab after (a @ CHR ''-'' # CHR ''-'' # b) = False"
  by (induction a arbitrary: after) (auto simp: delimiters_plain)

text \<open>
  A channel name derived from a Fiber's name is a normal form: it holds no capital and no
  underscore, does not begin with a dash, never holds two dashes in a row, and deriving it again
  gives the same name.
\<close>

theorem hyphenate_normal_form:
  "hyphenate (hyphenate name) = hyphenate name \<and>
   list_all (\<lambda>c. \<not> ascii_upper c \<and> c \<noteq> CHR ''_'') (hyphenate name) \<and>
   take 1 (hyphenate name) \<noteq> ''-'' \<and>
   (\<nexists>a b. hyphenate name = a @ ''--'' @ b)"
proof -
  have k: "kebab True (hyphenate name)" using kebab_loop [of Delim name] by (simp add: hyphenate_def)
  have "list_all (\<lambda>c. \<not> ascii_upper c \<and> c \<noteq> CHR ''_'') cs" if "kebab after cs" for after cs
    using that by (induction after cs rule: kebab.induct) (auto split: if_splits)
  moreover have "hyphenate (hyphenate name) = hyphenate name" using hyphenate_again [of Delim name] by (simp add: hyphenate_def)
  moreover have "take 1 (hyphenate name) \<noteq> ''-''" using k by (cases "hyphenate name") auto
  moreover have "\<nexists>a b. hyphenate name = a @ ''--'' @ b" using k kebab_no_double by fastforce
  ultimately show ?thesis using k by blast
qed

section \<open>The fan-out\<close>

text \<open>User code never reaches the private callback stack; what it logs itself is balanced.\<close>

definition stack_neutral :: "('u log_world \<Rightarrow> 'a \<times> 'u log_world) \<Rightarrow> bool" where
  "stack_neutral g \<longleftrightarrow> (\<forall>w. lw_stack (snd (g w)) = lw_stack w)"

definition stack_neutral_code :: "'u exporter_code \<Rightarrow> bool" where
  "stack_neutral_code code \<longleftrightarrow>
     (\<forall>e channel. stack_neutral (ec_min_level code e channel)) \<and> (\<forall>e. stack_neutral (ec_default_level code e)) \<and>
     (\<forall>e r. stack_neutral (ec_export code e r)) \<and> (\<forall>e. stack_neutral (ec_drop code e))"

lemma stack_neutralD: "stack_neutral g \<Longrightarrow> g w = (x, w') \<Longrightarrow> lw_stack w' = lw_stack w"
  by (metis stack_neutral_def snd_conv)

lemma contain_stack:
  assumes "stack_neutral g"
  shows "lw_stack (contain site eprintln g w) = lw_stack w"
proof -
  obtain p w1 where g: "g w = (p, w1)" by force
  with stack_neutralD [OF assms g] show ?thesis by (cases p) (simp_all add: contain_def eprintln_def)
qed

lemma threshold_stack:
  assumes "stack_neutral_code code" and "exporter_threshold code e channel w = (t, w')"
  shows "lw_stack w' = lw_stack w"
proof -
  obtain m w1 where m: "ec_min_level code e channel w = (m, w1)" by force
  from assms(1) have n: "stack_neutral (ec_min_level code e channel)" "stack_neutral (ec_default_level code e)"
    by (simp_all add: stack_neutral_code_def)
  from stack_neutralD [OF n(1) m] stack_neutralD [OF n(2), of w1] assms(2) m show ?thesis
    by (auto simp: exporter_threshold_def split: sum.splits option.splits)
qed

lemma call_exporter_stack:
  assumes "stack_neutral_code code" and "call_exporter code sid e r w = (p, d, w')"
  shows "lw_stack w' = lw_stack w"
proof -
  obtain t w1 where t: "exporter_threshold code e (lg_channel r) (push_service sid w) = (t, w1)" by force
  have s1: "lw_stack w1 = sid # lw_stack w" using threshold_stack [OF assms(1) t] by (simp add: push_service_def)
  have n: "stack_neutral (ec_export code e r)" using assms(1) by (simp add: stack_neutral_code_def)
  obtain q w2 where x: "ec_export code e r w1 = (q, w2)" by force
  from stack_neutralD [OF n x] s1 assms(2) t x show ?thesis
    by (cases t; cases q) (auto simp: call_exporter_def pop_service_def split: if_splits)
qed

lemma export_contained_stack:
  assumes "stack_neutral_code code"
  shows "lw_stack (snd (export_contained code sid e r w)) = lw_stack w"
proof -
  obtain p d w1 where c: "call_exporter code sid e r w = (p, d, w1)" by (metis prod_cases3)
  have n: "stack_neutral (ec_drop code e)" "stack_neutral (\<lambda>w. (p, w))"
    using assms by (simp_all add: stack_neutral_code_def) (simp add: stack_neutral_def)
  from call_exporter_stack [OF assms c] c show ?thesis
    by (simp add: export_contained_def contain_stack [OF n(1)] contain_stack [OF n(2)])
qed

lemma fan_out_spec:
  assumes "stack_neutral_code code"
  shows "map fst (fst (fan_out code sid r es w)) = es \<and> lw_stack (snd (fan_out code sid r es w)) = lw_stack w"
proof (induction es arbitrary: w)
  case Nil
  show ?case by simp
next
  case (Cons e es)
  obtain d w1 where c: "export_contained code sid e r w = (d, w1)" by force
  with export_contained_stack [OF assms, of sid e r w] have "lw_stack w1 = lw_stack w" by simp
  with c Cons.IH [of w1] show ?case by (auto split: prod.splits)
qed


section \<open>Exporter registrations\<close>

definition exporters_wf :: "'u log_world \<Rightarrow> bool" where
  "exporters_wf w \<longleftrightarrow>
     distinct (map eo_key (lw_exporters w)) \<and> (\<forall>x \<in> set (lw_exporters w). eo_key x \<le> lw_exporter_sequence w)"

definition exporter_present :: "u64 \<Rightarrow> 'u log_world \<Rightarrow> bool" where
  "exporter_present key w \<longleftrightarrow> key \<in> eo_key ` set (lw_exporters w)"

lemma remove_exporter_spec:
  assumes "exporters_wf w"
  shows "fst (remove_exporter key w) \<longleftrightarrow> exporter_present key w"
    and "exporter_present k (snd (remove_exporter key w)) \<longleftrightarrow> exporter_present k w \<and> k \<noteq> key"
    and "exporters_wf (snd (remove_exporter key w))"
proof -
  show "fst (remove_exporter key w) \<longleftrightarrow> exporter_present key w"
    by (auto simp: remove_exporter_def exporter_present_def extract_None_iff extract_Some_iff split: option.split)
  show "exporter_present k (snd (remove_exporter key w)) \<longleftrightarrow> exporter_present k w \<and> k \<noteq> key"
    using assms by (auto simp: remove_exporter_def exporter_present_def exporters_wf_def extract_None_iff extract_Some_iff image_iff split: option.split) metis
  show "exporters_wf (snd (remove_exporter key w))"
  proof (cases "List.extract (\<lambda>x. eo_key x = key) (lw_exporters w)")
    case None
    with assms show ?thesis by (simp add: remove_exporter_def)
  next
    case (Some found)
    obtain before x after where "found = (before, x, after)" by (metis prod_cases3)
    with Some have f: "List.extract (\<lambda>x. eo_key x = key) (lw_exporters w) = Some (before, x, after)" by simp
    then have "lw_exporters w = before @ x # after" by (simp add: extract_Some_iff)
    with assms f show ?thesis by (simp add: remove_exporter_def exporters_wf_def)
  qed
qed

interpretation exporter_claims: exact_claim exporter_present remove_exporter exporters_wf
  by unfold_locales (auto simp: remove_exporter_spec)

lemma add_exporter_spec:
  assumes "exporters_wf w" and "add_exporter e f0 f w = Some (r, f', w')"
  shows "case r of
      Inl _ \<Rightarrow> f' = f \<and> lw_exporters w' = lw_exporters w \<and> exporters_wf w'
    | Inr key \<Rightarrow> \<not> exporter_present key w \<and> exporters_wf w' \<and>
        lw_exporters w' = lw_exporters w @ [\<lparr>eo_key = key, eo_exporter = e\<rparr>] \<and>
        (\<exists>token. journal_push (fut_cleanup (RemoveExporter key)) (fb_journal f) = (token, fb_journal f'))"
proof -
  obtain key where k: "checked_succ (lw_exporter_sequence w) = Some key"
    using assms(2) by (cases "checked_succ (lw_exporter_sequence w)") (simp_all add: add_exporter_def reserve_exporter_def del: checked_succ_None)
  let ?w = "w\<lparr>lw_exporter_sequence := key\<rparr>"
  let ?push = "push_gated fst put_fst (fut_cleanup (RemoveExporter key)) (lift_publish (exporter_publish key e)) (f0, ?w) (f, ?w)"
  have above: "lw_exporter_sequence w < key" using unat_checked_succ [OF k] by (simp add: word_less_nat_alt)
  have wf: "exporters_wf ?w" using assms(1) above by (force simp: exporters_wf_def)
  have fresh: "\<not> exporter_present key w" using assms(1) above by (auto simp: exporters_wf_def exporter_present_def)
  obtain out s where p: "?push = (out, s)" by (cases ?push)
  have run: "(r, f', w') = (case out of Inl _ \<Rightarrow> (Inl EffectInactiveContext, s) | Inr _ \<Rightarrow> (Inr key, s))"
    using assms(2) k p by (cases out) (simp_all add: add_exporter_def reserve_exporter_def)
  show ?thesis
  proof (cases out)
    case (Inl x)
    with p have "?push = (Inl x, s)" by simp
    from exporter_publish.push_gated_refused [OF TrueI this] run Inl wf show ?thesis by simp
  next
    case (Inr token)
    with p have "?push = (Inr token, s)" by simp
    note c = exporter_publish.push_gated_committed [OF TrueI this]
    have s: "s = put_fst (fb_journal (fst s)) (snd (lift_publish (exporter_publish key e) (f, ?w)))" using c by blast
    then have w: "snd s = insert_reserved key e ?w" by (cases s) (simp add: put_fst_def lift_publish_def exporter_publish_def)
    have j: "journal_push (fut_cleanup (RemoveExporter key)) (fb_journal f) = (token, fb_journal (fst s))" using c by simp
    have "exporters_wf (insert_reserved key e ?w)"
      using wf fresh by (auto simp: exporters_wf_def insert_reserved_def exporter_present_def image_iff)
    with run Inr w j fresh show ?thesis by (cases s) (auto simp: insert_reserved_def)
  qed
qed

text \<open>
  Every exporter registration has a key of its own, never given before, and ends once: of any
  sequence of removals, by the caller or by the generation's cleanup, exactly one removes it, and
  none touches another registration.
\<close>

theorem exporter_registration_ends_once:
  assumes "exporters_wf w" and "add_exporter e f0 f w = Some (Inr key, f', w')"
    and "run_claims remove_exporter keys w' = (results, w'')"
  shows "\<not> exporter_present key w \<and> count_list (winners results) key = (if key \<in> set keys then 1 else 0) \<and>
    (\<forall>k. exporter_present k w'' \<longleftrightarrow> (k = key \<or> exporter_present k w) \<and> k \<notin> set keys)"
proof -
  from add_exporter_spec [OF assms(1,2)] have a: "\<not> exporter_present key w" "exporters_wf w'"
    "lw_exporters w' = lw_exporters w @ [\<lparr>eo_key = key, eo_exporter = e\<rparr>]" by simp_all
  have present: "exporter_present k w' \<longleftrightarrow> k = key \<or> exporter_present k w" for k
    by (auto simp: exporter_present_def a(3))
  from exporter_claims.run_claims_winners [OF a(2) assms(3)] have "distinct (winners results)"
    "set (winners results) = {t \<in> set keys. exporter_present t w'}" "\<forall>u. exporter_present u w'' \<longleftrightarrow> exporter_present u w' \<and> u \<notin> set keys" by blast+
  with a(1) present show ?thesis by (auto simp: count_list_distinct)
qed

section \<open>Witnesses\<close>

definition demo_exporters :: "nat exporter_code" where
  "demo_exporters =
     \<lparr>ec_min_level = (\<lambda>e _ w. if e = 5 then (Inl (OpaquePayload None), w) else (Inr None, w)),
      ec_default_level = (\<lambda>_ w. (Inr LevelInfo, w)),
      ec_export = (\<lambda>_ _ w. (None, w\<lparr>lw_user := Suc (lw_user w)\<rparr>)),
      ec_drop = (\<lambda>_ w. (None, w))\<rparr>"

definition demo_log :: "nat log_world" where
  "demo_log =
     \<lparr>lw_sequence = 0, lw_exporter_sequence = 9, lw_exporters = [\<lparr>eo_key = 8, eo_exporter = 5\<rparr>, \<lparr>eo_key = 9, eo_exporter = 6\<rparr>],
      lw_stack = [], lw_clock = 0, lw_stderr = [], lw_user = 0\<rparr>"


theorem exporter_registration_ends_once_witness:
  "case add_exporter 7 fiber_root fiber_root demo_log of
     Some (Inr key, _, w') \<Rightarrow> count_list (winners (fst (run_claims remove_exporter [key, 8, key] w'))) key = 1
   | _ \<Rightarrow> False"
proof -
  have gate: "assert_can_register fiber_root = Inr ()"
    by (simp add: assert_can_register_cases fiber_root_def set_state_def fiber_new_with_edges_def
        publication_new_def publication_publish_def checked_succ_def current_state_def)
  have wf: "exporters_wf demo_log" by (simp add: exporters_wf_def demo_log_def)
  obtain f' w' where a: "add_exporter 7 fiber_root fiber_root demo_log = Some (Inr 10, f', w')"
  proof -
    obtain token j where "journal_push (fut_cleanup (RemoveExporter 10)) (fb_journal fiber_root) = (token, j)" by force
    with gate that show ?thesis by (auto simp: add_exporter_def reserve_exporter_def demo_log_def checked_succ_def push_gated_def
        lift_publish_def exporter_publish_def put_fst_def)
  qed
  obtain results w'' where r: "run_claims remove_exporter [10, 8, 10] w' = (results, w'')" by force
  from exporter_registration_ends_once [OF wf a r] a r show ?thesis by simp
qed

end
