(* ===== verification/Timer_Model.thy ===== *)
theory Timer_Model
  imports Gated
begin

text \<open>
  Timer operations (\<open>crates/cordis-timer/src/shapes.rs\<close>, \<open>lib.rs\<close>): \<open>Timeout\<close>, \<open>Sleep\<close> and
  \<open>Interval\<close>, each owning its deadline and sharing one cancellation flag and one cleanup
  occurrence with the generation.

  Tokio's clock, timer driver and sleep are parameters (\<open>timer_env\<close>): whether a runtime and a
  driver are current, the greatest representable instant, when a pinned deadline reports itself
  due, and the tick scheduler.  Caller work is a parameter too; polling it may run turns of its own
  (it can dispose the very Fiber).

  Between any two atomic steps of a poll other threads may act.  What they can do to one operation
  is a \<open>timer_turn\<close>; a poll takes a schedule of them, one batch for each step.
\<close>

section \<open>The shared state of one operation\<close>

record timer_state =
  tm_now :: nat
  tm_owner :: bool \<comment> \<open>the Fiber allocation is still alive\<close>
  tm_journal :: journal
  tm_taken :: bool \<comment> \<open>a generation drain holds the cleanup it claimed and has not run it yet\<close>
  tm_cancelled :: bool
  tm_waker :: "ident option"
  tm_woken :: "ident list"

text \<open>\<open>AtomicWaker::wake\<close> takes the registered waker.\<close>

definition cancel_signal :: "timer_state \<Rightarrow> timer_state" where
  "cancel_signal s =
     (if tm_cancelled s then s
      else s\<lparr>tm_cancelled := True,
             tm_woken := tm_woken s @ (case tm_waker s of None \<Rightarrow> [] | Some wk \<Rightarrow> [wk]),
             tm_waker := None\<rparr>)"

datatype timer_turn =
    Elapse nat
  | DrainClaims token
  | DrainRuns
  | OwnerGone

text \<open>The closure of the cleanup is \<open>cancel_signal\<close>; only who claimed the occurrence runs it.\<close>

fun run_turn :: "token \<Rightarrow> timer_turn \<Rightarrow> timer_state \<Rightarrow> timer_state" where
  "run_turn tok (Elapse n) s = s\<lparr>tm_now := tm_now s + n\<rparr>"
| "run_turn tok (DrainClaims u) s =
     (case journal_claim u (tm_journal s) of
        (won, j) \<Rightarrow> s\<lparr>tm_journal := j, tm_taken := tm_taken s \<or> (won \<and> u = tok)\<rparr>)"
| "run_turn tok DrainRuns s = (if tm_taken s then cancel_signal (s\<lparr>tm_taken := False\<rparr>) else s)"
| "run_turn tok OwnerGone s = s\<lparr>tm_owner := False\<rparr>"

type_synonym timer_run = "timer_turn list list \<times> timer_state"

fun pause :: "token \<Rightarrow> timer_run \<Rightarrow> timer_run" where
  "pause tok ([], s) = ([], s)"
| "pause tok (turns # rest, s) = (rest, fold (run_turn tok) turns s)"

definition is_cancelled :: "token \<Rightarrow> ident \<Rightarrow> timer_run \<Rightarrow> bool \<times> timer_run" where
  "is_cancelled tok wk sched =
     (case pause tok sched of
        (rest, s) \<Rightarrow>
          if tm_cancelled s then (True, rest, s)
          else (case pause tok (rest, s\<lparr>tm_waker := Some wk\<rparr>) of (rest', s') \<Rightarrow> (tm_cancelled s', rest', s')))"

text \<open>\<open>EffectEntry\<close>: the registration while it has not been taken.\<close>

type_synonym effect_entry = "token option"

definition entry_disarm :: "token \<Rightarrow> effect_entry \<Rightarrow> timer_run \<Rightarrow> bool \<times> effect_entry \<times> timer_run" where
  "entry_disarm tok entry sched =
     (case entry of
        None \<Rightarrow> (False, None, sched)
      | Some t \<Rightarrow>
          (case pause tok sched of
             (rest, s) \<Rightarrow>
               (case registration_disarm (tm_owner s) t (tm_journal s) of
                  (won, j) \<Rightarrow> (won, None, rest, s\<lparr>tm_journal := j\<rparr>))))"

definition entry_abandon :: "token \<Rightarrow> effect_entry \<Rightarrow> timer_run \<Rightarrow> effect_entry \<times> timer_run" where
  "entry_abandon tok entry sched = snd (entry_disarm tok entry sched)"

section \<open>Construction\<close>

datatype timer_registration_error = TimerInactiveContext | TimerUnavailable | ZeroPeriod | DeadlineOutOfRange

record ('f, 'o, 'i) timer_env =
  te_runtime :: bool
  te_driver :: bool
  te_max_instant :: nat
  te_due :: "nat \<Rightarrow> nat \<Rightarrow> bool"
  te_work :: "'f \<Rightarrow> 'o option \<times> timer_turn list \<times> 'f"
  te_interval_at :: "nat \<Rightarrow> nat \<Rightarrow> 'i"
  te_tick :: "'i \<Rightarrow> nat \<Rightarrow> bool \<times> 'i"

definition instant_checked_add :: "nat \<Rightarrow> nat \<Rightarrow> nat \<Rightarrow> nat option" where
  "instant_checked_add greatest now delay = (if now + delay \<le> greatest then Some (now + delay) else None)"

text \<open>Without a driver the constructor of the sleep panics, which is caught.\<close>

definition prepare_deadline :: "('f, 'o, 'i) timer_env \<Rightarrow> nat \<Rightarrow> nat \<Rightarrow> timer_registration_error + nat" where
  "prepare_deadline env now delay =
     (if \<not> te_runtime env then Inl TimerUnavailable
      else (case instant_checked_add (te_max_instant env) now delay of
              None \<Rightarrow> Inl DeadlineOutOfRange
            | Some deadline \<Rightarrow> if te_driver env then Inr deadline else Inl TimerUnavailable))"

definition prepare_interval :: "('f, 'o, 'i) timer_env \<Rightarrow> nat \<Rightarrow> nat \<Rightarrow> timer_registration_error + 'i" where
  "prepare_interval env now period =
     (if \<not> te_runtime env then Inl TimerUnavailable
      else (case instant_checked_add (te_max_instant env) now period of
              None \<Rightarrow> Inl DeadlineOutOfRange
            | Some first \<Rightarrow> if te_driver env then Inr (te_interval_at env first period) else Inl TimerUnavailable))"

text \<open>\<open>f1\<close> is the Fiber at the early check, \<open>f0\<close> at the gate, \<open>f\<close> under the journal lock; \<open>i\<close> names the
  closure over the fresh cancellation flag.\<close>

definition generation_cleanup_admitted :: "fiber \<Rightarrow> bool" where
  "generation_cleanup_admitted f \<longleftrightarrow> (case assert_can_register f of Inr _ \<Rightarrow> True | Inl _ \<Rightarrow> False)"

definition commit_cancellation :: "ident \<Rightarrow> fiber \<Rightarrow> fiber \<Rightarrow> (timer_registration_error + token) \<times> fiber" where
  "commit_cancellation i f0 f =
     (case effect_sync i f0 f of
        (Inl _, f') \<Rightarrow> (Inl TimerInactiveContext, f')
      | (Inr token, f') \<Rightarrow> (Inr token, f'))"

definition prepare_one_shot ::
  "('f, 'o, 'i) timer_env \<Rightarrow> nat \<Rightarrow> nat \<Rightarrow> ident \<Rightarrow> fiber \<Rightarrow> fiber \<Rightarrow> fiber \<Rightarrow>
   (timer_registration_error + nat \<times> token) \<times> fiber"
where
  "prepare_one_shot env now delay i f1 f0 f =
     (if \<not> generation_cleanup_admitted f1 then (Inl TimerInactiveContext, f)
      else (case prepare_deadline env now delay of
              Inl e \<Rightarrow> (Inl e, f)
            | Inr deadline \<Rightarrow>
                (case commit_cancellation i f0 f of
                   (Inl e, f') \<Rightarrow> (Inl e, f')
                 | (Inr token, f') \<Rightarrow> (Inr (deadline, token), f'))))"

record 'f timeout_op =
  to_work :: "'f option"
  to_deadline :: "nat option"
  to_cleanup :: effect_entry
  to_terminated :: bool

record sleep_op =
  sp_deadline :: "nat option"
  sp_cleanup :: effect_entry
  sp_terminated :: bool

record 'i interval_op =
  iv_scheduler :: "'i option"
  iv_cleanup :: effect_entry
  iv_terminated :: bool

definition timer_timeout ::
  "('f, 'o, 'i) timer_env \<Rightarrow> nat \<Rightarrow> nat \<Rightarrow> 'f \<Rightarrow> ident \<Rightarrow> fiber \<Rightarrow> fiber \<Rightarrow> fiber \<Rightarrow>
   (timer_registration_error + 'f timeout_op) \<times> fiber"
where
  "timer_timeout env now delay work i f1 f0 f =
     (if \<not> generation_cleanup_admitted f1 then (Inl TimerInactiveContext, f)
      else (case prepare_deadline env now delay of
              Inl e \<Rightarrow> (Inl e, f)
            | Inr deadline \<Rightarrow>
                (case commit_cancellation i f0 f of
                   (Inl e, f') \<Rightarrow> (Inl e, f')
                 | (Inr token, f') \<Rightarrow>
                     (Inr \<lparr>to_work = Some work, to_deadline = Some deadline, to_cleanup = Some token, to_terminated = False\<rparr>, f'))))"

definition timer_sleep ::
  "('f, 'o, 'i) timer_env \<Rightarrow> nat \<Rightarrow> nat \<Rightarrow> ident \<Rightarrow> fiber \<Rightarrow> fiber \<Rightarrow> fiber \<Rightarrow> (timer_registration_error + sleep_op) \<times> fiber"
where
  "timer_sleep env now delay i f1 f0 f =
     (case prepare_one_shot env now delay i f1 f0 f of
        (Inl e, f') \<Rightarrow> (Inl e, f')
      | (Inr (deadline, token), f') \<Rightarrow>
          (Inr \<lparr>sp_deadline = Some deadline, sp_cleanup = Some token, sp_terminated = False\<rparr>, f'))"

definition timer_interval ::
  "('f, 'o, 'i) timer_env \<Rightarrow> nat \<Rightarrow> nat \<Rightarrow> ident \<Rightarrow> fiber \<Rightarrow> fiber \<Rightarrow> fiber \<Rightarrow> (timer_registration_error + 'i interval_op) \<times> fiber"
where
  "timer_interval env now period i f1 f0 f =
     (if period = 0 then (Inl ZeroPeriod, f)
      else if \<not> generation_cleanup_admitted f1 then (Inl TimerInactiveContext, f)
      else (case prepare_interval env now period of
              Inl e \<Rightarrow> (Inl e, f)
            | Inr scheduler \<Rightarrow>
                (case commit_cancellation i f0 f of
                   (Inl e, f') \<Rightarrow> (Inl e, f')
                 | (Inr token, f') \<Rightarrow>
                     (Inr \<lparr>iv_scheduler = Some scheduler, iv_cleanup = Some token, iv_terminated = False\<rparr>, f'))))"

section \<open>Polling\<close>

datatype timer_cancelled = TimerCancelled

datatype 'o timeout_outcome = TimeoutCompleted 'o | TimeoutElapsed

datatype 'a timer_poll = TimerPending | TimerReady 'a

definition deadline_poll :: "('f, 'o, 'i) timer_env \<Rightarrow> token \<Rightarrow> nat \<Rightarrow> timer_run \<Rightarrow> bool \<times> timer_run" where
  "deadline_poll env tok deadline sched = (case pause tok sched of (rest, s) \<Rightarrow> (te_due env deadline (tm_now s), rest, s))"

text \<open>The two ways an operation ends, each with what is left of the entry.\<close>

definition cancelled_end ::
  "token \<Rightarrow> effect_entry \<Rightarrow> timer_run \<Rightarrow> (timer_cancelled + 'v) timer_poll \<times> effect_entry \<times> timer_run"
where
  "cancelled_end tok entry sched =
     (case entry_abandon tok entry sched of (entry', sched') \<Rightarrow> (TimerReady (Inl TimerCancelled), entry', sched'))"

definition commit_end ::
  "token \<Rightarrow> effect_entry \<Rightarrow> 'v \<Rightarrow> timer_run \<Rightarrow> (timer_cancelled + 'v) timer_poll \<times> effect_entry \<times> timer_run"
where
  "commit_end tok entry v sched =
     (case entry_disarm tok entry sched of
        (won, entry', sched') \<Rightarrow> (TimerReady (if won then Inr v else Inl TimerCancelled), entry', sched'))"

definition elapsed_end ::
  "token \<Rightarrow> ident \<Rightarrow> effect_entry \<Rightarrow> 'v \<Rightarrow> timer_run \<Rightarrow> (timer_cancelled + 'v) timer_poll \<times> effect_entry \<times> timer_run"
where
  "elapsed_end tok wk entry v sched =
     (case is_cancelled tok wk sched of
        (True, run1) \<Rightarrow> cancelled_end tok entry run1
      | (False, run1) \<Rightarrow> commit_end tok entry v run1)"

definition still_pending ::
  "token \<Rightarrow> ident \<Rightarrow> effect_entry \<Rightarrow> timer_run \<Rightarrow> (timer_cancelled + 'v) timer_poll \<times> effect_entry \<times> timer_run"
where
  "still_pending tok wk entry sched =
     (case is_cancelled tok wk sched of
        (True, run1) \<Rightarrow> cancelled_end tok entry run1
      | (False, run1) \<Rightarrow> (TimerPending, entry, run1))"

definition work_poll :: "('f, 'o, 'i) timer_env \<Rightarrow> token \<Rightarrow> 'f \<Rightarrow> timer_run \<Rightarrow> 'o option \<times> 'f \<times> timer_run" where
  "work_poll env tok work sched =
     (case pause tok sched of
        (rest, s) \<Rightarrow>
          (case te_work env work of (output, turns, work') \<Rightarrow> (output, work', rest, fold (run_turn tok) turns s)))"

definition poll_timeout ::
  "('f, 'o, 'i) timer_env \<Rightarrow> token \<Rightarrow> ident \<Rightarrow> nat \<Rightarrow> 'f \<Rightarrow> effect_entry \<Rightarrow> timer_run \<Rightarrow>
   'f \<times> (timer_cancelled + 'o timeout_outcome) timer_poll \<times> effect_entry \<times> timer_run"
where
  "poll_timeout env tok wk deadline work entry sched =
     (case is_cancelled tok wk sched of
        (True, run1) \<Rightarrow> (work, cancelled_end tok entry run1)
      | (False, run1) \<Rightarrow>
          (case deadline_poll env tok deadline run1 of
             (True, run2) \<Rightarrow> (work, elapsed_end tok wk entry TimeoutElapsed run2)
           | (False, run2) \<Rightarrow>
               (case work_poll env tok work run2 of
                  (None, work', run3) \<Rightarrow> (work', still_pending tok wk entry run3)
                | (Some output, work', run3) \<Rightarrow>
                    (work',
                     case is_cancelled tok wk run3 of
                       (True, run4) \<Rightarrow> cancelled_end tok entry run4
                     | (False, run4) \<Rightarrow>
                         (case deadline_poll env tok deadline run4 of
                            (True, run5) \<Rightarrow> elapsed_end tok wk entry TimeoutElapsed run5
                          | (False, run5) \<Rightarrow> elapsed_end tok wk entry (TimeoutCompleted output) run5)))))"

text \<open>\<open>None\<close> is the assertion on a poll after completion, or an \<open>expect\<close>.\<close>

definition timeout_poll ::
  "('f, 'o, 'i) timer_env \<Rightarrow> token \<Rightarrow> ident \<Rightarrow> 'f timeout_op \<Rightarrow> timer_run \<Rightarrow>
   ((timer_cancelled + 'o timeout_outcome) timer_poll \<times> 'f timeout_op \<times> timer_run) option"
where
  "timeout_poll env tok wk op sched =
     (if to_terminated op then None
      else (case (to_work op, to_deadline op) of
              (Some work, Some deadline) \<Rightarrow>
                (case poll_timeout env tok wk deadline work (to_cleanup op) sched of
                   (work', result, entry, sched') \<Rightarrow>
                     Some (result,
                       (case result of
                          TimerReady _ \<Rightarrow> \<lparr>to_work = None, to_deadline = None, to_cleanup = entry, to_terminated = True\<rparr>
                        | TimerPending \<Rightarrow> op\<lparr>to_work := Some work', to_cleanup := entry\<rparr>),
                       sched'))
            | _ \<Rightarrow> None))"

definition sleep_poll ::
  "('f, 'o, 'i) timer_env \<Rightarrow> token \<Rightarrow> ident \<Rightarrow> sleep_op \<Rightarrow> timer_run \<Rightarrow>
   ((timer_cancelled + unit) timer_poll \<times> sleep_op \<times> timer_run) option"
where
  "sleep_poll env tok wk op sched =
     (if sp_terminated op then None
      else (case sp_deadline op of
              None \<Rightarrow> None
            | Some deadline \<Rightarrow>
                (case (case is_cancelled tok wk sched of
                         (True, run1) \<Rightarrow> cancelled_end tok (sp_cleanup op) run1
                       | (False, run1) \<Rightarrow>
                           (case deadline_poll env tok deadline run1 of
                              (True, run2) \<Rightarrow> elapsed_end tok wk (sp_cleanup op) () run2
                            | (False, run2) \<Rightarrow> still_pending tok wk (sp_cleanup op) run2)) of
                   (result, entry, sched') \<Rightarrow>
                     Some (result,
                       (case result of
                          TimerReady _ \<Rightarrow> \<lparr>sp_deadline = None, sp_cleanup = entry, sp_terminated = True\<rparr>
                        | TimerPending \<Rightarrow> op\<lparr>sp_cleanup := entry\<rparr>),
                       sched'))))"

text \<open>A stream item: \<open>None\<close> ends the stream.  A tick does not take the cleanup.\<close>

definition interval_end ::
  "token \<Rightarrow> 'i interval_op \<Rightarrow> timer_run \<Rightarrow> (timer_cancelled + unit) option timer_poll \<times> 'i interval_op \<times> timer_run"
where
  "interval_end tok op sched =
     (case entry_abandon tok (iv_cleanup op) sched of
        (entry, sched') \<Rightarrow>
          (TimerReady (Some (Inl TimerCancelled)), \<lparr>iv_scheduler = None, iv_cleanup = entry, iv_terminated = True\<rparr>, sched'))"

definition interval_poll_next ::
  "('f, 'o, 'i) timer_env \<Rightarrow> token \<Rightarrow> ident \<Rightarrow> 'i interval_op \<Rightarrow> timer_run \<Rightarrow>
   ((timer_cancelled + unit) option timer_poll \<times> 'i interval_op \<times> timer_run) option"
where
  "interval_poll_next env tok wk op sched =
     (if iv_terminated op then Some (TimerReady None, op, sched)
      else (case is_cancelled tok wk sched of
              (True, run1) \<Rightarrow> Some (interval_end tok op run1)
            | (False, run1) \<Rightarrow>
                (case iv_scheduler op of
                   None \<Rightarrow> None
                 | Some scheduler \<Rightarrow>
                     (case pause tok run1 of
                        (rest, s) \<Rightarrow>
                          (case te_tick env scheduler (tm_now s) of
                             (ticked, scheduler') \<Rightarrow>
                               (case is_cancelled tok wk (rest, s) of
                                  (True, run2) \<Rightarrow> Some (interval_end tok (op\<lparr>iv_scheduler := Some scheduler'\<rparr>) run2)
                                | (False, run2) \<Rightarrow>
                                    Some (if ticked then TimerReady (Some (Inr ())) else TimerPending,
                                      op\<lparr>iv_scheduler := Some scheduler'\<rparr>, run2)))))))"

text \<open>Dropping an operation abandons its entry and emits nothing.\<close>

definition timer_drop :: "token \<Rightarrow> effect_entry \<Rightarrow> timer_run \<Rightarrow> effect_entry \<times> timer_run" where
  "timer_drop tok entry sched = entry_abandon tok entry sched"

end
