(* ===== verification/Timer_Properties.thy ===== *)
theory Timer_Properties
  imports Timer_Model
begin

text \<open>
  What timer operations promise under every schedule: one operation and its generation compete for
  one cleanup occurrence, exactly one of them ends the operation, and a pending operation misses
  no cancellation.
\<close>

section \<open>Who owns the end\<close>

definition timer_inv :: "token \<Rightarrow> timer_state \<Rightarrow> bool" where
  "timer_inv tok s \<longleftrightarrow>
     \<not> (owned tok (tm_journal s) \<and> (tm_taken s \<or> tm_cancelled s)) \<and> \<not> (tm_taken s \<and> tm_cancelled s)"

text \<open>Nobody but the generation can have ended a live operation.\<close>

definition timer_live :: "token \<Rightarrow> timer_state \<Rightarrow> bool" where
  "timer_live tok s \<longleftrightarrow> timer_inv tok s \<and> (owned tok (tm_journal s) \<or> tm_taken s \<or> tm_cancelled s)"

definition timer_ended :: "token \<Rightarrow> timer_state \<Rightarrow> bool" where
  "timer_ended tok s \<longleftrightarrow> \<not> owned tok (tm_journal s) \<and> \<not> tm_taken s \<and> \<not> tm_cancelled s"

text \<open>The waker is where a cancellation finds it, or it has been woken.\<close>

definition timer_armed :: "ident \<Rightarrow> timer_state \<Rightarrow> bool" where
  "timer_armed wk s \<longleftrightarrow> (if tm_cancelled s then wk \<in> set (tm_woken s) else tm_waker s = Some wk)"

definition timer_keeps :: "token \<Rightarrow> ident \<Rightarrow> timer_state \<Rightarrow> timer_state \<Rightarrow> bool" where
  "timer_keeps tok wk s s' \<longleftrightarrow>
     (timer_live tok s \<longrightarrow> timer_live tok s') \<and> (timer_ended tok s \<longrightarrow> timer_ended tok s') \<and>
     (timer_armed wk s \<longrightarrow> timer_armed wk s') \<and> (tm_cancelled s \<longrightarrow> tm_cancelled s') \<and>
     (\<not> tm_owner s \<longrightarrow> \<not> tm_owner s') \<and> tm_now s \<le> tm_now s'"

lemma timer_keeps_refl [simp]: "timer_keeps tok wk s s"
  by (simp add: timer_keeps_def)

lemma timer_keeps_trans: "timer_keeps tok wk s s1 \<Longrightarrow> timer_keeps tok wk s1 s2 \<Longrightarrow> timer_keeps tok wk s s2"
  by (auto simp: timer_keeps_def)

lemma run_turn_keeps: "timer_keeps tok wk s (run_turn tok turn s)"
proof (cases turn)
  case (DrainClaims u)
  then show ?thesis
    using owned_claim [of tok u "tm_journal s"]
    by (auto simp: timer_keeps_def timer_live_def timer_ended_def timer_armed_def timer_inv_def journal_claim_eq)
qed (auto simp: timer_keeps_def timer_live_def timer_ended_def timer_armed_def timer_inv_def cancel_signal_def)

lemma run_turns_keep: "timer_keeps tok wk s (fold (run_turn tok) turns s)"
proof (induction turns arbitrary: s)
  case (Cons turn turns)
  show ?case using timer_keeps_trans [OF run_turn_keeps Cons.IH] by simp
qed simp

lemma pause_keeps: "timer_keeps tok wk (snd r) (snd (pause tok r))"
  by (induction tok r rule: pause.induct) (simp_all add: run_turns_keep)

lemma is_cancelled_spec:
  assumes "is_cancelled tok wk r = (b, r')"
  shows "(timer_live tok (snd r) \<longrightarrow> timer_live tok (snd r')) \<and> tm_now (snd r) \<le> tm_now (snd r') \<and>
    tm_cancelled (snd r') = b \<and> (\<not> b \<longrightarrow> timer_armed wk (snd r'))"
proof -
  obtain rest s where p: "pause tok r = (rest, s)" by force
  with pause_keeps [of tok wk r] have k: "timer_keeps tok wk (snd r) s" by simp
  show ?thesis
  proof (cases "tm_cancelled s")
    case True
    with assms p have "b \<and> r' = (rest, s)" by (simp add: is_cancelled_def)
    with True k show ?thesis by (simp add: timer_keeps_def)
  next
    case False
    let ?s = "s\<lparr>tm_waker := Some wk\<rparr>"
    obtain rest' s' where q: "pause tok (rest, ?s) = (rest', s')" by force
    with pause_keeps [of tok wk "(rest, ?s)"] have k': "timer_keeps tok wk ?s s'" by simp
    have "timer_armed wk ?s" "timer_live tok s \<longrightarrow> timer_live tok ?s"
      using False by (simp_all add: timer_armed_def timer_live_def timer_inv_def)
    moreover from assms p q False have "b = tm_cancelled s' \<and> r' = (rest', s')" by (simp add: is_cancelled_def)
    ultimately show ?thesis using k k' by (auto simp: timer_keeps_def)
  qed
qed

text \<open>How a poll may end.\<close>

definition arbitrated ::
  "token \<Rightarrow> ident \<Rightarrow> (timer_cancelled + 'v) timer_poll \<Rightarrow> effect_entry \<Rightarrow> timer_state \<Rightarrow> bool"
where
  "arbitrated tok wk result entry s \<longleftrightarrow>
     (case result of
        TimerPending \<Rightarrow> entry = Some tok \<and> timer_live tok s \<and> \<not> tm_cancelled s \<and> timer_armed wk s
      | TimerReady (Inr _) \<Rightarrow> entry = None \<and> timer_ended tok s
      | TimerReady (Inl _) \<Rightarrow> entry = None \<and> (tm_taken s \<or> tm_cancelled s \<or> \<not> tm_owner s))"

lemma cancelled_end_arbitrated:
  assumes "tm_cancelled (snd r)" and "cancelled_end tok (Some tok) r = (result, entry, r')"
  shows "arbitrated tok wk result entry (snd r') \<and> result = TimerReady (Inl TimerCancelled) \<and> tm_now (snd r) \<le> tm_now (snd r')"
proof -
  obtain rest s where p: "pause tok r = (rest, s)" by force
  with pause_keeps [of tok wk r] assms(1) have "tm_cancelled s" "tm_now (snd r) \<le> tm_now s" by (simp_all add: timer_keeps_def)
  with assms(2) p show ?thesis
    by (auto simp: cancelled_end_def entry_abandon_def entry_disarm_def arbitrated_def split: prod.splits)
qed

lemma commit_end_arbitrated:
  assumes "timer_live tok (snd r)" and "commit_end tok (Some tok) v r = (result, entry, r')"
  shows "arbitrated tok wk result entry (snd r') \<and> result \<in> {TimerReady (Inr v), TimerReady (Inl TimerCancelled)} \<and>
    tm_now (snd r) \<le> tm_now (snd r')"
proof -
  obtain rest s where p: "pause tok r = (rest, s)" by force
  with pause_keeps [of tok wk r] assms(1) have l: "timer_live tok s" "tm_now (snd r) \<le> tm_now s" by (simp_all add: timer_keeps_def)
  obtain won j where d: "registration_disarm (tm_owner s) tok (tm_journal s) = (won, j)" by force
  have r': "result = TimerReady (if won then Inr v else Inl TimerCancelled)" "entry = None" "r' = (rest, s\<lparr>tm_journal := j\<rparr>)"
    using assms(2) p d by (auto simp: commit_end_def entry_disarm_def)
  show ?thesis
  proof (cases won)
    case True
    with d have "owned tok (tm_journal s)" "j = snd (journal_claim tok (tm_journal s))"
      by (auto simp: registration_disarm_def journal_claim_def owned_def journal_remove_def split: if_splits prod.splits)
    with l True r' owned_claim [of tok tok "tm_journal s"] show ?thesis
      by (auto simp: arbitrated_def timer_ended_def timer_live_def timer_inv_def)
  next
    case False
    with d have "\<not> tm_owner s \<or> \<not> owned tok (tm_journal s)"
      by (auto simp: registration_disarm_def owned_def journal_remove_def split: if_splits prod.splits)
    with l False r' show ?thesis by (auto simp: arbitrated_def timer_live_def)
  qed
qed

lemma elapsed_end_arbitrated:
  assumes "timer_live tok (snd r)" and "elapsed_end tok wk (Some tok) v r = (result, entry, r')"
  shows "arbitrated tok wk result entry (snd r') \<and> result \<in> {TimerReady (Inr v), TimerReady (Inl TimerCancelled)} \<and>
    tm_now (snd r) \<le> tm_now (snd r')"
proof -
  obtain b r1 where c: "is_cancelled tok wk r = (b, r1)" by (cases "is_cancelled tok wk r")
  note s = is_cancelled_spec [OF c]
  show ?thesis
  proof (cases b)
    case True
    with assms(2) c have "cancelled_end tok (Some tok) r1 = (result, entry, r')" by (simp add: elapsed_end_def)
    from cancelled_end_arbitrated [OF _ this, of wk] s True show ?thesis by auto
  next
    case False
    with assms(2) c have "commit_end tok (Some tok) v r1 = (result, entry, r')" by (simp add: elapsed_end_def)
    from commit_end_arbitrated [OF _ this, of wk] s False assms(1) show ?thesis by auto
  qed
qed

lemma still_pending_arbitrated:
  assumes "timer_live tok (snd r)" and "still_pending tok wk (Some tok) r = (result, entry, r')"
  shows "arbitrated tok wk result entry (snd r') \<and> result \<in> {TimerPending, TimerReady (Inl TimerCancelled)} \<and>
    tm_now (snd r) \<le> tm_now (snd r')"
proof -
  obtain b r1 where c: "is_cancelled tok wk r = (b, r1)" by (cases "is_cancelled tok wk r")
  note s = is_cancelled_spec [OF c]
  show ?thesis
  proof (cases b)
    case True
    with assms(2) c have "cancelled_end tok (Some tok) r1 = (result, entry, r')" by (simp add: still_pending_def)
    from cancelled_end_arbitrated [OF _ this, of wk] s True show ?thesis by auto
  next
    case False
    with assms(2) c have "result = TimerPending \<and> entry = Some tok \<and> r' = r1" by (auto simp: still_pending_def)
    with s False assms(1) show ?thesis by (auto simp: arbitrated_def)
  qed
qed

lemma deadline_poll_spec:
  assumes "deadline_poll env tok d r = (b, r')"
  shows "(timer_live tok (snd r) \<longrightarrow> timer_live tok (snd r')) \<and> tm_now (snd r) \<le> tm_now (snd r') \<and>
    b = te_due env d (tm_now (snd r'))"
proof -
  obtain rest s where p: "pause tok r = (rest, s)" by force
  with assms have "b = te_due env d (tm_now s) \<and> r' = (rest, s)" by (simp add: deadline_poll_def)
  with pause_keeps [of tok 0 r] p show ?thesis by (simp add: timer_keeps_def)
qed

lemma work_poll_spec:
  assumes "work_poll env tok f r = (output, f', r')"
  shows "(timer_live tok (snd r) \<longrightarrow> timer_live tok (snd r')) \<and> tm_now (snd r) \<le> tm_now (snd r')"
proof -
  obtain rest s where p: "pause tok r = (rest, s)" by force
  obtain out turns f1 where w: "te_work env f = (out, turns, f1)" by (metis prod_cases3)
  from assms p w have "snd r' = fold (run_turn tok) turns s" by (auto simp: work_poll_def)
  with pause_keeps [of tok 0 r] run_turns_keep [of tok 0 s turns] p show ?thesis
    by (auto simp: timer_keeps_def)
qed

text \<open>What the result of a timeout says of its deadline: it was due, or it was not yet due when
  it was looked at again after the work.\<close>

definition deadline_says ::
  "('f, 'o, 'i) timer_env \<Rightarrow> nat \<Rightarrow> nat \<Rightarrow> nat \<Rightarrow> (timer_cancelled + 'o timeout_outcome) timer_poll \<Rightarrow> bool"
where
  "deadline_says env d t0 t1 result \<longleftrightarrow>
     (case result of
        TimerReady (Inr TimeoutElapsed) \<Rightarrow> (\<exists>t. t0 \<le> t \<and> t \<le> t1 \<and> te_due env d t)
      | TimerReady (Inr (TimeoutCompleted _)) \<Rightarrow> (\<exists>t. t0 \<le> t \<and> t \<le> t1 \<and> \<not> te_due env d t)
      | _ \<Rightarrow> True)"

lemma poll_timeout_arbitrated:
  assumes "timer_live tok (snd r)" and "poll_timeout env tok wk d f (Some tok) r = (f', result, entry, r')"
  shows "arbitrated tok wk result entry (snd r') \<and> deadline_says env d (tm_now (snd r)) (tm_now (snd r')) result"
proof -
  obtain b1 r1 where c1: "is_cancelled tok wk r = (b1, r1)" by (cases "is_cancelled tok wk r")
  note s1 = is_cancelled_spec [OF c1]
  note run = assms(2) [unfolded poll_timeout_def c1]
  show ?thesis
  proof (cases b1)
    case True
    with run have "cancelled_end tok (Some tok) r1 = (result, entry, r')" by simp
    from cancelled_end_arbitrated [OF _ this, of wk] s1 True show ?thesis by (auto simp: deadline_says_def)
  next
    case False
    obtain b2 r2 where d2: "deadline_poll env tok d r1 = (b2, r2)" by (cases "deadline_poll env tok d r1")
    note s2 = deadline_poll_spec [OF d2]
    have live2: "timer_live tok (snd r2)" and t2: "tm_now (snd r) \<le> tm_now (snd r2)" using s1 s2 assms(1) by auto
    show ?thesis
    proof (cases b2)
      case True
      with run False d2 have "elapsed_end tok wk (Some tok) TimeoutElapsed r2 = (result, entry, r')" by simp
      from elapsed_end_arbitrated [OF live2 this] s2 True t2 show ?thesis by (auto simp: deadline_says_def)
    next
      case not_due: False
      obtain ready f3 r3 where w3: "work_poll env tok f r2 = (ready, f3, r3)" by (metis prod_cases3)
      note s3 = work_poll_spec [OF w3]
      have live3: "timer_live tok (snd r3)" and t3: "tm_now (snd r) \<le> tm_now (snd r3)" using s3 live2 t2 by auto
      show ?thesis
      proof (cases ready)
        case None
        with run False d2 not_due w3 have "still_pending tok wk (Some tok) r3 = (result, entry, r')" by simp
        from still_pending_arbitrated [OF live3 this] show ?thesis by (auto simp: deadline_says_def)
      next
        case (Some v)
        obtain b4 r4 where c4: "is_cancelled tok wk r3 = (b4, r4)" by (cases "is_cancelled tok wk r3")
        note s4 = is_cancelled_spec [OF c4]
        show ?thesis
        proof (cases b4)
          case True
          with run False d2 not_due w3 Some c4 have "cancelled_end tok (Some tok) r4 = (result, entry, r')" by simp
          from cancelled_end_arbitrated [OF _ this, of wk] s4 True show ?thesis by (auto simp: deadline_says_def)
        next
          case uncancelled: False
          obtain b5 r5 where d5: "deadline_poll env tok d r4 = (b5, r5)" by (cases "deadline_poll env tok d r4")
          note s5 = deadline_poll_spec [OF d5]
          have live5: "timer_live tok (snd r5)" and t5: "tm_now (snd r) \<le> tm_now (snd r5)" using s4 s5 live3 t3 by auto
          let ?v = "if b5 then TimeoutElapsed else TimeoutCompleted v"
          have "elapsed_end tok wk (Some tok) ?v r5 = (result, entry, r')"
            using run False d2 not_due w3 Some c4 uncancelled d5 by (cases b5) simp_all
          from elapsed_end_arbitrated [OF live5 this] s5 t5 show ?thesis
            by (cases b5) (auto simp: deadline_says_def)
        qed
      qed
    qed
  qed
qed

lemma ended_forever: "timer_ended tok s \<Longrightarrow> \<not> tm_cancelled (fold (run_turn tok) turns s)"
  using run_turns_keep [of tok 0 s turns] by (simp add: timer_keeps_def timer_ended_def)

lemma armed_forever:
  "timer_armed wk s \<Longrightarrow> tm_cancelled (fold (run_turn tok) turns s) \<Longrightarrow> wk \<in> set (tm_woken (fold (run_turn tok) turns s))"
  using run_turns_keep [of tok wk s turns] by (simp add: timer_keeps_def timer_armed_def)

section \<open>The properties\<close>


text \<open>
  A sleep is arbitrated in the same way: a normal end means the deadline was due and the
  generation can never cancel it any more, \<open>TimerCancelled\<close> that the generation has it or the Fiber
  is gone, and a pending sleep misses no cancellation.
\<close>

theorem sleep_arbitration:
  assumes "timer_live tok s" and "sp_cleanup op = Some tok" and "sp_terminated op = False" and "sp_deadline op = Some d"
  shows "case sleep_poll env tok wk op (moves, s) of
      None \<Rightarrow> False
    | Some (TimerPending, op', _, s') \<Rightarrow>
        sp_cleanup op' = Some tok \<and> \<not> sp_terminated op' \<and> timer_live tok s' \<and>
        (\<forall>turns. tm_cancelled (fold (run_turn tok) turns s') \<longrightarrow> wk \<in> set (tm_woken (fold (run_turn tok) turns s')))
    | Some (TimerReady (Inr _), op', _, s') \<Rightarrow>
        sp_terminated op' \<and> (\<exists>t. tm_now s \<le> t \<and> t \<le> tm_now s' \<and> te_due env d t) \<and>
        (\<forall>turns. \<not> tm_cancelled (fold (run_turn tok) turns s'))
    | Some (TimerReady (Inl _), op', _, s') \<Rightarrow> sp_terminated op' \<and> (tm_taken s' \<or> tm_cancelled s' \<or> \<not> tm_owner s')"
proof -
  obtain b1 r1 where c1: "is_cancelled tok wk (moves, s) = (b1, r1)" by (cases "is_cancelled tok wk (moves, s)")
  note s1 = is_cancelled_spec [OF c1]
  obtain b2 r2 where d2: "deadline_poll env tok d r1 = (b2, r2)" by (cases "deadline_poll env tok d r1")
  note s2 = deadline_poll_spec [OF d2]
  have live: "timer_live tok (snd r1)" "timer_live tok (snd r2)" and t: "tm_now s \<le> tm_now (snd r2)"
    using s1 s2 assms(1) by auto
  let ?out = "if b1 then cancelled_end tok (Some tok) r1
    else if b2 then elapsed_end tok wk (Some tok) () r2 else still_pending tok wk (Some tok) r2"
  obtain result entry r' where out: "?out = (result, entry, r')" by (metis prod_cases3)
  have a: "arbitrated tok wk result entry (snd r') \<and>
    (result = TimerReady (Inr ()) \<longrightarrow> (\<exists>t. tm_now s \<le> t \<and> t \<le> tm_now (snd r') \<and> te_due env d t))"
  proof (cases b1)
    case True
    with out have "cancelled_end tok (Some tok) r1 = (result, entry, r')" by simp
    from cancelled_end_arbitrated [OF _ this, of wk] s1 True show ?thesis by auto
  next
    case not_cancelled: False
    show ?thesis
    proof (cases b2)
      case True
      with out not_cancelled have "elapsed_end tok wk (Some tok) () r2 = (result, entry, r')" by simp
      from elapsed_end_arbitrated [OF live(2) this] s2 t True show ?thesis by auto
    next
      case False
      with out not_cancelled have "still_pending tok wk (Some tok) r2 = (result, entry, r')" by simp
      from still_pending_arbitrated [OF live(2) this] show ?thesis by auto
    qed
  qed
  have "sleep_poll env tok wk op (moves, s) = Some (result,
      (case result of
         TimerReady _ \<Rightarrow> \<lparr>sp_deadline = None, sp_cleanup = entry, sp_terminated = True\<rparr>
       | TimerPending \<Rightarrow> op\<lparr>sp_cleanup := entry\<rparr>), r')"
    using assms(2-4) c1 d2 out by (cases b1; cases b2) (simp_all add: sleep_poll_def)
  moreover obtain moves' s' where r': "r' = (moves', s')" by force
  ultimately show ?thesis using a assms(3)
  proof (cases result)
    case TimerPending
    with \<open>sleep_poll env tok wk op (moves, s) = _\<close> a r' assms(3) show ?thesis
      by (auto simp: arbitrated_def intro: armed_forever)
  next
    case (TimerReady out)
    show ?thesis
    proof (cases out)
      case (Inl e)
      with TimerReady a r' \<open>sleep_poll env tok wk op (moves, s) = _\<close> show ?thesis by (simp add: arbitrated_def)
    next
      case (Inr v)
      with TimerReady a have e: "timer_ended tok (snd r')" by (simp add: arbitrated_def)
      from TimerReady Inr a r' ended_forever [OF e] \<open>sleep_poll env tok wk op (moves, s) = _\<close> show ?thesis by simp
    qed
  qed
qed

section \<open>The stream of an interval\<close>

text \<open>One item request after another, each with its own schedule.\<close>

fun interval_items ::
  "('f, 'o, 'i) timer_env \<Rightarrow> token \<Rightarrow> ident \<Rightarrow> timer_turn list list list \<Rightarrow> 'i interval_op \<times> timer_state \<Rightarrow>
   (timer_cancelled + unit) option timer_poll option list"
where
  "interval_items env tok wk [] st = []"
| "interval_items env tok wk (moves # later) (op, s) =
     (case interval_poll_next env tok wk op (moves, s) of
        None \<Rightarrow> [None]
      | Some (item, op', _, s') \<Rightarrow> Some item # interval_items env tok wk later (op', s'))"

definition interval_ok :: "'i interval_op \<Rightarrow> bool" where
  "interval_ok op \<longleftrightarrow> (iv_terminated op \<or> iv_scheduler op \<noteq> None)"

fun tick_or_pending :: "(timer_cancelled + unit) option timer_poll option \<Rightarrow> bool" where
  "tick_or_pending (Some TimerPending) = True"
| "tick_or_pending (Some (TimerReady (Some (Inr _)))) = True"
| "tick_or_pending _ = False"

abbreviation stream_end :: "(timer_cancelled + unit) option timer_poll option" where
  "stream_end \<equiv> Some (TimerReady None)"

abbreviation stream_cancel :: "(timer_cancelled + unit) option timer_poll option" where
  "stream_cancel \<equiv> Some (TimerReady (Some (Inl TimerCancelled)))"

lemma interval_poll_cases:
  assumes "interval_ok op" and "\<not> iv_terminated op"
  obtains item op' moves' s' where "interval_poll_next env tok wk op (moves, s) = Some (item, op', moves', s')" and
    "tick_or_pending (Some item) \<and> \<not> iv_terminated op' \<or> item = TimerReady (Some (Inl TimerCancelled)) \<and> iv_terminated op'"
    and "interval_ok op'"
proof -
  obtain b1 r1 where c1: "is_cancelled tok wk (moves, s) = (b1, r1)" by (cases "is_cancelled tok wk (moves, s)")
  obtain sch where sch: "iv_scheduler op = Some sch" using assms by (auto simp: interval_ok_def)
  obtain rest s1 where p: "pause tok r1 = (rest, s1)" by force
  obtain ticked sch' where q: "te_tick env sch (tm_now s1) = (ticked, sch')" by force
  obtain b2 r2 where c2: "is_cancelled tok wk (rest, s1) = (b2, r2)" by (cases "is_cancelled tok wk (rest, s1)")
  have ended: "\<exists>op' moves' s'. interval_end tok op1 r = (TimerReady (Some (Inl TimerCancelled)), op', moves', s') \<and>
      iv_terminated op' \<and> interval_ok op'" for op1 r
    by (cases "entry_abandon tok (iv_cleanup op1) r") (auto simp: interval_end_def interval_ok_def)
  show ?thesis
  proof (cases b1)
    case True
    obtain op' moves' s' where "interval_end tok op r1 = (TimerReady (Some (Inl TimerCancelled)), op', moves', s')"
      "iv_terminated op'" "interval_ok op'" using ended by blast
    with that assms(2) c1 True show ?thesis by (simp add: interval_poll_next_def)
  next
    case not1: False
    show ?thesis
    proof (cases b2)
      case True
      obtain op' moves' s' where "interval_end tok (op\<lparr>iv_scheduler := Some sch'\<rparr>) r2 = (TimerReady (Some (Inl TimerCancelled)), op', moves', s')"
        "iv_terminated op'" "interval_ok op'" using ended by blast
      with that assms(2) c1 not1 sch p q c2 True show ?thesis by (simp add: interval_poll_next_def)
    next
      case False
      have run: "interval_poll_next env tok wk op (moves, s) =
          Some (if ticked then TimerReady (Some (Inr ())) else TimerPending, op\<lparr>iv_scheduler := Some sch'\<rparr>, r2)"
        using assms(2) c1 not1 sch p q c2 False by (simp add: interval_poll_next_def)
      obtain moves' s' where r2: "r2 = (moves', s')" by force
      show ?thesis
      proof (rule that)
        show "interval_poll_next env tok wk op (moves, s) =
          Some (if ticked then TimerReady (Some (Inr ())) else TimerPending, op\<lparr>iv_scheduler := Some sch'\<rparr>, moves', s')"
          using run r2 by simp
      qed (use assms(2) in \<open>simp_all add: interval_ok_def\<close>)
    qed
  qed
qed

lemma interval_over: "iv_terminated op \<Longrightarrow> set (interval_items env tok wk polls (op, s)) \<subseteq> {stream_end}"
proof (induction polls arbitrary: s)
  case (Cons moves polls)
  then show ?case by (simp add: interval_poll_next_def)
qed simp

text \<open>
  An interval stream ends in one way only: it yields ticks (or waits) until its generation
  cancels it, then the cancellation exactly once, and after that only the end of the stream; it
  never panics.
\<close>

theorem interval_stream_shape:
  assumes "interval_ok op" and "\<not> iv_terminated op"
  shows "\<exists>ticks rest. interval_items env tok wk polls (op, s) = ticks @ rest \<and> list_all tick_or_pending ticks \<and>
    (rest = [] \<or> (\<exists>n. rest = stream_cancel # replicate n stream_end))"
  using assms
proof (induction polls arbitrary: op s)
  case Nil
  show ?case by simp
next
  case (Cons moves polls)
  obtain item op' moves' s' where p: "interval_poll_next env tok wk op (moves, s) = Some (item, op', moves', s')"
    and i: "tick_or_pending (Some item) \<and> \<not> iv_terminated op' \<or> item = TimerReady (Some (Inl TimerCancelled)) \<and> iv_terminated op'"
    and ok: "interval_ok op'" by (rule interval_poll_cases [OF Cons.prems, of env tok wk moves s])
  show ?case
  proof (cases "iv_terminated op'")
    case False
    with i have item: "tick_or_pending (Some item)" by blast
    obtain ticks rest where r: "interval_items env tok wk polls (op', s') = ticks @ rest" "list_all tick_or_pending ticks"
      "rest = [] \<or> (\<exists>n. rest = stream_cancel # replicate n stream_end)" using Cons.IH [OF ok False, of s'] by blast
    with p item have "interval_items env tok wk (moves # polls) (op, s) = (Some item # ticks) @ rest \<and>
        list_all tick_or_pending (Some item # ticks)" by simp
    with r(3) show ?thesis by blast
  next
    case True
    let ?rest = "interval_items env tok wk polls (op', s')"
    obtain n where n: "?rest = replicate n stream_end"
      using interval_over [OF True, of env tok wk polls s'] replicate_eqI [of ?rest "length ?rest" stream_end] by blast
    have item: "item = TimerReady (Some (Inl TimerCancelled))" using i True by (cases item) auto
    have "interval_items env tok wk (moves # polls) (op, s) = [] @ stream_cancel # replicate n stream_end"
      using p by (simp add: item n)
    moreover have "list_all tick_or_pending []" by simp
    ultimately show ?thesis by blast
  qed
qed

text \<open>
  A timer operation is constructed or refused as a whole.  Refusals come in a fixed order (zero
  period, closed generation, no usable timer, unrepresentable deadline, generation closed since)
  and leave the Fiber as it was; a constructed operation has its deadline pinned in the
  representable range and exactly one new cleanup occurrence, the one it holds.
\<close>

theorem timer_construction:
  assumes "journal_wf (fb_journal f)" and "jr_sn (fb_journal f) \<noteq> - 1"
  shows "case timer_sleep env now delay i f1 f0 f of
      (Inl e, f') \<Rightarrow> f' = f \<and>
        (case e of
           TimerInactiveContext \<Rightarrow> \<not> (generation_cleanup_admitted f1 \<and> generation_cleanup_admitted f0 \<and> generation_cleanup_admitted f)
         | DeadlineOutOfRange \<Rightarrow> generation_cleanup_admitted f1 \<and> te_runtime env \<and> te_max_instant env < now + delay
         | TimerUnavailable \<Rightarrow> generation_cleanup_admitted f1 \<and> \<not> (te_runtime env \<and> te_driver env)
         | ZeroPeriod \<Rightarrow> False)
    | (Inr op, f') \<Rightarrow>
        (\<exists>tok. op = \<lparr>sp_deadline = Some (now + delay), sp_cleanup = Some tok, sp_terminated = False\<rparr> \<and>
           now + delay \<le> te_max_instant env \<and> \<not> owned tok (fb_journal f) \<and> owned tok (fb_journal f') \<and>
           (\<forall>u. u \<noteq> tok \<longrightarrow> (owned u (fb_journal f') \<longleftrightarrow> owned u (fb_journal f))))"
proof -
  have gate: "generation_cleanup_admitted x \<longleftrightarrow> assert_can_register x = Inr ()" for x
    by (auto simp: generation_cleanup_admitted_def split: sum.split)
  have step: "effect_sync i f0 f = (if assert_can_register f0 = Inr () \<and> assert_can_register f = Inr ()
      then (Inr (fst (journal_push \<lparr>run = UserCleanup i, async_cleanup = False\<rparr> (fb_journal f))),
            f\<lparr>fb_journal := snd (journal_push \<lparr>run = UserCleanup i, async_cleanup = False\<rparr> (fb_journal f))\<rparr>)
      else (Inl EffectInactiveContext, f))" by (simp add: effect_sync_def register_cleanup_eq)
  obtain tok j where push: "journal_push \<lparr>run = UserCleanup i, async_cleanup = False\<rparr> (fb_journal f) = (tok, j)" by force
  note fresh = journal_push_fresh [OF assms, of "\<lparr>run = UserCleanup i, async_cleanup = False\<rparr>", unfolded push]
  note snoc = journal_push_snoc [OF assms, of "\<lparr>run = UserCleanup i, async_cleanup = False\<rparr>", unfolded push]
  have own: "owned tok j" "\<forall>u. u \<noteq> tok \<longrightarrow> (owned u j \<longleftrightarrow> owned u (fb_journal f))"
    using push by (auto simp: journal_push_def owned_def Let_def)
  show ?thesis
    using step push own fresh
    by (simp add: timer_sleep_def prepare_one_shot_def prepare_deadline_def instant_checked_add_def commit_cancellation_def gate)
qed

section \<open>Witnesses\<close>

text \<open>Work that is ready at once, but lets 5 units pass and the generation claim the cleanup.\<close>

definition demo_timer :: "(timer_turn list, nat, nat) timer_env" where
  "demo_timer =
     \<lparr>te_runtime = True, te_driver = True, te_max_instant = 100, te_due = (\<lambda>d t. d \<le> t),
      te_work = (\<lambda>turns. (Some 1, turns, [])), te_interval_at = (\<lambda>first _. first),
      te_tick = (\<lambda>at t. if at \<le> t then (True, at + 10) else (False, at))\<rparr>"

definition demo_timer_state :: timer_state where
  "demo_timer_state =
     \<lparr>tm_now = 0, tm_owner = True, tm_journal = \<lparr>jr_sn = 1, jr_map = [(1, sync_cleanup (UserCleanup 3))]\<rparr>,
      tm_taken = False, tm_cancelled = False, tm_waker = None, tm_woken = []\<rparr>"

lemma demo_timer_live: "timer_live 1 demo_timer_state"
  by (simp add: timer_live_def timer_inv_def demo_timer_state_def owned_def)


theorem sleep_arbitration_witness:
  "case sleep_poll demo_timer 1 4 \<lparr>sp_deadline = Some 10, sp_cleanup = Some 1, sp_terminated = False\<rparr>
       ([[], [], [Elapse 12]], demo_timer_state) of
     Some (TimerReady (Inr _), op', _, s') \<Rightarrow> sp_terminated op' \<and> \<not> tm_cancelled (fold (run_turn 1) [DrainClaims 1, DrainRuns] s')
   | _ \<Rightarrow> False"
proof -
  let ?op = "\<lparr>sp_deadline = Some 10, sp_cleanup = Some 1, sp_terminated = False\<rparr>"
  obtain result op' ms s' where p: "sleep_poll demo_timer 1 4 ?op ([[], [], [Elapse 12]], demo_timer_state) = Some (result, op', ms, s')"
    and c: "result = TimerReady (Inr ())"
    by (simp add: sleep_poll_def is_cancelled_def deadline_poll_def demo_timer_def demo_timer_state_def elapsed_end_def commit_end_def
        entry_disarm_def registration_disarm_def journal_remove_def)
  from sleep_arbitration [OF demo_timer_live, where op = ?op and d = 10 and env = demo_timer and wk = 4 and moves = "[[], [], [Elapse 12]]"] p c
  show ?thesis by (simp del: run_turn.simps fold.simps)
qed

theorem interval_stream_shape_witness:
  "\<exists>ticks rest. interval_items demo_timer 1 4 [[], [[Elapse 12]], [[DrainClaims 1, DrainRuns]], []]
       (\<lparr>iv_scheduler = Some 10, iv_cleanup = Some 1, iv_terminated = False\<rparr>, demo_timer_state) = ticks @ rest \<and>
     list_all tick_or_pending ticks \<and> (rest = [] \<or> (\<exists>n. rest = stream_cancel # replicate n stream_end))"
  by (rule interval_stream_shape) (simp_all add: interval_ok_def)

theorem timer_construction_witness:
  "fst (timer_sleep demo_timer 40 70 3 fiber_root fiber_root fiber_root) = Inl DeadlineOutOfRange \<and>
   (case timer_sleep demo_timer 40 60 3 fiber_root fiber_root fiber_root of
      (Inr op, _) \<Rightarrow> sp_deadline op = Some 100 | _ \<Rightarrow> False)"
proof -
  have j: "fb_journal fiber_root = journal_new"
    by (simp add: fiber_root_def set_state_def fiber_new_with_edges_def publication_new_def publication_publish_def checked_succ_def)
  have gate: "assert_can_register fiber_root = Inr ()"
    by (simp add: assert_can_register_cases fiber_root_def set_state_def fiber_new_with_edges_def
        publication_new_def publication_publish_def checked_succ_def current_state_def)
  have wf: "journal_wf (fb_journal fiber_root)" "jr_sn (fb_journal fiber_root) \<noteq> - 1"
    by (simp_all add: j) (simp add: journal_new_def)
  have adm: "generation_cleanup_admitted fiber_root" by (simp add: generation_cleanup_admitted_def gate)
  have refused: "fst (timer_sleep demo_timer 40 70 3 fiber_root fiber_root fiber_root) = Inl DeadlineOutOfRange"
    by (simp add: timer_sleep_def prepare_one_shot_def adm prepare_deadline_def instant_checked_add_def demo_timer_def)
  obtain r f' where t: "timer_sleep demo_timer 40 60 3 fiber_root fiber_root fiber_root = (r, f')" by force
  from timer_construction [OF wf, where env = demo_timer and now = 40 and delay = 60 and i = 3 and ?f1.0 = fiber_root and ?f0.0 = fiber_root, unfolded t] adm refused show ?thesis
    unfolding t by (auto simp: demo_timer_def split: sum.splits timer_registration_error.splits)
qed

end
