(* ===== verification/Deadline_Scheduler.thy ===== *)
theory Deadline_Scheduler
  imports Logger_Model "HOL-Library.Product_Lexorder"
begin

text \<open>
  The process-wide deadline scheduler (\<open>crates/cordis-core/src/deadline.rs\<close>): arming, exact
  cancellation, the one worker thread that fires what is due, and its replacement when it is lost.

  A oneshot channel is named by its identity.  \<open>dl_worker\<close> is where the worker thread stands
  between two acquisitions of the schedule's lock; the operating system's answer to a thread spawn,
  the clock and a waker's panic are parameters.
\<close>

section \<open>The schedule\<close>

type_synonym deadline_key = "nat \<times> u64"

datatype deadline_unavailable = DeadlineUnavailable

datatype deadline_worker =
    NoWorker
  | Serving
  | Delivering "ident list"
  | Waiting "nat option"

record deadline_state =
  dl_armed :: "(deadline_key, ident) btree"
  dl_next_id :: u64
  dl_worker_running :: bool
  dl_worker :: deadline_worker
  dl_now :: nat
  dl_fired :: "ident list"
  dl_closed :: "ident list"
  dl_stderr :: "string list"

definition deadline_new :: "nat \<Rightarrow> deadline_state" where
  "deadline_new now =
     \<lparr>dl_armed = [], dl_next_id = 0, dl_worker_running = False, dl_worker = NoWorker, dl_now = now,
      dl_fired = [], dl_closed = [], dl_stderr = []\<rparr>"

datatype deadline_slot = SlotArmed deadline_key | SlotNever | SlotFired

record watchdog =
  wd_channel :: ident
  wd_slot :: deadline_slot

text \<open>\<open>notify_one\<close>: a worker asleep on the condition variable wakes; otherwise nobody listens.\<close>

definition notify_worker :: "deadline_state \<Rightarrow> deadline_state" where
  "notify_worker s = (case dl_worker s of Waiting _ \<Rightarrow> s\<lparr>dl_worker := Serving\<rparr> | _ \<Rightarrow> s)"

definition send_deadline :: "ident \<Rightarrow> deadline_state \<Rightarrow> deadline_state" where
  "send_deadline i s = (if i \<in> set (dl_closed s) then s else s\<lparr>dl_fired := dl_fired s @ [i]\<rparr>)"

definition spawn_worker :: "bool \<Rightarrow> deadline_state \<Rightarrow> (deadline_unavailable + unit) \<times> deadline_state" where
  "spawn_worker refuse s = (if refuse then (Inl DeadlineUnavailable, s) else (Inr (), s\<lparr>dl_worker := Serving\<rparr>))"

definition is_earliest :: "deadline_key \<Rightarrow> (deadline_key, ident) btree \<Rightarrow> bool" where
  "is_earliest key armed = (case armed of [] \<Rightarrow> True | (first, _) # _ \<Rightarrow> key < first)"

text \<open>\<open>None\<close> is the \<open>expect\<close> at the end of the identity space.\<close>

definition deadline_insert ::
  "bool \<Rightarrow> nat \<Rightarrow> ident \<Rightarrow> deadline_state \<Rightarrow> ((deadline_unavailable + deadline_key) \<times> deadline_state) option"
where
  "deadline_insert refuse deadline i s =
     (case (if dl_worker_running s then (Inr (), s)
            else (case spawn_worker refuse s of
                    (Inl e, s1) \<Rightarrow> (Inl e, s1)
                  | (Inr _, s1) \<Rightarrow> (Inr (), s1\<lparr>dl_worker_running := True\<rparr>))) of
        (Inl e, s1) \<Rightarrow> Some (Inl e, s1)
      | (Inr _, s1) \<Rightarrow>
          (let key = (deadline, dl_next_id s1)
           in case checked_succ (dl_next_id s1) of
                None \<Rightarrow> None
              | Some n \<Rightarrow>
                  (let earliest = is_earliest key (dl_armed s1);
                       s2 = s1\<lparr>dl_next_id := n, dl_armed := bt_insert key i (dl_armed s1)\<rparr>
                   in Some (Inr key, if earliest then notify_worker s2 else s2))))"

definition deadline_arm ::
  "nat \<Rightarrow> bool \<Rightarrow> nat \<Rightarrow> ident \<Rightarrow> deadline_state \<Rightarrow> ((deadline_unavailable + watchdog) \<times> deadline_state) option"
where
  "deadline_arm greatest refuse timeout i s =
     (if greatest < dl_now s + timeout then Some (Inr \<lparr>wd_channel = i, wd_slot = SlotNever\<rparr>, s)
      else if dl_now s + timeout \<le> dl_now s
      then Some (Inr \<lparr>wd_channel = i, wd_slot = SlotFired\<rparr>, send_deadline i s)
      else (case deadline_insert refuse (dl_now s + timeout) i s of
              None \<Rightarrow> None
            | Some (Inl e, s1) \<Rightarrow> Some (Inl e, s1)
            | Some (Inr key, s1) \<Rightarrow> Some (Inr \<lparr>wd_channel = i, wd_slot = SlotArmed key\<rparr>, s1)))"

definition deadline_disarm :: "deadline_key \<Rightarrow> deadline_state \<Rightarrow> deadline_state" where
  "deadline_disarm key s = s\<lparr>dl_armed := hm_remove key (dl_armed s)\<rparr>"

text \<open>Dropping a watchdog closes its receiver first.\<close>

definition watchdog_drop :: "watchdog \<Rightarrow> deadline_state \<Rightarrow> deadline_state" where
  "watchdog_drop w s =
     (let s1 = s\<lparr>dl_closed := wd_channel w # dl_closed s\<rparr>
      in case wd_slot w of SlotArmed key \<Rightarrow> deadline_disarm key s1 | _ \<Rightarrow> s1)"

definition watchdog_ready :: "watchdog \<Rightarrow> deadline_state \<Rightarrow> bool" where
  "watchdog_ready w s \<longleftrightarrow> wd_channel w \<in> set (dl_fired s)"

section \<open>The worker\<close>

definition due_now :: "nat \<Rightarrow> deadline_key \<times> ident \<Rightarrow> bool" where
  "due_now now entry \<longleftrightarrow> fst (fst entry) \<le> now"

definition report_stderr :: "string \<Rightarrow> deadline_state \<Rightarrow> deadline_state" where
  "report_stderr line s = s\<lparr>dl_stderr := dl_stderr s @ [line]\<rparr>"

text \<open>
  One turn of the serving loop between two points where the lock is free.  \<open>wake\<close> is the panic of
  the waker that a send invokes; the value is delivered before the waker runs.
\<close>

definition serve_turn :: "(ident \<Rightarrow> panic_payload option) \<Rightarrow> deadline_state \<Rightarrow> deadline_state" where
  "serve_turn wake s =
     (case dl_worker s of
        NoWorker \<Rightarrow> s
      | Serving \<Rightarrow>
          (let due = takeWhile (due_now (dl_now s)) (dl_armed s);
               rest = dropWhile (due_now (dl_now s)) (dl_armed s)
           in if due \<noteq> [] then s\<lparr>dl_armed := rest, dl_worker := Delivering (map snd due)\<rparr>
              else s\<lparr>dl_worker := Waiting (case rest of [] \<Rightarrow> None | ((deadline, _), _) # _ \<Rightarrow> Some deadline)\<rparr>)
      | Delivering [] \<Rightarrow> s\<lparr>dl_worker := Serving\<rparr>
      | Delivering (i # is) \<Rightarrow>
          contain ''wait_state deadline wake'' report_stderr
            (\<lambda>s. (if i \<in> set (dl_closed s) then None else wake i, send_deadline i s)) (s\<lparr>dl_worker := Delivering is\<rparr>)
      | Waiting None \<Rightarrow> s
      | Waiting (Some deadline) \<Rightarrow> if deadline \<le> dl_now s then s\<lparr>dl_worker := Serving\<rparr> else s)"

text \<open>A lost worker hands what is still armed to a replacement.\<close>

definition worker_retire :: "bool \<Rightarrow> deadline_state \<Rightarrow> deadline_state" where
  "worker_retire refuse s =
     (let s1 = s\<lparr>dl_worker_running := False, dl_worker := NoWorker\<rparr>
      in if dl_armed s1 \<noteq> [] then (case spawn_worker refuse s1 of
             (Inl _, s2) \<Rightarrow> s2
           | (Inr _, s2) \<Rightarrow> s2\<lparr>dl_worker_running := True\<rparr>)
         else s1)"

text \<open>Everything that can happen to the scheduler.  Channels are fresh, threads are lost only
  outside a delivery, and a wait may end early.\<close>

inductive deadline_step :: "nat \<Rightarrow> deadline_state \<Rightarrow> deadline_state \<Rightarrow> bool" for greatest where
  step_elapse: "deadline_step greatest s (s\<lparr>dl_now := dl_now s + n\<rparr>)"
| step_arm: "deadline_arm greatest refuse timeout i s = Some (r, s') \<Longrightarrow> deadline_step greatest s s'"
| step_drop: "deadline_step greatest s (watchdog_drop w s)"
| step_serve: "deadline_step greatest s (serve_turn wake s)"
| step_spurious: "dl_worker s = Waiting w \<Longrightarrow> deadline_step greatest s (s\<lparr>dl_worker := Serving\<rparr>)"
| step_retire: "dl_worker s \<in> {Serving} \<union> range Waiting \<Longrightarrow> deadline_step greatest s (worker_retire refuse s)"

inductive_cases deadline_stepE: "deadline_step greatest s s'"

section \<open>The invariant\<close>

text \<open>A sleeping worker wakes no later than the earliest armed deadline.\<close>

fun sleeps_well :: "deadline_worker \<Rightarrow> (deadline_key, ident) btree \<Rightarrow> bool" where
  "sleeps_well (Waiting None) armed = (armed = [])"
| "sleeps_well (Waiting (Some wake_at)) armed = (\<forall>entry \<in> set armed. wake_at \<le> fst (fst entry))"
| "sleeps_well _ armed = True"

lemma sleeps_well_wake:
  "sleeps_well (Waiting w) armed = (case w of None \<Rightarrow> armed = [] | Some wake_at \<Rightarrow> (\<forall>entry \<in> set armed. wake_at \<le> fst (fst entry)))"
  by (cases w) simp_all

lemma sleeps_well_subset: "sleeps_well w armed \<Longrightarrow> set armed' \<subseteq> set armed \<Longrightarrow> sleeps_well w armed'"
  by (cases "(w, armed)" rule: sleeps_well.cases) auto

definition deadline_inv :: "deadline_state \<Rightarrow> bool" where
  "deadline_inv s \<longleftrightarrow>
     bt_wf (dl_armed s) \<and> (\<forall>entry \<in> set (dl_armed s). snd (fst entry) < dl_next_id s) \<and>
     (dl_worker_running s \<longleftrightarrow> dl_worker s \<noteq> NoWorker) \<and>
     sleeps_well (dl_worker s) (dl_armed s)"

lemma bt_insert_remove: "k \<notin> fst ` set m \<Longrightarrow> hm_remove k (bt_insert k v m) = m"
proof (induction m)
  case Nil
  show ?case by (simp add: hm_remove_def)
next
  case (Cons p m)
  obtain k' v' where p: "p = (k', v')" by force
  from Cons.prems have "hm_remove k m = m" by (auto simp: hm_remove_def filter_eq_self_iff)
  with Cons p show ?case by (auto simp: hm_remove_def)
qed

lemma bt_wf_sorted: "bt_wf m \<Longrightarrow> sorted_wrt (<) (map fst m)"
  by (simp add: bt_wf_def)

lemma key_less: "a < (b :: deadline_key) \<Longrightarrow> fst a \<le> fst b"
  by (cases a; cases b) (auto simp: less_prod_simp)

lemma dropWhile_monotone:
  "sorted_wrt R xs \<Longrightarrow> (\<And>x y. R x y \<Longrightarrow> \<not> P x \<Longrightarrow> \<not> P y) \<Longrightarrow> y \<in> set (dropWhile P xs) \<Longrightarrow> \<not> P y"
  by (induction xs) (auto split: if_splits)

lemma due_split:
  fixes m :: "(deadline_key, ident) btree"
  assumes "bt_wf m" and "entry \<in> set (dropWhile (due_now now) m)"
  shows "\<not> due_now now entry"
proof (rule dropWhile_monotone [where R = "\<lambda>p q. fst p < fst q" and xs = m])
  show "sorted_wrt (\<lambda>p q. fst p < fst q) m" using assms(1) by (simp add: bt_wf_def sorted_wrt_map)
next
  fix p q :: "deadline_key \<times> ident"
  assume "fst p < fst q" and "\<not> due_now now p"
  with key_less [of "fst p" "fst q"] show "\<not> due_now now q" by (simp add: due_now_def)
qed (rule assms(2))

lemma bt_wf_dropWhile: "bt_wf m \<Longrightarrow> bt_wf (dropWhile P m)"
  by (induction m) (auto simp: bt_wf_def)

lemma first_earliest:
  fixes m :: "(deadline_key, ident) btree"
  assumes "bt_wf m" and "m = ((d, n), i) # rest"
  shows "\<forall>entry \<in> set m. d \<le> fst (fst entry)"
proof
  fix entry
  assume "entry \<in> set m"
  with assms have "entry = ((d, n), i) \<or> (d, n) < fst entry" by (auto simp: bt_wf_def)
  then show "d \<le> fst (fst entry)" using key_less [of "(d, n)" "fst entry"] by auto
qed

lemma report_fields [simp]:
  "dl_armed (report_stderr l s) = dl_armed s" "dl_next_id (report_stderr l s) = dl_next_id s"
  "dl_worker_running (report_stderr l s) = dl_worker_running s" "dl_worker (report_stderr l s) = dl_worker s"
  "dl_now (report_stderr l s) = dl_now s" "dl_fired (report_stderr l s) = dl_fired s" "dl_closed (report_stderr l s) = dl_closed s"
  by (simp_all add: report_stderr_def)

lemma send_fields [simp]:
  "dl_armed (send_deadline i s) = dl_armed s" "dl_next_id (send_deadline i s) = dl_next_id s"
  "dl_worker_running (send_deadline i s) = dl_worker_running s" "dl_worker (send_deadline i s) = dl_worker s"
  "dl_now (send_deadline i s) = dl_now s" "dl_closed (send_deadline i s) = dl_closed s"
  "set (dl_fired s) \<subseteq> set (dl_fired (send_deadline i s))" "i \<in> set (dl_closed s) \<or> i \<in> set (dl_fired (send_deadline i s))"
  by (auto simp: send_deadline_def)

text \<open>A delivery, whatever the waker does.\<close>

lemma delivery_step:
  assumes "dl_worker s = Delivering (i # is)"
  shows "dl_worker (serve_turn wake s) = Delivering is" "dl_armed (serve_turn wake s) = dl_armed s"
    "dl_next_id (serve_turn wake s) = dl_next_id s" "dl_worker_running (serve_turn wake s) = dl_worker_running s"
    "dl_now (serve_turn wake s) = dl_now s" "dl_closed (serve_turn wake s) = dl_closed s"
    "set (dl_fired s) \<subseteq> set (dl_fired (serve_turn wake s))" "i \<in> set (dl_closed s) \<or> i \<in> set (dl_fired (serve_turn wake s))"
proof -
  let ?s = "send_deadline i (s\<lparr>dl_worker := Delivering is\<rparr>)"
  have "\<exists>line. serve_turn wake s = ?s \<or> serve_turn wake s = report_stderr line ?s"
  proof (cases "if i \<in> set (dl_closed s) then None else wake i")
    case None
    with assms have "serve_turn wake s = ?s" by (simp add: serve_turn_def contain_def)
    then show ?thesis by blast
  next
    case (Some payload)
    with assms have "serve_turn wake s = report_stderr
        (''cordis: '' @ ''wait_state deadline wake'' @ '' panicked: '' @ fst (consume_panic_payload payload ''non-string panic payload'')) ?s"
      by (simp only: serve_turn_def contain_def deadline_worker.case list.case prod.case option.case) simp
    then show ?thesis by blast
  qed
  then obtain line where "serve_turn wake s = ?s \<or> serve_turn wake s = report_stderr line ?s" by blast
  then show "dl_worker (serve_turn wake s) = Delivering is" "dl_armed (serve_turn wake s) = dl_armed s"
    "dl_next_id (serve_turn wake s) = dl_next_id s" "dl_worker_running (serve_turn wake s) = dl_worker_running s"
    "dl_now (serve_turn wake s) = dl_now s" "dl_closed (serve_turn wake s) = dl_closed s"
    "set (dl_fired s) \<subseteq> set (dl_fired (serve_turn wake s))" "i \<in> set (dl_closed s) \<or> i \<in> set (dl_fired (serve_turn wake s))"
    using send_fields(7,8) [where s = "s\<lparr>dl_worker := Delivering is\<rparr>" and i = i] by auto
qed

lemma serve_inv:
  assumes "deadline_inv s"
  shows "deadline_inv (serve_turn wake s)"
proof (cases "dl_worker s")
  case NoWorker
  with assms show ?thesis by (simp add: serve_turn_def)
next
  case Serving
  let ?rest = "dropWhile (due_now (dl_now s)) (dl_armed s)"
  have wf: "bt_wf ?rest" and sub: "set ?rest \<subseteq> set (dl_armed s)"
    using assms by (auto simp: deadline_inv_def bt_wf_dropWhile dest: set_dropWhileD)
  have "case (case ?rest of [] \<Rightarrow> None | ((deadline, _), _) # _ \<Rightarrow> Some deadline) of
      None \<Rightarrow> ?rest = [] | Some wake_at \<Rightarrow> \<forall>entry \<in> set ?rest. wake_at \<le> fst (fst entry)"
  proof (cases ?rest)
    case (Cons p more)
    obtain d n i where "p = ((d, n), i)" by (metis surj_pair)
    with first_earliest [OF wf, of d n i more] Cons show ?thesis by simp
  next
    case Nil
    show ?thesis unfolding Nil by simp
  qed
  moreover have same: "takeWhile (due_now (dl_now s)) (dl_armed s) = [] \<Longrightarrow> ?rest = dl_armed s"
    by (metis takeWhile_dropWhile_id append_Nil)
  ultimately have rest: "takeWhile (due_now (dl_now s)) (dl_armed s) = [] \<Longrightarrow>
      case (case dl_armed s of [] \<Rightarrow> None | ((deadline, _), _) # _ \<Rightarrow> Some deadline) of
        None \<Rightarrow> dl_armed s = [] | Some wake_at \<Rightarrow> \<forall>entry \<in> set (dl_armed s). wake_at \<le> fst (fst entry)"
    by (simp only:)
  show ?thesis
  proof (cases "takeWhile (due_now (dl_now s)) (dl_armed s) = []")
    case True
    then have "serve_turn wake s = s\<lparr>dl_worker := Waiting (case dl_armed s of [] \<Rightarrow> None | ((deadline, _), _) # _ \<Rightarrow> Some deadline)\<rparr>"
      using Serving same by (simp add: serve_turn_def Let_def)
    moreover obtain v where "(case dl_armed s of [] \<Rightarrow> None | ((deadline, _), _) # _ \<Rightarrow> Some deadline) = v" by simp
    ultimately show ?thesis using rest [OF True] assms Serving by (cases v) (simp_all add: deadline_inv_def)
  next
    case False
    then have "serve_turn wake s = s\<lparr>dl_armed := ?rest, dl_worker := Delivering (map snd (takeWhile (due_now (dl_now s)) (dl_armed s)))\<rparr>"
      using Serving by (simp add: serve_turn_def Let_def)
    with assms Serving wf sub show ?thesis by (auto simp: deadline_inv_def)
  qed
next
  case (Delivering ls)
  show ?thesis
  proof (cases ls)
    case Nil
    with assms Delivering show ?thesis by (simp add: serve_turn_def deadline_inv_def)
  next
    case (Cons i js)
    with Delivering have d: "dl_worker s = Delivering (i # js)" by simp
    show ?thesis using assms d by (simp add: deadline_inv_def delivery_step(1-4) [OF d])
  qed
next
  case (Waiting w)
  with assms show ?thesis by (cases w) (simp_all add: serve_turn_def deadline_inv_def)
qed

lemma notify_inv:
  assumes "bt_wf m" and "\<forall>entry \<in> set m. snd (fst entry) < n" and "deadline_inv s"
    and "\<And>w. dl_worker s = Waiting w \<Longrightarrow> woken \<or> (case w of None \<Rightarrow> m = [] | Some wake_at \<Rightarrow> (\<forall>entry \<in> set m. wake_at \<le> fst (fst entry)))"
  shows "deadline_inv (if woken then notify_worker (s\<lparr>dl_next_id := n, dl_armed := m\<rparr>) else s\<lparr>dl_next_id := n, dl_armed := m\<rparr>)"
proof (cases "dl_worker s")
  case (Waiting w)
  with assms show ?thesis by (cases woken; cases w) (simp_all add: deadline_inv_def notify_worker_def)
qed (use assms in \<open>simp_all add: deadline_inv_def notify_worker_def\<close>)

lemma insert_unfold:
  assumes "dl_worker_running s \<or> \<not> refuse"
  shows "deadline_insert refuse d i s =
    (let s1 = (if dl_worker_running s then s else s\<lparr>dl_worker := Serving, dl_worker_running := True\<rparr>);
         key = (d, dl_next_id s);
         woken = is_earliest key (dl_armed s)
     in case checked_succ (dl_next_id s) of
          None \<Rightarrow> None
        | Some n \<Rightarrow> Some (Inr key,
            if woken then notify_worker (s1\<lparr>dl_next_id := n, dl_armed := bt_insert key i (dl_armed s)\<rparr>)
            else s1\<lparr>dl_next_id := n, dl_armed := bt_insert key i (dl_armed s)\<rparr>))"
  using assms by (cases "dl_worker_running s") (simp_all add: deadline_insert_def spawn_worker_def Let_def del: checked_succ_None split: option.split)

lemma notify_fields [simp]:
  "dl_armed (notify_worker s) = dl_armed s" "dl_fired (notify_worker s) = dl_fired s" "dl_closed (notify_worker s) = dl_closed s"
  "dl_now (notify_worker s) = dl_now s" "dl_worker_running (notify_worker s) = dl_worker_running s"
  by (simp_all add: notify_worker_def split: deadline_worker.split)

lemma insert_inv:
  assumes "deadline_inv s" and "deadline_insert refuse d i s = Some (r, s')"
  shows "deadline_inv s' \<and>
    (case r of
       Inl _ \<Rightarrow> refuse \<and> \<not> dl_worker_running s \<and> s' = s
     | Inr key \<Rightarrow> key = (d, dl_next_id s) \<and> dl_worker_running s' \<and> dl_armed s' = bt_insert key i (dl_armed s) \<and>
         key \<notin> fst ` set (dl_armed s) \<and> dl_fired s' = dl_fired s \<and> dl_closed s' = dl_closed s \<and> dl_now s' = dl_now s)"
proof (cases "dl_worker_running s \<or> \<not> refuse")
  case False
  with assms show ?thesis by (auto simp: deadline_insert_def spawn_worker_def)
next
  case True
  let ?s1 = "if dl_worker_running s then s else s\<lparr>dl_worker := Serving, dl_worker_running := True\<rparr>"
  let ?key = "(d, dl_next_id s)"
  let ?m = "bt_insert ?key i (dl_armed s)"
  let ?woken = "is_earliest ?key (dl_armed s)"
  note u = insert_unfold [OF True, of d i, unfolded Let_def]
  obtain n where n: "checked_succ (dl_next_id s) = Some n"
    using assms(2) u by (cases "checked_succ (dl_next_id s)") (simp_all del: checked_succ_None)
  have r: "r = Inr ?key" "s' = (if ?woken then notify_worker (?s1\<lparr>dl_next_id := n, dl_armed := ?m\<rparr>) else ?s1\<lparr>dl_next_id := n, dl_armed := ?m\<rparr>)"
    using assms(2) unfolding u n by simp_all
  have inv1: "deadline_inv ?s1" using assms(1) by (auto simp: deadline_inv_def)
  have up: "dl_next_id s < n" using unat_checked_succ [OF n] by (simp add: word_less_nat_alt)
  have below: "snd k < dl_next_id s" if "k \<in> fst ` set (dl_armed s)" for k
    using assms(1) that by (auto simp: deadline_inv_def)
  have fresh: "?key \<notin> fst ` set (dl_armed s)" using below [of ?key] by auto
  have keys: "fst ` set ?m = insert ?key (fst ` set (dl_armed s))" by (rule keys_bt_insert)
  have wf: "bt_wf ?m" using assms(1) by (simp add: deadline_inv_def)
  have ids: "\<forall>entry \<in> set ?m. snd (fst entry) < n"
  proof
    fix entry
    assume "entry \<in> set ?m"
    then have "fst entry \<in> insert ?key (fst ` set (dl_armed s))" using keys by blast
    then show "snd (fst entry) < n" using below [of "fst entry"] up less_trans by (elim insertE) auto
  qed
  have wait: "?woken \<or> (case w of None \<Rightarrow> ?m = [] | Some wake_at \<Rightarrow> (\<forall>entry \<in> set ?m. wake_at \<le> fst (fst entry)))"
    if "dl_worker ?s1 = Waiting w" for w
  proof (cases "dl_armed s")
    case (Cons p rest)
    obtain first j where p: "p = (first, j)" by (cases p)
    show ?thesis
    proof (cases "?key < first")
      case False
      have w: "case w of None \<Rightarrow> dl_armed s = [] | Some wake_at \<Rightarrow> (\<forall>entry \<in> set (dl_armed s). wake_at \<le> fst (fst entry))"
        using inv1 that sleeps_well_wake [of w "dl_armed s"] by (auto simp: deadline_inv_def split: if_splits)
      then obtain wake_at where wake: "w = Some wake_at" "\<forall>k \<in> fst ` set (dl_armed s). wake_at \<le> fst k"
        using Cons by (cases w) auto
      moreover from this Cons p have "wake_at \<le> fst first" by auto
      moreover from False have "fst first \<le> d" by (cases first) (auto simp: less_prod_def)
      ultimately have all: "\<forall>k \<in> fst ` set ?m. wake_at \<le> fst k" using keys by auto
      have "wake_at \<le> fst (fst entry)" if "entry \<in> set ?m" for entry using all that by blast
      with wake show ?thesis by simp
    qed (use Cons p in \<open>simp add: is_earliest_def\<close>)
  qed (simp add: is_earliest_def)
  have "deadline_inv s'" unfolding r(2) by (rule notify_inv [OF wf ids inv1 wait])
  moreover have "dl_worker_running s' \<and> dl_armed s' = ?m \<and> dl_fired s' = dl_fired s \<and> dl_closed s' = dl_closed s \<and> dl_now s' = dl_now s"
    unfolding r(2) by (cases ?woken) simp_all
  ultimately show ?thesis using r(1) fresh by simp
qed

lemma arm_inv:
  assumes "deadline_inv s" and "deadline_arm greatest refuse timeout i s = Some (r, s')"
  shows "deadline_inv s'"
proof -
  have "deadline_inv (send_deadline i s)" using assms(1) by (simp add: send_deadline_def deadline_inv_def)
  moreover have "deadline_inv s1" if "deadline_insert refuse (dl_now s + timeout) i s = Some (out, s1)" for out s1
    using insert_inv [OF assms(1) that] by blast
  ultimately show ?thesis using assms
    by (auto simp: deadline_arm_def split: if_splits option.splits prod.splits sum.splits)
qed

lemma drop_inv:
  assumes "deadline_inv s"
  shows "deadline_inv (watchdog_drop w s)"
proof -
  have "deadline_inv (s\<lparr>dl_closed := wd_channel w # dl_closed s, dl_armed := hm_remove key (dl_armed s)\<rparr>)" for key
    using assms sleeps_well_subset [of "dl_worker s" "dl_armed s" "hm_remove key (dl_armed s)"]
    by (auto simp: deadline_inv_def set_hm_remove)
  moreover have "deadline_inv (s\<lparr>dl_closed := wd_channel w # dl_closed s\<rparr>)" using assms by (simp add: deadline_inv_def)
  ultimately show ?thesis by (cases "wd_slot w") (simp_all add: watchdog_drop_def deadline_disarm_def Let_def)
qed

lemma retire_inv: "deadline_inv s \<Longrightarrow> deadline_inv (worker_retire refuse s)"
  by (cases refuse; cases "dl_armed s = []") (simp_all add: worker_retire_def spawn_worker_def deadline_inv_def Let_def)

lemma step_inv:
  assumes "deadline_inv s" and "deadline_step greatest s s'"
  shows "deadline_inv s'"
  using assms(2)
proof (cases rule: deadline_step.cases)
  case (step_elapse n)
  with assms(1) show ?thesis by (simp add: deadline_inv_def)
next
  case (step_spurious w)
  with assms(1) show ?thesis by (simp add: deadline_inv_def)
next
  case (step_arm refuse timeout i r)
  from arm_inv [OF assms(1) step_arm] show ?thesis .
qed (use assms(1) in \<open>simp_all add: drop_inv serve_inv retire_inv\<close>)

interpretation deadline: invariant_system "\<lambda>s. \<exists>now. s = deadline_new now" "deadline_step greatest" deadline_inv for greatest
proof
  show "deadline_inv s" if "\<exists>now. s = deadline_new now" for s
    using that by (auto simp: deadline_new_def deadline_inv_def)
qed (rule step_inv)

section \<open>Progress\<close>

definition delivering :: "deadline_state \<Rightarrow> ident list" where
  "delivering s = (case dl_worker s of Delivering is \<Rightarrow> is | _ \<Rightarrow> [])"

lemma serve_deliveries:
  assumes "dl_worker s = Delivering is"
  shows "\<exists>s'. (serve_turn wake ^^ length is) s = s' \<and> dl_worker s' = Delivering [] \<and> dl_armed s' = dl_armed s \<and>
    dl_now s' = dl_now s \<and> dl_closed s' = dl_closed s \<and> set (dl_fired s) \<subseteq> set (dl_fired s') \<and>
    set is - set (dl_closed s) \<subseteq> set (dl_fired s')"
  using assms
proof (induction "is" arbitrary: s)
  case (Cons i js)
  note d = delivery_step [OF Cons.prems, of wake]
  from Cons.IH [OF d(1)] obtain s' where s': "(serve_turn wake ^^ length js) (serve_turn wake s) = s'" "dl_worker s' = Delivering []"
    "dl_armed s' = dl_armed s" "dl_now s' = dl_now s" "dl_closed s' = dl_closed s"
    "set (dl_fired (serve_turn wake s)) \<subseteq> set (dl_fired s')" "set js - set (dl_closed s) \<subseteq> set (dl_fired s')"
    using d by auto
  have "(serve_turn wake ^^ length (i # js)) s = s'" using s'(1) by (simp add: funpow_swap1)
  moreover have "set (i # js) - set (dl_closed s) \<subseteq> set (dl_fired s')" using s'(6,7) d(8) by auto
  ultimately show ?case using s' d(7) by blast
qed simp

lemma serve_due:
  assumes "dl_worker s = Serving" and "bt_wf (dl_armed s)" and "(key, i) \<in> set (dl_armed s)" and "fst key \<le> dl_now s" and "i \<notin> set (dl_closed s)"
  shows "\<exists>n \<le> Suc (length (dl_armed s)). i \<in> set (dl_fired ((serve_turn wake ^^ n) s))"
proof -
  let ?due = "takeWhile (due_now (dl_now s)) (dl_armed s)"
  have "(key, i) \<in> set ?due"
  proof (rule ccontr)
    assume "(key, i) \<notin> set ?due"
    with assms(3) have "(key, i) \<in> set (dropWhile (due_now (dl_now s)) (dl_armed s))"
      by (metis UnE set_append takeWhile_dropWhile_id)
    from due_split [OF assms(2) this] assms(4) show False by (simp add: due_now_def)
  qed
  then have due: "?due \<noteq> []" "i \<in> set (map snd ?due)" by (auto simp: image_iff intro!: bexI [of _ "(key, i)"])
  let ?s1 = "serve_turn wake s"
  have s1: "dl_worker ?s1 = Delivering (map snd ?due)" "dl_closed ?s1 = dl_closed s"
    using assms(1) due(1) by (simp_all add: serve_turn_def Let_def)
  from serve_deliveries [OF s1(1), of wake] s1(2) due(2) assms(5)
  have "i \<in> set (dl_fired ((serve_turn wake ^^ length (map snd ?due)) ?s1))" by auto
  then have "i \<in> set (dl_fired ((serve_turn wake ^^ Suc (length ?due)) s))" by (simp add: funpow_swap1)
  moreover have "length ?due \<le> length (dl_armed s)" by (rule length_takeWhile_le)
  ultimately show ?thesis by (intro exI [of _ "Suc (length ?due)"]) auto
qed

lemma serve_to_serving:
  assumes "deadline_inv s" and "dl_worker s \<noteq> NoWorker" and "(key, i) \<in> set (dl_armed s)" and "fst key \<le> dl_now s"
  shows "\<exists>n \<le> Suc (length (delivering s)). \<exists>s'. (serve_turn wake ^^ n) s = s' \<and> dl_worker s' = Serving \<and>
    dl_armed s' = dl_armed s \<and> dl_now s' = dl_now s \<and> dl_closed s' = dl_closed s"
proof (cases "dl_worker s")
  case Serving
  then show ?thesis by (intro exI [of _ 0]) simp
next
  case (Delivering js)
  from serve_deliveries [OF Delivering, of wake] obtain s' where s': "(serve_turn wake ^^ length js) s = s'" "dl_worker s' = Delivering []"
    "dl_armed s' = dl_armed s" "dl_now s' = dl_now s" "dl_closed s' = dl_closed s" by blast
  have "(serve_turn wake ^^ Suc (length js)) s = s'\<lparr>dl_worker := Serving\<rparr>" using s'(1,2) by (simp add: serve_turn_def)
  with s' Delivering show ?thesis by (intro exI [of _ "Suc (length js)"]) (simp add: delivering_def)
next
  case (Waiting w)
  with assms(1,3) obtain wake_at where w: "w = Some wake_at" "wake_at \<le> fst key"
    by (cases w) (auto simp: deadline_inv_def)
  with Waiting assms(4) have "serve_turn wake s = s\<lparr>dl_worker := Serving\<rparr>" by (simp add: serve_turn_def)
  then show ?thesis by (intro exI [of _ 1]) simp
qed (use assms(2) in simp)

section \<open>The properties\<close>

text \<open>
  C38: No deadline is missed.  In every state the scheduler can reach, whatever is armed, cancelled
  or lost, a sleeping worker sleeps no longer than the earliest armed deadline (and without end only
  when nothing is armed); and once a deadline has passed, the worker sends it within as many turns
  as there are sends before it, whatever the wakers of the others do.
\<close>

theorem deadline_never_missed:
  assumes "reach (\<lambda>s. \<exists>now. s = deadline_new now) (deadline_step greatest) s"
    and "dl_worker s \<noteq> NoWorker" and "(key, i) \<in> set (dl_armed s)" and "i \<notin> set (dl_closed s)"
  shows "(case dl_worker s of Waiting None \<Rightarrow> False | Waiting (Some wake_at) \<Rightarrow> wake_at \<le> fst key | _ \<Rightarrow> True) \<and>
    (fst key \<le> dl_now s \<longrightarrow>
       (\<exists>n \<le> length (delivering s) + length (dl_armed s) + 2. i \<in> set (dl_fired ((serve_turn wake ^^ n) s))))"
proof
  have inv: "deadline_inv s" by (rule deadline.reach_inv [OF assms(1)])
  with assms(3) show "case dl_worker s of Waiting None \<Rightarrow> False | Waiting (Some wake_at) \<Rightarrow> wake_at \<le> fst key | _ \<Rightarrow> True"
    by (fastforce simp: deadline_inv_def split: deadline_worker.splits option.splits)
  show "fst key \<le> dl_now s \<longrightarrow>
       (\<exists>n \<le> length (delivering s) + length (dl_armed s) + 2. i \<in> set (dl_fired ((serve_turn wake ^^ n) s)))"
  proof
    assume due: "fst key \<le> dl_now s"
    obtain n s' where n: "n \<le> Suc (length (delivering s))" "(serve_turn wake ^^ n) s = s'" "dl_worker s' = Serving"
      "dl_armed s' = dl_armed s" "dl_now s' = dl_now s" "dl_closed s' = dl_closed s"
      using serve_to_serving [OF inv assms(2,3) due, of wake] by blast
    obtain m where m: "m \<le> Suc (length (dl_armed s))" "i \<in> set (dl_fired ((serve_turn wake ^^ m) s'))"
      using serve_due [OF n(3), of key i wake] inv assms(3,4) due n(4-6) by (auto simp: deadline_inv_def)
    have "(serve_turn wake ^^ m) s' = (serve_turn wake ^^ (m + n)) s" using n(2) by (simp add: funpow_add)
    with m n(1) show "\<exists>n \<le> length (delivering s) + length (dl_armed s) + 2. i \<in> set (dl_fired ((serve_turn wake ^^ n) s))"
      by (intro exI [of _ "m + n"]) auto
  qed
qed

text \<open>
  Arming and cancelling are exact.  Arming fails only when no worker runs and the system refuses
  a thread, and then nothing is armed; a deadline beyond the clock never fires, one of no length has
  fired; any other is armed under a key of its own with a worker running, and dropping its watchdog
  leaves the schedule as it was before and no value on the channel.
\<close>

theorem watchdog_exact:
  assumes "reach (\<lambda>s. \<exists>now. s = deadline_new now) (deadline_step greatest) s" and "i \<notin> set (dl_fired s)" and "i \<notin> set (dl_closed s)"
  shows "case deadline_arm greatest refuse timeout i s of
      None \<Rightarrow> dl_next_id s = - 1
    | Some (Inl _, s') \<Rightarrow> s' = s \<and> refuse \<and> \<not> dl_worker_running s
    | Some (Inr w, s') \<Rightarrow>
        wd_channel w = i \<and> dl_now s' = dl_now s \<and>
        (case wd_slot w of
           SlotNever \<Rightarrow> s' = s \<and> greatest < dl_now s + timeout
         | SlotFired \<Rightarrow> timeout = 0 \<and> watchdog_ready w s' \<and> dl_armed s' = dl_armed s
         | SlotArmed key \<Rightarrow>
             fst key = dl_now s + timeout \<and> dl_worker_running s' \<and> map_of (dl_armed s) key = None \<and>
             map_of (dl_armed s') = (map_of (dl_armed s))(key \<mapsto> i) \<and>
             dl_armed (watchdog_drop w s') = dl_armed s \<and> \<not> watchdog_ready w (watchdog_drop w s'))"
proof -
  have inv: "deadline_inv s" by (rule deadline.reach_inv [OF assms(1)])
  show ?thesis
  proof (cases "greatest < dl_now s + timeout \<or> timeout = 0")
    case True
    with assms(3) show ?thesis by (auto simp: deadline_arm_def watchdog_ready_def send_deadline_def)
  next
    case False
    then have arm: "deadline_arm greatest refuse timeout i s =
        (case deadline_insert refuse (dl_now s + timeout) i s of
              None \<Rightarrow> None
            | Some (Inl e, s1) \<Rightarrow> Some (Inl e, s1)
            | Some (Inr key, s1) \<Rightarrow> Some (Inr \<lparr>wd_channel = i, wd_slot = SlotArmed key\<rparr>, s1))"
      by (simp add: deadline_arm_def)
    show ?thesis
    proof (cases "deadline_insert refuse (dl_now s + timeout) i s")
      case None
      then have runs: "dl_worker_running s \<or> \<not> refuse" by (auto simp: deadline_insert_def spawn_worker_def)
      from None have "checked_succ (dl_next_id s) = None"
        unfolding insert_unfold [OF runs] Let_def by (cases "checked_succ (dl_next_id s)") (simp_all del: checked_succ_None)
      then have "dl_next_id s = - 1" by simp
      then show ?thesis unfolding arm None by simp
    next
      case (Some out)
      obtain r s1 where out: "out = (r, s1)" by force
      note i = insert_inv [OF inv Some [unfolded out]]
      show ?thesis
      proof (cases r)
        case (Inl e)
        with i show ?thesis unfolding arm Some out by simp
      next
        case (Inr key)
        with i have k: "fst key = dl_now s + timeout" "dl_worker_running s1" "dl_armed s1 = bt_insert key i (dl_armed s)"
          "key \<notin> fst ` set (dl_armed s)" "dl_fired s1 = dl_fired s" "dl_now s1 = dl_now s" by auto
        have "map_of (dl_armed s) key = None" using k(4) by (simp add: map_of_eq_None_iff)
        with k assms(2) Inr bt_insert_remove [OF k(4), of i] show ?thesis
          unfolding arm Some out by (simp add: watchdog_drop_def deadline_disarm_def watchdog_ready_def Let_def)
      qed
    qed
  qed
qed

section \<open>Witnesses\<close>

definition demo_deadline :: deadline_state where
  "demo_deadline = snd (the (deadline_arm 1000 False 5 7 (deadline_new 10)))"

lemma demo_deadline_eval:
  "deadline_arm 1000 False 5 7 (deadline_new 10) = Some (Inr \<lparr>wd_channel = 7, wd_slot = SlotArmed (15, 0)\<rparr>, demo_deadline)"
  "dl_armed demo_deadline = [((15, 0), 7)]" "dl_worker demo_deadline = Serving" "dl_closed demo_deadline = []"
  "dl_fired demo_deadline = []" "dl_now demo_deadline = 10" "dl_next_id demo_deadline = 1" "dl_worker_running demo_deadline"
  by (simp_all add: demo_deadline_def deadline_arm_def deadline_insert_def deadline_new_def spawn_worker_def is_earliest_def
      checked_succ_def notify_worker_def Let_def)

lemma demo_deadline_reach: "reach (\<lambda>s. \<exists>now. s = deadline_new now) (deadline_step 1000) demo_deadline"
proof (rule reach_step)
  show "reach (\<lambda>s. \<exists>now. s = deadline_new now) (deadline_step 1000) (deadline_new 10)" by (rule reach_init) blast
qed (rule step_arm [OF demo_deadline_eval(1)])

theorem deadline_never_missed_witness:
  "\<exists>n \<le> 3. 7 \<in> set (dl_fired ((serve_turn (\<lambda>_. Some (TextPayload ''boom'')) ^^ n) (demo_deadline\<lparr>dl_now := 20\<rparr>)))"
proof -
  have "reach (\<lambda>s. \<exists>now. s = deadline_new now) (deadline_step 1000) (demo_deadline\<lparr>dl_now := dl_now demo_deadline + 10\<rparr>)"
    by (rule reach_step [OF demo_deadline_reach step_elapse])
  then have "reach (\<lambda>s. \<exists>now. s = deadline_new now) (deadline_step 1000) (demo_deadline\<lparr>dl_now := 20\<rparr>)"
    by (simp add: demo_deadline_eval)
  from deadline_never_missed [OF this, of "(15, 0)" 7 "\<lambda>_. Some (TextPayload ''boom'')"] show ?thesis
    by (simp add: demo_deadline_eval delivering_def numeral_3_eq_3)
qed

theorem watchdog_exact_witness:
  "case deadline_arm 1000 True 3 8 demo_deadline of
     Some (Inr w, s') \<Rightarrow> dl_armed (watchdog_drop w s') = [((15, 0), 7)]
   | _ \<Rightarrow> False"
proof -
  obtain w s' where a: "deadline_arm 1000 True 3 8 demo_deadline = Some (Inr w, s')" and w: "wd_slot w = SlotArmed (13, 1)"
    by (simp add: deadline_arm_def deadline_insert_def demo_deadline_eval checked_succ_def Let_def)
  from watchdog_exact [OF demo_deadline_reach, of 8 True 3, unfolded a] w show ?thesis
    unfolding a by (simp add: demo_deadline_eval)
qed

end
