(* ===== verification/Era_Model.thy ===== *)
theory Era_Model
  imports Spawn
begin

text \<open>
  Era replacement (\<open>crates/cordis-core/src/fiber/era.rs\<close>): one live Fiber is claimed and
  disposed, one successor is created from its captured recipe and the changed input, the
  affected dependents converge, and the successor is handed off or cleaned up.  With it the
  waiting \<open>Fiber::dispose\<close> and \<open>FiberHandle::dispose\<close> of \<open>fiber/mod.rs\<close>.

  The schedule acts at every await.  The section from the edge snapshot to the terminal claim
  runs under the journal lock, which keeps out every registration on the source, and is one
  step.  Dropping the caller's future before the claim has no effect; after it \<open>waiting\<close> says
  whether the caller is still there when the transaction ends.
\<close>

section \<open>Disposal that waits\<close>

fun wait_dispose_complete :: "fid \<Rightarrow> schedule \<Rightarrow> runtime \<Rightarrow> unit pass_run" where
  "wait_dispose_complete f sch rn =
     (if fb_dispose_complete (fiber_at rn f) then Inr ((), sch, rn)
      else (case sch of [] \<Rightarrow> Inl StillWaiting | g # gs \<Rightarrow> wait_dispose_complete f gs (g rn)))"

declare wait_dispose_complete.simps [simp del]

definition fiber_dispose :: "lifecycle_env \<Rightarrow> fid \<Rightarrow> world \<Rightarrow> unit pass_run" where
  "fiber_dispose env f w =
     (case w of (sch, rn) \<Rightarrow>
        if fb_dispose_complete (fiber_at rn f) then Inr ((), w)
        else (case claim_loop f sch rn of
                Inl stop \<Rightarrow> Inl stop
              | Inr (_, sch1, rn1) \<Rightarrow>
                  (case dispose_claimed env f rn1 of
                     (True, rn2) \<Rightarrow> Inr ((), sch1, rn2)
                   | (False, rn2) \<Rightarrow> wait_dispose_complete f sch1 rn2)))"

definition handle_dispose :: "ident \<Rightarrow> att \<Rightarrow> lifecycle_env \<Rightarrow> fid \<Rightarrow> world \<Rightarrow> (lifecycle_recursion + unit) pass_run" where
  "handle_dispose t st env f w =
     (case refuse_recursion t f (fb_draining (fiber_at (snd w) f)) OpDispose st of
        Inl e \<Rightarrow> Inr (Inl e, w)
      | Inr _ \<Rightarrow> (case fiber_dispose env f w of Inl stop \<Rightarrow> Inl stop | Inr (_, w1) \<Rightarrow> Inr (Inr (), w1)))"

section \<open>Errors and the claim\<close>

datatype era_swap_failure = SuccessorApply plugin_failure | SuccessorLost

datatype era_swap_error =
    EraContractMismatch
  | EraClosed
  | EraRecursion lifecycle_recursion
  | EraIncomplete era_swap_failure

datatype era_owner_failure = EraTransaction era_swap_error | InputDropPanic ident

text \<open>
  The calling task and its attribution, the completion task with the attribution at each of its
  waits, and what dropping an input of the user does (\<open>Some\<close> is the payload it panics with).
\<close>

record era_env =
  ee_caller :: ident
  ee_caller_att :: att
  ee_owner :: ident
  ee_entry_att :: "fid \<Rightarrow> att"
  ee_final_att :: "fid \<Rightarrow> att"
  ee_cleanup_att :: "fid \<Rightarrow> att"
  ee_input_drop :: "ident \<Rightarrow> ident option"

record era_claim =
  ec_recipe :: era_recipe
  ec_edges :: "dependency_edge list"
  ec_dependents :: "fid list"

definition owned_edges :: "fid \<Rightarrow> runtime \<Rightarrow> dependency_edge list" where
  "owned_edges f rn = map (\<lambda>((key, name), _). (name, key)) (slots_owned_by f rn)"

definition root_dependents :: "dependency_edge list \<Rightarrow> runtime \<Rightarrow> fid list \<times> runtime" where
  "root_dependents es rn =
     (case dependents_for_edges_with_retention (alive_at rn) (edges_at rn) (upgrades rn)
             (snapshot_fibers (rn_registry rn)) es (rn_deps rn) of
        ((affected, _), deps) \<Rightarrow> (affected, rn\<lparr>rn_deps := deps\<rparr>))"

fun refused_dependent :: "era_env \<Rightarrow> fid \<Rightarrow> runtime \<Rightarrow> fid list \<Rightarrow> lifecycle_recursion option" where
  "refused_dependent ee f rn [] = None"
| "refused_dependent ee f rn (d # ds) =
     (if d = f then refused_dependent ee f rn ds
      else (case refuse_recursion (ee_caller ee) d (fb_draining (fiber_at rn d)) OpEraSwap (ee_caller_att ee) of
              Inl e \<Rightarrow> Some e
            | Inr _ \<Rightarrow> refused_dependent ee f rn ds))"

definition era_commit :: "era_env \<Rightarrow> fid \<Rightarrow> era_recipe \<Rightarrow> runtime \<Rightarrow> (era_swap_error + era_claim) \<times> runtime" where
  "era_commit ee f recipe rn =
     (let edges = owned_edges f rn in
      case root_dependents edges rn of
        (dependents, rn1) \<Rightarrow>
          (case refused_dependent ee f rn1 dependents of
             Some e \<Rightarrow> (Inl (EraRecursion e), put_slot f abandon rn1)
           | None \<Rightarrow>
               (case claim_terminal (fiber_at rn1 f) of
                  (True, x) \<Rightarrow> (Inl EraClosed, put_slot f abandon (update_fiber f (\<lambda>_. x) rn1))
                | (False, x) \<Rightarrow>
                    (Inr \<lparr>ec_recipe = recipe, ec_edges = edges, ec_dependents = filter (\<lambda>d. d \<noteq> f) dependents\<rparr>,
                     update_fiber f (\<lambda>_. x) rn1))))"

definition era_claim_source :: "era_env \<Rightarrow> fid \<Rightarrow> prepared_change \<Rightarrow> world \<Rightarrow> (era_swap_error + era_claim) pass_run" where
  "era_claim_source ee f change w =
     (case w of (sch, rn) \<Rightarrow>
        let x = fiber_at rn f in
        case refuse_recursion (ee_caller ee) f (fb_draining x) OpEraSwap (ee_caller_att ee) of
          Inl e \<Rightarrow> Inr (Inl (EraRecursion e), w)
        | Inr _ \<Rightarrow>
            if \<not> is_alive x \<or> fb_disposing x then Inr (Inl EraClosed, w)
            else if spawn_state_contract (fb_spawn x) \<noteq> Some (pc_contract change) then Inr (Inl EraContractMismatch, w)
            else (case spawn_state_era_recipe (fb_spawn x) of
                    Inl _ \<Rightarrow> Inr (Inl EraClosed, w)
                  | Inr recipe \<Rightarrow>
                      (case claim_loop f sch rn of
                         Inl stop \<Rightarrow> Inl stop
                       | Inr (_, sch1, rn1) \<Rightarrow>
                           if \<not> is_alive (fiber_at rn1 f) then Inr (Inl EraClosed, sch1, put_slot f abandon rn1)
                           else (case interfere (sch1, rn1) of
                                   (sch2, rn2) \<Rightarrow>
                                     (case era_commit ee f recipe rn2 of (result, rn3) \<Rightarrow> Inr (result, sch2, rn3))))))"

section \<open>The committed transaction\<close>

text \<open>The waits for affected Fibers.  \<open>None\<close>: one of them never answers.\<close>

fun converge :: "ident \<Rightarrow> (fid \<Rightarrow> att) \<Rightarrow> fid list \<Rightarrow> world \<Rightarrow> unit pass_run option" where
  "converge t att_of [] w = Some (Inr ((), w))"
| "converge t att_of (d # ds) w =
     (case handle_ready t (att_of d) d (interfere w) of
        None \<Rightarrow> None
      | Some (Inl stop) \<Rightarrow> Some (Inl stop)
      | Some (Inr (_, w1)) \<Rightarrow> converge t att_of ds w1)"

definition capture_dependents :: "dependency_edge list \<Rightarrow> fid list \<Rightarrow> runtime \<Rightarrow> fid list \<times> runtime" where
  "capture_dependents es skip rn =
     (case root_dependents es rn of (captured, rn1) \<Rightarrow> (filter (\<lambda>d. d \<notin> set skip) captured, rn1))"

definition converge_final :: "era_env \<Rightarrow> dependency_edge list \<Rightarrow> fid \<Rightarrow> fid option \<Rightarrow> world \<Rightarrow> unit pass_run option" where
  "converge_final ee edges source successor w =
     (case interfere w of (sch, rn) \<Rightarrow>
        (case capture_dependents
                (edges @ (case successor of None \<Rightarrow> [] | Some g \<Rightarrow> owned_edges g rn))
                (source # (case successor of None \<Rightarrow> [] | Some g \<Rightarrow> [g])) rn of
           (captured, rn1) \<Rightarrow> converge (ee_owner ee) (ee_final_att ee) captured (sch, rn1)))"

text \<open>\<open>None\<close> is the \<open>unreachable!\<close>.\<close>

definition map_spawn_failure :: "spawn_error \<Rightarrow> era_swap_failure option" where
  "map_spawn_failure e =
     (case e of
        InitialApply failure \<Rightarrow> Some (SuccessorApply failure)
      | SpawnInterrupted \<Rightarrow> Some SuccessorLost
      | InactiveContext \<Rightarrow> None)"

text \<open>
  The old input is dropped as its Plugin moves into the successor's seal; when that panics the
  fresh seal is lost with it.
\<close>

definition era_successor_seal :: "era_env \<Rightarrow> prepared_change \<Rightarrow> typed_plugin \<Rightarrow> (ident + typed_plugin) option \<times> typed_plugin" where
  "era_successor_seal ee change p =
     (case into_successor change p of
        (Inl _, p') \<Rightarrow> (None, p')
      | (Inr fresh, p') \<Rightarrow>
          (case map_option (\<lambda>(_, input). ee_input_drop ee input) (tp_state p) of
             Some (Some payload) \<Rightarrow> (Some (Inl payload), p')
           | _ \<Rightarrow> (Some (Inr fresh), p')))"

definition era_successor ::
  "nat \<Rightarrow> lifecycle_env \<Rightarrow> era_env \<Rightarrow> fid \<Rightarrow> era_claim \<Rightarrow> prepared_change \<Rightarrow> seals \<Rightarrow> world \<Rightarrow>
   seals \<times> (era_owner_failure + fid) pass_run option"
where
  "era_successor n env ee f claim change seals w =
     (let recipe = ec_recipe claim in
      case er_plugin_key recipe of
        AnonymousKey _ \<Rightarrow> (seals, Some (Inl PassPanic))
      | TypedKey contract \<Rightarrow>
          (case map_option (era_successor_seal ee change) (seals (er_plugin recipe)) of
             None \<Rightarrow> (seals, Some (Inl PassPanic))
           | Some (None, p) \<Rightarrow> (seals(er_plugin recipe \<mapsto> p), Some (Inl PassPanic))
           | Some (Some (Inl payload), p) \<Rightarrow>
               (seals(er_plugin recipe \<mapsto> p),
                (case converge_final ee (ec_edges claim) f None w of
                   None \<Rightarrow> None
                 | Some (Inl stop) \<Rightarrow> Some (Inl stop)
                 | Some (Inr (_, w1)) \<Rightarrow> Some (Inr (Inl (InputDropPanic payload), w1))))
           | Some (Some (Inr fresh), p) \<Rightarrow>
               (case spawn_prepared_era_successor n env (er_spawning_ctx recipe)
                       \<lparr>pp_plugin = fresh, pp_name = er_name recipe, pp_inject = er_inject recipe, pp_contract = contract\<rparr>
                       (seals(er_plugin recipe \<mapsto> p)) w of
                  (seals', Inl stop) \<Rightarrow> (seals', Some (Inl stop))
                | (seals', Inr (Inl e, w1)) \<Rightarrow>
                    (seals',
                     (case converge_final ee (ec_edges claim) f None w1 of
                        None \<Rightarrow> None
                      | Some (Inl stop) \<Rightarrow> Some (Inl stop)
                      | Some (Inr (_, w2)) \<Rightarrow>
                          (case map_spawn_failure e of
                             None \<Rightarrow> Some (Inl PassPanic)
                           | Some failure \<Rightarrow> Some (Inr (Inl (EraTransaction (EraIncomplete failure)), w2)))))
                | (seals', Inr (Inr g, w1)) \<Rightarrow>
                    (seals',
                     (case converge_final ee (ec_edges claim) f (Some g) w1 of
                        None \<Rightarrow> None
                      | Some (Inl stop) \<Rightarrow> Some (Inl stop)
                      | Some (Inr (_, w2)) \<Rightarrow> Some (Inr (Inr g, w2)))))))"

definition run_committed_replacement ::
  "nat \<Rightarrow> lifecycle_env \<Rightarrow> era_env \<Rightarrow> fid \<Rightarrow> era_claim \<Rightarrow> prepared_change \<Rightarrow> seals \<Rightarrow> world \<Rightarrow>
   seals \<times> (era_owner_failure + fid) pass_run option"
where
  "run_committed_replacement n env ee f claim change seals w =
     (case w of (sch, rn) \<Rightarrow>
        (case converge (ee_owner ee) (ee_entry_att ee) (ec_dependents claim) (sch, complete_claimed_dispose env f rn) of
           None \<Rightarrow> (seals, None)
         | Some (Inl stop) \<Rightarrow> (seals, Some (Inl stop))
         | Some (Inr (_, w1)) \<Rightarrow> era_successor n env ee f claim change seals w1))"

section \<open>The handoff\<close>

definition cleanup_undelivered_successor ::
  "lifecycle_env \<Rightarrow> era_env \<Rightarrow> dependency_edge list \<Rightarrow> fid \<Rightarrow> fid \<Rightarrow> world \<Rightarrow> unit pass_run option"
where
  "cleanup_undelivered_successor env ee edges source g w =
     (case interfere w of (sch, rn) \<Rightarrow>
        (let successor_edges = owned_edges g rn in
         case fiber_dispose env g (sch, rn) of
           Inl stop \<Rightarrow> Some (Inl stop)
         | Inr (_, w1) \<Rightarrow>
             (case interfere w1 of (sch2, rn2) \<Rightarrow>
                (case capture_dependents (edges @ successor_edges) [source, g] rn2 of
                   (captured, rn3) \<Rightarrow> converge (ee_owner ee) (ee_cleanup_att ee) captured (sch2, rn3)))))"

text \<open>\<open>EraHandoffGuard\<close>: armed with the successor until the caller accepts it.\<close>

definition era_guard_disarm :: "fid option \<Rightarrow> fid option" where
  "era_guard_disarm guard = None"

definition era_guard_drop ::
  "lifecycle_env \<Rightarrow> era_env \<Rightarrow> dependency_edge list \<Rightarrow> fid \<Rightarrow> fid option \<Rightarrow> world \<Rightarrow> unit pass_run option"
where
  "era_guard_drop env ee edges source guard w =
     (case guard of
        None \<Rightarrow> Some (Inr ((), w))
      | Some g \<Rightarrow> cleanup_undelivered_successor env ee edges source g w)"

datatype era_reply =
    EraReturned "era_swap_error + fid"
  | EraResumed ident \<comment> \<open>the input's panic goes on in the caller\<close>
  | EraReported ident \<comment> \<open>nobody to resume it in: it is logged\<close>
  | EraUnheard

definition era_deliver ::
  "lifecycle_env \<Rightarrow> era_env \<Rightarrow> dependency_edge list \<Rightarrow> fid \<Rightarrow> bool \<Rightarrow> era_owner_failure + fid \<Rightarrow> world \<Rightarrow>
   era_reply pass_run option"
where
  "era_deliver env ee edges f waiting result w =
     (case result of
        Inl (EraTransaction e) \<Rightarrow> Some (Inr (if waiting then EraReturned (Inl e) else EraUnheard, w))
      | Inl (InputDropPanic payload) \<Rightarrow> Some (Inr (if waiting then EraResumed payload else EraReported payload, w))
      | Inr g \<Rightarrow>
          (case era_guard_drop env ee edges f (if waiting then era_guard_disarm (Some g) else Some g) w of
             None \<Rightarrow> None
           | Some (Inl stop) \<Rightarrow> Some (Inl stop)
           | Some (Inr (_, w1)) \<Rightarrow> Some (Inr (if waiting then EraReturned (Inr g) else EraUnheard, w1))))"

definition era_swap ::
  "nat \<Rightarrow> lifecycle_env \<Rightarrow> era_env \<Rightarrow> fid \<Rightarrow> prepared_change \<Rightarrow> bool \<Rightarrow> seals \<Rightarrow> world \<Rightarrow>
   seals \<times> era_reply pass_run option"
where
  "era_swap n env ee f change waiting seals w =
     (case era_claim_source ee f change w of
        Inl stop \<Rightarrow> (seals, Some (Inl stop))
      | Inr (Inl e, w1) \<Rightarrow> (seals, Some (Inr (EraReturned (Inl e), w1)))
      | Inr (Inr claim, w1) \<Rightarrow>
          (case run_committed_replacement n env ee f claim change seals (interfere w1) of
             (seals', None) \<Rightarrow> (seals', None)
           | (seals', Some (Inl stop)) \<Rightarrow> (seals', Some (Inl stop))
           | (seals', Some (Inr (result, w2))) \<Rightarrow> (seals', era_deliver env ee (ec_edges claim) f waiting result w2)))"

end
