(* ===== verification/Era_Laws.thy ===== *)
theory Era_Laws
  imports Era_Model
begin

text \<open>
  What an era replacement rests on: operations on one Fiber leave every other Fiber's own state,
  history and residency alone, and a Fiber disposed and unlinked stays so while another one is
  created, settled, waited for or disposed.
\<close>

section \<open>Waiting\<close>

text \<open>A run keeps \<open>P\<close> and draws on the schedule it was given.\<close>

definition allowed :: "(runtime \<Rightarrow> runtime) set \<Rightarrow> nat \<Rightarrow> schedule \<Rightarrow> bool" where
  "allowed turns N sch \<longleftrightarrow> set sch \<subseteq> turns \<and> length sch \<le> N"

lemma allowed_Cons [dest]: "allowed turns N (k # sch) \<Longrightarrow> k \<in> turns \<and> allowed turns N sch"
  by (simp add: allowed_def)

definition run_keeps :: "(runtime \<Rightarrow> runtime) set \<Rightarrow> nat \<Rightarrow> (runtime \<Rightarrow> bool) \<Rightarrow> 'a pass_run \<Rightarrow> bool" where
  "run_keeps turns N P r \<longleftrightarrow> (case r of Inl _ \<Rightarrow> True | Inr (_, sch, rn) \<Rightarrow> P rn \<and> allowed turns N sch)"

definition loop_keeps :: "(runtime \<Rightarrow> runtime) set \<Rightarrow> nat \<Rightarrow> (runtime \<Rightarrow> bool) \<Rightarrow> 'a pass_run option \<Rightarrow> bool" where
  "loop_keeps turns N P r \<longleftrightarrow> (case r of None \<Rightarrow> True | Some r \<Rightarrow> run_keeps turns N P r)"

lemma keepsI: "P rn \<Longrightarrow> allowed turns N sch \<Longrightarrow> run_keeps turns N P (Inr (v, sch, rn))"
  by (simp add: run_keeps_def)

lemma keeps_stop [simp]: "run_keeps turns N P (Inl stop)"
  by (simp add: run_keeps_def)

lemma keepsD: "run_keeps turns N P (Inr (v, sch, rn)) \<Longrightarrow> P rn \<and> allowed turns N sch"
  by (simp add: run_keeps_def)

lemma loop_keeps_simps [simp]:
  "loop_keeps turns N P None" "loop_keeps turns N P (Some r) \<longleftrightarrow> run_keeps turns N P r"
  by (simp_all add: loop_keeps_def)

text \<open>Waits only move slots and prune the dependency index.\<close>

locale waiting_world =
  fixes turns :: "(runtime \<Rightarrow> runtime) set" and P :: "runtime \<Rightarrow> bool"
  assumes P_slot: "P rn \<Longrightarrow> P (put_slot d slot_update rn)"
    and P_turn: "k \<in> turns \<Longrightarrow> P rn \<Longrightarrow> P (k rn)"
    and P_dependents: "P rn \<Longrightarrow> root_dependents es rn = (ds, rn1) \<Longrightarrow> P rn1"
begin

lemma P_interfere:
  assumes "P rn" and "allowed turns N sch" and "interfere (sch, rn) = (sch', rn')"
  shows "P rn'" and "allowed turns N sch'"
  using assms P_turn by (cases sch; auto)+

lemma run_claim: "P rn \<Longrightarrow> allowed turns N sch \<Longrightarrow> run_keeps turns N P (claim_loop d sch rn)"
proof (induction sch arbitrary: rn)
  case Nil
  then show ?case by (simp add: claim_loop.simps [of d "[]"] keepsI P_slot split: prod.split bool.split)
next
  case (Cons k sch)
  have "run_keeps turns N P (claim_loop d sch (k rn))"
    by (rule Cons.IH) (use Cons.prems P_turn in auto)
  with Cons.prems show ?case by (simp add: claim_loop.simps [of d "k # sch"] keepsI P_slot split: prod.split bool.split)
qed

lemma run_wait: "P rn \<Longrightarrow> allowed turns N sch \<Longrightarrow> run_keeps turns N P (wait_idle d sch rn)"
proof (induction sch arbitrary: rn)
  case Nil
  then show ?case by (simp add: keepsI)
next
  case (Cons k sch)
  have "run_keeps turns N P (wait_idle d sch (k rn))"
    by (rule Cons.IH) (use Cons.prems P_turn in auto)
  with Cons.prems show ?case by (simp add: keepsI)
qed

lemma run_wait_dispose: "P rn \<Longrightarrow> allowed turns N sch \<Longrightarrow> run_keeps turns N P (wait_dispose_complete d sch rn)"
proof (induction sch arbitrary: rn)
  case Nil
  then show ?case by (simp add: keepsI wait_dispose_complete.simps [of d "[]"])
next
  case (Cons k sch)
  have "run_keeps turns N P (wait_dispose_complete d sch (k rn))"
    by (rule Cons.IH) (use Cons.prems P_turn in auto)
  with Cons.prems show ?case by (simp add: keepsI wait_dispose_complete.simps [of d "k # sch"])
qed

lemma run_exit: "P (snd w) \<Longrightarrow> allowed turns N (fst w) \<Longrightarrow> run_keeps turns N P (exit_recheck d aim revision w)"
proof (induction d aim revision w rule: exit_recheck.induct)
  case (1 d aim revision sch rn)
  show ?case
  proof (cases "upgrades rn d")
    case False
    then show ?thesis by (simp add: exit_recheck.simps)
  next
    case up: True
    obtain sch1 rn1 where e1: "interfere (sch, put_slot d (store_inertia INERTIA_RELEASING) rn) = (sch1, rn1)" by force
    have h1: "P rn1" "allowed turns N sch1"
      using P_interfere [OF P_slot _ e1] "1.prems" by auto
    obtain sch2 rn2 where e2: "interfere (sch1, put_slot d (store_settled revision) rn1) = (sch2, rn2)" by force
    have h2: "P rn2" "allowed turns N sch2" using P_interfere [OF P_slot [OF h1(1)] h1(2) e2] by auto
    show ?thesis
    proof (cases "compute_target (fiber_at rn1 d) rn1")
      case None
      with up e1 show ?thesis by (simp add: exit_recheck.simps)
    next
      case (Some live)
      consider (drift) "live \<noteq> aim" | (revised) "live = aim" "recheck_revision d rn1 \<noteq> revision"
        | (acknowledge) "live = aim" "recheck_revision d rn1 = revision" by blast
      then show ?thesis
      proof cases
        case drift
        with up e1 Some h1 show ?thesis by (simp add: exit_recheck.simps Let_def keepsI P_slot)
      next
        case revised
        have "exit_recheck d aim revision (sch, rn) = exit_recheck d aim (recheck_revision d rn1) (sch1, rn1)"
          using up e1 Some revised by (subst exit_recheck.simps) (simp add: Let_def)
        with "1.IH"(1) [of sch1 rn1 live "recheck_revision d rn1"] up e1 Some revised h1 show ?thesis by auto
      next
        case acknowledge
        obtain r sl where c: "compare_exchange INERTIA_RELEASING INERTIA_IDLE (slot_of d rn2) = (r, sl)" by force
        show ?thesis
        proof (cases r)
          case (Inr u)
          with up e1 Some acknowledge e2 c h2 show ?thesis by (simp add: exit_recheck.simps Let_def keepsI P_slot)
        next
          case (Inl other)
          have "exit_recheck d aim revision (sch, rn) =
              (if other = INERTIA_ACTIVE then exit_recheck d aim (recheck_revision d rn2) (sch2, rn2) else Inl PassPanic)"
            using up e1 Some acknowledge e2 c Inl by (subst exit_recheck.simps) (simp add: Let_def)
          with "1.IH"(2) [of sch1 rn1 live "recheck_revision d rn1" sch2 rn2 r sl other] up e1 Some acknowledge e2 c Inl h2
          show ?thesis by auto
        qed
      qed
    qed
  qed
qed

lemma run_kick:
  assumes "P (snd w)" and "allowed turns N (fst w)"
  shows "run_keeps turns N P (kick_slot d w)"
proof -
  obtain sch rn where w: "w = (sch, rn)" by force
  let ?rn1 = "put_slot d (store_inertia INERTIA_ACTIVE) rn"
  have h: "P rn" "allowed turns N sch" using assms w by simp_all
  have x: "run_keeps turns N P (case exit_recheck d aim revision (sch, ?rn1) of Inl stop \<Rightarrow> Inl stop | Inr (_, w1) \<Rightarrow> Inr ((), w1))" for aim revision
    using run_exit [of "(sch, ?rn1)" N d aim revision] h P_slot [OF h(1)] by (auto simp: run_keeps_def split: sum.split)
  show ?thesis unfolding w kick_slot_def Let_def
    using h x by (auto simp: keepsI P_slot split: option.split)
qed

lemma run_ready_round:
  assumes h: "P (snd w)" "allowed turns N (fst w)" and r: "ready_body again d w = Some r"
    and again: "\<And>w r. P (snd w) \<Longrightarrow> allowed turns N (fst w) \<Longrightarrow> again d w = Some r \<Longrightarrow> run_keeps turns N P r"
  shows "run_keeps turns N P r"
proof -
  let ?k = "if has_committed_recheck (slot_of d (snd w)) \<and> has_root d (snd w) then kick_slot d w else Inr ((), w)"
  have k: "run_keeps turns N P ?k" using run_kick [OF h] h by (cases w) (simp add: keepsI)
  show ?thesis
  proof (cases ?k)
    case (Inl stop)
    with r show ?thesis by (auto simp: ready_body_def split: if_splits)
  next
    case (Inr a)
    obtain sch1 rn1 where a: "?k = Inr ((), sch1, rn1)" using Inr by (cases a) auto
    from k have h1: "P rn1" "allowed turns N sch1" unfolding a by (auto dest: keepsD)
    show ?thesis
    proof (cases "wait_idle d sch1 rn1")
      case (Inl stop)
      with r a show ?thesis by (auto simp: ready_body_def)
    next
      case (Inr b)
      obtain sch2 rn2 where b: "wait_idle d sch1 rn1 = Inr ((), sch2, rn2)" using Inr by (cases b) auto
      from run_wait [OF h1, of d] have h2: "P rn2" "allowed turns N sch2" unfolding b by (auto dest: keepsD)
      obtain sch3 rn3 where e: "interfere (sch2, rn2) = (sch3, rn3)" by force
      note h3 = P_interfere [OF h2 e]
      obtain observed sequence where o: "publication_observe (fb_state (fiber_at rn2 d)) = (observed, sequence)" by force
      have "Some r = (if \<not> is_idle (slot_of d rn3) \<or> has_committed_recheck (slot_of d rn3) then again d (sch3, rn3)
          else if sp_sequence (fb_state (fiber_at rn3 d)) \<noteq> sequence then again d (sch3, rn3)
          else if observed = Failed
          then (case fb_error (fiber_at rn3 d) of
                  Some failure \<Rightarrow> Some (Inr (Inl (ReadyApply failure), sch3, rn3))
                | None \<Rightarrow> again d (sch3, rn3))
          else if observed \<in> {Loading, Unloading} then Some (Inl PassPanic)
          else Some (Inr (Inr observed, sch3, rn3)))"
        using r a b o e by (simp add: ready_body_def)
      with again [of "(sch3, rn3)" r] h3 show ?thesis
        by (auto simp: keepsI split: if_splits option.splits)
    qed
  qed
qed

lemma run_ready:
  assumes "ready_loop d w = Some r" and "P (snd w)" and "allowed turns N (fst w)"
  shows "run_keeps turns N P r"
proof -
  have "P (snd w) \<longrightarrow> allowed turns N (fst w) \<longrightarrow> run_keeps turns N P r"
  proof (rule ready_loop.raw_induct [OF _ assms(1)], intro impI, goal_cases)
    case (1 loop d w r)
    from 1(2) have body: "ready_body loop d w = Some r" by (simp only: ready_body_def)
    show ?case by (rule run_ready_round [OF 1(3,4) body]) (use 1(1) in blast)
  qed
  with assms(2,3) show ?thesis by blast
qed

lemma run_converge:
  assumes "P (snd w)" and "allowed turns N (fst w)"
  shows "loop_keeps turns N P (converge t att_of ds w)"
  using assms
proof (induction ds arbitrary: w)
  case Nil
  then show ?case by (cases w) (simp add: keepsI)
next
  case (Cons d ds)
  obtain sch1 rn1 where e: "interfere w = (sch1, rn1)" by force
  have h1: "P rn1" "allowed turns N sch1" using P_interfere [of "snd w" N "fst w"] Cons.prems e by simp_all
  show ?case
  proof (cases "handle_ready t (att_of d) d (sch1, rn1)")
    case (Some r)
    have r: "run_keeps turns N P r"
      using Some run_ready [of d "(sch1, rn1)" r] h1 by (auto simp: handle_ready_def keepsI split: sum.splits)
    show ?thesis
    proof (cases r)
      case (Inr a)
      obtain v sch2 rn2 where a: "r = Inr (v, sch2, rn2)" using Inr by (cases a) auto
      from r have "P rn2" "allowed turns N sch2" unfolding a by (auto dest: keepsD)
      with Cons.IH [of "(sch2, rn2)"] e Some a show ?thesis by simp
    qed (use e Some in simp)
  qed (use e in simp)
qed

lemma run_converge_final:
  assumes "P (snd w)" and "allowed turns N (fst w)"
  shows "loop_keeps turns N P (converge_final ee es source successor w)"
proof -
  obtain sch rn where e: "interfere w = (sch, rn)" by force
  have h: "P rn" "allowed turns N sch" using P_interfere [of "snd w" N "fst w"] assms e by simp_all
  obtain captured rn1 where c: "capture_dependents (es @ (case successor of None \<Rightarrow> [] | Some g \<Rightarrow> owned_edges g rn))
      (source # (case successor of None \<Rightarrow> [] | Some g \<Rightarrow> [g])) rn = (captured, rn1)" by force
  have "P rn1"
    using c P_dependents [OF h(1)] by (auto simp: capture_dependents_def split: prod.splits)
  with run_converge [of "(sch, rn1)"] h(2) e c show ?thesis by (simp add: converge_final_def)
qed

end

section \<open>Operations on one Fiber\<close>

definition claimed :: "runtime \<Rightarrow> fid \<Rightarrow> ident option" where
  "claimed rn h = map_of (rg_claims (rn_registry rn)) h"

definition touches :: "fid \<Rightarrow> runtime \<Rightarrow> runtime \<Rightarrow> bool" where
  "touches g rn rn' \<longleftrightarrow>
     (\<forall>h. upgrades rn' h = upgrades rn h) \<and> rn_next rn' = rn_next rn \<and>
     (\<forall>h. h \<noteq> g \<longrightarrow> (upgrades rn h \<longrightarrow> fiber_view h rn' = fiber_view h rn) \<and> history h rn' = history h rn \<and> claimed rn' h = claimed rn h) \<and>
     (claimed rn g = None \<longrightarrow> claimed rn' g = None) \<and>
     (registry_wf (rn_registry rn) \<longrightarrow> registry_wf (rn_registry rn'))"

lemma touches_refl [simp]: "touches g rn rn"
  by (simp add: touches_def)

lemma touches_trans [trans]: "touches g rn rn1 \<Longrightarrow> touches g rn1 rn2 \<Longrightarrow> touches g rn rn2"
  by (simp add: touches_def)

lemma update_other: "h \<noteq> g \<Longrightarrow> fiber_at (update_fiber g k rn) h = fiber_at rn h"
  by (simp add: update_fiber_def fiber_at_def)

lemma update_fiber_rest: "rn_next (update_fiber g k rn) = rn_next rn" "rn_registry (update_fiber g k rn) = rn_registry rn"
  by (simp_all add: update_fiber_def)

lemma touches_update [simp]: "touches g rn (update_fiber g k rn)"
  by (simp add: touches_def update_other fiber_view_def claimed_def update_fiber_rest)

lemma touches_slot [simp]: "touches g rn (put_slot d k rn)"
proof -
  have "fiber_view h (put_slot d k rn) = fiber_view h rn" if "upgrades rn h" for h
    using that by (cases "h = d") (simp_all add: update_other fiber_view_def update_fiber_same)
  then show ?thesis by (simp add: touches_def claimed_def update_fiber_rest)
qed

lemma touches_frame:
  "rn_heap rn' = rn_heap rn \<Longrightarrow> rn_observed rn' = rn_observed rn \<Longrightarrow> rn_next rn' = rn_next rn \<Longrightarrow> rn_registry rn' = rn_registry rn \<Longrightarrow>
   touches g rn rn'"
  by (simp add: touches_def upgrades_def fiber_view_def fiber_at_def history_def claimed_def)

lemma observe_rest: "rn_next (observe obs rn) = rn_next rn" "rn_registry (observe obs rn) = rn_registry rn"
  by (simp_all add: observe_def)

lemma touches_observe:
  assumes "\<And>h old next. obs = FiberStateChanged h old next \<Longrightarrow> h = g"
  shows "touches g rn (observe obs rn)"
  using assms by (auto simp: touches_def claimed_def observe_rest split: runtime_observation.split)

lemma touches_fold_observe:
  "(\<And>obs h old next. obs \<in> set os \<Longrightarrow> obs = FiberStateChanged h old next \<Longrightarrow> h = g) \<Longrightarrow> touches g rn (fold observe os rn)"
proof (induction os arbitrary: rn)
  case (Cons obs os)
  have "touches g rn (observe obs rn)" by (rule touches_observe) (use Cons.prems in auto)
  moreover have "touches g (observe obs rn) (fold observe os (observe obs rn))" by (rule Cons.IH) (use Cons.prems in auto)
  ultimately show ?case by (simp add: touches_trans)
qed simp

lemma touches_drift:
  assumes "drift_commit es rn = (fs, rn')"
  shows "touches g rn rn'"
proof -
  note f = drift_commit_frame [OF assms]
  have up: "upgrades rn' h = upgrades rn h" for h by (simp add: upgrades_def f(8))
  from up f(4,5) drift_commit_view [OF assms] show ?thesis by (simp add: touches_def claimed_def history_def f(6))
qed

lemma touches_kick [simp]: "touches g rn (drift_kick fs rn)"
  by (rule touches_frame) (simp_all add: drift_kick_def)

lemma touches_commit_transition:
  assumes "commit_fiber_transition g next rn = (r, rn')"
  shows "touches g rn rn'"
proof (cases "slots_owned_by g rn = []")
  case True
  with assms show ?thesis by (auto simp: commit_fiber_transition_def)
next
  case False
  with assms show ?thesis
    by (auto simp: commit_fiber_transition_def Let_def split: prod.splits intro: touches_trans [OF touches_drift touches_update])
qed

lemma touches_transition [simp]: "touches g rn (transition g next rn)"
proof -
  let ?old = "current_state (fiber_at rn g)"
  obtain visibility drift rn1 where c: "(if (?old = Active) \<noteq> (next = Active) \<and> has_root g rn
      then commit_fiber_transition g next rn else (([], None), update_fiber g (set_state next) rn)) = ((visibility, drift), rn1)"
    by (metis prod.exhaust)
  let ?rn2 = "case drift of None \<Rightarrow> rn1 | Some affected \<Rightarrow> drift_kick affected rn1"
  let ?os = "visibility_observations ?old next visibility @ [FiberStateChanged g ?old next]"
  have t1: "touches g rn rn1" using c touches_commit_transition by (auto split: if_splits)
  have t2: "touches g rn ?rn2" using t1 touches_trans [OF t1 touches_kick] by (cases drift) auto
  have t3: "touches g ?rn2 (fold observe ?os ?rn2)"
    by (rule touches_fold_observe) (auto simp: visibility_observations_def)
  show ?thesis unfolding transition_def Let_def c
    using t2 touches_trans [OF t2 t3] by simp
qed

lemma touches_withdraw [simp]: "touches g rn (withdraw_exact key name occurrence rn)"
  by (rule touches_frame) (simp_all add: withdraw_exact_def drop_slot_def split: option.split)

lemma touches_unregister [simp]: "touches g rn (unregister_edges g rn)"
  by (rule touches_frame) (simp_all add: unregister_edges_def)

lemma release_claims_other:
  assumes "h \<noteq> g"
  shows "map_of (rg_claims (release_residency g r)) h = map_of (rg_claims r) h"
  using assms by (simp add: release_residency_def split: option.split)

lemma touches_release [simp]: "touches g rn (release_resident g rn)"
proof -
  let ?rn1 = "rn\<lparr>rn_registry := release_residency g (rn_registry rn)\<rparr>"
  have "touches g rn ?rn1"
    by (simp add: touches_def claimed_def release_claims_other release_unlinks release_residency_wf)
      (simp add: upgrades_def fiber_view_def fiber_at_def history_def)
  moreover have "touches g ?rn1 (observe (FiberResidencyRemoved g) ?rn1)" by (rule touches_observe) simp
  ultimately show ?thesis by (auto simp: release_resident_def Let_def intro: touches_trans)
qed

lemma touches_dependents: "root_dependents es rn = (ds, rn1) \<Longrightarrow> touches g rn rn1"
  by (auto simp: root_dependents_def split: prod.splits intro!: touches_frame)

section \<open>What stays\<close>

text \<open>Identities are handed out in order, and the Registry is consistent.\<close>

definition world_ok :: "runtime \<Rightarrow> bool" where
  "world_ok rn \<longleftrightarrow>
     registry_wf (rn_registry rn) \<and>
     (\<forall>h. rn_next rn \<le> h \<longrightarrow> \<not> upgrades rn h \<and> claimed rn h = None \<and> history h rn = [])"

definition buried :: "fid \<Rightarrow> runtime \<Rightarrow> bool" where
  "buried f rn \<longleftrightarrow> life_inv f rn \<and> \<not> fb_alive (fiber_at rn f) \<and> claimed rn f = None"

text \<open>\<open>A\<close> are the buried Fibers, \<open>T\<close> those being worked on.\<close>

definition holds :: "fid set \<Rightarrow> fid set \<Rightarrow> runtime \<Rightarrow> bool" where
  "holds A T rn \<longleftrightarrow> world_ok rn \<and> (\<forall>g \<in> T. upgrades rn g) \<and> (\<forall>f \<in> A. buried f rn) \<and> A \<inter> T = {}"

definition benign :: "(runtime \<Rightarrow> runtime) \<Rightarrow> bool" where
  "benign k \<longleftrightarrow>
     (\<forall>rn. world_ok rn \<longrightarrow>
        world_ok (k rn) \<and> (\<forall>h. upgrades rn h \<longrightarrow> upgrades (k rn) h) \<and> (\<forall>f. buried f rn \<longrightarrow> buried f (k rn)))"

lemma buried_touches:
  assumes "touches g rn rn'" and "f \<noteq> g" and "buried f rn"
  shows "buried f rn'"
proof -
  from assms(3) have up: "upgrades rn f" by (simp add: buried_def life_inv_def)
  with assms(1,2) have v: "fiber_view f rn' = fiber_view f rn" "upgrades rn' f" "history f rn' = history f rn" "claimed rn' f = claimed rn f"
    by (simp_all add: touches_def)
  from abides_core [OF up v(1-3)] have a: "abides f rn rn'" .
  from assms(3) abides_life [OF a] abides_fields(5) [OF a] v(4) show ?thesis by (simp add: buried_def)
qed

lemma world_touches:
  assumes "touches g rn rn'" and "upgrades rn g" and "world_ok rn"
  shows "world_ok rn'"
proof -
  have "g < rn_next rn" using assms(2,3) by (meson not_less world_ok_def)
  with assms(1,3) show ?thesis by (auto simp: touches_def world_ok_def)
qed

lemma holds_quiet:
  assumes h: "holds A T rn" and q: "\<And>g. touches g rn rn'"
  shows "holds A T rn'"
proof -
  have c: "claimed rn' h = claimed rn h" "history h rn' = history h rn" for h using q [of "Suc h"] by (simp_all add: touches_def)
  have "world_ok rn'" using h q [of 0] by (simp add: holds_def world_ok_def c touches_def)
  moreover have "buried f rn'" if "f \<in> A" for f by (rule buried_touches [OF q [of "Suc f"]]) (use h that in \<open>simp_all add: holds_def\<close>)
  ultimately show ?thesis using h q [of 0] by (simp add: holds_def touches_def)
qed

lemma holds_touches:
  assumes h: "holds A {g} rn" and t: "touches g rn rn'"
  shows "holds A {g} rn'"
proof -
  have up: "upgrades rn g" "g \<notin> A" and w: "world_ok rn" using h by (simp_all add: holds_def)
  have "buried f rn'" if "f \<in> A" for f
    by (rule buried_touches [OF t]) (use h that up in \<open>auto simp: holds_def\<close>)
  with world_touches [OF t up(1) w] up t show ?thesis by (simp add: holds_def touches_def)
qed

lemma holds_benign: "holds A T rn \<Longrightarrow> benign k \<Longrightarrow> holds A T (k rn)"
  by (auto simp: holds_def benign_def)

section \<open>One Fiber worked on\<close>

text \<open>
  \<open>P\<close> is a fact about the world that no operation on \<open>g\<close> alone, no turn of another task and no
  user code of \<open>g\<close> breaks: then creating, settling and disposing \<open>g\<close> keeps it.
\<close>

locale worked_world =
  fixes env :: lifecycle_env and turns :: "(runtime \<Rightarrow> runtime) set" and g :: fid and P :: "runtime \<Rightarrow> bool"
  assumes P_touches: "P rn \<Longrightarrow> touches g rn rn' \<Longrightarrow> P rn'"
    and P_work: "k \<in> turns \<Longrightarrow> P rn \<Longrightarrow> P (k rn)"
    and P_apply: "P rn \<Longrightarrow> P (snd (le_apply env g plugin cx rn))"
    and P_cleanup: "P rn \<Longrightarrow> P (snd (le_cleanup env g c rn))"

sublocale worked_world \<subseteq> waiting_world turns P
proof
  show "P (put_slot d k rn)" if "P rn" for d k rn by (rule P_touches [OF that]) simp
  show "P (k rn)" if "k \<in> turns" "P rn" for k rn by (rule P_work [OF that])
  show "P rn1" if "P rn" "root_dependents es rn = (ds, rn1)" for rn es ds rn1
    by (rule P_touches [OF that(1) touches_dependents [OF that(2)]])
qed

context worked_world
begin

lemma keep_run_claimed: "P rn \<Longrightarrow> P (snd (run_claimed env g c rn))"
  using P_touches [OF _ touches_withdraw] P_cleanup
  by (auto simp: run_claimed_def split: cleanup_run.split)

lemma keep_drain_tokens: "P rn \<Longrightarrow> P (snd (drain_tokens env g ts rn))"
proof (induction ts arbitrary: rn)
  case (Cons t ts)
  obtain c fb where r: "remove_disposable t (fiber_at rn g) = (c, fb)" by force
  have h: "P (update_fiber g (\<lambda>_. fb) rn)" by (rule P_touches [OF Cons.prems]) simp
  show ?case
  proof (cases c)
    case None
    with Cons.IH [OF h] r show ?thesis by simp
  next
    case (Some cl)
    obtain res rn1 where c: "run_claimed env g cl (update_fiber g (\<lambda>_. fb) rn) = (res, rn1)" by force
    have "P rn1" using keep_run_claimed [OF h, of cl] c by simp
    with Cons.IH [of rn1] r Some c show ?thesis by (simp add: case_prod_beta)
  qed
qed simp

lemma keep_update: "P rn \<Longrightarrow> P (update_fiber g k rn)"
  by (erule P_touches) simp

lemma keep_slot: "P rn \<Longrightarrow> P (put_slot d k rn)"
  by (erule P_touches) simp

lemma keep_transition: "P rn \<Longrightarrow> P (transition g s rn)"
  by (erule P_touches) simp

lemma keep_release: "P rn \<Longrightarrow> P (release_resident g rn)"
  by (erule P_touches) simp

lemma keep_drain: "P rn \<Longrightarrow> P (drain env g rn)"
  by (simp add: drain_def Let_def keep_update keep_drain_tokens)

lemma keep_settle_unload: "P rn \<Longrightarrow> P (settle_unload env g rn)"
  by (simp add: settle_unload_def keep_drain keep_transition split: fiber_state.split)

lemma keep_settle_apply:
  assumes "P rn"
  shows "P (settle_apply env g plugin scope rn)"
proof -
  let ?rn1 = "transition g Loading (update_fiber g (set_replacing False) rn)"
  obtain outcome rn2 where a: "le_apply env g plugin (with_fiber g scope) ?rn1 = (outcome, rn2)" by force
  have "P ?rn1" by (simp add: assms keep_update keep_transition)
  from P_apply [OF this, of plugin "with_fiber g scope"] a have "P rn2" by simp
  then show ?thesis
    by (auto simp: settle_apply_def Let_def a settle_failed_def keep_update keep_transition keep_drain
        split: completion.split sum.split)
qed

lemma keep_settle_once: "P rn \<Longrightarrow> settle_once env g target owns rn = Some rn' \<Longrightarrow> P rn'"
  by (auto simp: settle_once_def Let_def keep_settle_unload keep_settle_apply keep_update keep_transition
      split: if_splits sum.splits prod.splits)

lemma keep_teardown: "P rn \<Longrightarrow> P (teardown_body env g rn)"
  by (simp add: teardown_body_def Let_def keep_update keep_transition keep_drain P_touches [OF _ touches_unregister])

lemma keep_creation_teardown: "P rn \<Longrightarrow> P (creation_teardown env g rn)"
  by (simp add: creation_teardown_def keep_update keep_release keep_teardown)

lemma keep_complete: "P rn \<Longrightarrow> P (complete_claimed_dispose env g rn)"
  by (simp add: complete_claimed_dispose_def keep_update keep_release keep_teardown)

lemma keep_dispose: "P rn \<Longrightarrow> P (snd (dispose_claimed env g rn))"
  by (simp add: dispose_claimed_def keep_update keep_complete split: prod.split bool.split)

lemma run_dispose:
  assumes "P (snd w)" and "allowed turns N (fst w)"
  shows "run_keeps turns N P (fiber_dispose env g w)"
proof -
  obtain sch rn where w: "w = (sch, rn)" by force
  have h: "P rn" "allowed turns N sch" using assms w by simp_all
  show ?thesis
  proof (cases "claim_loop g sch rn")
    case (Inr a)
    obtain sch1 rn1 where a: "claim_loop g sch rn = Inr ((), sch1, rn1)" using Inr by (cases a) auto
    from run_claim [OF h, of g] have h1: "P rn1" "allowed turns N sch1" unfolding a by (auto dest: keepsD)
    obtain owner rn2 where d: "dispose_claimed env g rn1 = (owner, rn2)" by force
    have h2: "P rn2" using keep_dispose [OF h1(1)] d by simp
    with h h1 a d run_wait_dispose [OF h2 h1(2), of g] show ?thesis
      unfolding w fiber_dispose_def by (cases owner) (simp_all add: keepsI)
  qed (use w h in \<open>simp add: fiber_dispose_def keepsI\<close>)
qed

section \<open>Creation\<close>

lemma run_initial_loop: "P (snd w) \<Longrightarrow> allowed turns N (fst w) \<Longrightarrow> run_keeps turns N P (initial_loop n env g w)"
proof (induction n arbitrary: w)
  case (Suc n)
  obtain sch rn where w: "w = (sch, rn)" by force
  have h: "P rn" "allowed turns N sch" using Suc.prems w by simp_all
  have go: "run_keeps turns N P (case exit_recheck g target revision (sch, rn2) of
       Inl stop \<Rightarrow> Inl stop | Inr (True, w) \<Rightarrow> initial_loop n env g w | Inr (False, w) \<Rightarrow> Inr (outcome, w))"
    if "P rn2" for target revision rn2 outcome
  proof (cases "exit_recheck g target revision (sch, rn2)")
    case (Inr a)
    obtain b sch3 rn3 where a: "exit_recheck g target revision (sch, rn2) = Inr (b, sch3, rn3)" using Inr by (cases a) auto
    from run_exit [of "(sch, rn2)" N g target revision] that h(2) have "P rn3" "allowed turns N sch3"
      unfolding a by (auto dest: keepsD)
    with Suc.IH [of "(sch3, rn3)"] a show ?thesis by (cases b) (simp_all add: keepsI)
  qed simp
  show ?case
  proof (cases "compute_target (fiber_at rn g) rn")
    case (Some target)
    show ?thesis
    proof (cases "settle_once env g target True rn")
      case (Some rn1)
      have h1: "P rn1" by (rule keep_settle_once [OF h(1) Some])
      have h2: "P (put_slot g k rn1)" for k by (rule keep_slot [OF h1])
      obtain failure rn3 where p: "parked_failure g (put_slot g (record_target target) rn1) = (failure, rn3)" by force
      then have "rn3 = update_fiber g (\<lambda>_. snd (take_error (fiber_at (put_slot g (record_target target) rn1) g)))
          (put_slot g (record_target target) rn1)"
        by (auto simp: parked_failure_def split: prod.splits)
      then have "P (creation_teardown env g rn3)" by (simp add: keep_creation_teardown keep_update h1)
      with Some \<open>compute_target _ _ = Some target\<close> go [OF h2] h(2) p show ?thesis
        unfolding w by (simp add: Let_def keepsI)
    qed (use w Some in simp)
  qed (use w in simp)
qed simp

lemma run_initial_pass:
  assumes "P (snd w)" and "allowed turns N (fst w)"
  shows "run_keeps turns N P (initial_spawn_pass n env g w)"
proof -
  obtain sch rn where w: "w = (sch, rn)" by force
  have h: "P rn" "allowed turns N sch" using assms w by simp_all
  show ?thesis
  proof (cases "claim_loop g sch rn")
    case (Inr a)
    obtain sch1 rn1 where a: "claim_loop g sch rn = Inr ((), sch1, rn1)" using Inr by (cases a) auto
    from run_claim [OF h, of g] have h1: "P rn1" "allowed turns N sch1" unfolding a by (auto dest: keepsD)
    show ?thesis
    proof (cases "is_alive (fiber_at rn1 g)")
      case True
      let ?w = "(sch1, put_slot g (set_creation_owned True) rn1)"
      note l = run_initial_loop [of ?w N n, simplified, OF keep_slot [OF h1(1)] h1(2)]
      show ?thesis
      proof (cases "initial_loop n env g ?w")
        case (Inr b)
        obtain outcome sch2 rn2 where b: "initial_loop n env g ?w = Inr (outcome, sch2, rn2)" using Inr by (cases b) auto
        from l have h2: "P rn2" "allowed turns N sch2" unfolding b by (auto dest: keepsD)
        obtain sch3 rn3 where e: "interfere (sch2, rn2) = (sch3, rn3)" by force
        note h3 = P_interfere [OF h2 e]
        show ?thesis using w a True b e h3 by (simp add: initial_spawn_pass_def Let_def keepsI keep_slot)
      qed (use w a True in \<open>simp add: initial_spawn_pass_def\<close>)
    next
      case False
      with w a h1 show ?thesis by (simp add: initial_spawn_pass_def keepsI keep_slot keep_release)
    qed
  qed (use w in \<open>simp add: initial_spawn_pass_def\<close>)
qed

lemma run_handoff:
  assumes "P rn" and "allowed turns N sch"
  shows "run_keeps turns N P (spawn_handoff g outcome (sch, rn))"
proof (cases "claim_loop g sch rn")
  case (Inl stop)
  with assms show ?thesis by (auto simp: spawn_handoff_def keepsI split: initial_outcome.split)
next
  case (Inr a)
  obtain sch1 rn1 where a: "claim_loop g sch rn = Inr ((), sch1, rn1)" using Inr by (cases a) auto
  from run_claim [OF assms, of g] have "P rn1" "allowed turns N sch1" unfolding a by (auto dest: keepsD)
  with a assms show ?thesis
    by (auto simp: spawn_handoff_def Let_def keepsI keep_slot keep_update keep_release split: initial_outcome.split)
qed

text \<open>From the commit of a creation to its answer.\<close>

lemma run_attempt:
  assumes "P rn" and "allowed turns N sch"
  shows "run_keeps turns N P (case initial_spawn_pass n env g (interfere (sch, rn)) of
      Inl stop \<Rightarrow> Inl stop | Inr (outcome, w) \<Rightarrow> spawn_handoff g outcome w)"
proof -
  obtain sch2 rn2 where e: "interfere (sch, rn) = (sch2, rn2)" by force
  note i = P_interfere [OF assms e]
  have p: "run_keeps turns N P (initial_spawn_pass n env g (sch2, rn2))" by (rule run_initial_pass) (use i in simp_all)
  show ?thesis
  proof (cases "initial_spawn_pass n env g (sch2, rn2)")
    case (Inl stop)
    with e show ?thesis by simp
  next
    case (Inr a)
    obtain outcome sch3 rn3 where a: "initial_spawn_pass n env g (sch2, rn2) = Inr (outcome, sch3, rn3)" using Inr by (cases a) auto
    from p have "P rn3" "allowed turns N sch3" unfolding a by (auto dest: keepsD)
    with run_handoff [of rn3 N sch3 outcome] e a show ?thesis by simp
  qed
qed

end

section \<open>Open worlds\<close>

text \<open>
  What the replacement asks of user code and of the other tasks: the laws of an open Fiber for
  every Fiber, and that nobody deallocates, reuses an identity or revives a buried Fiber.
\<close>

locale open_world =
  fixes env :: lifecycle_env and turns :: "(runtime \<Rightarrow> runtime) set"
  assumes each_fiber: "open_turns env g turns"
    and turn_benign: "k \<in> turns \<Longrightarrow> benign k"
    and apply_benign: "benign (\<lambda>rn. snd (le_apply env g plugin cx rn))"
    and cleanup_benign: "benign (\<lambda>rn. snd (le_cleanup env g c rn))"

sublocale open_world \<subseteq> held: waiting_world turns "holds A T" for A T
proof
  show "holds A T (put_slot d k rn)" if "holds A T rn" for d k rn by (rule holds_quiet [OF that]) simp
  show "holds A T (k rn)" if "k \<in> turns" "holds A T rn" for k rn by (rule holds_benign [OF that(2) turn_benign [OF that(1)]])
  show "holds A T rn1" if "holds A T rn" "root_dependents es rn = (ds, rn1)" for rn es ds rn1
    by (rule holds_quiet [OF that(1) touches_dependents [OF that(2)]])
qed

sublocale open_world \<subseteq> kept: worked_world env turns g "holds A {g}" for g A
  by unfold_locales (auto intro: holds_touches holds_benign turn_benign apply_benign cleanup_benign)

end
