(* ===== verification/Era_Properties.thy ===== *)
theory Era_Properties
  imports Era_Laws
begin

text \<open>
  What an era replacement promises: refusals before the claim change nothing, one claim per
  source, and after the claim the source is gone for good whatever becomes of the successor.
\<close>

section \<open>The successor\<close>

lemma commit_world:
  assumes c: "spawn_commit cx prepared seals rn = Some (g, seals', rn1)" and ok: "world_ok rn" and b: "\<forall>f \<in> A. buried f rn"
  shows "holds A {g} rn1" and "g = rn_next rn" and "upgrades rn h \<Longrightarrow> abides h rn rn1 \<and> claimed rn1 h = claimed rn h"
proof -
  let ?key = "TypedKey (pp_contract prepared)"
  obtain registry where r: "attach_fiber ?key (rn_next rn) (rn_registry rn) = Some registry"
    using c by (cases "attach_fiber ?key (rn_next rn) (rn_registry rn)") (simp_all add: spawn_commit_def Let_def)
  have x: "rn_heap rn1 = (rn_heap rn)(rn_next rn \<mapsto> fiber_at rn1 (rn_next rn))" "rn_next rn1 = rn_next rn + 4" "rn_registry rn1 = registry"
    "rn_observed rn1 = rn_observed rn @ [FiberResidencyAdded (rn_next rn)]" "g = rn_next rn"
    using c r by (auto simp: spawn_commit_def Let_def spawn_state_install_def set_creation_pending_def fiber_new_with_edges_def observe_def fiber_at_def)
  show "g = rn_next rn" by (rule x(5))
  have wf: "registry_wf (rn_registry rn)" using ok by (simp add: world_ok_def)
  obtain k where k: "map_of (rg_claims registry) = (map_of (rg_claims (rn_registry rn)))(rn_next rn \<mapsto> k)"
    by (rule attach_fiber_effect [OF wf r]) blast
  have h: "history h rn1 = history h rn" for h
    by (simp add: history_def x(4) map_filter_append List.map_filter_simps)
  have up: "upgrades rn1 h \<longleftrightarrow> h = rn_next rn \<or> upgrades rn h" for h by (simp add: upgrades_def x(1))
  have cl: "claimed rn1 h = (if h = rn_next rn then Some k else claimed rn h)" for h by (simp add: claimed_def x(3) k)
  have ok1: "world_ok rn1"
    unfolding world_ok_def x(2,3) h up cl
  proof (intro conjI allI impI)
    show "registry_wf registry" by (rule attach_fiber_wf [OF wf r])
    fix i assume "rn_next rn + 4 \<le> i"
    then have i: "rn_next rn \<le> i" "i \<noteq> rn_next rn" by simp_all
    with ok have "\<not> upgrades rn i" "claimed rn i = None" "history i rn = []" by (simp_all add: world_ok_def)
    with i show "\<not> (i = rn_next rn \<or> upgrades rn i)" "(if i = rn_next rn then Some k else claimed rn i) = None" "history i rn = []"
      by simp_all
  qed
  have beside: "abides f rn rn1 \<and> claimed rn1 f = claimed rn f \<and> f \<noteq> g" if u: "upgrades rn f" for f
  proof -
    have ne: "f \<noteq> rn_next rn" using ok u by (auto simp: world_ok_def)
    have "rn_heap rn1 f = rn_heap rn f" using ne by (subst x(1)) simp
    then have same: "fiber_at rn1 f = fiber_at rn f" by (simp add: fiber_at_def)
    have "abides f rn rn1" by (rule abides_core [OF u]) (use u same in \<open>simp_all add: fiber_view_def up h\<close>)
    with ne x(5) show ?thesis by (simp add: cl)
  qed
  then show "upgrades rn h \<Longrightarrow> abides h rn rn1 \<and> claimed rn1 h = claimed rn h" by blast
  have "buried f rn1 \<and> f \<noteq> g" if "f \<in> A" for f
  proof -
    have bf: "buried f rn" using b that by blast
    then have "upgrades rn f" by (simp add: buried_def life_inv_def)
    with bf beside [of f] abides_life [of f rn rn1] abides_fields(5) [of f rn rn1] show ?thesis by (simp add: buried_def)
  qed
  with ok1 up x(5) show "holds A {g} rn1" by (auto simp: holds_def)
qed

lemma world_fresh:
  assumes "world_ok rn"
  shows "registry_wf (rn_registry rn)" and "rn_next rn \<notin> set (snapshot_fibers (rn_registry rn))" and "history (rn_next rn) rn = []"
  using assms registry_wfD(2) [of "rn_registry rn" "rn_next rn"] by (auto simp: world_ok_def snapshot_fibers_def claimed_def)

context open_world
begin

lemma buried_ended: "open_turns.ended f rn = buried f rn"
  using open_turns.ended_def [OF each_fiber] by (simp add: buried_def claimed_def)

lemma attempt_created:
  assumes h: "holds A {} rn" and ts: "allowed turns N sch" and n: "8 * N + (4 * n + 2) < 2 ^ 63"
    and admitted: "gated \<longrightarrow> assert_can_register (fiber_at rn (cx_fiber cx)) = Inr ()"
    and run: "spawn_prepared_inner n env cx prepared gated seals (sch, rn) = (seals', r)"
  shows "case r of Inl stop \<Rightarrow> stop \<in> {StillWaiting, OutOfRounds}
    | Inr (result, sch', rn') \<Rightarrow>
        spawn_answer env (rn_next rn) result rn' \<and> holds A {rn_next rn} rn' \<and> allowed turns N sch'"
proof -
  have ok: "world_ok rn" and b: "\<forall>f \<in> A. buried f rn" using h by (simp_all add: holds_def)
  have sub: "set sch \<subseteq> turns" "8 * length sch + (4 * n + 2) < 2 ^ 63" using ts n by (simp_all add: allowed_def)
  note answer = spawn_admitted [OF each_fiber sub world_fresh [OF ok] admitted, of prepared seals]
  have gate: "\<not> (gated \<and> assert_can_register (fiber_at rn (cx_fiber cx)) \<noteq> Inr ())" using admitted by blast
  have keep: "run_keeps turns N (holds A {rn_next rn}) r"
  proof (cases "spawn_commit cx prepared seals rn")
    case None
    with run gate show ?thesis by (auto simp: spawn_prepared_inner_def)
  next
    case (Some c)
    obtain g sl rn1 where c: "spawn_commit cx prepared seals rn = Some (g, sl, rn1)" using Some by (cases c) auto
    note w = commit_world [OF c ok b]
    have "r = (case initial_spawn_pass n env g (interfere (sch, rn1)) of
        Inl stop \<Rightarrow> Inl stop | Inr (outcome, w) \<Rightarrow> spawn_handoff g outcome w)"
      using run gate c by (simp add: spawn_prepared_inner_def del: de_Morgan_conj)
    with kept.run_attempt [OF w(1) ts, of n] w(2) show ?thesis by simp
  qed
  with answer run show ?thesis
    by (cases r) (auto simp: run_keeps_def)
qed

lemma successor_created:
  assumes "holds A {} rn" and "allowed turns N sch" and "8 * N + (4 * n + 2) < 2 ^ 63"
    and "spawn_prepared_era_successor n env cx prepared seals (sch, rn) = (seals', r)"
  shows "case r of Inl stop \<Rightarrow> stop \<in> {StillWaiting, OutOfRounds}
    | Inr (result, sch', rn') \<Rightarrow>
        spawn_answer env (rn_next rn) result rn' \<and> holds A {rn_next rn} rn' \<and> allowed turns N sch'"
  using attempt_created [OF assms(1-3), of False cx prepared seals seals' r] assms(4) by (simp add: spawn_prepared_era_successor_def)

end

section \<open>The claim\<close>

lemma dependents_core:
  assumes "root_dependents es rn = (ds, rn1)"
  shows "rn_heap rn1 = rn_heap rn" and "rn_observed rn1 = rn_observed rn"
  using assms by (auto simp: root_dependents_def split: prod.splits)

lemma life_same_heap:
  assumes "rn_heap rn1 = rn_heap rn" and "rn_observed rn1 = rn_observed rn" and "life_inv f rn"
  shows "life_inv f rn1"
proof -
  from assms(3) have up: "upgrades rn f" by (simp add: life_inv_def)
  show ?thesis by (rule abides_life [OF abides_heap [OF up assms(1,2)] assms(3)])
qed

text \<open>What the section under the journal lock leaves of the source.\<close>

lemma commit_effect:
  assumes c: "era_commit ee f recipe rn = (result, rn')" and life: "life_inv f rn"
  shows "life_inv f rn'" and "touches f rn rn'" and "room k f rn \<Longrightarrow> room k f rn'"
    and "result = Inr claim \<Longrightarrow> fb_alive (fiber_at rn' f) = fb_alive (fiber_at rn f) \<and> slot_of f rn' = slot_of f rn"
proof -
  obtain ds rn1 where d: "root_dependents (owned_edges f rn) rn = (ds, rn1)" by force
  note core = dependents_core [OF d]
  have at: "fiber_at rn1 f = fiber_at rn f" by (simp add: fiber_at_def core)
  have life1: "life_inv f rn1" by (rule life_same_heap [OF core life])
  have up: "upgrades rn1 f" using life1 by (simp add: life_inv_def)
  have t1: "touches f rn rn1" by (rule touches_dependents [OF d])
  let ?x = "snd (claim_terminal (fiber_at rn1 f))"
  have x: "?x = mark_terminal (fiber_at rn1 f)" by (simp add: claim_terminal_def mark_terminal_def)
  let ?rn2 = "update_fiber f (\<lambda>_. ?x) rn1"
  have life2: "life_inv f ?rn2" unfolding x by (rule life_keep [OF up life1]) simp_all
  have cases: "rn' = put_slot f abandon rn1 \<and> (\<exists>e. result = Inl e) \<or> rn' = put_slot f abandon ?rn2 \<and> result = Inl EraClosed \<or>
      rn' = ?rn2"
    using c d by (auto simp: era_commit_def Let_def split: option.splits bool.splits prod.splits)
  show "life_inv f rn'" using cases life_put [OF life1, of abandon] life_put [OF life2, of abandon] life2 by auto
  show "touches f rn rn'"
    using cases touches_trans [OF t1 touches_slot] touches_trans [OF t1 touches_update]
      touches_trans [OF touches_trans [OF t1 touches_update] touches_slot] by auto
  show "room k f rn'" if "room k f rn"
    using cases that up at x by (auto simp: update_fiber_same)
  show "fb_alive (fiber_at rn' f) = fb_alive (fiber_at rn f) \<and> slot_of f rn' = slot_of f rn" if "result = Inr claim"
    using cases that up at x by (auto simp: update_fiber_same slot_of_def mark_terminal_def)
qed

context open_world
begin

lemma claim_source_effect:
  assumes run: "era_claim_source ee f change (sch, rn) = Inr (result, sch', rn')"
    and life: "life_inv f rn" and ok: "world_ok rn" and al: "allowed turns N sch" and rm: "room (8 * length sch + 2) f rn"
  shows "life_inv f rn'" and "world_ok rn'" and "allowed turns N sch'"
    and "result = Inr claim \<Longrightarrow> fb_alive (fiber_at rn' f) \<and> \<not> is_idle (slot_of f rn') \<and> room 2 f rn'"
proof -
  have ts: "set sch \<subseteq> turns" using al by (simp add: allowed_def)
  have h: "holds {} {f} rn" using ok life by (simp add: holds_def life_inv_def)
  let ?goal = "life_inv f rn' \<and> world_ok rn' \<and> allowed turns N sch' \<and>
    (result = Inr claim \<longrightarrow> fb_alive (fiber_at rn' f) \<and> \<not> is_idle (slot_of f rn') \<and> room 2 f rn')"
  consider (early) e where "result = Inl e" "sch' = sch" "rn' = rn"
    | (dead) sch1 rn1 where "claim_loop f sch rn = Inr ((), sch1, rn1)" "result = Inl EraClosed" "sch' = sch1" "rn' = put_slot f abandon rn1"
    | (late) recipe sch1 rn1 rn2 where "claim_loop f sch rn = Inr ((), sch1, rn1)" "fb_alive (fiber_at rn1 f)"
        "interfere (sch1, rn1) = (sch', rn2)" "era_commit ee f recipe rn2 = (result, rn')"
    using run by (auto simp: era_claim_source_def Let_def is_alive_def split: sum.splits if_splits prod.splits)
  then have ?goal
  proof cases
    case early
    with life ok al show ?thesis by simp
  next
    case dead
    from open_turns.claim_loop_life [OF each_fiber ts life] dead(1)
    have c: "life_inv f rn1" "set sch1 \<subseteq> turns" "length sch1 \<le> length sch" by auto
    have h1: "holds {} {f} rn1" using held.run_claim [OF h al, of f] by (simp add: dead(1) run_keeps_def)
    from dead c life_put [OF c(1), of abandon] kept.keep_slot [OF h1, of f abandon] al show ?thesis by (simp add: holds_def allowed_def)
  next
    case late
    from open_turns.claim_loop_life [OF each_fiber ts life] late(1)
    have c: "life_inv f rn1" "set sch1 \<subseteq> turns" "\<forall>k. room (8 * length sch + k) f rn \<longrightarrow> room (8 * length sch1 + k) f rn1"
      "length sch1 \<le> length sch" "\<not> is_idle (slot_of f rn1)" by auto
    have h1: "holds {} {f} rn1" using held.run_claim [OF h al, of f] by (simp add: late(1) run_keeps_def)
    have a1: "allowed turns N sch1" using c(2,4) al by (simp add: allowed_def)
    note e = late(3) and co = late(4)
    have up: "upgrades rn1 f" using c(1) by (simp add: life_inv_def)
    note i = foreign_turns.interfere_held [OF open_turns.axioms(1) [OF each_fiber] e c(2) up c(5)]
    have l2: "life_inv f rn2" by (rule abides_life [OF i(1) c(1)])
    note h2 = held.P_interfere [OF h1 a1 e]
    note k = commit_effect [OF co l2]
    have "world_ok rn'" using holds_touches [OF h2(1) k(2)] by (simp add: holds_def)
    moreover have "fb_alive (fiber_at rn2 f)" using abides_fields(5) [OF i(1)] late(2) by simp
    moreover have "\<not> is_idle (slot_of f rn2)"
        using i(3) c(5) by (auto simp: is_idle_def)
    moreover have "room 2 f rn2"
      proof -
        have "room (8 * length sch1 + 2) f rn1" using c(3) rm by blast
        then have "room (8 * length sch1 + 2) f rn2" by (simp add: abides_room [OF i(1)])
        then show ?thesis by (rule publication_room_mono) simp
      qed
    ultimately show ?thesis using k h2(2) by auto
  qed
  then show "life_inv f rn'" "world_ok rn'" "allowed turns N sch'"
    "result = Inr claim \<Longrightarrow> fb_alive (fiber_at rn' f) \<and> \<not> is_idle (slot_of f rn') \<and> room 2 f rn'" by blast+
qed

end

section \<open>The transaction\<close>

text \<open>What becomes of the successor.\<close>

definition successor_fate :: "fid \<Rightarrow> runtime \<Rightarrow> era_owner_failure + fid \<Rightarrow> runtime \<Rightarrow> bool" where
  "successor_fate f rn result rn' \<longleftrightarrow>
     (case result of
        Inr g \<Rightarrow> g \<noteq> f \<and> \<not> upgrades rn g \<and> life_inv g rn'
      | Inl (EraTransaction e) \<Rightarrow> \<exists>failure g. e = EraIncomplete failure \<and> g \<noteq> f \<and> \<not> upgrades rn g \<and> buried g rn'
      | Inl (InputDropPanic _) \<Rightarrow> True)"

sublocale open_world \<subseteq> living: waiting_world turns "\<lambda>rn. holds A T rn \<and> life_inv g rn" for A T g
proof
  show "holds A T (put_slot d k rn) \<and> life_inv g (put_slot d k rn)" if "holds A T rn \<and> life_inv g rn" for d k rn
  proof (cases "d = g")
    case True
    with that held.P_slot [of A T rn d k] life_put [of g rn k] show ?thesis by blast
  next
    case False
    from that have up: "upgrades rn g" by (simp add: life_inv_def)
    have "abides g rn (put_slot d k rn)"
      by (rule abides_core [OF up]) (use up False in \<open>simp_all add: fiber_view_def update_other\<close>)
    with that held.P_slot [of A T rn d k] abides_life [of g rn "put_slot d k rn"] show ?thesis by blast
  qed
  show "holds A T (k rn) \<and> life_inv g (k rn)" if "k \<in> turns" "holds A T rn \<and> life_inv g rn" for k rn
    using that held.P_turn open_turns.turn_life [OF each_fiber that(1)] by blast
  show "holds A T rn1 \<and> life_inv g rn1" if "holds A T rn \<and> life_inv g rn" "root_dependents es rn = (ds, rn1)" for rn es ds rn1
    using that held.P_dependents life_same_heap [OF dependents_core [OF that(2)]] by blast
qed

context open_world
begin

lemma source_disposed:
  assumes life: "life_inv f rn" and alive: "fb_alive (fiber_at rn f)" and ok: "world_ok rn" and rm: "room 2 f rn"
  shows "holds {f} {} (complete_claimed_dispose env f rn)"
proof -
  have env: "slot_environment env f" using each_fiber by (simp add: open_turns_def foreign_turns_def)
  have st: "settled f rn" by (rule life_settled [OF life alive])
  have up: "upgrades rn f" "fb_spawn (fiber_at rn f) \<noteq> None" "on_path f rn" using life by (simp_all add: life_inv_def)
  have open_state: "current_state (fiber_at rn f) \<noteq> Disposed" using st by (auto simp: settled_def Let_def)
  let ?slot = "update_fiber f (on_fiber_slot abandon)"
  let ?rn' = "complete_claimed_dispose env f rn"
  note e = ending_effect [OF env up(1) rm up(2,3) open_state, of ?slot, simplified, folded complete_claimed_dispose_def]
  have "holds {} {f} ?rn'" by (rule kept.keep_complete) (use ok up in \<open>simp add: holds_def\<close>)
  moreover have "life_inv f ?rn'" "\<not> fb_alive (fiber_at ?rn' f)"
    using \<open>holds {} {f} ?rn'\<close> e(1,2,6) up(2) by (simp_all add: life_inv_def disposed_for_good_def holds_def)
  moreover have "claimed ?rn' f = None"
    by (simp add: complete_claimed_dispose_def claimed_def update_fiber_rest release_resident_claims)
  ultimately show ?thesis by (simp add: holds_def buried_def)
qed

lemma successor_answers:
  assumes h: "holds {f} {} rn" and ts: "allowed turns N sch" and n: "8 * N + (4 * n + 2) < 2 ^ 63"
    and run: "era_successor n env ee f claim change seals (sch, rn) = (seals', Some (Inr (result, sch', rn')))"
  shows "holds {f} {} rn' \<and> allowed turns N sch' \<and> successor_fate f rn result rn'"
proof -
  let ?recipe = "ec_recipe claim"
  obtain contract where key: "er_plugin_key ?recipe = TypedKey contract"
    using run by (cases "er_plugin_key ?recipe") (simp_all add: era_successor_def)
  obtain r p where seal: "map_option (era_successor_seal ee change) (seals (er_plugin ?recipe)) = Some (Some r, p)"
  proof (cases "map_option (era_successor_seal ee change) (seals (er_plugin ?recipe))")
    case (Some q)
    with run key that show ?thesis by (cases q; cases "fst q") (auto simp: era_successor_def Let_def)
  qed (use run key in \<open>simp add: era_successor_def Let_def\<close>)
  show ?thesis
  proof (cases r)
    case (Inl payload)
    obtain u where u: "converge_final ee (ec_edges claim) f None (sch, rn) = Some (Inr (u, sch', rn'))" "result = Inl (InputDropPanic payload)"
      using run key seal Inl by (auto simp: era_successor_def Let_def split: option.splits sum.splits)
    with held.run_converge_final [of "{f}" "{}" "(sch, rn)" N ee "ec_edges claim" f None] h ts show ?thesis
      by (simp add: run_keeps_def successor_fate_def)
  next
    case (Inr fresh)
    let ?prepared = "\<lparr>pp_plugin = fresh, pp_name = er_name ?recipe, pp_inject = er_inject ?recipe, pp_contract = contract\<rparr>"
    let ?spawn = "spawn_prepared_era_successor n env (er_spawning_ctx ?recipe) ?prepared (seals(er_plugin ?recipe \<mapsto> p)) (sch, rn)"
    obtain sl sp where s: "?spawn = (sl, sp)" by force
    note c = successor_created [OF h ts n s]
    let ?g = "rn_next rn"
    have new: "\<not> upgrades rn ?g" "?g \<noteq> f" using h by (auto simp: holds_def world_ok_def buried_def life_inv_def)
    show ?thesis
    proof (cases sp)
      case (Inl stop)
      with run key seal Inr s show ?thesis by (simp add: era_successor_def Let_def)
    next
      case (Inr a)
      obtain outcome sch1 rn1 where a: "sp = Inr (outcome, sch1, rn1)" using Inr by (cases a) auto
      from c a have c1: "spawn_answer env ?g outcome rn1" "holds {f} {?g} rn1" "allowed turns N sch1" by simp_all
      show ?thesis
      proof (cases outcome)
        case (Inl e)
        have dead: "buried ?g rn1"
          using c1(1) Inl by (simp add: spawn_answer_def buried_def disposed_for_good_def claimed_def)
        obtain u failure where u: "converge_final ee (ec_edges claim) f None (sch1, rn1) = Some (Inr (u, sch', rn'))"
            "result = Inl (EraTransaction (EraIncomplete failure))"
          using run key seal \<open>r = Inr fresh\<close> s a Inl by (auto simp: era_successor_def Let_def split: option.splits sum.splits)
        have h2: "holds {f, ?g} {} rn1" using c1(2) dead by (simp add: holds_def)
        from held.run_converge_final [of "{f, ?g}" "{}" "(sch1, rn1)" N ee "ec_edges claim" f None] u c1(3) h2 new show ?thesis
          by (auto simp: run_keeps_def successor_fate_def holds_def)
      next
        case (Inr h)
        have g: "h = ?g" "life_inv ?g rn1" using c1(1) Inr by (simp_all add: spawn_answer_def)
        obtain u where u: "converge_final ee (ec_edges claim) f (Some h) (sch1, rn1) = Some (Inr (u, sch', rn'))" "result = Inr h"
          using run key seal \<open>r = Inr fresh\<close> s a Inr by (auto simp: era_successor_def Let_def split: option.splits sum.splits)
        have "holds {f} {} rn1" using c1(2) by (simp add: holds_def)
        with living.run_converge_final [of "{f}" "{}" "(sch1, rn1)" ?g N ee "ec_edges claim" f "Some h"] u c1(3) g new show ?thesis
          by (simp add: run_keeps_def successor_fate_def)
      qed
    qed
  qed
qed

lemma cleanup_keeps:
  assumes h: "holds A {g} (snd w)" and ts: "allowed turns N (fst w)"
  shows "loop_keeps turns N (holds A {g}) (cleanup_undelivered_successor env ee es source g w)"
proof -
  obtain sch rn where e: "interfere w = (sch, rn)" by force
  note i = held.P_interfere [OF h ts, of sch rn, simplified, OF e]
  have d: "run_keeps turns N (holds A {g}) (fiber_dispose env g (sch, rn))" by (rule kept.run_dispose) (use i in simp_all)
  show ?thesis
  proof (cases "fiber_dispose env g (sch, rn)")
    case (Inl stop)
    with e show ?thesis by (simp add: cleanup_undelivered_successor_def Let_def)
  next
    case (Inr a)
    obtain sch1 rn1 where a: "fiber_dispose env g (sch, rn) = Inr ((), sch1, rn1)" using Inr by (cases a) auto
    from d have h1: "holds A {g} rn1" "allowed turns N sch1" unfolding a by (auto dest: keepsD)
    obtain sch2 rn2 where e2: "interfere (sch1, rn1) = (sch2, rn2)" by force
    note i2 = held.P_interfere [OF h1 e2]
    obtain ds rn3 where c: "root_dependents (es @ owned_edges g rn) rn2 = (ds, rn3)" by force
    from held.run_converge [of A "{g}" "(sch2, rn3)"] held.P_dependents [OF i2(1) c] i2(2) e a e2 c show ?thesis
      by (simp add: cleanup_undelivered_successor_def Let_def capture_dependents_def)
  qed
qed

lemma deliver_keeps:
  assumes run: "era_deliver env ee es f waiting result (sch, rn) = Some (Inr (reply, sch', rn'))"
    and h: "holds {f} {} rn" and ts: "allowed turns N sch" and fate: "successor_fate f rn0 result rn"
  shows "buried f rn'" and "waiting \<Longrightarrow> rn' = rn"
proof -
  consider (kept) "rn' = rn" | (cleaned) g u where "\<not> waiting" "result = Inr g"
      "cleanup_undelivered_successor env ee es f g (sch, rn) = Some (Inr (u, sch', rn'))"
    using run by (cases result; cases waiting)
      (auto simp: era_deliver_def era_guard_drop_def era_guard_disarm_def split: era_owner_failure.splits option.splits sum.splits)
  then have "buried f rn' \<and> (waiting \<longrightarrow> rn' = rn)"
  proof cases
    case kept
    with h show ?thesis by (simp add: holds_def)
  next
    case cleaned
    have "holds {f} {g} rn" using h fate cleaned(2) by (auto simp: holds_def successor_fate_def life_inv_def)
    from cleanup_keeps [of "{f}" g "(sch, rn)" N ee es f] this ts cleaned show ?thesis
      by (simp add: run_keeps_def holds_def)
  qed
  then show "buried f rn'" "waiting \<Longrightarrow> rn' = rn" by blast+
qed

lemma world_interfere:
  assumes "world_ok rn" and "allowed turns N sch" and "interfere (sch, rn) = (sch', rn')"
  shows "world_ok rn' \<and> allowed turns N sch'"
  using held.P_interfere [of "{}" "{}" rn N sch sch' rn'] assms by (simp add: holds_def)

lemma committed_answers:
  assumes run: "run_committed_replacement n env ee f claim change seals (sch, rn) = (seals', Some (Inr (result, sch', rn')))"
    and life: "life_inv f rn" and alive: "fb_alive (fiber_at rn f)" and ok: "world_ok rn" and rm: "room 2 f rn"
    and ts: "allowed turns N sch" and n: "8 * N + (4 * n + 2) < 2 ^ 63"
  shows "holds {f} {} rn' \<and> allowed turns N sch' \<and> (\<exists>rn1. successor_fate f rn1 result rn')"
proof -
  let ?rn1 = "complete_claimed_dispose env f rn"
  have h: "holds {f} {} ?rn1" by (rule source_disposed [OF life alive ok rm])
  obtain u sch1 rn1 where c: "converge (ee_owner ee) (ee_entry_att ee) (ec_dependents claim) (sch, ?rn1) = Some (Inr (u, sch1, rn1))"
    and s: "era_successor n env ee f claim change seals (sch1, rn1) = (seals', Some (Inr (result, sch', rn')))"
    using run by (auto simp: run_committed_replacement_def split: option.splits sum.splits prod.splits)
  from held.run_converge [of "{f}" "{}" "(sch, ?rn1)" N "ee_owner ee" "ee_entry_att ee" "ec_dependents claim"] h ts c
  have h1: "holds {f} {} rn1" "allowed turns N sch1" by (simp_all add: run_keeps_def)
  from successor_answers [OF h1 n s] show ?thesis by blast
qed

end

section \<open>The properties\<close>

text \<open>What a reply says of the source, and of the successor.\<close>

definition era_outcome :: "fid \<Rightarrow> bool \<Rightarrow> seals \<Rightarrow> era_reply \<Rightarrow> seals \<Rightarrow> runtime \<Rightarrow> bool" where
  "era_outcome f waiting seals reply seals' rn' \<longleftrightarrow>
     (case reply of
        EraReturned (Inr g) \<Rightarrow> waiting \<and> buried f rn' \<and> g \<noteq> f \<and> life_inv g rn'
      | EraReturned (Inl (EraIncomplete failure)) \<Rightarrow> waiting \<and> buried f rn' \<and> (\<exists>g. g \<noteq> f \<and> buried g rn')
      | EraReturned (Inl e) \<Rightarrow> seals' = seals \<and> life_inv f rn'
      | EraResumed payload \<Rightarrow> waiting \<and> buried f rn'
      | EraReported payload \<Rightarrow> \<not> waiting \<and> buried f rn'
      | EraUnheard \<Rightarrow> \<not> waiting \<and> buried f rn')"

lemma claim_refusal: "era_claim_source ee f change w = Inr (Inl e, w1) \<Longrightarrow> \<not> (\<exists>failure. e = EraIncomplete failure)"
  by (cases w) (auto simp: era_claim_source_def era_commit_def Let_def split: sum.splits if_splits prod.splits option.splits bool.splits)


section \<open>Before the claim\<close>

text \<open>What the caller's attribution refuses.\<close>

definition era_refused :: "era_env \<Rightarrow> runtime \<Rightarrow> fid \<Rightarrow> bool" where
  "era_refused ee rn d \<longleftrightarrow>
     refuse_recursion (ee_caller ee) d (fb_draining (fiber_at rn d)) OpEraSwap (ee_caller_att ee) \<noteq> Inr ()"

definition era_dependents :: "fid \<Rightarrow> runtime \<Rightarrow> fid list" where
  "era_dependents f rn = fst (root_dependents (owned_edges f rn) rn)"

text \<open>Only the source may differ, and beside it nothing but the dependency index was pruned.\<close>

definition only_source :: "fid \<Rightarrow> runtime \<Rightarrow> runtime \<Rightarrow> bool" where
  "only_source f rn rn' \<longleftrightarrow>
     (\<forall>h. h \<noteq> f \<longrightarrow> rn_heap rn' h = rn_heap rn h) \<and> rn_next rn' = rn_next rn \<and> rn_registry rn' = rn_registry rn \<and>
     rn_services rn' = rn_services rn \<and> rn_observed rn' = rn_observed rn \<and> rn_kicked rn' = rn_kicked rn"

lemma refused_dependent_iff:
  "refused_dependent ee f rn ds = None \<longleftrightarrow> (\<forall>d \<in> set ds. d = f \<or> \<not> era_refused ee rn d)"
proof (induction ds)
  case (Cons d ds)
  then show ?case
    by (cases "refuse_recursion (ee_caller ee) d (fb_draining (fiber_at rn d)) OpEraSwap (ee_caller_att ee)")
      (auto simp: era_refused_def)
qed simp

lemma slot_views:
  "alive_at (put_slot f k rn) = alive_at rn" "edges_at (put_slot f k rn) = edges_at rn" "upgrades (put_slot f k rn) = upgrades rn"
  "rn_deps (put_slot f k rn) = rn_deps rn" "rn_registry (put_slot f k rn) = rn_registry rn" "rn_services (put_slot f k rn) = rn_services rn"
  by (auto simp: fun_eq_iff alive_at_def edges_at_def update_fiber_def upgrades_def fiber_at_def on_fiber_slot_def is_alive_def split: option.split)

lemma slot_draining: "upgrades rn f \<Longrightarrow> fb_draining (fiber_at (put_slot f k rn) d) = fb_draining (fiber_at rn d)"
  by (cases "d = f") (simp_all add: update_fiber_same update_other on_fiber_slot_def)

text \<open>Past the first three checks: the claim of the slot and the section under the journal lock.\<close>

lemma era_claim_committed:
  assumes "upgrades rn f" and "is_idle (slot_of f rn)" and "\<not> era_refused ee rn f"
    and "is_alive (fiber_at rn f)" and "\<not> fb_disposing (fiber_at rn f)"
    and "spawn_state_contract (fb_spawn (fiber_at rn f)) = Some (pc_contract change)"
  shows "\<exists>result rn'. era_claim_source ee f change ([], rn) = Inr (result, [], rn') \<and> only_source f rn rn' \<and>
    (case result of
       Inl e \<Rightarrow>
         fiber_core (fiber_at rn' f) = fiber_core (fiber_at rn f) \<and> is_idle (slot_of f rn') \<and>
         (\<exists>r. e = EraRecursion r) \<and> (\<exists>d \<in> set (era_dependents f rn). d \<noteq> f \<and> era_refused ee rn d)
     | Inr claim \<Rightarrow>
         (\<forall>d \<in> set (era_dependents f rn). d = f \<or> \<not> era_refused ee rn d) \<and>
         fiber_core (fiber_at rn' f) = mark_terminal (fiber_core (fiber_at rn f)) \<and> \<not> is_idle (slot_of f rn') \<and>
         ec_edges claim = owned_edges f rn \<and> ec_dependents claim = filter (\<lambda>d. d \<noteq> f) (era_dependents f rn))"
proof -
  let ?x = "fiber_at rn f"
  note False = assms(3-6)
  obtain recipe where recipe: "spawn_state_era_recipe (fb_spawn ?x) = Inr recipe"
    using False by (auto simp: spawn_state_contract_def spawn_state_era_recipe_def split: option.splits)
  have free: "refuse_recursion (ee_caller ee) f (fb_draining ?x) OpEraSwap (ee_caller_att ee) = Inr ()"
    using False by (simp add: era_refused_def)
  let ?rn1 = "put_slot f (\<lambda>_. (slot_of f rn)\<lparr>sl_inertia := INERTIA_ACTIVE\<rparr>) rn"
  have claim: "claim_loop f [] rn = Inr ((), [], ?rn1)" using claim_idle [OF assms(2)] by simp
  obtain ds rn2 where d: "root_dependents (owned_edges f ?rn1) ?rn1 = (ds, rn2)" by force
  have ds: "ds = era_dependents f rn" "owned_edges f ?rn1 = owned_edges f rn"
    using d by (auto simp: era_dependents_def root_dependents_def owned_edges_def slots_owned_by_def slot_views split: prod.splits)
  have rn2: "rn2 = ?rn1\<lparr>rn_deps := rn_deps rn2\<rparr>" using d by (auto simp: root_dependents_def split: prod.splits)
  have up2: "upgrades rn2 f" and at2: "fiber_at rn2 d = fiber_at ?rn1 d" for d
    using assms(1) dependents_core(1) [OF d] by (simp_all add: upgrades_def fiber_at_def update_fiber_def)
  have refused: "era_refused ee rn2 d = era_refused ee rn d" for d by (simp add: era_refused_def at2 slot_draining assms(1))
  have commit: "era_claim_source ee f change ([], rn) = (case era_commit ee f recipe ?rn1 of (result, rn3) \<Rightarrow> Inr (result, [], rn3))"
    using False free recipe claim assms(1) by (simp add: era_claim_source_def Let_def is_alive_def)
  have x1: "fiber_at rn2 f = on_fiber_slot (\<lambda>_. (slot_of f rn)\<lparr>sl_inertia := INERTIA_ACTIVE\<rparr>) ?x"
    using assms(1) by (simp add: at2 update_fiber_same)
  have same: "only_source f rn (update_fiber f q rn2)" for q
    by (subst rn2) (simp add: only_source_def update_fiber_def)
  have terminal: "claim_terminal (fiber_at rn2 f) = (False, mark_terminal (fiber_at rn2 f))"
    using False x1 by (simp add: claim_terminal_def mark_terminal_def on_fiber_slot_def)
  show ?thesis
  proof (cases "refused_dependent ee f rn2 ds")
    case None
    let ?rn3 = "update_fiber f (\<lambda>_. mark_terminal (fiber_at rn2 f)) rn2"
    have co: "era_commit ee f recipe ?rn1 = (Inr \<lparr>ec_recipe = recipe, ec_edges = owned_edges f rn, ec_dependents = filter (\<lambda>d. d \<noteq> f) ds\<rparr>, ?rn3)"
      using d ds(2) None terminal by (simp add: era_commit_def)
    have at3: "fiber_at ?rn3 f = mark_terminal (fiber_at rn2 f)" using up2 by (simp add: update_fiber_same)
    have core: "fiber_core (fiber_at ?rn3 f) = mark_terminal (fiber_core ?x)" by (subst at3, subst x1) simp
    have busy: "\<not> is_idle (slot_of f ?rn3)"
      unfolding slot_of_def by (subst at3, subst x1) (simp add: mark_terminal_def on_fiber_slot_def is_idle_def)
    from None have none: "\<forall>d \<in> set (era_dependents f rn). d = f \<or> \<not> era_refused ee rn d"
      by (simp add: refused_dependent_iff refused ds(1))
    show ?thesis using same co commit core busy none False ds(1) by (simp add: Let_def)
  next
    case (Some r)
    have co: "era_commit ee f recipe ?rn1 = (Inl (EraRecursion r), put_slot f abandon rn2)"
      using d ds(2) Some by (simp add: era_commit_def)
    have core: "fiber_core (fiber_at (put_slot f abandon rn2) f) = fiber_core ?x" using up2 by (simp add: update_fiber_same x1)
    have idle: "is_idle (slot_of f (put_slot f abandon rn2))" using up2 by (simp add: abandon_def is_idle_def)
    from Some have some: "\<exists>d \<in> set (era_dependents f rn). d \<noteq> f \<and> era_refused ee rn d"
      using refused_dependent_iff [of ee f rn2 ds] by (auto simp: refused ds(1))
    show ?thesis using same co commit core idle some False by (simp add: Let_def)
  qed
qed

text \<open>
  C5: With nobody in the way, the four answers before the claim are exact.  A self-wait is refused
  first, then a closing or dead source, then a foreign contract, then a wait for a dependent
  that would be doomed; each refusal leaves the source as it was with its slot free, and every
  other Fiber, the Registry, the services and the identities untouched.  Otherwise the source
  is claimed: its slot is held, its terminal mark is set, and the claim carries its exact
  publication edges and its other dependents.
\<close>

theorem era_refusals_exact:
  assumes "upgrades rn f" and "is_idle (slot_of f rn)"
  shows "\<exists>result rn'. era_claim_source ee f change ([], rn) = Inr (result, [], rn') \<and> only_source f rn rn' \<and>
    (let x = fiber_at rn f in
     case result of
       Inl e \<Rightarrow>
         fiber_core (fiber_at rn' f) = fiber_core x \<and> is_idle (slot_of f rn') \<and>
         (if era_refused ee rn f then \<exists>r. e = EraRecursion r
          else if \<not> is_alive x \<or> fb_disposing x then e = EraClosed
          else if spawn_state_contract (fb_spawn x) \<noteq> Some (pc_contract change) then e = EraContractMismatch
          else (\<exists>r. e = EraRecursion r) \<and> (\<exists>d \<in> set (era_dependents f rn). d \<noteq> f \<and> era_refused ee rn d))
     | Inr claim \<Rightarrow>
         \<not> era_refused ee rn f \<and> is_alive x \<and> \<not> fb_disposing x \<and> spawn_state_contract (fb_spawn x) = Some (pc_contract change) \<and>
         (\<forall>d \<in> set (era_dependents f rn). d = f \<or> \<not> era_refused ee rn d) \<and>
         fiber_core (fiber_at rn' f) = mark_terminal (fiber_core x) \<and> \<not> is_idle (slot_of f rn') \<and>
         ec_edges claim = owned_edges f rn \<and> ec_dependents claim = filter (\<lambda>d. d \<noteq> f) (era_dependents f rn))"
proof (cases "era_refused ee rn f \<or> \<not> is_alive (fiber_at rn f) \<or> fb_disposing (fiber_at rn f) \<or>
    spawn_state_contract (fb_spawn (fiber_at rn f)) \<noteq> Some (pc_contract change)")
  case True
  then show ?thesis
    using assms(2)
    by (cases "refuse_recursion (ee_caller ee) f (fb_draining (fiber_at rn f)) OpEraSwap (ee_caller_att ee)")
      (auto simp: era_claim_source_def Let_def era_refused_def only_source_def)
next
  case False
  with era_claim_committed [OF assms, of ee change] show ?thesis by (fastforce simp: Let_def split: sum.splits)
qed

text \<open>
  A source is replaced once.  After a claim, and whatever abides by the Fiber's lifecycle in
  between, a second replacement by any caller with any change is refused before it waits for
  anything, and leaves the world as it is.
\<close>

theorem era_claim_is_exclusive:
  assumes "era_claim_source ee f change w = Inr (Inr claim, sch', rn')" and "upgrades rn' f" and "abides f rn' rn1"
  shows "\<exists>e. era_claim_source ee1 f change1 (sch1, rn1) = Inr (Inl e, sch1, rn1) \<and> (e = EraClosed \<or> (\<exists>r. e = EraRecursion r))"
proof -
  obtain recipe rn0 where "era_commit ee f recipe rn0 = (Inr claim, rn')"
    using assms(1) by (cases w) (auto simp: era_claim_source_def Let_def split: sum.splits if_splits prod.splits)
  then obtain rn2 where "rn' = update_fiber f (\<lambda>_. mark_terminal (fiber_at rn2 f)) rn2"
    by (auto simp: era_commit_def Let_def claim_terminal_def mark_terminal_def split: prod.splits option.splits bool.splits)
  with assms(2) have "fb_disposing (fiber_at rn' f)" by (simp add: update_fiber_same mark_terminal_def)
  with assms(3) have "fb_disposing (fiber_at rn1 f)" by (simp add: abides_def)
  then show ?thesis
    by (cases "refuse_recursion (ee_caller ee1) f (fb_draining (fiber_at rn1 f)) OpEraSwap (ee_caller_att ee1)")
      (auto simp: era_claim_source_def Let_def)
qed

section \<open>Witnesses\<close>

text \<open>Turns that mean the same to every Fiber.\<close>

definition world_turns :: "(runtime \<Rightarrow> runtime) set" where
  "world_turns = range (\<lambda>es. run_act 0 (ActDrift es)) \<union> {run_act 0 (ActWithdraw key name occurrence) |key name occurrence. True}"

lemma run_act_touches: "touches g rn (run_act g a rn)"
proof (cases a)
  case (ActDrift es)
  obtain fs rn1 where d: "drift_commit es rn = (fs, rn1)" by force
  from touches_trans [OF touches_drift [OF d] touches_kick] ActDrift d show ?thesis by (simp add: run_act_def)
qed (simp_all add: run_act_def)

lemma run_act_history: "history h (run_act g a rn) = history h rn"
proof (cases a)
  case (ActDrift es)
  obtain fs rn1 where d: "drift_commit es rn = (fs, rn1)" by force
  with ActDrift drift_commit_frame(6) [OF d] show ?thesis by (simp add: run_act_def history_def)
qed (simp_all add: run_act_def history_def withdraw_exact_def drop_slot_def split: option.split)

lemma run_act_benign: "benign (run_act g a)"
  unfolding benign_def
proof (intro allI impI conjI)
  fix rn
  assume ok: "world_ok rn"
  note t = run_act_touches [of g rn a]
  show "upgrades (run_act g a rn) h" if "upgrades rn h" for h using t that by (simp add: touches_def)
  have "claimed (run_act g a rn) h = claimed rn h" for h by (simp add: claimed_def run_act_registry)
  with t ok show "world_ok (run_act g a rn)" by (simp add: world_ok_def touches_def run_act_history)
  show "buried f (run_act g a rn)" if b: "buried f rn" for f
  proof (cases "f = g")
    case True
    have up: "upgrades rn f" using b by (simp add: buried_def life_inv_def)
    note ab = run_act_abides [OF up, of a]
    from b abides_life [OF ab] abides_fields(5) [OF ab] True show ?thesis by (simp add: buried_def claimed_def run_act_registry)
  qed (rule buried_touches [OF t _ b])
qed

lemma benign_fold: "(\<And>a. a \<in> set as \<Longrightarrow> benign (k a)) \<Longrightarrow> benign (fold k as)"
proof (induction as)
  case (Cons a as)
  have "benign (k a)" "benign (fold k as)" using Cons by simp_all
  then show ?case by (simp add: benign_def)
qed (simp add: benign_def)

lemma world_turns_scripted: "world_turns \<subseteq> scripted_turns g"
proof
  fix k
  assume "k \<in> world_turns"
  then obtain a where "k = run_act 0 a" and "(\<exists>es. a = ActDrift es) \<or> (\<exists>key name occurrence. a = ActWithdraw key name occurrence)"
    by (auto simp: world_turns_def)
  then have "k = run_turn g (TurnAct a)" by (auto simp: run_turn_def run_act_def fun_eq_iff)
  then show "k \<in> scripted_turns g" by (auto simp: scripted_turns_def)
qed

lemma open_turns_subset:
  assumes "open_turns env g turns" and "fewer \<subseteq> turns"
  shows "open_turns env g fewer"
  using assms subsetD [OF assms(2)] unfolding open_turns_def open_turns_axioms_def foreign_turns_def foreign_turns_axioms_def by blast

interpretation drifting: open_world "scripted_env outcome acts report cleanup_acts" world_turns
  for outcome acts report cleanup_acts
proof (rule open_world.intro)
  show "open_turns (scripted_env outcome acts report cleanup_acts) g world_turns" for g
    by (rule open_turns_subset [OF scripted.open_turns_axioms world_turns_scripted])
  show "benign k" if "k \<in> world_turns" for k using that run_act_benign by (auto simp: world_turns_def)
  show "benign (\<lambda>rn. snd (le_apply (scripted_env outcome acts report cleanup_acts) g plugin cx rn))" for g plugin cx
    using benign_fold [OF run_act_benign] by (simp add: scripted_env_def)
  show "benign (\<lambda>rn. snd (le_cleanup (scripted_env outcome acts report cleanup_acts) g c rn))" for g c
    using benign_fold [OF run_act_benign] by (simp add: scripted_env_def)
qed

lemma demo_open_world: "open_world demo_env world_turns"
  by (rule drifting.open_world_axioms)

definition demo_era :: era_env where
  "demo_era = \<lparr>ee_caller = 0, ee_caller_att = att_init, ee_owner = 1, ee_entry_att = (\<lambda>_. att_init), ee_final_att = (\<lambda>_. att_init),
     ee_cleanup_att = (\<lambda>_. att_init), ee_input_drop = (\<lambda>_. Some 44)\<rparr>"

definition foreign_turn_list :: schedule where
  "foreign_turn_list = [run_act 0 (ActDrift [])]"

lemma newborn_world: "world_ok newborn_runtime"
proof -
  obtain r where r: "attach_fiber (TypedKey 5) 2 registry_new = Some r"
    by (simp add: attach_fiber_def current_or_new_def registry_new_def)
  obtain g where g: "map_of (rg_claims r) = (map_of (rg_claims registry_new))(2 \<mapsto> g)"
    by (rule attach_fiber_effect [OF registry_new_wf r]) blast
  show ?thesis
    using attach_fiber_wf [OF registry_new_wf r] g
    by (simp add: world_ok_def newborn_runtime_def r demo_runtime_def upgrades_def claimed_def history_def)
      (simp add: registry_new_def)
qed

lemma era_demo_runs:
  "case era_swap 1 demo_env demo_era 2 demo_change True demo_seals (foreign_turn_list, newborn_runtime) of
     (_, Some (Inr (EraResumed payload, _))) \<Rightarrow> payload = 44
   | _ \<Rightarrow> False"
  by code_simp


theorem era_refusals_exact_witness:
  "\<exists>result rn'. era_claim_source demo_era 2 (demo_change\<lparr>pc_contract := 77\<rparr>) ([], newborn_runtime) = Inr (Inl result, [], rn') \<and>
     result = EraContractMismatch \<and> only_source 2 newborn_runtime rn'"
proof -
  have contract: "spawn_state_contract (fb_spawn (fiber_at newborn_runtime 2)) = Some 5" by code_simp
  have free: "\<not> era_refused demo_era newborn_runtime 2" by code_simp
  have live: "is_alive (fiber_at newborn_runtime 2)" "\<not> fb_disposing (fiber_at newborn_runtime 2)"
    by (simp_all add: newborn_fields is_alive_def)
  obtain result rn' where r: "era_claim_source demo_era 2 (demo_change\<lparr>pc_contract := 77\<rparr>) ([], newborn_runtime) = Inr (result, [], rn')"
    and o: "only_source 2 newborn_runtime rn'" and "case result of Inl e \<Rightarrow> e = EraContractMismatch | Inr _ \<Rightarrow> False"
    using era_refusals_exact [OF newborn_fields(2) newborn_slot(1), of demo_era "demo_change\<lparr>pc_contract := 77\<rparr>"] contract free live
    by (fastforce simp: Let_def split: sum.splits)
  then show ?thesis by (cases result) auto
qed

lemma era_claim_runs:
  "case era_claim_source demo_era 2 demo_change ([], newborn_runtime) of
     Inr (Inr claim, sch', rn') \<Rightarrow> upgrades rn' 2
   | _ \<Rightarrow> False"
  by code_simp

theorem era_claim_is_exclusive_witness:
  "case era_claim_source demo_era 2 demo_change ([], newborn_runtime) of
     Inr (Inr claim, sch', rn') \<Rightarrow>
       \<exists>e. era_claim_source demo_era 2 demo_change ([], rn') = Inr (Inl e, [], rn') \<and> (e = EraClosed \<or> (\<exists>r. e = EraRecursion r))
   | _ \<Rightarrow> False"
proof -
  obtain result sch' rn' where c: "era_claim_source demo_era 2 demo_change ([], newborn_runtime) = Inr (result, sch', rn')"
    using era_claim_runs by (cases "era_claim_source demo_era 2 demo_change ([], newborn_runtime)") auto
  obtain claim where "result = Inr claim" and up: "upgrades rn' 2"
    using era_claim_runs unfolding c by (cases result) auto
  with c have run: "era_claim_source demo_era 2 demo_change ([], newborn_runtime) = Inr (Inr claim, sch', rn')" by simp
  show ?thesis
    using era_claim_is_exclusive [OF run up abides_refl [OF up], of demo_era demo_change "[]"] by (simp add: run)
qed

end
