(* ===== verification/Observation.thy ===== *)
theory Observation
  imports Passes Logger_Model
begin

text \<open>
  Runtime observation (\<open>crates/cordis-core/src/observation.rs\<close>, \<open>Context::runtime_snapshot\<close> and
  \<open>Context::observe_runtime\<close>): correlation identities, the observer hub with its gated
  registration and contained delivery, and the flat snapshot of a Runtime.

  A snapshot takes no lock across its reads: the schedule may act between any two of them.
\<close>

section \<open>Correlation identities\<close>

record scope_id =
  si_membership :: ident
  si_layer :: "scope_node option"

definition scope_id_from_scope :: "scope \<Rightarrow> scope_id" where
  "scope_id_from_scope sc = \<lparr>si_membership = sc_membership sc, si_layer = sc_layer sc\<rparr>"

definition scope_id_from_context :: "ident \<Rightarrow> ctx \<Rightarrow> scope_id" where
  "scope_id_from_context membership cx = \<lparr>si_membership = membership, si_layer = cx_scope cx\<rparr>"

definition scope_id_from_layer :: "ident \<Rightarrow> scope_node option \<Rightarrow> scope_id" where
  "scope_id_from_layer membership layer = \<lparr>si_membership = membership, si_layer = layer\<rparr>"

text \<open>Equality of two positions is identity of the allocations.\<close>

definition scope_id_eq :: "scope_id \<Rightarrow> scope_id \<Rightarrow> bool" where
  "scope_id_eq a b \<longleftrightarrow>
     si_membership a = si_membership b \<and>
     (case (si_layer a, si_layer b) of
        (None, None) \<Rightarrow> True
      | (Some x, Some y) \<Rightarrow> sn_id x = sn_id y
      | _ \<Rightarrow> False)"

datatype observation_routing = ObservedUnscoped | ObservedScoped scope_id

fun observation_from_routing :: "routing \<Rightarrow> observation_routing" where
  "observation_from_routing Unscoped = ObservedUnscoped"
| "observation_from_routing (Scoped sc) = ObservedScoped (scope_id_from_scope sc)"

section \<open>The hub\<close>

text \<open>An observer is its callback with the Context that registered it.\<close>

record 'c observation_hub =
  oh_next :: u64
  oh_observers :: "(u64, 'c \<times> ctx) hashmap"

definition observation_hub_new :: "'c observation_hub" where
  "observation_hub_new = \<lparr>oh_next = 0, oh_observers = []\<rparr>"

definition observer_publish :: "u64 \<Rightarrow> 'c \<times> ctx \<Rightarrow> 'c observation_hub publish_step" where
  "observer_publish i c hub = (True, hub\<lparr>oh_observers := hm_insert i c (oh_observers hub)\<rparr>)"

text \<open>
  \<open>f0\<close> is the Fiber at the gate, \<open>f\<close> the Fiber under the journal lock.  \<open>None\<close> is the \<open>expect\<close> at the
  end of the identity space, or the \<open>unreachable!\<close> on an occupied identity.
\<close>

definition observer_register ::
  "'c \<times> ctx \<Rightarrow> fiber \<Rightarrow> fiber \<Rightarrow> 'c observation_hub \<Rightarrow>
   ((effect_registration_error + unit) \<times> fiber \<times> 'c observation_hub) option"
where
  "observer_register c f0 f hub =
     (case checked_succ (oh_next hub) of
        None \<Rightarrow> None
      | Some i \<Rightarrow>
          (let hub1 = hub\<lparr>oh_next := i\<rparr> in
           if assert_can_register f0 = Inr () \<and> assert_can_register f = Inr () \<and> map_of (oh_observers hub1) i \<noteq> None then None
           else (case push_gated fst put_fst (sync_cleanup (RemoveObserver i)) (lift_publish (observer_publish i c)) (f0, hub1) (f, hub1) of
                   (Inl _, s) \<Rightarrow> Some (Inl EffectInactiveContext, s)
                 | (Inr _, s) \<Rightarrow> Some (Inr (), s))))"

definition observer_remove :: "u64 \<Rightarrow> 'c observation_hub \<Rightarrow> 'c observation_hub" where
  "observer_remove i hub = hub\<lparr>oh_observers := hm_remove i (oh_observers hub)\<rparr>"

text \<open>The tasks a committed record spawns, one per observer; without a runtime there are none.\<close>

definition observation_publish :: "bool \<Rightarrow> 'r \<Rightarrow> 'c observation_hub \<Rightarrow> (('c \<times> ctx) \<times> 'r) list" where
  "observation_publish has_runtime r hub =
     (let observers = map snd (oh_observers hub) in
      if observers = [] then [] else if \<not> has_runtime then [] else map (\<lambda>c. (c, r)) observers)"

text \<open>One such task: a failure or a panic of the observer ends as a line on stderr.\<close>

definition observer_task ::
  "('c \<Rightarrow> ctx \<Rightarrow> 'r \<Rightarrow> 'u log_world \<Rightarrow> (panic_payload + (string + unit)) \<times> 'u log_world) \<Rightarrow>
   ('c \<times> ctx) \<times> 'r \<Rightarrow> 'u log_world \<Rightarrow> 'u log_world"
where
  "observer_task code task w =
     (case task of ((c, cx), r) \<Rightarrow>
        (case code c cx r w of (outcome, w1) \<Rightarrow>
           (case catch_contained outcome of
              Inr (Inr _) \<Rightarrow> w1
            | Inr (Inl failure) \<Rightarrow> eprintln (''cordis: runtime observer failed: '' @ failure) w1
            | Inl payload \<Rightarrow> eprintln (''cordis: runtime observer panicked: '' @ payload) w1)))"

interpretation observer_publish: gated_step fst put_fst "lift_publish (observer_publish i c)" "\<lambda>_. True"
  for i c
  by unfold_locales (simp_all add: lift_publish_def observer_publish_def put_fst_def)

text \<open>Identities are fresh, so a registration never meets an occupied one; it ends with its exact cleanup.\<close>

definition hub_wf :: "'c observation_hub \<Rightarrow> bool" where
  "hub_wf hub \<longleftrightarrow> (\<forall>i. map_of (oh_observers hub) i \<noteq> None \<longrightarrow> i \<le> oh_next hub)"

lemma observer_register_exact:
  assumes "hub_wf hub" and "checked_succ (oh_next hub) = Some i"
  shows "\<exists>f' hub'. observer_register c f0 f hub =
      Some (if assert_can_register f0 = Inr () \<and> assert_can_register f = Inr () then Inr () else Inl EffectInactiveContext, f', hub') \<and>
    hub_wf hub' \<and>
    (if assert_can_register f0 = Inr () \<and> assert_can_register f = Inr ()
     then map_of (oh_observers hub') = (map_of (oh_observers hub))(i \<mapsto> c) \<and> map_of (oh_observers hub) i = None \<and>
       map_of (oh_observers (observer_remove i hub')) = map_of (oh_observers hub)
     else oh_observers hub' = oh_observers hub \<and> f' = f)"
proof -
  have succ: "unat i = Suc (unat (oh_next hub))" by (rule unat_checked_succ [OF assms(2)])
  then have less: "oh_next hub < i" by (simp add: word_less_nat_alt)
  have free: "map_of (oh_observers hub) i = None" using assms(1) less unfolding hub_wf_def by (metis leD)
  have old: "map_of (oh_observers hub) k \<noteq> None \<Longrightarrow> k \<le> i" for k using assms(1) less unfolding hub_wf_def by (meson less_imp_le order_trans)
  show ?thesis
  proof (cases "assert_can_register f0 = Inr () \<and> assert_can_register f = Inr ()")
    case True
    obtain t j where j: "journal_push (sync_cleanup (RemoveObserver i)) (fb_journal f) = (t, j)" by force
    let ?hub = "hub\<lparr>oh_next := i, oh_observers := hm_insert i c (oh_observers hub)\<rparr>"
    have "hub_wf ?hub" using old by (auto simp: hub_wf_def)
    moreover have "observer_register c f0 f hub = Some (Inr (), f\<lparr>fb_journal := j\<rparr>, ?hub)"
      using True assms(2) free j
      by (simp add: observer_register_def Let_def push_gated_def lift_publish_def observer_publish_def put_fst_def)
    ultimately show ?thesis using True free by (simp add: observer_remove_def fun_upd_idem)
  next
    case False
    then have "observer_register c f0 f hub = Some (Inl EffectInactiveContext, f, hub\<lparr>oh_next := i\<rparr>)"
      using assms(2) by (auto simp: observer_register_def Let_def push_gated_def split: sum.split)
    with False old show ?thesis by (simp add: hub_wf_def)
  qed
qed

section \<open>Snapshots\<close>

datatype fiber_role = RootRole | OrdinaryRole

record fiber_record =
  fr_id :: fid
  fr_role :: fiber_role
  fr_name :: string
  fr_state :: fiber_state
  fr_missing :: "string list"

record runtime_record =
  rr_fibers :: "fiber_record list"
  rr_services :: "service_occurrence_snapshot list"

text \<open>The missing services of a Fiber, one lookup at a time.\<close>

fun missing_scan :: "dependency_edge list \<Rightarrow> world \<Rightarrow> string list \<times> world" where
  "missing_scan [] w = ([], w)"
| "missing_scan ((service, realm) # edges) w =
     (case interfere w of
        (sch, rn) \<Rightarrow>
          (case missing_scan edges (sch, rn) of
             (missing, w1) \<Rightarrow> (if occurrence_id rn realm service = None then service # missing else missing, w1)))"

lemma missing_scan_length: "length (fst (snd (missing_scan edges w))) \<le> length (fst w)"
proof (induction edges w rule: missing_scan.induct)
  case (2 service realm edges w)
  obtain sch rn where e: "interfere w = (sch, rn)" by force
  from interfere_cases [of "fst w" "snd w" sch rn] e have "length sch \<le> length (fst w)" by (cases w) auto
  obtain tail w2 where m: "missing_scan edges (sch, rn) = (tail, w2)" by (cases "missing_scan edges (sch, rn)")
  with 2 [OF e [symmetric]] e \<open>length sch \<le> length (fst w)\<close> show ?case by (simp add: m)
qed simp

text \<open>The state is read, the missing services are collected, and the state is read again.\<close>

function fiber_scan :: "fid \<Rightarrow> world \<Rightarrow> (fiber_state \<times> string list) \<times> world" where
  "fiber_scan f (sch, rn) =
     (let state = current_state (fiber_at rn f) in
      case interfere (sch, rn) of
        (sch1, rn1) \<Rightarrow>
          (case (if state = Pending \<and> is_alive (fiber_at rn1 f) then missing_scan (fb_edges (fiber_at rn1 f)) (sch1, rn1)
                 else ([], sch1, rn1)) of
             (missing, w2) \<Rightarrow>
               (case interfere w2 of
                  (sch3, rn3) \<Rightarrow>
                    if current_state (fiber_at rn3 f) = state then ((state, missing), sch3, rn3)
                    else fiber_scan f (sch3, rn3))))"
  by pat_completeness auto

lemma missing_scan_idle: "missing_scan edges ([], rn) = (map fst (filter (\<lambda>(service, realm). occurrence_id rn realm service = None) edges), [], rn)"
  by (induction edges) auto

termination fiber_scan
proof (relation "measure (\<lambda>(f, sch, rn). length sch)", goal_cases)
  case (2 f sch rn state sch1 rn1 missing w2 sch3 rn3)
  then have i1: "interfere (sch, rn) = (sch1, rn1)" and i3: "interfere w2 = (sch3, rn3)"
    and m: "(missing, w2) = (if state = Pending \<and> is_alive (fiber_at rn1 f) then missing_scan (fb_edges (fiber_at rn1 f)) (sch1, rn1)
      else ([], sch1, rn1))"
    and changed: "current_state (fiber_at rn3 f) \<noteq> current_state (fiber_at rn f)" by simp_all
  have l1: "(sch = [] \<and> sch1 = [] \<and> rn1 = rn) \<or> length sch1 < length sch" by (rule interfere_cases [OF i1])
  have l2: "length (fst w2) \<le> length sch1"
    using m missing_scan_length [of "fb_edges (fiber_at rn1 f)" "(sch1, rn1)"] by (cases "state = Pending \<and> is_alive (fiber_at rn1 f)") (auto dest: sym)
  have l3: "length sch3 \<le> length (fst w2)" using interfere_cases [of "fst w2" "snd w2" sch3 rn3] i3 by (cases w2) auto
  show ?case
  proof (cases "sch = []")
    case True
    with l1 have s: "sch1 = []" "rn1 = rn" by simp_all
    with m have "w2 = ([], rn)" by (auto simp: missing_scan_idle split: if_splits)
    with i3 have "rn3 = rn" by simp
    with changed show ?thesis by simp
  next
    case False
    with l1 l2 l3 show ?thesis by auto
  qed
qed simp

declare fiber_scan.simps [simp del]

definition fiber_snapshot :: "fid \<Rightarrow> world \<Rightarrow> fiber_record \<times> world" where
  "fiber_snapshot f w =
     (case fiber_scan f w of
        ((state, missing), sch, rn) \<Rightarrow>
          (\<lparr>fr_id = f, fr_role = OrdinaryRole, fr_name = fb_name (fiber_at rn f), fr_state = state, fr_missing = missing\<rparr>, sch, rn))"

fun fiber_snapshots :: "fid list \<Rightarrow> world \<Rightarrow> fiber_record list \<times> world" where
  "fiber_snapshots [] w = ([], w)"
| "fiber_snapshots (f # fs) w =
     (case fiber_snapshot f w of (r, w1) \<Rightarrow> (case fiber_snapshots fs w1 of (rs, w2) \<Rightarrow> (r # rs, w2)))"

definition runtime_snapshot :: "fid \<Rightarrow> world \<Rightarrow> runtime_record \<times> world" where
  "runtime_snapshot root w =
     (case interfere w of
        (sch, rn) \<Rightarrow>
          (case fiber_snapshots (snapshot_fibers (rn_registry rn)) (interfere (sch, rn)) of
             (ordinary, w1) \<Rightarrow>
               (case interfere w1 of
                  (sch2, rn2) \<Rightarrow>
                    (\<lparr>rr_fibers = \<lparr>fr_id = root, fr_role = RootRole, fr_name = fb_name (fiber_at rn root), fr_state = Active, fr_missing = []\<rparr> # ordinary,
                       rr_services = snapshot_occurrences rn2\<rparr>, sch2, rn2))))"

section \<open>What a snapshot says\<close>

text \<open>The Runtimes that the world passes through.\<close>

fun moments :: "world \<Rightarrow> runtime list" where
  "moments ([], rn) = [rn]"
| "moments (g # gs, rn) = rn # moments (gs, g rn)"

lemma moments_now: "rn \<in> set (moments (sch, rn))"
  by (cases sch) simp_all

lemma moments_interfere: "interfere w = w1 \<Longrightarrow> set (moments w1) \<subseteq> set (moments w)"
  by (cases w; cases "fst w") auto

definition unresolved_at :: "world \<Rightarrow> dependency_edge list \<Rightarrow> string \<Rightarrow> bool" where
  "unresolved_at w edges service \<longleftrightarrow>
     (\<exists>realm rn. (service, realm) \<in> set edges \<and> rn \<in> set (moments w) \<and> occurrence_id rn realm service = None)"

lemma unresolved_mono:
  "unresolved_at w1 edges service \<Longrightarrow> set (moments w1) \<subseteq> set (moments w) \<Longrightarrow> set edges \<subseteq> set edges' \<Longrightarrow> unresolved_at w edges' service"
  unfolding unresolved_at_def by blast

lemma missing_scan_true:
  "missing_scan edges w = (missing, w1) \<Longrightarrow>
   set (moments w1) \<subseteq> set (moments w) \<and> (\<forall>service \<in> set missing. unresolved_at w edges service)"
proof (induction edges w arbitrary: missing w1 rule: missing_scan.induct)
  case (2 service realm edges w)
  obtain sch rn where e: "interfere w = (sch, rn)" by force
  obtain tail w2 where m: "missing_scan edges (sch, rn) = (tail, w2)" by (cases "missing_scan edges (sch, rn)")
  note sub = moments_interfere [OF e]
  from "2.IH" [OF e [symmetric] m] have ih: "set (moments w2) \<subseteq> set (moments (sch, rn))"
    "\<forall>x \<in> set tail. unresolved_at (sch, rn) edges x" by blast+
  have now: "rn \<in> set (moments w)" using moments_now sub by blast
  have r: "w1 = w2" "missing = (if occurrence_id rn realm service = None then service # tail else tail)" using "2.prems" e m by auto
  have old: "\<forall>x \<in> set tail. unresolved_at w ((service, realm) # edges) x"
    using ih(2) unresolved_mono [OF _ sub, of edges _ "(service, realm) # edges"] by auto
  have new: "unresolved_at w ((service, realm) # edges) service" if "occurrence_id rn realm service = None"
    using that now unfolding unresolved_at_def by fastforce
  show ?case using r ih(1) sub old new by auto
qed simp

text \<open>
  A true record: the state was published both before and after the missing services were looked
  for, only a pending Fiber misses any, and each of them is a declared dependency that was
  unresolved at a moment of the snapshot.
\<close>

definition true_record :: "world \<Rightarrow> fid \<Rightarrow> fiber_state \<Rightarrow> string list \<Rightarrow> bool" where
  "true_record w f state missing \<longleftrightarrow>
     (\<exists>rn1 \<in> set (moments w). \<exists>rn2 \<in> set (moments w). \<exists>rn3 \<in> set (moments w).
        current_state (fiber_at rn1 f) = state \<and> current_state (fiber_at rn3 f) = state \<and>
        (missing \<noteq> [] \<longrightarrow> state = Pending \<and> is_alive (fiber_at rn2 f)) \<and>
        (\<forall>service \<in> set missing. unresolved_at w (fb_edges (fiber_at rn2 f)) service))"

lemma true_record_mono:
  assumes t: "true_record w1 f state missing" and sub: "set (moments w1) \<subseteq> set (moments w)"
  shows "true_record w f state missing"
proof -
  from t obtain rn1 rn2 rn3 where m: "rn1 \<in> set (moments w1)" "rn2 \<in> set (moments w1)" "rn3 \<in> set (moments w1)"
    and r: "current_state (fiber_at rn1 f) = state" "current_state (fiber_at rn3 f) = state"
      "missing \<noteq> [] \<longrightarrow> state = Pending \<and> is_alive (fiber_at rn2 f)"
    and u: "\<forall>service \<in> set missing. unresolved_at w1 (fb_edges (fiber_at rn2 f)) service"
    unfolding true_record_def by blast
  have "\<forall>service \<in> set missing. unresolved_at w (fb_edges (fiber_at rn2 f)) service"
    using u unresolved_mono [OF _ sub order_refl] by blast
  moreover have "rn1 \<in> set (moments w)" "rn2 \<in> set (moments w)" "rn3 \<in> set (moments w)" using m sub by blast+
  ultimately show ?thesis unfolding true_record_def using r by blast
qed

lemma fiber_scan_true:
  "fiber_scan f w = ((state, missing), w1) \<Longrightarrow> set (moments w1) \<subseteq> set (moments w) \<and> true_record w f state missing"
proof (induction f w rule: fiber_scan.induct)
  case (1 f sch rn)
  let ?state = "current_state (fiber_at rn f)"
  obtain sch1 rn1 where e1: "interfere (sch, rn) = (sch1, rn1)" by force
  let ?scan = "if ?state = Pending \<and> is_alive (fiber_at rn1 f) then missing_scan (fb_edges (fiber_at rn1 f)) (sch1, rn1) else ([], sch1, rn1)"
  obtain found w2 where m: "?scan = (found, w2)" by (cases ?scan)
  obtain sch3 rn3 where e3: "interfere w2 = (sch3, rn3)" by force
  note s1 = moments_interfere [OF e1] and s3 = moments_interfere [OF e3]
  have s2: "set (moments w2) \<subseteq> set (moments (sch1, rn1))" and u: "\<forall>x \<in> set found. unresolved_at (sch1, rn1) (fb_edges (fiber_at rn1 f)) x"
    and pending: "found \<noteq> [] \<longrightarrow> ?state = Pending \<and> is_alive (fiber_at rn1 f)"
    using m missing_scan_true [of "fb_edges (fiber_at rn1 f)" "(sch1, rn1)" found w2] by (auto split: if_splits)
  have all: "set (moments (sch3, rn3)) \<subseteq> set (moments (sch, rn))" using s1 s2 s3 by blast
  have now: "rn \<in> set (moments (sch, rn))" "rn1 \<in> set (moments (sch, rn))" "rn3 \<in> set (moments (sch, rn))"
    using moments_now s1 all by blast+
  have unfold: "fiber_scan f (sch, rn) = (if current_state (fiber_at rn3 f) = ?state then ((?state, found), sch3, rn3) else fiber_scan f (sch3, rn3))"
    using e1 m e3 by (subst fiber_scan.simps) (simp add: Let_def)
  show ?case
  proof (cases "current_state (fiber_at rn3 f) = ?state")
    case True
    with unfold "1.prems" have r: "state = ?state" "missing = found" "w1 = (sch3, rn3)" by simp_all
    have "\<forall>x \<in> set found. unresolved_at (sch, rn) (fb_edges (fiber_at rn1 f)) x" using u unresolved_mono [OF _ s1] by blast
    with True now pending have "true_record (sch, rn) f state missing" unfolding true_record_def r by blast
    with all r show ?thesis by simp
  next
    case False
    with unfold "1.prems" have "fiber_scan f (sch3, rn3) = ((state, missing), w1)" by simp
    with "1.IH" [of ?state sch1 rn1 found w2 sch3 rn3] e1 m e3 False
    have "set (moments w1) \<subseteq> set (moments (sch3, rn3)) \<and> true_record (sch3, rn3) f state missing" by simp
    with all true_record_mono [OF _ all] show ?thesis by blast
  qed
qed

lemma fiber_snapshots_true:
  "fiber_snapshots fs w = (rs, w1) \<Longrightarrow>
   set (moments w1) \<subseteq> set (moments w) \<and> map fr_id rs = fs \<and>
   (\<forall>r \<in> set rs. fr_role r = OrdinaryRole \<and> true_record w (fr_id r) (fr_state r) (fr_missing r))"
proof (induction fs arbitrary: w rs w1)
  case (Cons f fs)
  obtain state missing sch rn where scan: "fiber_scan f w = ((state, missing), sch, rn)" by (metis prod.exhaust)
  note t = fiber_scan_true [OF scan]
  let ?r = "\<lparr>fr_id = f, fr_role = OrdinaryRole, fr_name = fb_name (fiber_at rn f), fr_state = state, fr_missing = missing\<rparr>"
  have r: "fiber_snapshot f w = (?r, sch, rn)" by (simp add: fiber_snapshot_def scan)
  obtain tail w2 where m: "fiber_snapshots fs (sch, rn) = (tail, w2)" by (cases "fiber_snapshots fs (sch, rn)")
  from Cons.IH [OF m] have ih: "set (moments w2) \<subseteq> set (moments (sch, rn))" "map fr_id tail = fs"
    "\<forall>r \<in> set tail. fr_role r = OrdinaryRole \<and> true_record (sch, rn) (fr_id r) (fr_state r) (fr_missing r)" by blast+
  have e: "rs = ?r # tail" "w1 = w2" using Cons.prems r m by simp_all
  have "\<forall>r \<in> set tail. fr_role r = OrdinaryRole \<and> true_record w (fr_id r) (fr_state r) (fr_missing r)"
    using ih(3) true_record_mono t by blast
  with e t ih(1,2) show ?case by auto
qed simp


text \<open>A dependent whose state moves while it is scanned, so that its first scan is discarded.\<close>

definition watched_world :: world where
  "watched_world =
     ([\<lambda>rn. rn, \<lambda>rn. rn, \<lambda>rn. rn, update_fiber 1 (set_state Failed), update_fiber 1 (set_state Pending)], waiting_runtime)"

lemma watched_fibers:
  "rr_fibers (fst (runtime_snapshot 0 watched_world)) =
     [\<lparr>fr_id = 0, fr_role = RootRole, fr_name = ''root'', fr_state = Active, fr_missing = []\<rparr>,
      \<lparr>fr_id = 1, fr_role = OrdinaryRole, fr_name = ''app'', fr_state = Pending, fr_missing = [''db'']\<rparr>]"
  by code_simp


end
