(* ===== verification/Listener_Adapters.thy ===== *)
theory Listener_Adapters
  imports Event_Dispatch
begin

text \<open>
  Semantic listener adapters (\<open>crates/cordis-core/src/events/listener.rs\<close>): the callbacks that
  users write for the roles of an Event, asynchronous or synchronous, plain or with a fresh state
  per invocation, and their erasure into the closures that the store holds and the dispatch calls.

  Erased code is untyped: a payload carries the type it was boxed with, and every \<open>expect\<close> on a
  downcast is a branch that panics.  The second half runs the dispatch loops over erased closures
  and shows that on a store built by registrations no downcast ever fails, so that the dispatch
  over typed values (\<open>Event_Dispatch\<close>) is what the code computes.
\<close>

section \<open>Payloads\<close>

text \<open>\<open>Box<dyn Any>\<close>.\<close>

record payload =
  py_type :: type_id
  py_value :: ident

definition boxed :: "type_id \<Rightarrow> ident \<Rightarrow> payload" where
  "boxed t v = \<lparr>py_type = t, py_value = v\<rparr>"

definition downcast :: "type_id \<Rightarrow> payload \<Rightarrow> ident option" where
  "downcast t p = (if py_type p = t then Some (py_value p) else None)"

lemma downcast_boxed [simp]: "downcast t (boxed t' v) = (if t' = t then Some v else None)"
  by (simp add: downcast_def boxed_def)

definition downcast_args :: "event_type \<Rightarrow> payload \<Rightarrow> string + ident" where
  "downcast_args E p =
     (case downcast (et_args E) p of
        None \<Rightarrow> Inl ''Event contract preflight guarantees listener Args type: Any { .. }''
      | Some args \<Rightarrow> Inr args)"

section \<open>User callbacks\<close>

text \<open>
  A user future ends with an outcome.  Calling user code may panic at once: \<open>Inl\<close> is that panic.
  An error whose \<open>Display\<close> panics is a panic of the call that converts it.
\<close>

type_synonym ('r, 'w) user_future = "'w \<Rightarrow> 'r call_outcome \<times> 'w"

type_synonym ('r, 'w) called = "'w \<Rightarrow> (string + 'r) \<times> 'w"

text \<open>What an Around callback does with its consuming continuation.\<close>

datatype 'w around_run =
    AroundEnds "ident call_outcome"
  | AroundCalls ident "invocation_failure + ident \<Rightarrow> 'w \<Rightarrow> ident call_outcome \<times> 'w"

datatype ('r, 's, 'w) async_callback =
    PlainAsync "ctx \<Rightarrow> ident \<Rightarrow> (('r, 'w) user_future, 'w) called"
  | StatefulAsync "('s, 'w) called" "ctx \<Rightarrow> 's \<Rightarrow> ident \<Rightarrow> (('r, 'w) user_future, 'w) called"

datatype ('r, 's, 'w) sync_callback =
    PlainSync "ctx \<Rightarrow> ident \<Rightarrow> ('r, 'w) user_future"
  | StatefulSync "('s, 'w) called" "ctx \<Rightarrow> 's \<Rightarrow> ident \<Rightarrow> ('r, 'w) user_future"

datatype ('s, 'w) around_callback =
    PlainAround "ctx \<Rightarrow> ident \<Rightarrow> ('w \<Rightarrow> 'w around_run \<times> 'w, 'w) called"
  | StatefulAround "('s, 'w) called" "ctx \<Rightarrow> 's \<Rightarrow> ident \<Rightarrow> ('w \<Rightarrow> 'w around_run \<times> 'w, 'w) called"

datatype ('s, 'w) listener =
    ObserverAsync "(unit, 's, 'w) async_callback"
  | ObserverSync "(unit, 's, 'w) sync_callback"
  | ResponderAsync "(ident option, 's, 'w) async_callback"
  | ResponderSync "(ident option, 's, 'w) sync_callback"
  | MapperAsync "(ident, 's, 'w) async_callback"
  | MapperSync "(ident, 's, 'w) sync_callback"
  | AroundListener "('s, 'w) around_callback"

definition and_then :: "('r, 'w) called \<Rightarrow> ('r \<Rightarrow> ('v, 'w) called) \<Rightarrow> ('v, 'w) called" where
  "and_then c k w = (case c w of (Inl d, w1) \<Rightarrow> (Inl d, w1) | (Inr x, w1) \<Rightarrow> k x w1)"

section \<open>Erasure\<close>

text \<open>The future of an erased closure; \<open>Inl\<close> is a panic while it is polled.\<close>

type_synonym ('v, 'w) erased_future = "'w \<Rightarrow> (string + (invocation_failure + 'v)) \<times> 'w"

type_synonym erased_value = "(payload, payload) callback_value"

type_synonym 'w erased_listener = "payload \<Rightarrow> ((erased_value, 'w) erased_future, 'w) called"

type_synonym 'w next_fn = "payload \<Rightarrow> (payload, 'w) erased_future"

type_synonym 'w erased_around = "payload \<Rightarrow> 'w next_fn \<Rightarrow> ((payload, 'w) erased_future, 'w) called"

fun erased_result :: "('r \<Rightarrow> 'v) \<Rightarrow> 'r call_outcome \<Rightarrow> string + (invocation_failure + 'v)" where
  "erased_result g (Returned r) = Inr (Inr (g r))"
| "erased_result g (Errored e) = Inr (Inl (normalize_returned e))"
| "erased_result g (Panicked d) = Inl d"

text \<open>\<open>Box::pin(async move { fut.await.map(..).map_err(normalize_returned) })\<close>.\<close>

definition awaiting :: "('r \<Rightarrow> 'v) \<Rightarrow> ('r, 'w) user_future \<Rightarrow> ('v, 'w) erased_future" where
  "awaiting g fut w = (case fut w of (r, w1) \<Rightarrow> (erased_result g r, w1))"

text \<open>A synchronous callback runs inside the call; its future is ready.\<close>

definition already :: "('r \<Rightarrow> 'v) \<Rightarrow> ('r, 'w) user_future \<Rightarrow> (('v, 'w) erased_future, 'w) called" where
  "already g invocation w =
     (case invocation w of (r, w1) \<Rightarrow>
        (case erased_result g r of
           Inl d \<Rightarrow> (Inl d, w1)
         | Inr ready \<Rightarrow> (Inr (\<lambda>w. (Inr ready, w)), w1)))"

definition call_async ::
  "('r \<Rightarrow> 'v) \<Rightarrow> event_type \<Rightarrow> (ident \<Rightarrow> (('r, 'w) user_future, 'w) called) \<Rightarrow> payload \<Rightarrow>
   (('v, 'w) erased_future, 'w) called"
where
  "call_async g E callback p w =
     (case downcast_args E p of
        Inl d \<Rightarrow> (Inl d, w)
      | Inr args \<Rightarrow> and_then (callback args) (\<lambda>fut w. (Inr (awaiting g fut), w)) w)"

definition call_sync ::
  "('r \<Rightarrow> 'v) \<Rightarrow> event_type \<Rightarrow> (ident \<Rightarrow> ('r, 'w) user_future) \<Rightarrow> payload \<Rightarrow>
   (('v, 'w) erased_future, 'w) called"
where
  "call_sync g E callback p w =
     (case downcast_args E p of Inl d \<Rightarrow> (Inl d, w) | Inr args \<Rightarrow> already g (callback args) w)"

text \<open>The state is made before the payload is unboxed, anew in every call.\<close>

fun observer_async :: "event_type \<Rightarrow> (unit, 's, 'w) async_callback \<Rightarrow> ctx \<Rightarrow> 'w erased_listener" where
  "observer_async E (PlainAsync f) registration p = call_async (\<lambda>_. CvObserver) E (f registration) p"
| "observer_async E (StatefulAsync factory f) registration p =
     and_then factory (\<lambda>state. call_async (\<lambda>_. CvObserver) E (f registration state) p)"

fun observer_sync :: "event_type \<Rightarrow> (unit, 's, 'w) sync_callback \<Rightarrow> ctx \<Rightarrow> 'w erased_listener" where
  "observer_sync E (PlainSync f) registration p = call_sync (\<lambda>_. CvObserver) E (f registration) p"
| "observer_sync E (StatefulSync factory f) registration p =
     and_then factory (\<lambda>state. call_sync (\<lambda>_. CvObserver) E (f registration state) p)"

definition responder_value :: "event_type \<Rightarrow> ident option \<Rightarrow> erased_value" where
  "responder_value E answer = CvResponder (map_option (boxed (et_output E)) answer)"

fun responder_async :: "event_type \<Rightarrow> (ident option, 's, 'w) async_callback \<Rightarrow> ctx \<Rightarrow> 'w erased_listener" where
  "responder_async E (PlainAsync f) registration p = call_async (responder_value E) E (f registration) p"
| "responder_async E (StatefulAsync factory f) registration p =
     and_then factory (\<lambda>state. call_async (responder_value E) E (f registration state) p)"

fun responder_sync :: "event_type \<Rightarrow> (ident option, 's, 'w) sync_callback \<Rightarrow> ctx \<Rightarrow> 'w erased_listener" where
  "responder_sync E (PlainSync f) registration p = call_sync (responder_value E) E (f registration) p"
| "responder_sync E (StatefulSync factory f) registration p =
     and_then factory (\<lambda>state. call_sync (responder_value E) E (f registration state) p)"

definition mapper_value :: "event_type \<Rightarrow> ident \<Rightarrow> erased_value" where
  "mapper_value E mapped = CvMapper (boxed (et_args E) mapped)"

fun mapper_async :: "event_type \<Rightarrow> (ident, 's, 'w) async_callback \<Rightarrow> ctx \<Rightarrow> 'w erased_listener" where
  "mapper_async E (PlainAsync f) registration p = call_async (mapper_value E) E (f registration) p"
| "mapper_async E (StatefulAsync factory f) registration p =
     and_then factory (\<lambda>state. call_async (mapper_value E) E (f registration state) p)"

fun mapper_sync :: "event_type \<Rightarrow> (ident, 's, 'w) sync_callback \<Rightarrow> ctx \<Rightarrow> 'w erased_listener" where
  "mapper_sync E (PlainSync f) registration p = call_sync (mapper_value E) E (f registration) p"
| "mapper_sync E (StatefulSync factory f) registration p =
     and_then factory (\<lambda>state. call_sync (mapper_value E) E (f registration state) p)"

text \<open>\<open>Next::call\<close>: a panic of the continuation unwinds through the callback that awaits it.\<close>

definition next_call :: "event_type \<Rightarrow> 'w next_fn \<Rightarrow> ident \<Rightarrow> (ident, 'w) erased_future" where
  "next_call E inner args w =
     (case inner (boxed (et_args E) args) w of
        (Inl d, w1) \<Rightarrow> (Inl d, w1)
      | (Inr (Inl failure), w1) \<Rightarrow> (Inr (Inl failure), w1)
      | (Inr (Inr output), w1) \<Rightarrow>
          (case downcast (et_output E) output of
             None \<Rightarrow> (Inl ''Event contract preflight guarantees Around output type: Any { .. }'', w1)
           | Some v \<Rightarrow> (Inr (Inr v), w1)))"

definition around_future ::
  "event_type \<Rightarrow> 'w next_fn \<Rightarrow> ('w \<Rightarrow> 'w around_run \<times> 'w) \<Rightarrow> (payload, 'w) erased_future"
where
  "around_future E inner fut w =
     (case fut w of
        (AroundEnds r, w1) \<Rightarrow> (erased_result (boxed (et_output E)) r, w1)
      | (AroundCalls args resume, w1) \<Rightarrow>
          (case next_call E inner args w1 of
             (Inl d, w2) \<Rightarrow> (Inl d, w2)
           | (Inr answer, w2) \<Rightarrow> (case resume answer w2 of (r, w3) \<Rightarrow> (erased_result (boxed (et_output E)) r, w3))))"

definition call_around ::
  "event_type \<Rightarrow> (ident \<Rightarrow> ('w \<Rightarrow> 'w around_run \<times> 'w, 'w) called) \<Rightarrow> 'w erased_around"
where
  "call_around E callback p inner w =
     (case downcast_args E p of
        Inl d \<Rightarrow> (Inl d, w)
      | Inr args \<Rightarrow> and_then (callback args) (\<lambda>fut w. (Inr (around_future E inner fut), w)) w)"

fun around_erase :: "event_type \<Rightarrow> ('s, 'w) around_callback \<Rightarrow> ctx \<Rightarrow> 'w erased_around" where
  "around_erase E (PlainAround f) registration p inner = call_around E (f registration) p inner"
| "around_erase E (StatefulAround factory f) registration p inner =
     and_then factory (\<lambda>state. call_around E (f registration state) p inner)"

datatype 'w hook_kind = PlainHook listener_role "'w erased_listener" | AroundHook "'w erased_around"

fun kind_role :: "'w hook_kind \<Rightarrow> listener_role" where
  "kind_role (PlainHook role _) = role"
| "kind_role (AroundHook _) = Around"

fun into_hook :: "event_type \<Rightarrow> ('s, 'w) listener \<Rightarrow> ctx \<Rightarrow> 'w hook_kind" where
  "into_hook E (ObserverAsync c) registration = PlainHook Observer (observer_async E c registration)"
| "into_hook E (ObserverSync c) registration = PlainHook Observer (observer_sync E c registration)"
| "into_hook E (ResponderAsync c) registration = PlainHook Responder (responder_async E c registration)"
| "into_hook E (ResponderSync c) registration = PlainHook Responder (responder_sync E c registration)"
| "into_hook E (MapperAsync c) registration = PlainHook Mapper (mapper_async E c registration)"
| "into_hook E (MapperSync c) registration = PlainHook Mapper (mapper_sync E c registration)"
| "into_hook E (AroundListener c) registration = AroundHook (around_erase E c registration)"

text \<open>The runtime observers of \<open>observe_runtime\<close> use the two Observer adapters, without state.\<close>

type_synonym ('c, 'w) observation_callback = "ctx \<Rightarrow> 'c \<Rightarrow> ('w \<Rightarrow> (string + (string + unit)) \<times> 'w, 'w) called"

fun observed_result :: "unit call_outcome \<Rightarrow> string + (string + unit)" where
  "observed_result (Returned _) = Inr (Inr ())"
| "observed_result (Errored e) = Inr (Inl (if_diagnostic (normalize_returned e)))"
| "observed_result (Panicked d) = Inl d"

definition runtime_observer_async ::
  "(ctx \<Rightarrow> 'c \<Rightarrow> ((unit, 'w) user_future, 'w) called) \<Rightarrow> ('c, 'w) observation_callback"
where
  "runtime_observer_async f registration r =
     and_then (f registration r) (\<lambda>fut w. (Inr (\<lambda>w. case fut w of (x, w1) \<Rightarrow> (observed_result x, w1)), w))"

definition runtime_observer_sync ::
  "(ctx \<Rightarrow> 'c \<Rightarrow> (unit, 'w) user_future) \<Rightarrow> ('c, 'w) observation_callback"
where
  "runtime_observer_sync f registration r w =
     (case f registration r w of (x, w1) \<Rightarrow>
        (case observed_result x of Inl d \<Rightarrow> (Inl d, w1) | Inr ready \<Rightarrow> (Inr (\<lambda>w. (Inr ready, w)), w1)))"

section \<open>The erased dispatch\<close>

text \<open>
  \<open>invoke_and_drop_callback\<close>: a panic of the call and one of the future are caught alike, and the
  callback is destroyed after both.
\<close>

definition caught :: "(string + ('v, 'w) erased_future) \<times> 'w \<Rightarrow> (invocation_failure + 'v) \<times> 'w" where
  "caught start =
     (case start of
        (Inl d, w) \<Rightarrow> (Inl (failure_panic d), w)
      | (Inr fut, w) \<Rightarrow>
          (case fut w of
             (Inl d, w1) \<Rightarrow> (Inl (failure_panic d), w1)
           | (Inr r, w1) \<Rightarrow> (r, w1)))"

definition invoke_and_drop ::
  "('a, 'o, 'u) event_code \<Rightarrow> ident \<Rightarrow> (string + ('v, 'u event_world) erased_future) \<times> 'u event_world \<Rightarrow>
   (invocation_failure + 'v) \<times> 'u event_world"
where
  "invoke_and_drop code callback start = (case caught start of (r, w) \<Rightarrow> drop_callback_contained code callback r w)"

text \<open>
  The store's hooks carry the identity of their closure; \<open>kinds\<close> gives the closure.  A failed
  \<open>expect\<close> or an \<open>unreachable!\<close> of the loop itself is a panic of the dispatch.
\<close>

type_synonym 'w kinds = "ident \<Rightarrow> 'w hook_kind"

definition erased_tail :: "(ident, ident, 'u) event_code \<Rightarrow> event_type \<Rightarrow> 'u event_world next_fn" where
  "erased_tail code E p w =
     (case downcast (et_args E) p of
        None \<Rightarrow> (Inl ''Event contract guarantees waterfall tail Args type: Any { .. }'', w)
      | Some args \<Rightarrow>
          (case code_tail code args w of (r, w1) \<Rightarrow>
             (Inr (case r of
                     Returned output \<Rightarrow> Inr (boxed (et_output E) output)
                   | Errored e \<Rightarrow> Inl (failure_returned (if_diagnostic (normalize_returned e)))
                   | Panicked d \<Rightarrow> Inl (failure_panic d)), w1)))"

fun erased_chain ::
  "'u event_world kinds \<Rightarrow> (ident, ident, 'u) event_code \<Rightarrow> event_type \<Rightarrow> hook_snap list \<Rightarrow> 'u event_world next_fn"
where
  "erased_chain kinds code E [] p w = erased_tail code E p w"
| "erased_chain kinds code E (h # hooks) p w =
     (case claim_hook (et_name E) h w of
        (False, w1) \<Rightarrow> erased_chain kinds code E hooks p (drop_unclaimed_hooks code [h] w1)
      | (True, w1) \<Rightarrow>
          (case kinds (hs_callback h) of
             PlainHook _ callback \<Rightarrow>
               (case invoke_and_drop code (hs_callback h) (callback p w1) of (r, w2) \<Rightarrow>
                  (case correlated (hs_id h) r of
                     Inr (CvMapper mapped) \<Rightarrow> erased_chain kinds code E hooks mapped w2
                   | Inr _ \<Rightarrow>
                       (Inl ''internal error: entered unreachable code: Mapper adapter returns a mapped payload'', w2)
                   | Inl e \<Rightarrow>
                       (case code_drop_chain code (map hs_callback hooks) w2 of
                          (ds, w3) \<Rightarrow> (Inr (Inl (append_uncalled ds e)), w3))))
           | AroundHook callback \<Rightarrow>
               (case invoke_and_drop code (hs_callback h) (callback p (erased_chain kinds code E hooks) w1) of
                  (r, w2) \<Rightarrow> (Inr (correlated (hs_id h) r), w2))))"

definition erased_waterfall ::
  "'u event_world kinds \<Rightarrow> (ident, ident, 'u) event_code \<Rightarrow> ident \<Rightarrow> event_type \<Rightarrow> routing \<Rightarrow> ident \<Rightarrow> 'u event_world \<Rightarrow>
   (string + (dispatch_error + ident)) \<times> 'u event_world"
where
  "erased_waterfall kinds code membership E r args w =
     (case context_preflight membership E r Waterfall (ew_events w) of
        (Inl e, st) \<Rightarrow> (Inr (Inl e), snd (code_drop_chain code [] (w\<lparr>ew_events := st\<rparr>)))
      | (Inr hooks, st) \<Rightarrow>
          (case erased_chain kinds code E hooks (boxed (et_args E) args) (w\<lparr>ew_events := st\<rparr>) of
             (Inl d, w1) \<Rightarrow> (Inl d, w1)
           | (Inr (Inl e), w1) \<Rightarrow> (Inr (Inl (Invocation e)), w1)
           | (Inr (Inr output), w1) \<Rightarrow>
               (case downcast (et_output E) output of
                  None \<Rightarrow> (Inl ''Event contract guarantees waterfall output type: Any { .. }'', w1)
                | Some v \<Rightarrow> (Inr (Inr v), w1))))"

text \<open>Each registration of a query gets its own boxed clone of the arguments.\<close>

fun erased_query_loop ::
  "'u event_world kinds \<Rightarrow> (ident, ident, 'u) event_code \<Rightarrow> event_type \<Rightarrow> ident \<Rightarrow> hook_snap list \<Rightarrow> 'u event_world \<Rightarrow>
   (string + (dispatch_error + ident query_outcome)) \<times> 'u event_world"
where
  "erased_query_loop kinds code E args [] w = (Inr (Inr Miss), w)"
| "erased_query_loop kinds code E args (h # hooks) w =
     (case claim_hook (et_name E) h w of
        (False, w1) \<Rightarrow> erased_query_loop kinds code E args hooks (drop_unclaimed_hooks code [h] w1)
      | (True, w1) \<Rightarrow>
          (case kinds (hs_callback h) of
             AroundHook _ \<Rightarrow> (Inl ''internal error: entered unreachable code: preflight excludes Around from query'', w1)
           | PlainHook role callback \<Rightarrow>
               (case invoke_and_drop code (hs_callback h) (callback (boxed (et_args E) args) w1) of (r, w2) \<Rightarrow>
                  (case correlated (hs_id h) r of
                     Inl e \<Rightarrow> (Inr (Inl (Invocation e)), drop_unclaimed_hooks code hooks w2)
                   | Inr v \<Rightarrow>
                       (case (role, v) of
                          (Observer, CvObserver) \<Rightarrow> erased_query_loop kinds code E args hooks w2
                        | (Responder, CvResponder None) \<Rightarrow> erased_query_loop kinds code E args hooks w2
                        | (Responder, CvResponder (Some output)) \<Rightarrow>
                            (case downcast (et_output E) output of
                               None \<Rightarrow> (Inl ''Event contract guarantees Responder output type: Any { .. }'', w2)
                             | Some answer \<Rightarrow> (Inr (Inr (Answer answer)), drop_unclaimed_hooks code hooks w2))
                        | _ \<Rightarrow>
                            (Inl ''internal error: entered unreachable code: semantic adapter role determines callback value'', w2))))))"

definition erased_query ::
  "'u event_world kinds \<Rightarrow> (ident, ident, 'u) event_code \<Rightarrow> ident \<Rightarrow> event_type \<Rightarrow> routing \<Rightarrow> ident \<Rightarrow> 'u event_world \<Rightarrow>
   (string + (dispatch_error + ident query_outcome)) \<times> 'u event_world"
where
  "erased_query kinds code membership E r args w =
     (case context_preflight membership E r Query (ew_events w) of
        (Inl e, st) \<Rightarrow> (Inr (Inl e), w\<lparr>ew_events := st\<rparr>)
      | (Inr hooks, st) \<Rightarrow> erased_query_loop kinds code E args hooks (w\<lparr>ew_events := st\<rparr>))"

text \<open>
  \<open>Context::waterfall_query\<close>: the tail asks one query with the same routing and gives the whole
  result, a failure included, to the resolver.  \<open>None\<close>, an \<open>unreachable!\<close> of the query, unwinds
  through the tail, where it is caught.
\<close>

definition query_tail ::
  "('a, 'o, 'u) event_code \<Rightarrow> ident \<Rightarrow> event_type \<Rightarrow> routing \<Rightarrow>
   (dispatch_error + 'o query_outcome \<Rightarrow> 'u event_world \<Rightarrow> 'o call_outcome \<times> 'u event_world) \<Rightarrow>
   'a \<Rightarrow> 'u event_world \<Rightarrow> 'o call_outcome \<times> 'u event_world"
where
  "query_tail code membership Q r resolver args w =
     (case query code membership Q r args w of
        (None, _, w1) \<Rightarrow> (Panicked ''internal error: entered unreachable code'', w1)
      | (Some result, _, w1) \<Rightarrow> resolver result w1)"

definition waterfall_query where
  "waterfall_query code membership E Q r resolver args w =
     waterfall (code\<lparr>code_tail := query_tail code membership Q r resolver\<rparr>) membership E r args w"

end
