(* ===== verification/Listener_Properties.thy ===== *)
theory Listener_Properties
  imports Listener_Adapters
begin

text \<open>
  The erased dispatch computes what the dispatch over typed values computes
  (\<open>crates/cordis-core/src/events/listener.rs\<close>, \<open>dispatch.rs\<close>, \<open>store.rs\<close>): one contract per Event
  name is what makes every downcast succeed.
\<close>

section \<open>What the callbacks compute, typed\<close>

text \<open>One call of a user callback up to its outcome, the panic of the call included.\<close>

definition run_called :: "(('r, 'w) user_future, 'w) called \<Rightarrow> ('r, 'w) user_future" where
  "run_called c w = (case c w of (Inl d, w1) \<Rightarrow> (Panicked d, w1) | (Inr fut, w1) \<Rightarrow> fut w1)"

definition with_fresh :: "('s, 'w) called \<Rightarrow> ('s \<Rightarrow> ('r, 'w) user_future) \<Rightarrow> ('r, 'w) user_future" where
  "with_fresh factory k w = (case factory w of (Inl d, w1) \<Rightarrow> (Panicked d, w1) | (Inr s, w1) \<Rightarrow> k s w1)"

fun run_async :: "('r, 's, 'w) async_callback \<Rightarrow> ctx \<Rightarrow> ident \<Rightarrow> ('r, 'w) user_future" where
  "run_async (PlainAsync f) cx a = run_called (f cx a)"
| "run_async (StatefulAsync factory f) cx a = with_fresh factory (\<lambda>s. run_called (f cx s a))"

fun run_sync :: "('r, 's, 'w) sync_callback \<Rightarrow> ctx \<Rightarrow> ident \<Rightarrow> ('r, 'w) user_future" where
  "run_sync (PlainSync f) cx a = f cx a"
| "run_sync (StatefulSync factory f) cx a = with_fresh factory (\<lambda>s. f cx s a)"

definition run_around_called :: "('w \<Rightarrow> 'w around_run \<times> 'w, 'w) called \<Rightarrow> 'w \<Rightarrow> 'w around_run \<times> 'w" where
  "run_around_called c w = (case c w of (Inl d, w1) \<Rightarrow> (AroundEnds (Panicked d), w1) | (Inr fut, w1) \<Rightarrow> fut w1)"

fun run_around_callback :: "('s, 'w) around_callback \<Rightarrow> ctx \<Rightarrow> ident \<Rightarrow> 'w \<Rightarrow> 'w around_run \<times> 'w" where
  "run_around_callback (PlainAround f) cx a w = run_around_called (f cx a) w"
| "run_around_callback (StatefulAround factory f) cx a w =
     (case factory w of
        (Inl d, w1) \<Rightarrow> (AroundEnds (Panicked d), w1)
      | (Inr s, w1) \<Rightarrow> run_around_called (f cx s a) w1)"

fun around_step_of :: "'u event_world around_run \<Rightarrow> (ident, ident, 'u) around_step" where
  "around_step_of (AroundEnds r) = AroundDone r"
| "around_step_of (AroundCalls a resume) = AroundNext a resume"

fun adapter_role :: "('s, 'w) listener \<Rightarrow> listener_role" where
  "adapter_role (ObserverAsync _) = Observer"
| "adapter_role (ObserverSync _) = Observer"
| "adapter_role (ResponderAsync _) = Responder"
| "adapter_role (ResponderSync _) = Responder"
| "adapter_role (MapperAsync _) = Mapper"
| "adapter_role (MapperSync _) = Mapper"
| "adapter_role (AroundListener _) = Around"

lemma into_hook_role: "kind_role (into_hook E L cx) = adapter_role L"
  by (cases L) simp_all

text \<open>The registered listeners: the Event type, the adapter and the registering Context of each closure.\<close>

type_synonym ('s, 'u) registered = "ident \<Rightarrow> event_type \<times> ('s, 'u event_world) listener \<times> ctx"

definition kinds_of :: "('s, 'u) registered \<Rightarrow> 'u event_world kinds" where
  "kinds_of table i = (case table i of (E, L, cx) \<Rightarrow> into_hook E L cx)"

text \<open>The typed dispatch runs the same callbacks on the same worlds.\<close>

definition typed_code :: "('s, 'u) registered \<Rightarrow> (ident, ident, 'u) event_code \<Rightarrow> (ident, ident, 'u) event_code" where
  "typed_code table code =
     code\<lparr>code_observer := (\<lambda>i a w. case table i of (_, L, cx) \<Rightarrow>
            (case L of ObserverAsync c \<Rightarrow> run_async c cx a w | ObserverSync c \<Rightarrow> run_sync c cx a w
             | _ \<Rightarrow> code_observer code i a w)),
          code_responder := (\<lambda>i a w. case table i of (_, L, cx) \<Rightarrow>
            (case L of ResponderAsync c \<Rightarrow> run_async c cx a w | ResponderSync c \<Rightarrow> run_sync c cx a w
             | _ \<Rightarrow> code_responder code i a w)),
          code_mapper := (\<lambda>i a w. case table i of (_, L, cx) \<Rightarrow>
            (case L of MapperAsync c \<Rightarrow> run_async c cx a w | MapperSync c \<Rightarrow> run_sync c cx a w
             | _ \<Rightarrow> code_mapper code i a w)),
          code_around := (\<lambda>i a w. case table i of (_, L, cx) \<Rightarrow>
            (case L of AroundListener c \<Rightarrow> map_prod around_step_of (\<lambda>w. w) (run_around_callback c cx a w)
             | _ \<Rightarrow> code_around code i a w))\<rparr>"

lemma typed_code_rest [simp]:
  "code_drop (typed_code table code) = code_drop code" "code_drop_value (typed_code table code) = code_drop_value code"
  "code_drop_chain (typed_code table code) = code_drop_chain code" "code_tail (typed_code table code) = code_tail code"
  by (simp_all add: typed_code_def)

section \<open>One erased call\<close>

abbreviation on_value :: "('v \<Rightarrow> 'x) \<Rightarrow> (invocation_failure + 'v) \<times> 'w \<Rightarrow> (invocation_failure + 'x) \<times> 'w" where
  "on_value g \<equiv> map_prod (map_sum (\<lambda>e. e) g) (\<lambda>w. w)"

definition settled_run :: "('r, 'w) user_future \<Rightarrow> 'w \<Rightarrow> (invocation_failure + 'r) \<times> 'w" where
  "settled_run c w = (case c w of (r, w1) \<Rightarrow> (settle_outcome r, w1))"

lemma caught_result:
  "(case erased_result g r of Inl d \<Rightarrow> Inl (failure_panic d) | Inr x \<Rightarrow> x) = map_sum (\<lambda>e. e) g (settle_outcome r)"
  by (cases r) (simp_all add: settle_outcome_def)

lemma caught_awaiting: "caught (Inr (awaiting g fut), w) = on_value g (settled_run fut w)"
  using caught_result [of g]
  by (auto simp: caught_def awaiting_def settled_run_def split: prod.split sum.split) (metis sum.case)+

lemma caught_already: "caught (already g invocation w) = on_value g (settled_run invocation w)"
  using caught_result [of g]
  by (auto simp: caught_def already_def settled_run_def split: prod.split sum.split) (metis sum.case)+

lemma downcast_args_boxed [simp]: "downcast_args E (boxed (et_args E) a) = Inr a"
  by (simp add: downcast_args_def)

lemma caught_call_async:
  "caught (call_async g E f (boxed (et_args E) a) w) = on_value g (settled_run (run_called (f a)) w)"
proof (cases "f a w")
  case (Pair x w1)
  then show ?thesis
    by (cases x) (simp_all add: call_async_def and_then_def caught_awaiting, simp_all add: caught_def settled_run_def run_called_def settle_outcome_def)
qed

lemma caught_call_sync:
  "caught (call_sync g E f (boxed (et_args E) a) w) = on_value g (settled_run (f a) w)"
  by (simp add: call_sync_def caught_already)

text \<open>Every invocation makes its own state; a panic of the factory is one of the callback.\<close>

lemma caught_with_fresh:
  assumes "\<And>s w. caught (k s w) = on_value g (settled_run (h s) w)"
  shows "caught (and_then factory k w) = on_value g (settled_run (with_fresh factory h) w)"
proof (cases "factory w")
  case (Pair x w1)
  then show ?thesis
    using assms
    by (cases x) (simp_all add: and_then_def with_fresh_def settled_run_def, simp add: caught_def settle_outcome_def)
qed

lemmas caught_calls = caught_call_async caught_call_sync caught_with_fresh

lemma observer_async_run:
  "caught (observer_async E c cx (boxed (et_args E) a) w) = on_value (\<lambda>_. CvObserver) (settled_run (run_async c cx a) w)"
  by (cases c) (simp_all add: caught_calls)

lemma observer_sync_run:
  "caught (observer_sync E c cx (boxed (et_args E) a) w) = on_value (\<lambda>_. CvObserver) (settled_run (run_sync c cx a) w)"
  by (cases c) (simp_all add: caught_calls)

lemma responder_async_run:
  "caught (responder_async E c cx (boxed (et_args E) a) w) = on_value (responder_value E) (settled_run (run_async c cx a) w)"
  by (cases c) (simp_all add: caught_calls)

lemma responder_sync_run:
  "caught (responder_sync E c cx (boxed (et_args E) a) w) = on_value (responder_value E) (settled_run (run_sync c cx a) w)"
  by (cases c) (simp_all add: caught_calls)

lemma mapper_async_run:
  "caught (mapper_async E c cx (boxed (et_args E) a) w) = on_value (mapper_value E) (settled_run (run_async c cx a) w)"
  by (cases c) (simp_all add: caught_calls)

lemma mapper_sync_run:
  "caught (mapper_sync E c cx (boxed (et_args E) a) w) = on_value (mapper_value E) (settled_run (run_sync c cx a) w)"
  by (cases c) (simp_all add: caught_calls)

lemmas adapter_runs =
  observer_async_run observer_sync_run responder_async_run responder_sync_run mapper_async_run mapper_sync_run

fun boxed_value :: "event_type \<Rightarrow> (ident, ident) callback_value \<Rightarrow> erased_value" where
  "boxed_value E CvObserver = CvObserver"
| "boxed_value E (CvResponder answer) = responder_value E answer"
| "boxed_value E (CvMapper mapped) = mapper_value E mapped"

lemma settle_map_outcome: "settle_outcome (map_outcome g r) = map_sum (\<lambda>e. e) g (settle_outcome r)"
  by (cases r) (simp_all add: settle_outcome_def)

lemma settled_map:
  "on_value (boxed_value E) (settled_run (\<lambda>w. map_prod (map_outcome v) (\<lambda>w. w) (f w)) w) =
   on_value (\<lambda>x. boxed_value E (v x)) (settled_run f w)"
  by (simp add: settled_run_def settle_map_outcome sum.map_comp comp_def split: prod.split)

lemma caught_plain:
  assumes t: "table i = (E, L, cx)" and k: "kinds_of table i = PlainHook role callback"
  shows "role = adapter_role L"
    and "caught (callback (boxed (et_args E) a) w) =
      on_value (boxed_value E) (settled_run (erased_call (typed_code table code) role i a) w)"
proof -
  have i: "into_hook E L cx = PlainHook role callback" using t k by (simp add: kinds_of_def)
  then show "role = adapter_role L" by (cases L) auto
  from i t show "caught (callback (boxed (et_args E) a) w) =
      on_value (boxed_value E) (settled_run (erased_call (typed_code table code) role i a) w)"
    by (cases L) (auto simp: erased_call_def [abs_def] settled_map adapter_runs typed_code_def)
qed

text \<open>The destruction of a callback does not look at the value.\<close>

lemma drop_callback_value_map:
  "drop_callback_contained code i (map_sum (\<lambda>e. e) g r) w = on_value g (drop_callback_contained code i r w)"
  by (cases r) (auto simp: drop_callback_contained_def split: prod.splits option.splits)

lemma drop_callback_typed [simp]:
  "drop_callback_contained (typed_code table code) i r w = drop_callback_contained code i r w"
  by (simp add: drop_callback_contained_def split: prod.split option.split sum.split)

lemma correlated_map: "correlated i (map_sum (\<lambda>e. e) g r) = map_sum (\<lambda>e. e) g (correlated i r)"
  by (cases r) (simp_all add: correlated_def)

lemma invoke_plain_erased:
  assumes "table i = (E, L, cx)" and "kinds_of table i = PlainHook role callback"
  shows "invoke_and_drop code i (callback (boxed (et_args E) a) w) =
    on_value (boxed_value E) (invoke_plain (typed_code table code) role i a w)"
proof -
  obtain r w1 where e: "erased_call (typed_code table code) role i a w = (r, w1)" by (cases "erased_call (typed_code table code) role i a w")
  show ?thesis
    by (simp add: invoke_and_drop_def caught_plain(2) [OF assms, where code = code] settled_run_def invoke_plain_def e drop_callback_value_map)
qed

text \<open>
  A continuation of erased code stands for a typed one when it takes the boxed arguments to the
  boxed output, without a panic.
\<close>

definition stands_for :: "event_type \<Rightarrow> 'u event_world next_fn \<Rightarrow> (ident, ident, 'u) chain \<Rightarrow> bool" where
  "stands_for E inner down \<longleftrightarrow>
     (\<forall>a w. \<exists>r tr w'. down a w = (Some r, tr, w') \<and>
        inner (boxed (et_args E) a) w = (Inr (map_sum (\<lambda>e. e) (boxed (et_output E)) r), w'))"

lemma next_call_typed:
  assumes "stands_for E inner down"
  shows "\<exists>r tr w'. down a w = (Some r, tr, w') \<and> next_call E inner a w = (Inr r, w')"
proof -
  obtain r tr w' where d: "down a w = (Some r, tr, w')"
    and i: "inner (boxed (et_args E) a) w = (Inr (map_sum (\<lambda>e. e) (boxed (et_output E)) r), w')"
    using assms unfolding stands_for_def by metis
  then show ?thesis by (cases r) (simp_all add: next_call_def)
qed

text \<open>The typed Around invocation from the run of its callback on.\<close>

definition finish_around ::
  "(ident, ident, 'u) chain \<Rightarrow> 'u event_world around_run \<times> 'u event_world \<Rightarrow> (invocation_failure + ident) \<times> 'u event_world"
where
  "finish_around down step =
     (case step of
        (AroundEnds r, w1) \<Rightarrow> (settle_outcome r, w1)
      | (AroundCalls a resume, w1) \<Rightarrow>
          (case down a w1 of (inner, _, w2) \<Rightarrow> (case resume (the inner) w2 of (r, w3) \<Rightarrow> (settle_outcome r, w3))))"

lemma caught_future:
  assumes "stands_for E inner down"
  shows "caught (Inr (around_future E inner fut), w) = on_value (boxed (et_output E)) (finish_around down (fut w))"
proof -
  obtain step w1 where f: "fut w = (step, w1)" by (cases "fut w")
  show ?thesis
  proof (cases step)
    case (AroundEnds r)
    with f caught_result [of "boxed (et_output E)" r] show ?thesis
      by (simp add: caught_def around_future_def finish_around_def split: sum.splits)
  next
    case (AroundCalls a resume)
    obtain r tr w2 where d: "down a w1 = (Some r, tr, w2)" and n: "next_call E inner a w1 = (Inr r, w2)"
      using next_call_typed [OF assms] by blast
    obtain x w3 where r: "resume r w2 = (x, w3)" by (cases "resume r w2")
    from f AroundCalls d n r caught_result [of "boxed (et_output E)" x] show ?thesis
      by (simp add: caught_def around_future_def finish_around_def split: sum.splits)
  qed
qed

lemma caught_call_around:
  assumes "stands_for E inner down"
  shows "caught (call_around E f (boxed (et_args E) a) inner w) =
    on_value (boxed (et_output E)) (finish_around down (run_around_called (f a) w))"
proof (cases "f a w")
  case (Pair x w1)
  then show ?thesis
    by (cases x) (simp_all add: call_around_def and_then_def run_around_called_def caught_future [OF assms],
      simp add: caught_def finish_around_def settle_outcome_def)
qed

lemma around_erase_run:
  assumes "stands_for E inner down"
  shows "caught (around_erase E c cx (boxed (et_args E) a) inner w) =
    on_value (boxed (et_output E)) (finish_around down (run_around_callback c cx a w))"
proof (cases c)
  case (PlainAround f)
  then show ?thesis by (simp add: caught_call_around [OF assms])
next
  case (StatefulAround factory f)
  obtain s w1 where "factory w = (s, w1)" by (cases "factory w")
  with StatefulAround show ?thesis
    by (cases s) (simp_all add: and_then_def caught_call_around [OF assms], simp add: caught_def finish_around_def settle_outcome_def)
qed

lemma run_around_typed:
  assumes t: "table i = (E, AroundListener c, cx)" and down: "\<And>a w. \<exists>r tr w'. down a w = (Some r, tr, w')"
    and f: "finish_around down (run_around_callback c cx a w) = (r, w1)"
  shows "\<exists>tr. run_around (typed_code table code) i down a w =
    (case drop_callback_contained code i r w1 of (r', w2) \<Rightarrow> (Some r', tr, w2))"
proof -
  obtain step w2 where s: "run_around_callback c cx a w = (step, w2)" by (cases "run_around_callback c cx a w")
  have code: "code_around (typed_code table code) i a w = (around_step_of step, w2)" by (simp add: typed_code_def t s)
  show ?thesis
  proof (cases step)
    case (AroundEnds x)
    with f s code show ?thesis by (auto simp: run_around_def finish_around_def split: prod.split)
  next
    case (AroundCalls b resume)
    obtain x tr w3 where "down b w2 = (Some x, tr, w3)" using down by blast
    with f s code AroundCalls show ?thesis by (auto simp: run_around_def finish_around_def split: prod.splits)
  qed
qed

lemma invoke_around_erased:
  assumes t: "table i = (E, L, cx)" and k: "kinds_of table i = AroundHook callback" and down: "stands_for E inner down"
  shows "\<exists>r tr w'. run_around (typed_code table code) i down a w = (Some r, tr, w') \<and>
    invoke_and_drop code i (callback (boxed (et_args E) a) inner w) = (map_sum (\<lambda>e. e) (boxed (et_output E)) r, w')"
proof -
  from t k obtain c where L: "L = AroundListener c" and cb: "callback = around_erase E c cx"
    by (cases L) (auto simp: kinds_of_def)
  obtain r w1 where f: "finish_around down (run_around_callback c cx a w) = (r, w1)"
    by (cases "finish_around down (run_around_callback c cx a w)")
  have some: "\<exists>r tr w'. down a w = (Some r, tr, w')" for a w using down unfolding stands_for_def by blast
  obtain tr where run: "run_around (typed_code table code) i down a w =
      (case drop_callback_contained code i r w1 of (r', w2) \<Rightarrow> (Some r', tr, w2))"
    using run_around_typed [where table = table and down = down, OF t [unfolded L] some f] by blast
  obtain r' w2 where d: "drop_callback_contained code i r w1 = (r', w2)" by (cases "drop_callback_contained code i r w1")
  have "invoke_and_drop code i (callback (boxed (et_args E) a) inner w) = (map_sum (\<lambda>e. e) (boxed (et_output E)) r', w2)"
    by (simp add: invoke_and_drop_def cb around_erase_run [OF down] f drop_callback_value_map d)
  with run d show ?thesis by simp
qed

section \<open>The dispatch loops\<close>

definition typed_hook :: "('s, 'u) registered \<Rightarrow> event_type \<Rightarrow> hook_snap \<Rightarrow> bool" where
  "typed_hook table E h \<longleftrightarrow>
     (case table (hs_callback h) of (E', L, cx) \<Rightarrow> contract_of E' = contract_of E \<and> adapter_role L = hs_role h)"

lemma typed_hookE:
  assumes "typed_hook table E h"
  obtains E' L cx where "table (hs_callback h) = (E', L, cx)" "et_args E' = et_args E" "et_output E' = et_output E"
    "adapter_role L = hs_role h" "kind_role (kinds_of table (hs_callback h)) = hs_role h"
  using assms unfolding typed_hook_def kinds_of_def
  by (cases "table (hs_callback h)") (auto simp: contract_of_def into_hook_role)

lemma stands_for_contract: "et_args E' = et_args E \<Longrightarrow> et_output E' = et_output E \<Longrightarrow> stands_for E' = stands_for E"
  by (simp add: stands_for_def fun_eq_iff)

lemma boxed_value_contract: "et_args E' = et_args E \<Longrightarrow> et_output E' = et_output E \<Longrightarrow> boxed_value E' v = boxed_value E v"
  by (cases v) (simp_all add: responder_value_def mapper_value_def)

text \<open>One claimed plain registration: the erased invocation is the typed one, boxed.\<close>

lemma invoke_listener_erased:
  assumes h: "typed_hook table E h" and k: "kinds_of table (hs_callback h) = PlainHook role callback"
  shows "role = hs_role h"
    and "(case invoke_and_drop code (hs_callback h) (callback (boxed (et_args E) a) w) of (r, w1) \<Rightarrow> (correlated (hs_id h) r, w1)) =
      on_value (boxed_value E) (invoke_listener (typed_code table code) h a w)"
proof -
  from h obtain E' L cx where t: "table (hs_callback h) = (E', L, cx)" and e: "et_args E' = et_args E" "et_output E' = et_output E"
    and r: "kind_role (kinds_of table (hs_callback h)) = hs_role h" by (rule typed_hookE)
  from r k show role: "role = hs_role h" by simp
  obtain x w1 where i: "invoke_plain (typed_code table code) (hs_role h) (hs_callback h) a w = (x, w1)"
    by (cases "invoke_plain (typed_code table code) (hs_role h) (hs_callback h) a w")
  have "boxed_value E' = boxed_value E" by (rule ext) (rule boxed_value_contract [OF e])
  with invoke_plain_erased [OF t k, where code = code and a = a and w = w] e i role
  show "(case invoke_and_drop code (hs_callback h) (callback (boxed (et_args E) a) w) of (r, w1) \<Rightarrow> (correlated (hs_id h) r, w1)) =
      on_value (boxed_value E) (invoke_listener (typed_code table code) h a w)"
    by (simp add: invoke_listener_def correlated_map)
qed

lemma drop_unclaimed_typed [simp]: "drop_unclaimed_hooks (typed_code table code) = drop_unclaimed_hooks code"
  by (simp add: drop_unclaimed_hooks_def fun_eq_iff)

lemma erased_tail_stands: "stands_for E (erased_tail code E) (tail_next code)"
  unfolding stands_for_def
proof (intro allI)
  fix a w
  obtain r w1 where t: "code_tail code a w = (r, w1)" by (cases "code_tail code a w")
  show "\<exists>r tr w'. tail_next code a w = (Some r, tr, w') \<and>
      erased_tail code E (boxed (et_args E) a) w = (Inr (map_sum (\<lambda>e. e) (boxed (et_output E)) r), w')"
    by (cases r) (auto simp: tail_next_def erased_tail_def t normalize_returned_def failure_returned_def split: user_error.split)
qed

lemma erased_chain_stands:
  assumes "list_all (\<lambda>h. typed_hook table E h \<and> compatible Waterfall (hs_role h)) hooks"
  shows "stands_for E (erased_chain (kinds_of table) code E hooks) (waterfall_chain (typed_code table code) (et_name E) hooks)"
  using assms
proof (induction hooks)
  case Nil
  have "tail_next (typed_code table code) = tail_next code" by (simp add: tail_next_def fun_eq_iff)
  with erased_tail_stands [of E code] show ?case by (simp add: stands_for_def)
next
  case (Cons h hooks)
  let ?tc = "typed_code table code"
  let ?down = "waterfall_chain ?tc (et_name E) hooks" and ?inner = "erased_chain (kinds_of table) code E hooks"
  from Cons have h: "typed_hook table E h" and role: "hs_role h = Mapper \<or> hs_role h = Around" and ih: "stands_for E ?inner ?down" by auto
  from h obtain E' L cx where t: "table (hs_callback h) = (E', L, cx)" and e: "et_args E' = et_args E" "et_output E' = et_output E"
    and kr: "kind_role (kinds_of table (hs_callback h)) = hs_role h" by (rule typed_hookE)
  have tail: "\<exists>r tr w'. ?down a w = (Some r, tr, w') \<and> ?inner (boxed (et_args E) a) w = (Inr (map_sum (\<lambda>e. e) (boxed (et_output E)) r), w')"
    for a w using ih unfolding stands_for_def by blast
  have "\<exists>r tr w'. waterfall_chain ?tc (et_name E) (h # hooks) a w = (Some r, tr, w') \<and>
      erased_chain (kinds_of table) code E (h # hooks) (boxed (et_args E) a) w = (Inr (map_sum (\<lambda>e. e) (boxed (et_output E)) r), w')" for a w
  proof -
    obtain claimed w1 where c: "claim_hook (et_name E) h w = (claimed, w1)" by (cases "claim_hook (et_name E) h w")
    show ?thesis
    proof (cases claimed)
      case False
      obtain r tr w2 where "?down a (drop_unclaimed_hooks code [h] w1) = (Some r, tr, w2)"
        "?inner (boxed (et_args E) a) (drop_unclaimed_hooks code [h] w1) = (Inr (map_sum (\<lambda>e. e) (boxed (et_output E)) r), w2)"
        using tail by blast
      with c False show ?thesis by simp
    next
      case True
      show ?thesis
      proof (cases "kinds_of table (hs_callback h)")
        case (AroundHook callback)
        then have around: "hs_role h = Around" using kr by simp
        have ih': "stands_for E' ?inner ?down" by (simp add: stands_for_contract [OF e] ih)
        obtain r tr w2 where "run_around ?tc (hs_callback h) ?down a w1 = (Some r, tr, w2)"
          "invoke_and_drop code (hs_callback h) (callback (boxed (et_args E) a) ?inner w1) = (map_sum (\<lambda>e. e) (boxed (et_output E)) r, w2)"
          using invoke_around_erased [OF t AroundHook ih', of code a w1] e by auto
        with c True AroundHook around show ?thesis by (simp add: correlated_map)
      next
        case (PlainHook role' callback)
        note inv = invoke_listener_erased(2) [OF h PlainHook, where code = code and a = a and w = w1]
        have mapper: "hs_role h = Mapper" using role kr PlainHook into_hook_role by (cases L) (auto simp: kinds_of_def t)
        obtain x w2 where x: "invoke_listener ?tc h a w1 = (x, w2)" by (cases "invoke_listener ?tc h a w1")
        obtain y w3 where y: "invoke_and_drop code (hs_callback h) (callback (boxed (et_args E) a) w1) = (y, w3)"
          by (cases "invoke_and_drop code (hs_callback h) (callback (boxed (et_args E) a) w1)")
        from inv x y have xy: "correlated (hs_id h) y = map_sum (\<lambda>e. e) (boxed_value E) x" "w3 = w2" by simp_all
        show ?thesis
        proof (cases x)
          case (Inl failure)
          with c True PlainHook mapper x y xy show ?thesis by (simp split: prod.split)
        next
          case (Inr v)
          from invoke_listener_value(3) [of ?tc h a w1 v w2] x Inr mapper obtain m where v: "v = CvMapper m" by auto
          obtain r tr w4 where "?down m w2 = (Some r, tr, w4)" "?inner (boxed (et_args E) m) w2 = (Inr (map_sum (\<lambda>e. e) (boxed (et_output E)) r), w4)"
            using tail by blast
          with c True PlainHook mapper x y xy Inr v show ?thesis by (simp add: mapper_value_def)
        qed
      qed
    qed
  qed
  then show ?case unfolding stands_for_def by blast
qed

lemma erased_query_loop_typed:
  assumes "list_all (\<lambda>h. typed_hook table E h \<and> compatible Query (hs_role h)) hooks"
  shows "\<exists>r tr w'. query_loop (typed_code table code) (et_name E) a hooks w = (Some r, tr, w') \<and>
    erased_query_loop (kinds_of table) code E a hooks w = (Inr r, w')"
  using assms
proof (induction hooks arbitrary: w)
  case (Cons h hooks)
  let ?tc = "typed_code table code"
  from Cons.prems have h: "typed_hook table E h" and role: "hs_role h = Observer \<or> hs_role h = Responder" by auto
  have ih: "\<exists>r tr w'. query_loop ?tc (et_name E) a hooks w = (Some r, tr, w') \<and>
      erased_query_loop (kinds_of table) code E a hooks w = (Inr r, w')" for w using Cons by simp
  obtain claimed w1 where c: "claim_hook (et_name E) h w = (claimed, w1)" by (cases "claim_hook (et_name E) h w")
  show ?case
  proof (cases claimed)
    case False
    obtain r tr w2 where "query_loop ?tc (et_name E) a hooks (drop_unclaimed_hooks code [h] w1) = (Some r, tr, w2)"
      "erased_query_loop (kinds_of table) code E a hooks (drop_unclaimed_hooks code [h] w1) = (Inr r, w2)" using ih by blast
    with c False show ?thesis by simp
  next
    case True
    from h obtain E' L cx where kr: "kind_role (kinds_of table (hs_callback h)) = hs_role h" by (rule typed_hookE)
    with role obtain callback where k: "kinds_of table (hs_callback h) = PlainHook (hs_role h) callback"
      by (cases "kinds_of table (hs_callback h)") auto
    note inv = invoke_listener_erased(2) [OF h k, where code = code and a = a and w = w1]
    obtain x w2 where x: "invoke_listener ?tc h a w1 = (x, w2)" by (cases "invoke_listener ?tc h a w1")
    obtain y w3 where y: "invoke_and_drop code (hs_callback h) (callback (boxed (et_args E) a) w1) = (y, w3)"
      by (cases "invoke_and_drop code (hs_callback h) (callback (boxed (et_args E) a) w1)")
    from inv x y have xy: "correlated (hs_id h) y = map_sum (\<lambda>e. e) (boxed_value E) x" "w3 = w2" by simp_all
    obtain r tr w4 where tail: "query_loop ?tc (et_name E) a hooks w2 = (Some r, tr, w4)"
      "erased_query_loop (kinds_of table) code E a hooks w2 = (Inr r, w4)" using ih by blast
    show ?thesis
    proof (cases x)
      case (Inl failure)
      with c True k role x y xy show ?thesis by auto
    next
      case (Inr v)
      from role show ?thesis
      proof
        assume observer: "hs_role h = Observer"
        with invoke_listener_value(1) [of ?tc h a w1 v w2] x Inr have "v = CvObserver" by simp
        with c True k observer x y xy Inr tail show ?thesis by simp
      next
        assume responder: "hs_role h = Responder"
        with invoke_listener_value(2) [of ?tc h a w1 v w2] x Inr obtain answer where "v = CvResponder answer" by auto
        with c True k responder x y xy Inr tail show ?thesis by (cases answer) (simp_all add: responder_value_def)
      qed
    qed
  qed
qed simp

section \<open>A store built by registrations is typed\<close>

text \<open>
  What happens to a store: registrations of adapted listeners, removals, claims and preflights.
  \<open>n\<close> bounds the identities handed out.
\<close>

inductive listener_history :: "('s, 'u) registered \<Rightarrow> ident \<Rightarrow> event_state \<Rightarrow> bool" for table where
  history_new: "listener_history table 0 event_store_new"
| history_registered: "listener_history table n st \<Longrightarrow> table callback = (E, L, cx) \<Longrightarrow>
    register_listener cx E (kind_role (into_hook E L cx)) callback options n f0 (f, st) = (r, (f', st'), obs) \<Longrightarrow>
    listener_history table (Suc n) st'"
| history_removed: "listener_history table n st \<Longrightarrow> event_remove name i st = (removed, st') \<Longrightarrow> listener_history table n st'"
| history_claimed: "listener_history table n st \<Longrightarrow> event_claim name i st = (r, st') \<Longrightarrow> listener_history table n st'"
| history_preflight: "listener_history table n st \<Longrightarrow> context_preflight membership E routing op st = (r, st') \<Longrightarrow>
    listener_history table n st'"

definition typed_in :: "('s, 'u) registered \<Rightarrow> event_state \<Rightarrow> string \<Rightarrow> hook \<Rightarrow> bool" where
  "typed_in table st name h \<longleftrightarrow>
     (case table (hk_callback h) of (E, L, cx) \<Rightarrow>
        et_name E = name \<and> map_of (ev_contracts st) name = Some (contract_of E) \<and> adapter_role L = hk_role h)"

definition typed_store :: "('s, 'u) registered \<Rightarrow> ident \<Rightarrow> event_state \<Rightarrow> bool" where
  "typed_store table n st \<longleftrightarrow> event_wf n st \<and> (\<forall>name. \<forall>h \<in> set (listeners st name). typed_in table st name h)"

text \<open>A name keeps its contract.\<close>

lemma typed_store_keep:
  assumes "typed_store table n st" and "event_wf m st'" and "\<And>name. set (listeners st' name) \<subseteq> set (listeners st name)"
    and "\<And>name c. map_of (ev_contracts st) name = Some c \<Longrightarrow> map_of (ev_contracts st') name = Some c"
  shows "typed_store table m st'"
  using assms unfolding typed_store_def typed_in_def by (fastforce split: prod.splits)

lemma event_remove_contracts: "event_remove name i st = (removed, st') \<Longrightarrow> ev_contracts st' = ev_contracts st"
  by (auto simp: event_remove_def keep_hooks_def put_hooks_def split: option.splits prod.splits if_splits)

lemma typed_removed:
  assumes "typed_store table n st" and r: "event_remove name i st = (removed, st')"
  shows "typed_store table n st'"
proof -
  from assms(1) have wf: "event_wf n st" by (simp add: typed_store_def)
  show ?thesis
    using assms(1) event_remove_listeners(2,3) [OF wf r] event_remove_contracts [OF r]
    by (auto elim!: typed_store_keep split: if_splits)
qed

lemma typed_claimed:
  assumes t: "typed_store table n st" and c: "event_claim name i st = (r, st')"
  shows "typed_store table n st'"
proof -
  from t have wf: "event_wf n st" by (simp add: typed_store_def)
  from c event_claim_cases [OF wf, of name i] have "st' = st \<or> st' = snd (event_remove name i st)"
    by (auto split: option.splits if_splits)
  with t typed_removed [OF t] show ?thesis by (metis prod.collapse)
qed

lemma bind_keeps:
  "bind_locked E st = Some st' \<Longrightarrow> map_of (ev_contracts st) name = Some c \<Longrightarrow> map_of (ev_contracts st') name = Some c"
  by (auto simp: bind_locked_def split: option.splits if_splits)

lemma preflight_store:
  assumes wf: "event_wf n st" and p: "context_preflight membership E routing op st = (r, st')"
  shows "event_wf n st' \<and> (\<forall>name c. map_of (ev_contracts st) name = Some c \<longrightarrow> map_of (ev_contracts st') name = Some c)"
proof (cases "st' = st")
  case False
  with p have s: "store_preflight E routing op st = (r, st')" by (auto simp: context_preflight_def split: routing.splits if_splits)
  with False obtain st1 where b: "bind_locked E st = Some st1" by (auto simp: store_preflight_def split: option.splits)
  have wf1: "event_wf n st1" using wf bind_locked_hooks [OF b] by (simp add: event_wf_def)
  show ?thesis
  proof (cases "hooks_of st1 (et_name E)")
    case None
    with s b wf1 bind_keeps [OF b] show ?thesis by (simp add: store_preflight_def)
  next
    case (Some eh)
    with s b have st': "st' = put_hooks (et_name E) (hooks_compact_if_sparse eh) st1"
      by (auto simp: store_preflight_def Let_def split: option.splits)
    have "hooks_wf n (hooks_compact_if_sparse eh)" "eh_entries eh \<noteq> []"
      using Some wf1 hooks_wf_compact unfolding event_wf_def by blast+
    with wf1 have "event_wf n st'" by (simp add: st' event_wf_def)
    with bind_keeps [OF b] show ?thesis by (simp add: st' put_hooks_def)
  qed
qed (simp add: wf)

lemma preflight_listeners: "context_preflight membership E routing op st = (r, st') \<Longrightarrow> listeners st' = listeners st"
  using preflight_selects_reachable [where st = st and membership = membership and E = E and r = routing and op = op] by (simp add: Let_def)

lemma typed_preflight:
  assumes t: "typed_store table n st" and p: "context_preflight membership E routing op st = (r, st')"
  shows "typed_store table n st'"
proof -
  from t have wf: "event_wf n st" by (simp add: typed_store_def)
  show ?thesis using t preflight_store [OF wf p] preflight_listeners [OF p] by (auto elim!: typed_store_keep)
qed

lemma add_reserved_refused: "add_reserved E h st = (False, st') \<Longrightarrow> st' = st"
  by (simp add: add_reserved_def split: option.splits)

lemma typed_registered:
  assumes t: "typed_store table n st" and callback: "table callback = (E, L, cx)"
    and r: "register_listener cx E (kind_role (into_hook E L cx)) callback options n f0 (f, st) = (r, (f', st'), obs)"
  shows "typed_store table (Suc n) st'"
proof -
  let ?h = "hook_new cx (adapter_role L) callback options n"
  from t have wf: "event_wf n st" by (simp add: typed_store_def)
  have "event_wf (Suc n) st" using wf hooks_wf_mono [of n _ "Suc n"] by (auto simp: event_wf_def)
  with t have same: "typed_store table (Suc n) st" by (simp add: typed_store_def)
  have id_h: "hk_id ?h = n" "hk_callback ?h = callback" "hk_role ?h = adapter_role L" by (simp_all add: hook_new_def)
  have "st' = st \<or> add_reserved E ?h st = (True, st')"
    using r by (auto simp: register_listener_def into_hook_role Let_def push_gated_def lift_publish_def put_fst_def
        split: sum.splits prod.splits bool.splits gated_publish_error.splits if_splits dest: add_reserved_refused)
  then show ?thesis
  proof
    assume add: "add_reserved E ?h st = (True, st')"
    then obtain st1 where b: "bind_locked E st = Some st1" by (auto simp: add_reserved_def split: option.splits)
    note l = add_reserved_listeners [OF wf _ add, unfolded id_h, OF order_refl]
    have "typed_in table st' name h" if "h \<in> set (listeners st' name)" for name h
    proof (cases "h = ?h \<and> name = et_name E")
      case True
      with l(3) callback id_h show ?thesis by (simp add: typed_in_def)
    next
      case False
      with that l(1) have "h \<in> set (listeners st name)" by (auto split: if_splits)
      with t have "typed_in table st name h" by (simp add: typed_store_def)
      moreover have "map_of (ev_contracts st') name = Some c" if "map_of (ev_contracts st) name = Some c" for c
        using bind_keeps [OF b that] bind_locked_contract [OF b] l(3) by (simp split: if_splits)
      ultimately show ?thesis by (auto simp: typed_in_def split: prod.splits)
    qed
    with l(2) show ?thesis by (simp add: typed_store_def)
  qed (simp add: same)
qed

lemma history_typed: "listener_history table n st \<Longrightarrow> typed_store table n st"
proof (induction rule: listener_history.induct)
  case history_new
  have "listeners event_store_new name = []" for name by (simp add: listeners_def hooks_of_def event_store_new_def)
  then show ?case by (simp add: typed_store_def event_wf_new)
qed (blast intro: typed_registered typed_removed typed_claimed typed_preflight)+

lemma preflight_typed:
  assumes t: "typed_store table n st" and p: "context_preflight membership E routing op st = (Inr hooks, st')"
  shows "list_all (\<lambda>h. typed_hook table E h \<and> compatible op (hs_role h)) hooks"
proof -
  let ?selected = "filter (eligible routing) (listeners st (et_name E))"
  have bound: "map_of (ev_contracts st) (et_name E) \<in> {None, Some (contract_of E)}"
    and hooks: "hooks = map hook_snap_of ?selected" and ok: "filter (\<lambda>h. \<not> compatible op (hk_role h)) ?selected = []"
    using preflight_selects_reachable [where st = st and membership = membership and E = E and r = routing and op = op]
    by (auto simp: p Let_def split: if_splits list.splits bool.splits routing.splits)
  have "typed_hook table E (hook_snap_of h) \<and> compatible op (hs_role (hook_snap_of h))" if h: "h \<in> set ?selected" for h
  proof -
    have "typed_in table st (et_name E) h" using t h by (simp add: typed_store_def)
    with bound have "typed_hook table E (hook_snap_of h)"
      by (auto simp: typed_in_def typed_hook_def hook_snap_of_def split: prod.splits)
    moreover have "compatible op (hk_role h)" using ok h by (simp add: filter_empty_conv)
    ultimately show ?thesis by (simp add: hook_snap_of_def)
  qed
  then show ?thesis by (simp add: hooks list_all_iff)
qed

text \<open>
  C36: The downcasts of the Event system never fail.  On a store that registrations, removals, claims
  and preflights built, a waterfall and a query over erased closures and boxed payloads return
  what the same dispatch over typed values returns and leave the same world: no \<open>expect\<close> on a
  payload type and no \<open>unreachable!\<close> on a role is reached, whatever the callbacks do, for
  asynchronous and synchronous listeners, with and without invocation-local state.
\<close>

theorem erased_dispatch_refines:
  assumes "listener_history table n (ew_events w)"
  shows "(\<exists>r tr w'. waterfall_inner (typed_code table code) membership E routing args w = (Some r, tr, w') \<and>
      erased_waterfall (kinds_of table) code membership E routing args w = (Inr r, w')) \<and>
    (\<exists>r tr w'. query_inner (typed_code table code) membership E routing args w = (Some r, tr, w') \<and>
      erased_query (kinds_of table) code membership E routing args w = (Inr r, w'))"
proof
  note typed = history_typed [OF assms]
  obtain x st where p: "context_preflight membership E routing Waterfall (ew_events w) = (x, st)"
    by (cases "context_preflight membership E routing Waterfall (ew_events w)")
  show "\<exists>r tr w'. waterfall_inner (typed_code table code) membership E routing args w = (Some r, tr, w') \<and>
      erased_waterfall (kinds_of table) code membership E routing args w = (Inr r, w')"
  proof (cases x)
    case (Inr hooks)
    with p preflight_typed [OF typed] have "stands_for E (erased_chain (kinds_of table) code E hooks) (waterfall_chain (typed_code table code) (et_name E) hooks)"
      by (blast intro: erased_chain_stands)
    then obtain r tr w1 where "waterfall_chain (typed_code table code) (et_name E) hooks args (w\<lparr>ew_events := st\<rparr>) = (Some r, tr, w1)"
      "erased_chain (kinds_of table) code E hooks (boxed (et_args E) args) (w\<lparr>ew_events := st\<rparr>) = (Inr (map_sum (\<lambda>e. e) (boxed (et_output E)) r), w1)"
      unfolding stands_for_def by blast
    with p Inr show ?thesis by (cases r) (simp_all add: waterfall_inner_def erased_waterfall_def)
  qed (simp add: p waterfall_inner_def erased_waterfall_def)
next
  note typed = history_typed [OF assms]
  obtain x st where p: "context_preflight membership E routing Query (ew_events w) = (x, st)"
    by (cases "context_preflight membership E routing Query (ew_events w)")
  show "\<exists>r tr w'. query_inner (typed_code table code) membership E routing args w = (Some r, tr, w') \<and>
      erased_query (kinds_of table) code membership E routing args w = (Inr r, w')"
  proof (cases x)
    case (Inr hooks)
    with p preflight_typed [OF typed] have "list_all (\<lambda>h. typed_hook table E h \<and> compatible Query (hs_role h)) hooks" by blast
    from erased_query_loop_typed [OF this] p Inr show ?thesis by (simp add: query_inner_def erased_query_def)
  qed (simp add: p query_inner_def erased_query_def)
qed

text \<open>A stateful Mapper before an Around listener, both registered through the gate of the Root.\<close>

definition adapter_table :: "(ident, nat) registered" where
  "adapter_table i =
     (demo_event,
      if i = 7
      then MapperAsync (StatefulAsync (\<lambda>w. (Inr (ew_user w), w\<lparr>ew_user := Suc (ew_user w)\<rparr>))
             (\<lambda>_ state args w. (Inr (\<lambda>w. (Returned (args + state), w)), w)))
      else AroundListener (PlainAround (\<lambda>_ args w. (Inr (\<lambda>w. (AroundCalls (2 * args) (\<lambda>answer w.
             (case answer of Inr v \<Rightarrow> Returned (v + 100) | Inl e \<Rightarrow> Errored (PassedOn e), w)), w)), w))),
      \<lparr>cx_fiber = 0, cx_isolate = None, cx_scope = None, cx_intercept = None\<rparr>)"

definition adapter_register :: "ident \<Rightarrow> ident \<Rightarrow> event_state \<Rightarrow> event_state" where
  "adapter_register callback i st =
     (case adapter_table callback of (E, L, cx) \<Rightarrow>
        snd (fst (snd (register_listener cx E (kind_role (into_hook E L cx)) callback
          \<lparr>lo_prepend = False, lo_global = False, lo_once = False\<rparr> i fiber_root (fiber_root, st)))))"

definition adapter_world :: "nat event_world" where
  "adapter_world = \<lparr>ew_events = adapter_register 8 1 (adapter_register 7 0 event_store_new), ew_observed = [], ew_user = 5\<rparr>"

definition adapter_code :: "(ident, ident, nat) event_code" where
  "adapter_code =
     \<lparr>code_observer = (\<lambda>_ _ w. (Returned (), w)), code_responder = (\<lambda>_ x w. (Returned (Some x), w)),
      code_mapper = (\<lambda>_ x w. (Returned x, w)), code_around = (\<lambda>_ _ w. (AroundDone (Returned 0), w)),
      code_drop = (\<lambda>_ w. (None, w)), code_drop_value = (\<lambda>w. (None, w)), code_drop_chain = (\<lambda>_ w. ([], w)),
      code_tail = (\<lambda>x w. (Returned (x + 1), w)), code_join = (\<lambda>_ _ w. ([], w))\<rparr>"

lemma adapter_register_history:
  assumes "listener_history adapter_table i st"
  shows "listener_history adapter_table (Suc i) (adapter_register callback i st)"
proof -
  obtain E L cx where t: "adapter_table callback = (E, L, cx)" by (metis prod.exhaust)
  let ?run = "register_listener cx E (kind_role (into_hook E L cx)) callback
          \<lparr>lo_prepend = False, lo_global = False, lo_once = False\<rparr> i fiber_root (fiber_root, st)"
  obtain r f' st' obs where run: "?run = (r, (f', st'), obs)" by (metis prod.exhaust)
  with history_registered [OF assms t run] t show ?thesis by (simp add: adapter_register_def)
qed

theorem erased_dispatch_refines_witness:
  "fst (erased_waterfall (kinds_of adapter_table) adapter_code 0 demo_event Unscoped 3 adapter_world) = Inr (Inr 117)"
proof -
  have "listener_history adapter_table 2 (ew_events adapter_world)"
    using adapter_register_history [OF adapter_register_history [OF history_new], of 8 7]
    by (simp add: adapter_world_def numeral_2_eq_2)
  from erased_dispatch_refines [OF this, of adapter_code 0 demo_event Unscoped 3]
  obtain r tr w' where "waterfall_inner (typed_code adapter_table adapter_code) 0 demo_event Unscoped 3 adapter_world = (Some r, tr, w')"
    and e: "erased_waterfall (kinds_of adapter_table) adapter_code 0 demo_event Unscoped 3 adapter_world = (Inr r, w')" by blast
  moreover have "fst (waterfall_inner (typed_code adapter_table adapter_code) 0 demo_event Unscoped 3 adapter_world) = Some (Inr 117)"
    by code_simp
  ultimately show ?thesis by simp
qed

end
