(* ===== verification/Drain_Barrier.thy ===== *)
theory Drain_Barrier
  imports Effect_Journal
begin

text \<open>
  The drain of a closed generation as its tasks see it (\<open>crates/cordis-core/src/fiber/mod.rs\<close>,
  \<open>DrainCleanup\<close>, \<open>drain_disposables\<close>, \<open>run_cleanup_contained\<close>): each claimed cleanup is a task of
  its own, the drain that awaits it can be dropped at that point (a cancelled creation), and the
  drain that resumes the teardown first joins what the dropped one had claimed.

  The generation is closed, so nothing is pushed; other tasks may claim entries by hand at any
  time.  The settle slot admits one drain at a time.
\<close>

section \<open>The drain and its tasks\<close>

text \<open>
  A completion cell is its number.  A cell that is neither running nor closing has its
  \<open>completed\<close> flag set.  \<open>dn_mail\<close> is the one-shot channel of the awaited cleanup: its outcome,
  sent and not yet received.
\<close>

datatype drain_pc =
    DrainIdle
  | DrainJoining nat
  | DrainLoop "token list"
  | DrainAwait nat bool "token list" \<comment> \<open>the flag: the cleanup is asynchronous\<close>
  | DrainReturned

record drain_state =
  dn_journal :: journal
  dn_cell :: "nat option"
  dn_next :: nat
  dn_running :: "nat list"
  dn_closing :: "nat list"
  dn_mail :: "effect_failure option option"
  dn_draining :: bool
  dn_pc :: drain_pc
  dn_started :: "token list"
  dn_reports :: "effect_failure list"

definition drain_init :: "journal \<Rightarrow> drain_state" where
  "drain_init j =
     \<lparr>dn_journal = j, dn_cell = None, dn_next = 0, dn_running = [], dn_closing = [], dn_mail = None,
      dn_draining = False, dn_pc = DrainIdle, dn_started = [], dn_reports = []\<rparr>"

definition cell_completed :: "nat \<Rightarrow> drain_state \<Rightarrow> bool" where
  "cell_completed k s \<longleftrightarrow> k \<notin> set (dn_running s) \<and> k \<notin> set (dn_closing s)"

text \<open>Past the join: the snapshot of the tokens and the drain mark.\<close>

definition drain_snapshot :: "drain_state \<Rightarrow> drain_state" where
  "drain_snapshot s = s\<lparr>dn_draining := True, dn_pc := DrainLoop (rev (journal_tokens (dn_journal s)))\<rparr>"

definition drain_begin :: "drain_state \<Rightarrow> drain_state option" where
  "drain_begin s =
     (case dn_pc s of
        DrainIdle \<Rightarrow>
          Some (case dn_cell s of None \<Rightarrow> drain_snapshot s | Some k \<Rightarrow> s\<lparr>dn_pc := DrainJoining k\<rparr>)
      | _ \<Rightarrow> None)"

definition drain_joined :: "drain_state \<Rightarrow> drain_state option" where
  "drain_joined s =
     (case dn_pc s of
        DrainJoining k \<Rightarrow> if cell_completed k s then Some (drain_snapshot s) else None
      | _ \<Rightarrow> None)"

definition drain_claim :: "drain_state \<Rightarrow> drain_state option" where
  "drain_claim s =
     (case dn_pc s of
        DrainLoop (t # ts) \<Rightarrow>
          (case journal_remove t (dn_journal s) of
             (None, j) \<Rightarrow> Some (s\<lparr>dn_journal := j, dn_pc := DrainLoop ts\<rparr>)
           | (Some c, j) \<Rightarrow>
               Some (s\<lparr>dn_journal := j, dn_cell := Some (dn_next s), dn_next := Suc (dn_next s),
                 dn_running := dn_next s # dn_running s, dn_pc := DrainAwait (dn_next s) (async_cleanup c) ts,
                 dn_started := dn_started s @ [t]\<rparr>))
      | _ \<Rightarrow> None)"

definition report_failure :: "effect_failure option \<Rightarrow> drain_state \<Rightarrow> drain_state" where
  "report_failure outcome s =
     (case outcome of None \<Rightarrow> s | Some failure \<Rightarrow> s\<lparr>dn_reports := dn_reports s @ [failure]\<rparr>)"

definition awaits :: "nat \<Rightarrow> drain_state \<Rightarrow> bool" where
  "awaits k s = (case dn_pc s of DrainAwait k' _ _ \<Rightarrow> k' = k | _ \<Rightarrow> False)"

text \<open>The cleanup of a cell ended and its task sends the outcome; the owner is still to be dropped.\<close>

definition cleanup_ends :: "nat \<Rightarrow> effect_failure option \<Rightarrow> drain_state \<Rightarrow> drain_state option" where
  "cleanup_ends k outcome s =
     (if k \<notin> set (dn_running s) then None
      else let s1 = s\<lparr>dn_running := remove1 k (dn_running s), dn_closing := k # dn_closing s\<rparr>
           in Some (if awaits k s then s1\<lparr>dn_mail := Some outcome\<rparr> else report_failure outcome s1))"

text \<open>\<open>DrainCleanupOwner::drop\<close>.\<close>

definition owner_drop :: "nat \<Rightarrow> drain_state \<Rightarrow> drain_state option" where
  "owner_drop k s = (if k \<in> set (dn_closing s) then Some (s\<lparr>dn_closing := remove1 k (dn_closing s)\<rparr>) else None)"

text \<open>The task is dropped before its end: the owner goes with it, the channel closes unsent.\<close>

definition task_dropped :: "nat \<Rightarrow> drain_state \<Rightarrow> drain_state option" where
  "task_dropped k s =
     (if k \<notin> set (dn_running s) then None
      else let s1 = s\<lparr>dn_running := remove1 k (dn_running s)\<rparr>
           in Some (if awaits k s then s1\<lparr>dn_mail := Some None\<rparr> else s1))"

definition drain_resume :: "drain_state \<Rightarrow> drain_state option" where
  "drain_resume s =
     (case (dn_pc s, dn_mail s) of
        (DrainAwait k _ ts, Some outcome) \<Rightarrow> Some (report_failure outcome (s\<lparr>dn_mail := None, dn_pc := DrainLoop ts\<rparr>))
      | _ \<Rightarrow> None)"

definition drain_return :: "drain_state \<Rightarrow> drain_state option" where
  "drain_return s =
     (case dn_pc s of DrainLoop [] \<Rightarrow> Some (s\<lparr>dn_draining := False, dn_pc := DrainReturned\<rparr>) | _ \<Rightarrow> None)"

text \<open>
  The drain is dropped at an await.  A synchronous cleanup runs in the poll that claimed it, so no
  await lies between its claim and its outcome.
\<close>

definition drain_cancel :: "drain_state \<Rightarrow> drain_state option" where
  "drain_cancel s =
     (case dn_pc s of
        DrainJoining _ \<Rightarrow> Some (s\<lparr>dn_pc := DrainIdle\<rparr>)
      | DrainAwait _ True _ \<Rightarrow> Some (s\<lparr>dn_pc := DrainIdle, dn_mail := None\<rparr>)
      | _ \<Rightarrow> None)"

definition manual_claim :: "token \<Rightarrow> drain_state \<Rightarrow> drain_state option" where
  "manual_claim t s = Some (s\<lparr>dn_journal := snd (journal_remove t (dn_journal s))\<rparr>)"

datatype drain_action =
    Begins | Joins | Claims | Resumes | Returns | Cancels
  | Ends nat "effect_failure option" | Drops nat | Aborts nat | Manual token

fun drain_step :: "drain_action \<Rightarrow> drain_state \<Rightarrow> drain_state option" where
  "drain_step Begins s = drain_begin s"
| "drain_step Joins s = drain_joined s"
| "drain_step Claims s = drain_claim s"
| "drain_step Resumes s = drain_resume s"
| "drain_step Returns s = drain_return s"
| "drain_step Cancels s = drain_cancel s"
| "drain_step (Ends k outcome) s = cleanup_ends k outcome s"
| "drain_step (Drops k) s = owner_drop k s"
| "drain_step (Aborts k) s = task_dropped k s"
| "drain_step (Manual t) s = manual_claim t s"

fun drain_run :: "drain_action list \<Rightarrow> drain_state \<Rightarrow> drain_state option" where
  "drain_run [] s = Some s"
| "drain_run (a # as) s = (case drain_step a s of None \<Rightarrow> None | Some s1 \<Rightarrow> drain_run as s1)"

lemmas drain_step_defs =
  drain_begin_def drain_joined_def drain_claim_def drain_resume_def drain_return_def drain_cancel_def cleanup_ends_def
  owner_drop_def task_dropped_def manual_claim_def drain_snapshot_def report_failure_def awaits_def cell_completed_def

lemma drain_run_append:
  "drain_run (as @ bs) s = (case drain_run as s of None \<Rightarrow> None | Some s1 \<Rightarrow> drain_run bs s1)"
  by (induction as arbitrary: s) (auto split: option.splits)

section \<open>The invariant\<close>

text \<open>
  The tokens the drain has still to visit, or the whole journal when none is in its loop.  A
  drain-claimed cleanup that runs is the one of the current cell, and its drain awaits or joins
  it unless it was dropped.
\<close>

fun to_visit :: "drain_pc \<Rightarrow> journal \<Rightarrow> token list" where
  "to_visit (DrainLoop ts) j = ts"
| "to_visit (DrainAwait k a ts) j = ts"
| "to_visit DrainReturned j = []"
| "to_visit _ j = rev (journal_tokens j)"

fun pc_allows :: "drain_pc \<Rightarrow> nat option \<Rightarrow> nat list \<Rightarrow> nat list \<Rightarrow> effect_failure option option \<Rightarrow> bool" where
  "pc_allows DrainIdle cell running closing mail = (mail = None \<and> (running = [] \<or> (\<exists>k. cell = Some k \<and> running = [k])))"
| "pc_allows (DrainJoining k) cell running closing mail = (mail = None \<and> cell = Some k \<and> (running = [] \<or> running = [k]))"
| "pc_allows (DrainLoop ts) cell running closing mail = (mail = None \<and> running = [])"
| "pc_allows (DrainAwait k a ts) cell running closing mail =
     (cell = Some k \<and> (mail = None \<and> running = [k] \<and> k \<notin> set closing \<or> mail \<noteq> None \<and> running = []))"
| "pc_allows DrainReturned cell running closing mail = (mail = None \<and> running = [])"

definition drain_inv :: "journal \<Rightarrow> token set \<Rightarrow> drain_state \<Rightarrow> bool" where
  "drain_inv j0 claimed s \<longleftrightarrow>
     journal_wf (dn_journal s) \<and>
     (\<forall>t c. map_of (jr_map (dn_journal s)) t = Some c \<longrightarrow> map_of (jr_map j0) t = Some c) \<and>
     set (journal_tokens (dn_journal s)) \<subseteq> set (to_visit (dn_pc s) (dn_journal s)) \<and>
     sorted_wrt (>) (to_visit (dn_pc s) (dn_journal s)) \<and>
     sorted_wrt (>) (dn_started s) \<and>
     (\<forall>t \<in> set (dn_started s). \<forall>u \<in> set (to_visit (dn_pc s) (dn_journal s)). u < t) \<and>
     set (dn_started s) \<subseteq> set (journal_tokens j0) \<and>
     set (journal_tokens j0) \<subseteq> set (journal_tokens (dn_journal s)) \<union> set (dn_started s) \<union> claimed \<and>
     pc_allows (dn_pc s) (dn_cell s) (dn_running s) (dn_closing s) (dn_mail s) \<and>
     distinct (dn_running s @ dn_closing s) \<and> (\<forall>k \<in> set (dn_running s) \<union> set (dn_closing s). k < dn_next s)"

lemma tokens_sorted: "journal_wf j \<Longrightarrow> sorted_wrt (>) (rev (journal_tokens j))"
  by (simp add: journal_wf_def bt_wf_def journal_tokens_def sorted_wrt_rev)

lemma descending_distinct: "sorted_wrt (>) (ts :: token list) \<Longrightarrow> distinct ts"
  by (induction ts) auto

lemma tokens_remove: "set (journal_tokens (snd (journal_remove t j))) = set (journal_tokens j) - {t}"
  by (auto simp: journal_tokens_def journal_remove_def hm_remove_def)

lemma lookup_remove: "map_of (jr_map (snd (journal_remove t j))) = (map_of (jr_map j))(t := None)"
  by (simp add: journal_remove_def)

lemma drain_inv_init: "journal_wf j \<Longrightarrow> drain_inv j {} (drain_init j)"
  by (simp add: drain_inv_def drain_init_def tokens_sorted)

lemma inv_snapshot:
  assumes inv: "drain_inv j0 M s" and pc: "dn_pc s = DrainIdle \<or> (\<exists>k. dn_pc s = DrainJoining k)" and none: "dn_running s = []"
  shows "drain_inv j0 M (drain_snapshot s)"
  using inv pc none by (auto simp: drain_inv_def drain_snapshot_def)

lemma inv_begin:
  assumes inv: "drain_inv j0 M s" and step: "drain_begin s = Some s'"
  shows "drain_inv j0 M s'"
proof (cases "dn_cell s")
  case None
  with step have "dn_pc s = DrainIdle" "s' = drain_snapshot s" by (auto simp: drain_begin_def split: drain_pc.splits)
  moreover have "dn_running s = []" using inv None \<open>dn_pc s = DrainIdle\<close> by (auto simp: drain_inv_def)
  ultimately show ?thesis using inv_snapshot [OF inv] by simp
next
  case (Some k)
  with step have pc: "dn_pc s = DrainIdle" "s' = s\<lparr>dn_pc := DrainJoining k\<rparr>" by (auto simp: drain_begin_def split: drain_pc.splits)
  show ?thesis using inv Some unfolding pc(2) drain_inv_def by (auto simp: pc(1))
qed

lemma inv_joined:
  assumes inv: "drain_inv j0 M s" and step: "drain_joined s = Some s'"
  shows "drain_inv j0 M s'"
proof -
  from step obtain k where pc: "dn_pc s = DrainJoining k" and d: "cell_completed k s" and s': "s' = drain_snapshot s"
    by (auto simp: drain_joined_def split: drain_pc.splits if_splits)
  have "dn_running s = []" using inv pc d by (auto simp: drain_inv_def cell_completed_def)
  with inv_snapshot [OF inv] pc s' show ?thesis by simp
qed

lemma drain_inv_claim:
  assumes inv: "drain_inv j0 M s" and step: "drain_claim s = Some s'"
  shows "drain_inv j0 M s'"
proof -
  from step obtain t ts where pc: "dn_pc s = DrainLoop (t # ts)"
    by (auto simp: drain_claim_def split: drain_pc.splits list.splits)
  obtain j where r: "journal_remove t (dn_journal s) = (map_of (jr_map (dn_journal s)) t, j)" by (simp add: journal_remove_def)
  have j: "j = snd (journal_remove t (dn_journal s))" using r by simp
  note toks = tokens_remove [of t "dn_journal s", folded j] and look = lookup_remove [of t "dn_journal s", folded j]
  have wf: "journal_wf j" using inv by (simp add: j drain_inv_def)
  show ?thesis
  proof (cases "map_of (jr_map (dn_journal s)) t")
    case None
    with step pc r have s': "s' = s\<lparr>dn_journal := j, dn_pc := DrainLoop ts\<rparr>" by (simp add: drain_claim_def)
    have "t \<notin> set (journal_tokens (dn_journal s))" using None by (simp add: journal_tokens_def map_of_eq_None_iff)
    with toks have "set (journal_tokens j) = set (journal_tokens (dn_journal s))" by simp
    with inv wf look pc \<open>t \<notin> _\<close> show ?thesis unfolding s' drain_inv_def by (auto split: if_splits)
  next
    case (Some c)
    with step pc r have s': "s' = s\<lparr>dn_journal := j, dn_cell := Some (dn_next s), dn_next := Suc (dn_next s),
        dn_running := dn_next s # dn_running s, dn_pc := DrainAwait (dn_next s) (async_cleanup c) ts,
        dn_started := dn_started s @ [t]\<rparr>" by (simp add: drain_claim_def)
    have run: "dn_running s = []" "dn_mail s = None" using inv pc by (simp_all add: drain_inv_def)
    have "t \<in> set (journal_tokens j0)" using inv Some unfolding drain_inv_def owned_tokens [symmetric] owned_def by auto
    moreover have "dn_next s \<notin> set (dn_closing s)" using inv by (auto simp: drain_inv_def)
    ultimately show ?thesis
      using inv wf look toks pc run unfolding s' drain_inv_def by (auto simp: sorted_wrt_append split: if_splits)
  qed
qed

lemma drain_report_fields [simp]:
  "dn_journal (report_failure r s) = dn_journal s" "dn_cell (report_failure r s) = dn_cell s" "dn_next (report_failure r s) = dn_next s"
  "dn_running (report_failure r s) = dn_running s" "dn_closing (report_failure r s) = dn_closing s"
  "dn_mail (report_failure r s) = dn_mail s" "dn_pc (report_failure r s) = dn_pc s" "dn_started (report_failure r s) = dn_started s"
  "dn_draining (report_failure r s) = dn_draining s"
  by (simp_all add: report_failure_def split: option.split)

lemma inv_report [simp]: "drain_inv j0 M (report_failure r s) = drain_inv j0 M s"
  by (simp add: drain_inv_def)

lemma inv_resume:
  assumes "drain_inv j0 M s" and "drain_resume s = Some s'"
  shows "drain_inv j0 M s'"
  using assms by (auto simp: drain_resume_def drain_inv_def split: drain_pc.splits option.splits)

lemma inv_return:
  assumes "drain_inv j0 M s" and "drain_return s = Some s'"
  shows "drain_inv j0 M s'"
  using assms by (auto simp: drain_return_def drain_inv_def split: drain_pc.splits list.splits)

lemma drain_inv_cancel:
  assumes inv: "drain_inv j0 M s" and step: "drain_cancel s = Some s'"
  shows "drain_inv j0 M s'"
proof -
  have sorted: "sorted_wrt (>) (rev (journal_tokens (dn_journal s)))" using inv by (auto simp: drain_inv_def intro: tokens_sorted)
  from step consider k where "dn_pc s = DrainJoining k" "s' = s\<lparr>dn_pc := DrainIdle\<rparr>"
    | k ts where "dn_pc s = DrainAwait k True ts" "s' = s\<lparr>dn_pc := DrainIdle, dn_mail := None\<rparr>"
    by (auto simp: drain_cancel_def split: drain_pc.splits bool.splits)
  then show ?thesis
  proof cases
    case 1
    with inv show ?thesis by (auto simp: drain_inv_def)
  next
    case 2
    with inv sorted show ?thesis by (auto simp: drain_inv_def)
  qed
qed

lemma inv_ends:
  assumes inv: "drain_inv j0 M s" and step: "cleanup_ends k outcome s = Some s'"
  shows "drain_inv j0 M s'"
proof -
  let ?s = "s\<lparr>dn_running := remove1 k (dn_running s), dn_closing := k # dn_closing s\<rparr>"
  from step have k: "k \<in> set (dn_running s)" by (auto simp: cleanup_ends_def split: if_splits)
  then have one: "dn_running s = [k]" using inv by (cases "dn_pc s") (auto simp: drain_inv_def)
  show ?thesis
  proof (cases "awaits k s")
    case True
    with step k have s': "s' = ?s\<lparr>dn_mail := Some outcome\<rparr>" by (simp add: cleanup_ends_def)
    from True obtain a ts where "dn_pc s = DrainAwait k a ts" by (auto simp: awaits_def split: drain_pc.splits)
    with inv one show ?thesis unfolding s' by (simp add: drain_inv_def)
  next
    case False
    with step k have s': "s' = report_failure outcome ?s" by (simp add: cleanup_ends_def)
    have "drain_inv j0 M ?s" using inv one False by (cases "dn_pc s") (auto simp: drain_inv_def awaits_def)
    then show ?thesis by (simp add: s')
  qed
qed

lemma inv_aborts:
  assumes inv: "drain_inv j0 M s" and step: "task_dropped k s = Some s'"
  shows "drain_inv j0 M s'"
proof -
  let ?s = "s\<lparr>dn_running := remove1 k (dn_running s)\<rparr>"
  from step have k: "k \<in> set (dn_running s)" by (auto simp: task_dropped_def split: if_splits)
  then have one: "dn_running s = [k]" using inv by (cases "dn_pc s") (auto simp: drain_inv_def)
  show ?thesis
  proof (cases "awaits k s")
    case True
    with step k have s': "s' = ?s\<lparr>dn_mail := Some None\<rparr>" by (simp add: task_dropped_def)
    from True obtain a ts where "dn_pc s = DrainAwait k a ts" by (auto simp: awaits_def split: drain_pc.splits)
    with inv one show ?thesis unfolding s' by (simp add: drain_inv_def)
  next
    case False
    with step k have "s' = ?s" by (simp add: task_dropped_def)
    with inv one False show ?thesis by (cases "dn_pc s") (auto simp: drain_inv_def awaits_def)
  qed
qed

lemma inv_drops:
  assumes inv: "drain_inv j0 M s" and step: "owner_drop k s = Some s'"
  shows "drain_inv j0 M s'"
proof -
  from step have s': "s' = s\<lparr>dn_closing := remove1 k (dn_closing s)\<rparr>" by (simp add: owner_drop_def split: if_splits)
  have sub: "set (remove1 k (dn_closing s)) \<subseteq> set (dn_closing s)" by (rule set_remove1_subset)
  with inv show ?thesis unfolding s' by (cases "dn_pc s") (auto simp: drain_inv_def)
qed

lemma inv_manual:
  assumes inv: "drain_inv j0 M s" and step: "manual_claim t s = Some s'"
  shows "drain_inv j0 (insert t M) s'"
proof -
  let ?j = "snd (journal_remove t (dn_journal s))"
  from step have s': "s' = s\<lparr>dn_journal := ?j\<rparr>" by (simp add: manual_claim_def)
  have wf: "journal_wf ?j" using inv by (simp add: drain_inv_def)
  have sub: "set (to_visit (dn_pc s) ?j) \<subseteq> set (to_visit (dn_pc s) (dn_journal s))"
    and visit: "set (journal_tokens ?j) \<subseteq> set (to_visit (dn_pc s) ?j)"
    and sorted: "sorted_wrt (>) (to_visit (dn_pc s) ?j)"
    using inv tokens_remove [of t "dn_journal s"] tokens_sorted [OF wf]
    by (cases "dn_pc s"; auto simp: drain_inv_def)+
  with inv wf tokens_remove [of t "dn_journal s"] lookup_remove [of t "dn_journal s"] show ?thesis
    unfolding s' drain_inv_def by (auto split: if_splits)
qed

fun hand_claims :: "drain_action list \<Rightarrow> token set" where
  "hand_claims [] = {}"
| "hand_claims (Manual t # as) = insert t (hand_claims as)"
| "hand_claims (_ # as) = hand_claims as"

lemma inv_mono: "drain_inv j0 M s \<Longrightarrow> M \<subseteq> M' \<Longrightarrow> drain_inv j0 M' s"
  unfolding drain_inv_def by blast

lemma inv_step: "drain_inv j0 M s \<Longrightarrow> drain_step a s = Some s' \<Longrightarrow> drain_inv j0 (hand_claims [a] \<union> M) s'"
  by (cases a) (auto intro: inv_begin inv_joined drain_inv_claim inv_resume inv_return drain_inv_cancel inv_ends inv_drops inv_aborts inv_manual)

lemma hand_claims_Cons: "hand_claims (a # as) = hand_claims [a] \<union> hand_claims as"
  by (cases a) auto

lemma inv_run: "drain_inv j0 M s \<Longrightarrow> drain_run as s = Some s' \<Longrightarrow> drain_inv j0 (hand_claims as \<union> M) s'"
proof (induction as arbitrary: s M)
  case (Cons a as)
  from Cons.prems obtain s1 where a: "drain_step a s = Some s1" and as: "drain_run as s1 = Some s'" by (auto split: option.splits)
  from Cons.IH [OF inv_step [OF Cons.prems(1) a] as] show ?case using hand_claims_Cons [of a as] by (simp add: Un_ac)
qed simp

section \<open>The barrier\<close>

text \<open>
  C20: The drain barrier holds across cancellation.  However often a drain of a closed generation
  is dropped and resumed, and whatever other tasks claim meanwhile: at most one drain-claimed
  cleanup executes at a time; the cleanups start in strictly descending order of registration, so
  none starts twice; and when a drain returns, none is executing, the journal is empty, and every
  obligation has either been started by a drain or was claimed by hand.
\<close>

theorem drain_barrier:
  assumes "journal_wf j" and "drain_run as (drain_init j) = Some s"
  shows "length (dn_running s) \<le> 1 \<and> sorted_wrt (>) (dn_started s) \<and> distinct (dn_started s) \<and>
    (if dn_pc s = DrainReturned
     then dn_running s = [] \<and> journal_tokens (dn_journal s) = [] \<and>
       set (journal_tokens j) \<subseteq> set (dn_started s) \<union> hand_claims as \<and> set (dn_started s) \<subseteq> set (journal_tokens j)
     else True)"
proof -
  from inv_run [OF drain_inv_init [OF assms(1)] assms(2)] have inv: "drain_inv j (hand_claims as) s" by simp
  then have "length (dn_running s) \<le> 1" by (cases "dn_pc s") (auto simp: drain_inv_def)
  moreover have sorted: "sorted_wrt (>) (dn_started s)" using inv by (simp add: drain_inv_def)
  moreover have "distinct (dn_started s)" by (rule descending_distinct [OF sorted])
  moreover have "dn_running s = [] \<and> journal_tokens (dn_journal s) = [] \<and>
       set (journal_tokens j) \<subseteq> set (dn_started s) \<union> hand_claims as \<and> set (dn_started s) \<subseteq> set (journal_tokens j)"
    if "dn_pc s = DrainReturned" using inv that by (auto simp: drain_inv_def)
  ultimately show ?thesis by simp
qed

section \<open>Progress\<close>

text \<open>The moves of the drain and of the cleanup tasks; other tasks and the cancelling caller have none.\<close>

fun own_action :: "drain_action \<Rightarrow> bool" where
  "own_action Cancels = False"
| "own_action (Manual _) = False"
| "own_action _ = True"

fun pc_work :: "drain_pc \<Rightarrow> nat" where
  "pc_work DrainIdle = 3"
| "pc_work (DrainJoining _) = 2"
| "pc_work (DrainLoop _) = 1"
| "pc_work (DrainAwait _ _ _) = 2"
| "pc_work DrainReturned = 0"

definition drain_work :: "drain_state \<Rightarrow> nat" where
  "drain_work s =
     5 * length (to_visit (dn_pc s) (dn_journal s)) + pc_work (dn_pc s) + 2 * length (dn_running s) + length (dn_closing s)"

lemma remove1_work: "k \<in> set ks \<Longrightarrow> length ks = Suc (length (remove1 k ks))"
  by (simp add: length_remove1) (metis One_nat_def Suc_pred length_pos_if_in_set)

lemma own_action_works: "drain_step a s = Some s' \<Longrightarrow> own_action a \<Longrightarrow> drain_work s' < drain_work s"
  by (cases a)
    (auto simp: drain_step_defs drain_work_def journal_remove_def remove1_work Let_def
      split: drain_pc.splits option.splits list.splits if_splits)

lemma own_actions_bounded: "drain_run as s = Some s' \<Longrightarrow> list_all own_action as \<Longrightarrow> length as + drain_work s' \<le> drain_work s"
proof (induction as arbitrary: s)
  case (Cons a as)
  from Cons.prems obtain s1 where a: "drain_step a s = Some s1" and as: "drain_run as s1 = Some s'" by (auto split: option.splits)
  from own_action_works [OF a] Cons.IH [OF as] Cons.prems(2) show ?case by simp
qed simp

lemma own_action_enabled:
  assumes inv: "drain_inv j0 M s" and going: "dn_pc s \<noteq> DrainReturned"
  shows "\<exists>a s'. own_action a \<and> drain_step a s = Some s'"
proof (cases "dn_pc s")
  case DrainIdle
  then have "drain_step Begins s \<noteq> None" by (simp add: drain_begin_def)
  then show ?thesis using own_action.simps by blast
next
  case (DrainJoining k)
  show ?thesis
  proof (cases "cell_completed k s")
    case True
    with DrainJoining have "drain_step Joins s \<noteq> None" by (simp add: drain_joined_def)
    then show ?thesis using own_action.simps by blast
  next
    case False
    then consider "k \<in> set (dn_running s)" | "k \<in> set (dn_closing s)" by (auto simp: cell_completed_def)
    then have "drain_step (Ends k None) s \<noteq> None \<or> drain_step (Drops k) s \<noteq> None"
      by cases (simp_all add: cleanup_ends_def owner_drop_def Let_def)
    then show ?thesis using own_action.simps by blast
  qed
next
  case (DrainLoop ts)
  have "drain_step Claims s \<noteq> None \<or> drain_step Returns s \<noteq> None"
    by (cases ts) (auto simp: drain_claim_def drain_return_def DrainLoop journal_remove_def split: option.split)
  then show ?thesis using own_action.simps by blast
next
  case (DrainAwait k a ts)
  then have "k \<in> set (dn_running s) \<or> dn_mail s \<noteq> None" using inv by (auto simp: drain_inv_def)
  then have "drain_step (Ends k None) s \<noteq> None \<or> drain_step Resumes s \<noteq> None"
    by (auto simp: cleanup_ends_def drain_resume_def DrainAwait Let_def)
  then show ?thesis using own_action.simps by blast
qed (use going in simp)

text \<open>
  C21: A teardown can always be completed.  At every point of a drain that has not returned, dropped
  ones included, the drain or a cleanup task has a move: a resumed drain never waits for a
  completion that nobody publishes.  And the moves are bounded by the work left, so that once the
  cleanups end and nobody cancels it again the drain returns.
\<close>

theorem drain_completes:
  assumes "journal_wf j" and "drain_run as (drain_init j) = Some s"
  shows "(dn_pc s = DrainReturned \<or> (\<exists>a s'. own_action a \<and> drain_step a s = Some s')) \<and>
    (\<forall>bs s'. list_all own_action bs \<and> drain_run bs s = Some s' \<longrightarrow> length bs \<le> drain_work s)"
  using own_action_enabled [OF inv_run [OF drain_inv_init [OF assms(1)] assms(2)]] own_actions_bounded [of _ s]
  by (meson add_leE)

section \<open>A lost report\<close>

text \<open>
  The outcome of a cleanup is handed to a drain that still holds the receiver.  A drain dropped
  between that send and its next poll takes the outcome with it: the cleanup failed, no report was
  or will be made of it.
\<close>

definition lossy_journal :: journal where
  "lossy_journal = snd (journal_push (fut_cleanup (UserCleanup 7)) journal_new)"

definition lossy_run :: "drain_action list" where
  "lossy_run = [Begins, Claims, Ends 0 (Some (effect_failure_returned ''boom'')), Cancels, Drops 0, Begins, Joins, Returns]"

theorem failure_report_lost:
  "(case drain_run lossy_run (drain_init lossy_journal) of
      None \<Rightarrow> False
    | Some s \<Rightarrow> dn_pc s = DrainReturned \<and> dn_started s = [1] \<and> dn_running s = [] \<and> dn_reports s = [])"
  by code_simp

text \<open>A drain dropped while an asynchronous cleanup runs, and the drain that resumes the teardown.\<close>

definition resumed_journal :: journal where
  "resumed_journal =
     snd (journal_push (fut_cleanup (UserCleanup 8)) (snd (journal_push (sync_cleanup (RemoveListener ''saved'' 3))
       (snd (journal_push (fut_cleanup (UserCleanup 7)) journal_new)))))"

definition resumed_run :: "drain_action list" where
  "resumed_run =
     [Begins, Claims, Cancels, Begins, Ends 0 (Some (effect_failure_returned ''boom'')), Drops 0, Joins, Manual 1,
      Claims, Ends 1 None, Resumes, Drops 1, Claims, Returns]"

lemma resumed_code:
  "(case drain_run resumed_run (drain_init resumed_journal) of
      None \<Rightarrow> False
    | Some s \<Rightarrow> dn_pc s = DrainReturned \<and> dn_started s = [3, 2] \<and> dn_reports s = [effect_failure_returned ''boom''])"
  by code_simp

lemma resumed_wf: "journal_wf resumed_journal"
  by (simp add: journal_wf_def bt_wf_def journal_tokens_def resumed_journal_def journal_push_def journal_new_def Let_def)

theorem drain_barrier_witness:
  "(case drain_run resumed_run (drain_init resumed_journal) of
      None \<Rightarrow> False | Some s \<Rightarrow> dn_started s = [3, 2] \<and> dn_running s = [] \<and> journal_tokens (dn_journal s) = [])"
proof -
  obtain s where s: "drain_run resumed_run (drain_init resumed_journal) = Some s" using resumed_code by (auto split: option.splits)
  from drain_barrier [OF resumed_wf s] resumed_code s show ?thesis by simp
qed

theorem drain_completes_witness:
  "(case drain_run (take 4 resumed_run) (drain_init resumed_journal) of
      None \<Rightarrow> False | Some s \<Rightarrow> dn_pc s = DrainJoining 0 \<and> (\<exists>a s'. own_action a \<and> drain_step a s = Some s'))"
proof -
  have pc: "(case drain_run (take 4 resumed_run) (drain_init resumed_journal) of None \<Rightarrow> False | Some s \<Rightarrow> dn_pc s = DrainJoining 0)"
    by code_simp
  then obtain s where s: "drain_run (take 4 resumed_run) (drain_init resumed_journal) = Some s" by (auto split: option.splits)
  from drain_completes [OF resumed_wf s] pc s show ?thesis by simp
qed

end
