(* ===== verification/Wait_State.thy ===== *)
theory Wait_State
  imports Settle_Ctx Fiber_State
begin

text \<open>
  The passive wait \<open>FiberHandle::wait_state\<close> (\<open>crates/cordis-core/src/fiber/mod.rs\<close>): its refusal
  from inside the Fiber's own settle context, and its answer on any history of publications and
  wakes.  \<open>Fiber_State\<close> has the loop on the cells it reads; here the cells come from a timeline.
\<close>

datatype handle_wait_error = WaitFailed wait_state_error | WaitRecursion lifecycle_recursion

text \<open>\<open>sp0\<close> is the cell that gave the baseline, \<open>sp1\<close> the cell of the first check.\<close>

definition wait_for ::
  "fiber_state \<Rightarrow> bool \<Rightarrow> state_publication \<Rightarrow> state_publication \<Rightarrow> (state_publication \<times> wake) list \<Rightarrow>
   (wait_state_error + unit) option"
where
  "wait_for target available sp0 sp1 wakes =
     wait_for_after target (snd (publication_snapshot target sp0)) available sp1 wakes"

definition handle_wait_state ::
  "ident \<Rightarrow> fid \<Rightarrow> bool \<Rightarrow> att \<Rightarrow> fiber_state \<Rightarrow> bool \<Rightarrow> state_publication \<Rightarrow> state_publication \<Rightarrow>
   (state_publication \<times> wake) list \<Rightarrow> (handle_wait_error + unit) option"
where
  "handle_wait_state t f draining st target available sp0 sp1 wakes =
     (case refuse_recursion t f draining OpWaitState st of
        Inl e \<Rightarrow> Some (Inl (WaitRecursion e))
      | Inr _ \<Rightarrow> map_option (map_sum WaitFailed (\<lambda>_. ())) (wait_for target available sp0 sp1 wakes))"

section \<open>Timelines\<close>

text \<open>
  One turn of the loop: the states published before its check, and, when the deadline wakes it,
  those published before it runs again.
\<close>

type_synonym timeline = "(fiber_state list \<times> fiber_state list option) list"

fun timeline_wakes :: "state_publication \<Rightarrow> timeline \<Rightarrow> (state_publication \<times> wake) list option" where
  "timeline_wakes sp [] = Some []"
| "timeline_wakes sp ((before, woken) # turns) =
     (case publish_all before sp of
        None \<Rightarrow> None
      | Some sp1 \<Rightarrow>
          (case woken of
             None \<Rightarrow> map_option (Cons (sp1, WokenByNotify)) (timeline_wakes sp1 turns)
           | Some late \<Rightarrow>
               (case publish_all late sp1 of
                  None \<Rightarrow> None
                | Some sp2 \<Rightarrow> map_option (Cons (sp1, WokenByDeadline sp2)) (timeline_wakes sp2 turns))))"

text \<open>What is published up to the last look after the first deadline.\<close>

fun until_deadline :: "timeline \<Rightarrow> fiber_state list" where
  "until_deadline [] = []"
| "until_deadline ((before, None) # turns) = before @ until_deadline turns"
| "until_deadline ((before, Some late) # turns) = before @ late"

fun deadline_passes :: "timeline \<Rightarrow> bool" where
  "deadline_passes [] = False"
| "deadline_passes ((before, None) # turns) = deadline_passes turns"
| "deadline_passes ((before, Some late) # turns) = True"

text \<open>The target is entered anew: publishing the current state again is no publication.\<close>

fun entered :: "fiber_state \<Rightarrow> fiber_state \<Rightarrow> fiber_state list \<Rightarrow> bool" where
  "entered target current [] = False"
| "entered target current (s # ss) = (s = target \<and> current \<noteq> target \<or> entered target s ss)"

lemma entered_other: "current \<noteq> target \<Longrightarrow> entered target current ss \<longleftrightarrow> target \<in> set ss"
proof (induction ss arbitrary: current)
  case (Cons a ss)
  then show ?case by (cases "a = target") auto
qed simp

lemma publish_all_effect:
  "publication_wf sp \<Longrightarrow> publish_all ss sp = Some sp' \<Longrightarrow>
   publication_wf sp' \<and> sp_current sp' = last (sp_current sp # ss) \<and>
   unat (sp_revisions sp ! publication_index t) \<le> unat (sp_revisions sp' ! publication_index t) \<and>
   (unat (sp_revisions sp ! publication_index t) < unat (sp_revisions sp' ! publication_index t) \<longleftrightarrow> entered t (sp_current sp) ss)"
proof (induction ss arbitrary: sp)
  case (Cons s ss)
  then obtain old sp1 where p: "publication_publish s sp = Some (old, sp1)" and r: "publish_all ss sp1 = Some sp'"
    by (auto split: option.splits prod.splits)
  note eff = publish_effect [OF Cons.prems(1) p, of t]
  from Cons.IH [OF _ r] eff show ?case by (auto split: if_splits)
qed simp

lemma requested_iff:
  assumes "publication_wf sp" and "publish_all ss sp = Some sp'"
  shows "requested_publication target (snd (publication_snapshot target sp)) sp' \<longleftrightarrow>
    last (sp_current sp # ss) = target \<or> entered target (sp_current sp) ss"
  using publish_all_effect [OF assms, of target]
  by (auto simp: requested_publication_def publication_snapshot_def word_unat_eq_iff)

lemma requested_since:
  assumes "publication_wf sp" and "publish_all ss sp = Some sp'" and "sp_current sp \<noteq> target"
  shows "requested_publication target (snd (publication_snapshot target sp)) sp' \<longleftrightarrow> target \<in> set ss"
  using requested_iff [OF assms(1,2), of target] entered_other [OF assms(3)] assms(3) by (metis last.simps last_in_set)

lemma publish_all_append:
  "publish_all (ss @ us) sp = (case publish_all ss sp of None \<Rightarrow> None | Some sp' \<Rightarrow> publish_all us sp')"
  by (induction ss arbitrary: sp) (auto split: option.splits prod.splits)

text \<open>From a cell in which the target has not been seen, the loop answers as the timeline says.\<close>

lemma wait_loop_timeline:
  assumes "publication_wf sp0" and "sp_current sp0 \<noteq> target"
  shows "publish_all ss sp0 = Some sp \<Longrightarrow> target \<notin> set ss \<Longrightarrow> timeline_wakes sp turns = Some wakes \<Longrightarrow>
    wait_loop target (snd (publication_snapshot target sp0)) wakes =
      (if target \<in> set (until_deadline turns) then Some (Inr ())
       else if deadline_passes turns then Some (Inl WaitElapsed) else None)"
proof (induction turns arbitrary: ss sp wakes)
  case (Cons turn turns)
  obtain before woken where turn: "turn = (before, woken)" by (cases turn)
  from Cons.prems(3) obtain sp1 where p1: "publish_all before sp = Some sp1" by (auto simp: turn split: option.splits)
  with Cons.prems(1) have all1: "publish_all (ss @ before) sp0 = Some sp1" by (simp add: publish_all_append)
  have r1: "requested_publication target (snd (publication_snapshot target sp0)) sp1 \<longleftrightarrow> target \<in> set before"
    using requested_since [OF assms(1) all1 assms(2)] Cons.prems(2) by simp
  show ?case
  proof (cases woken)
    case None
    with Cons.prems(3) p1 obtain rest where rest: "timeline_wakes sp1 turns = Some rest" "wakes = (sp1, WokenByNotify) # rest"
      by (auto simp: turn)
    show ?thesis
    proof (cases "target \<in> set before")
      case True
      with r1 rest None show ?thesis by (simp add: turn)
    next
      case False
      with Cons.IH [OF all1 _ rest(1)] Cons.prems(2) r1 rest None show ?thesis by (simp add: turn)
    qed
  next
    case (Some late)
    with Cons.prems(3) p1 obtain sp2 rest where p2: "publish_all late sp1 = Some sp2" and rest: "wakes = (sp1, WokenByDeadline sp2) # rest"
      by (auto simp: turn split: option.splits)
    have all2: "publish_all ((ss @ before) @ late) sp0 = Some sp2" using publish_all_append [of "ss @ before" late sp0] all1 p2 by simp
    have "requested_publication target (snd (publication_snapshot target sp0)) sp2 \<longleftrightarrow> target \<in> set before \<union> set late"
      using requested_since [OF assms(1) all2 assms(2)] Cons.prems(2) by simp
    with r1 rest Some show ?thesis by (simp add: turn)
  qed
qed simp

text \<open>
  C18: \<open>wait_state\<close> is exact.  Inside the settle context of the Fiber it is refused; otherwise it
  succeeds at once when the target is the state of the first check or was entered since the
  baseline, and past that it succeeds exactly when the target is published at some time up to the
  last look after the deadline, however briefly, reports \<open>Elapsed\<close> only when it never was, and
  keeps waiting while no deadline passes.  A deadline that could not be armed is reported only
  for a wait that had to park.
\<close>

theorem wait_state_exact:
  assumes "publication_wf sp0" and "publish_all ss sp0 = Some sp1" and "timeline_wakes sp1 turns = Some wakes"
  shows "handle_wait_state t f draining st target available sp0 sp1 wakes =
    (case refuse_recursion t f draining OpWaitState st of
       Inl e \<Rightarrow> Some (Inl (WaitRecursion e))
     | Inr _ \<Rightarrow>
         if last (sp_current sp0 # ss) = target \<or> entered target (sp_current sp0) ss then Some (Inr ())
         else if \<not> available then Some (Inl (WaitFailed WaitDeadlineUnavailable))
         else if target \<in> set (until_deadline turns) then Some (Inr ())
         else if deadline_passes turns then Some (Inl (WaitFailed WaitElapsed))
         else None)"
proof (cases "last (sp_current sp0 # ss) = target \<or> entered target (sp_current sp0) ss")
  case True
  with requested_iff [OF assms(1,2), of target]
  have "requested_publication target (snd (publication_snapshot target sp0)) sp1" by simp
  with True show ?thesis by (auto simp: handle_wait_state_def wait_for_def wait_for_after_def split: sum.split)
next
  case False
  with requested_iff [OF assms(1,2), of target]
  have no: "\<not> requested_publication target (snd (publication_snapshot target sp0)) sp1" by simp
  have eff: "publication_wf sp1" "sp_current sp1 \<noteq> target"
    and rev: "sp_revisions sp1 ! publication_index target = sp_revisions sp0 ! publication_index target"
    using False publish_all_effect [OF assms(1,2), of target] by (auto simp: word_unat_eq_iff)
  then have "snd (publication_snapshot target sp0) = snd (publication_snapshot target sp1)" by (simp add: publication_snapshot_def)
  with wait_loop_timeline [OF eff, of "[]"] assms(3) False no show ?thesis
    by (auto simp: handle_wait_state_def wait_for_def wait_for_after_def split: sum.split)
qed

text \<open>A Fiber passes through Loading between two polls of the waiter; the deadline wakes it later.\<close>

theorem wait_state_exact_witness:
  "(case timeline_wakes (publication_new Pending) [([], None), ([Loading, Active], Some [Unloading])] of
      None \<Rightarrow> False
    | Some wakes \<Rightarrow>
        handle_wait_state 0 7 False att_init Loading True (publication_new Pending) (publication_new Pending) wakes = Some (Inr ()) \<and>
        handle_wait_state 0 7 False att_init Failed True (publication_new Pending) (publication_new Pending) wakes =
          Some (Inl (WaitFailed WaitElapsed)))"
proof -
  let ?turns = "[([], None), ([Loading, Active], Some [Unloading])]"
  have "timeline_wakes (publication_new Pending) ?turns \<noteq> None"
    by (simp add: publication_publish_def publication_new_def checked_succ_def)
  then obtain wakes where w: "timeline_wakes (publication_new Pending) ?turns = Some wakes" by blast
  have r: "refuse_recursion 0 7 False OpWaitState att_init = Inr ()" by code_simp
  have start: "publish_all [] (publication_new Pending) = Some (publication_new Pending)" by simp
  have current: "sp_current (publication_new Pending) = Pending" by (simp add: publication_new_def)
  note exact = wait_state_exact [OF publication_new_wf start w, of 0 7 False att_init _ True, unfolded r]
  from exact [of Loading] exact [of Failed] show ?thesis by (simp add: w current del: timeline_wakes.simps)
qed

end
