(* ===== verification/Load_Runtime.thy ===== *)
theory Load_Runtime
  imports Loader_Properties Era_Properties
begin

text \<open>
  A plan loaded on the Runtime: the Loader's execution (\<open>cordis-loader/src/plan.rs\<close>,
  \<open>handoff.rs\<close>) with its spawner instantiated by \<open>Context::spawn\<close>
  (\<open>cordis-core/src/fiber/spawn.rs\<close>) and its rollback by \<open>rollback_fiber\<close> (\<open>cordis-core/src/lib.rs\<close>).
  What every attempted Fiber has become is followed from row to row through the transactions of
  the spawns, whatever other tasks do in between.
\<close>

section \<open>The Fibers others see\<close>

text \<open>
  Between two operations of the framework a Fiber keeps its life invariant; its completion
  barrier is published only once it is dead and unlinked, it is dead only behind a terminal mark,
  and its publication has room for the terminal transitions.
\<close>

definition fence :: "fid \<Rightarrow> runtime \<Rightarrow> bool" where
  "fence f rn \<longleftrightarrow>
     life_inv f rn \<and>
     (fb_dispose_complete (fiber_at rn f) \<longrightarrow> \<not> fb_alive (fiber_at rn f) \<and> claimed rn f = None) \<and>
     (\<not> fb_alive (fiber_at rn f) \<longrightarrow> fb_disposing (fiber_at rn f)) \<and>
     (fb_alive (fiber_at rn f) \<longrightarrow> room 2 f rn)"

lemma fence_abides:
  assumes a: "abides f rn rn'" and c: "claimed rn' f = claimed rn f" and "fence f rn"
  shows "fence f rn'"
proof -
  have p: "protected (fiber_at rn' f) = protected (fiber_at rn f)" using a by (simp add: abides_def)
  note same = protected_fields(11) [OF p] abides_fields(5) [OF a]
  have "life_inv f rn'" using abides_life [OF a] assms(3) by (simp add: fence_def)
  moreover have "room 2 f rn'" if "fb_alive (fiber_at rn f)"
    using assms(3) that abides_fields(2) [OF a] by (simp add: fence_def)
  ultimately show ?thesis
    using assms(3) abides_fields(10) [OF a] unfolding fence_def same c by blast
qed

lemma fence_touches:
  assumes t: "touches g rn rn'" and "f \<noteq> g" and "fence f rn"
  shows "fence f rn'"
proof -
  from assms(3) have up: "upgrades rn f" by (simp add: fence_def life_inv_def)
  with t assms(2) have v: "fiber_view f rn' = fiber_view f rn" "upgrades rn' f" "history f rn' = history f rn" "claimed rn' f = claimed rn f"
    by (simp_all add: touches_def)
  show ?thesis by (rule fence_abides [OF abides_core [OF up v(1-3)] v(4) assms(3)])
qed

lemma fence_slot: "fence f rn \<Longrightarrow> fence f (put_slot d k rn)"
proof (cases "d = f")
  case True
  assume f: "fence f rn"
  then have up: "upgrades rn f" by (simp add: fence_def life_inv_def)
  show ?thesis unfolding True
    by (rule fence_abides [OF abides_slot [OF up] _ f]) (simp add: claimed_def update_fiber_rest)
next
  case False
  then show "fence f rn \<Longrightarrow> fence f (put_slot d k rn)" by (intro fence_touches [of d rn "put_slot d k rn" f]) simp_all
qed

text \<open>
  \<open>A\<close> are the buried Fibers, \<open>L\<close> the ones others may act on, \<open>T\<close> those being worked on, and
  \<open>U\<close> were there before.
\<close>

definition guarded :: "fid set \<Rightarrow> fid set \<Rightarrow> fid set \<Rightarrow> fid set \<Rightarrow> runtime \<Rightarrow> bool" where
  "guarded U A L T rn \<longleftrightarrow> holds A T rn \<and> (\<forall>f \<in> L. fence f rn) \<and> L \<inter> T = {} \<and> (\<forall>h \<in> U. upgrades rn h)"

text \<open>The laws of an open world, and that neither other tasks nor user code break a fence.\<close>

locale fenced_world = open_world +
  assumes turn_fence: "k \<in> turns \<Longrightarrow> world_ok rn \<Longrightarrow> fence f rn \<Longrightarrow> fence f (k rn)"
    and apply_fence: "f \<noteq> g \<Longrightarrow> world_ok rn \<Longrightarrow> fence f rn \<Longrightarrow> fence f (snd (le_apply env g plugin cx rn))"
    and cleanup_fence: "f \<noteq> g \<Longrightarrow> world_ok rn \<Longrightarrow> fence f rn \<Longrightarrow> fence f (snd (le_cleanup env g c rn))"

lemma benign_upgrades: "benign k \<Longrightarrow> world_ok rn \<Longrightarrow> upgrades rn h \<Longrightarrow> upgrades (k rn) h"
  by (simp add: benign_def)

lemma holds_ok: "holds A T rn \<Longrightarrow> world_ok rn"
  by (simp add: holds_def)

lemma guarded_quiet:
  assumes "guarded U A L T rn" and q: "\<And>g. touches g rn rn'"
  shows "guarded U A L T rn'"
proof -
  have "fence f rn'" if "fence f rn" for f by (rule fence_touches [OF q [of "Suc f"] _ that]) simp
  with assms holds_quiet [OF _ q] q show ?thesis by (auto simp: guarded_def touches_def)
qed

lemma guarded_touches: "guarded U A L {g} rn \<Longrightarrow> touches g rn rn' \<Longrightarrow> guarded U A L {g} rn'"
proof -
  assume q: "guarded U A L {g} rn" and t: "touches g rn rn'"
  have "fence f rn'" if "f \<in> L" for f by (rule fence_touches [OF t]) (use q that in \<open>auto simp: guarded_def\<close>)
  moreover have "\<forall>h \<in> U. upgrades rn' h" using q t by (simp add: guarded_def touches_def)
  ultimately show ?thesis using q holds_touches [OF _ t] by (simp add: guarded_def)
qed

text \<open>User code of \<open>g\<close>.\<close>

lemma guarded_user:
  assumes "guarded U A L {g} rn" and "benign k" and "\<And>f. f \<noteq> g \<Longrightarrow> world_ok rn \<Longrightarrow> fence f rn \<Longrightarrow> fence f (k rn)"
  shows "guarded U A L {g} (k rn)"
proof -
  have ok: "world_ok rn" using assms(1) holds_ok by (auto simp: guarded_def)
  have "fence f (k rn)" if "f \<in> L" for f by (rule assms(3) [OF _ ok]) (use assms(1) that in \<open>auto simp: guarded_def\<close>)
  moreover have "\<forall>h \<in> U. upgrades (k rn) h" using assms(1) benign_upgrades [OF assms(2) ok] by (simp add: guarded_def)
  ultimately show ?thesis using assms(1) holds_benign [OF _ assms(2)] by (simp add: guarded_def)
qed

sublocale fenced_world \<subseteq> guarded: waiting_world turns "guarded U A L T" for U A L T
proof
  show "guarded U A L T (put_slot d k rn)" if "guarded U A L T rn" for d k rn by (rule guarded_quiet [OF that]) simp
  show "guarded U A L T (k rn)" if "k \<in> turns" "guarded U A L T rn" for k rn
    using that holds_benign [OF _ turn_benign] benign_upgrades [OF turn_benign] turn_fence [OF that(1)] holds_ok
    by (auto simp: guarded_def)
  show "guarded U A L T rn1" if "guarded U A L T rn" "root_dependents es rn = (ds, rn1)" for rn es ds rn1
    by (rule guarded_quiet [OF that(1) touches_dependents [OF that(2)]])
qed

sublocale fenced_world \<subseteq> tended: worked_world env turns g "guarded U A L {g}" for U A L g
proof
  show "guarded U A L {g} rn'" if "guarded U A L {g} rn" "touches g rn rn'" for rn rn' by (rule guarded_touches [OF that])
  show "guarded U A L {g} (k rn)" if "k \<in> turns" "guarded U A L {g} rn" for k rn by (rule guarded.P_turn [OF that])
  show "guarded U A L {g} (snd (le_apply env g plugin cx rn))" if "guarded U A L {g} rn" for plugin cx rn
    by (rule guarded_user [OF that apply_benign apply_fence])
  show "guarded U A L {g} (snd (le_cleanup env g c rn))" if "guarded U A L {g} rn" for c rn
    by (rule guarded_user [OF that cleanup_benign cleanup_fence])
qed

section \<open>Delivery\<close>

context foreign_turns
begin

lemma initial_loop_fit:
  assumes "settled f rn" and "fb_alive (fiber_at rn f)" and "room (4 * n + 2) f rn" and "set sch \<subseteq> turns"
    and "initial_loop n env f (sch, rn) = Inr (outcome, sch', rn')" and "outcome \<in> {InitialActive, InitialPending}"
  shows "room 2 f rn' \<and> same_shape f rn rn'"
  using assms
proof (induction n arbitrary: sch rn)
  case (Suc n)
  have rm: "room (4 + (4 * n + 2)) f rn" using Suc.prems(3) by (simp add: ac_simps)
  from Suc.prems(1,2) rm Suc.prems(4) show ?case
  proof (cases rule: initial_round)
    case (answer outcome1 sch1 rn1)
    then have "room (4 * n + 2) f rn'" "same_shape f rn rn'" using Suc.prems(5,6) by auto
    then show ?thesis using publication_room_mono [of "4 * n + 2" _ 2] by simp
  next
    case (again sch1 rn1 rn2 target)
    then have "initial_loop n env f (sch1, rn2) = Inr (outcome, sch', rn')" using Suc.prems(5) by simp
    from Suc.IH [OF again(2-5) this Suc.prems(6)] again(10) show ?thesis using shape_trans by blast
  qed
qed simp

end

context fenced_world
begin

lemma fence_walk:
  assumes "guarded U A {f} {} rn" and "allowed turns N sch"
  shows "run_keeps turns N (\<lambda>rn. fence f rn \<and> world_ok rn) (claim_loop f sch rn)"
    and "interfere (sch, rn) = (sch', rn') \<Longrightarrow> guarded U A {f} {} rn' \<and> allowed turns N sch'"
proof -
  show "run_keeps turns N (\<lambda>rn. fence f rn \<and> world_ok rn) (claim_loop f sch rn)"
    using guarded.run_claim [OF assms, of f] by (auto simp: run_keeps_def guarded_def holds_def split: sum.splits)
  show "interfere (sch, rn) = (sch', rn') \<Longrightarrow> guarded U A {f} {} rn' \<and> allowed turns N sch'"
    using guarded.P_interfere [OF assms] by blast
qed

lemma guarded_only: "guarded {} {} {f} {} rn \<longleftrightarrow> fence f rn \<and> world_ok rn"
  by (auto simp: guarded_def holds_def)

text \<open>The initial pass hands over a fenced Fiber.\<close>

lemma initial_pass_fence:
  assumes f: "fence f rn" and ok: "world_ok rn" and ts: "allowed turns N sch" and rm: "room (8 * length sch + (4 * n + 2)) f rn"
    and run: "initial_spawn_pass n env f (sch, rn) = Inr (outcome, sch', rn')" and out: "outcome \<in> {InitialActive, InitialPending}"
  shows "fence f rn'" and "world_ok rn'" and "allowed turns N sch'"
proof -
  have life: "life_inv f rn" using f by (simp add: fence_def)
  have sub: "set sch \<subseteq> turns" using ts by (simp add: allowed_def)
  obtain sch1 rn1 where c: "claim_loop f sch rn = Inr ((), sch1, rn1)" and al: "fb_alive (fiber_at rn1 f)"
    using run out by (auto simp: initial_spawn_pass_def is_alive_def split: sum.splits if_splits)
  have g: "guarded {} {} {f} {} rn" using f ok by (simp add: guarded_only)
  from fence_walk(1) [OF g ts] have g1: "fence f rn1" "world_ok rn1" "allowed turns N sch1" unfolding c by (auto dest: keepsD)
  from open_turns.claim_loop_life [OF each_fiber sub life] c
  have "\<forall>k. room (8 * length sch + k) f rn \<longrightarrow> room (8 * length sch1 + k) f rn1" by auto
  then have "room (8 * length sch1 + (4 * n + 2)) f rn1" using rm by blast
  then have r1: "room (4 * n + 2) f rn1" by (rule publication_room_mono) simp
  let ?rn2 = "put_slot f (set_creation_owned True) rn1"
  have up: "upgrades rn1 f" and l1: "life_inv f rn1" using g1(1) by (simp_all add: fence_def life_inv_def)
  have st: "settled f ?rn2" by (rule settled_put [OF life_settled [OF l1 al]])
  have al2: "fb_alive (fiber_at ?rn2 f)" "room (4 * n + 2) f ?rn2" using up al r1 by simp_all
  obtain sch3 rn3 where l: "initial_loop n env f (sch1, ?rn2) = Inr (outcome, sch3, rn3)"
    using run c al by (auto simp: initial_spawn_pass_def is_alive_def Let_def split: sum.splits prod.splits)
  have s1: "set sch1 \<subseteq> turns" using g1(3) by (simp add: allowed_def)
  note each = open_turns.axioms(1) [OF each_fiber]
  from foreign_turns.initial_loop_answers [OF each st al2 s1] l
  have an: "initial_answer env f outcome rn3" by auto
  note fit = foreign_turns.initial_loop_fit [OF each st al2 s1 l out]
  have "\<not> fb_dispose_complete (fiber_at ?rn2 f)" using g1(1) al up by (simp add: fence_def on_fiber_slot_def)
  then have b3: "\<not> fb_dispose_complete (fiber_at rn3 f)" using fit by (simp add: same_shape_def)
  have "settled f rn3 \<and> fb_alive (fiber_at rn3 f)" using an out by (auto simp: initial_answer_def)
  then have f3: "fence f rn3" using b3 fit settled_fields [of f rn3] by (simp add: fence_def life_inv_def)
  have h1: "holds {} {f} ?rn2" using g1(2) up by (intro kept.keep_slot) (simp add: holds_def)
  have h3: "world_ok rn3" "allowed turns N sch3"
    using kept.run_initial_loop [of "{}" f "(sch1, ?rn2)" N n] h1 g1(3) by (simp_all add: l run_keeps_def holds_def)
  obtain sch4 rn4 where e: "interfere (sch3, rn3) = (sch4, rn4)" by force
  have "guarded {} {} {f} {} rn3" using f3 h3(1) by (simp add: guarded_only)
  from fence_walk(2) [OF this h3(2) e] have g4: "fence f rn4" "world_ok rn4" "allowed turns N sch4"
    by (simp_all add: guarded_only)
  have q: "guarded {} {} {f} {} rn4" using g4 by (simp add: guarded_only)
  have "sch' = sch4 \<and> (rn' = put_slot f (set_creation_owned False) rn4 \<or>
      rn' = put_slot f abandon (put_slot f (set_creation_owned False) rn4))"
    using run c al l e by (auto simp: initial_spawn_pass_def is_alive_def Let_def)
  then have "sch' = sch4" "guarded {} {} {f} {} rn'"
    using guarded.P_slot [OF q] guarded.P_slot [OF guarded.P_slot [OF q]] by auto
  with g4(3) show "fence f rn'" "world_ok rn'" "allowed turns N sch'" by (simp_all add: guarded_only)
qed

lemma delivered_fence:
  assumes ok: "world_ok rn" and ts: "allowed turns N sch" and n: "8 * N + (4 * n + 2) < 2 ^ 63"
    and run: "spawn_prepared_inner n env cx prepared gated seals (sch, rn) = (seals', Inr (Inr h, sch', rn'))"
  shows "fence h rn'"
proof -
  let ?f = "rn_next rn"
  obtain seals1 rn1 where c: "spawn_commit cx prepared seals rn = Some (?f, seals1, rn1)" and nb: "newborn ?f rn1"
    and pub: "fb_state (fiber_at rn1 ?f) = publication_new Pending" and open_barrier: "\<not> fb_dispose_complete (fiber_at rn1 ?f)"
    by (rule spawn_commit_effect [OF world_fresh [OF ok]]) (rule that; assumption)
  have rm: "room (8 * length sch + (4 * n + 2)) ?f rn1"
    unfolding pub by (rule publication_new_room) (use ts n in \<open>simp add: allowed_def\<close>)
  have "room 2 ?f rn1" by (rule publication_room_mono [OF rm]) simp
  then have f1: "fence ?f rn1" using newborn_life [OF nb] nb open_barrier by (simp add: fence_def newborn_def)
  have ok1: "world_ok rn1" using commit_world(1) [OF c ok, of "{}"] by (simp add: holds_def)
  obtain sch2 rn2 where e: "interfere (sch, rn1) = (sch2, rn2)" by force
  have "guarded {} {} {?f} {} rn1" using f1 ok1 by (simp add: guarded_only)
  from fence_walk(2) [OF this ts e] have f2: "fence ?f rn2" "world_ok rn2" "allowed turns N sch2" by (simp_all add: guarded_only)
  have sub: "set sch \<subseteq> turns" using ts by (simp add: allowed_def)
  note r2 = open_turns.interfere_life(4) [OF each_fiber e sub newborn_life [OF nb] rm]
  obtain outcome sch3 rn3 where p: "initial_spawn_pass n env ?f (sch2, rn2) = Inr (outcome, sch3, rn3)"
    and ho: "spawn_handoff ?f outcome (sch3, rn3) = Inr (Inr h, sch', rn')"
    using run c e by (auto simp: spawn_prepared_inner_def split: if_splits sum.splits)
  have out: "outcome \<in> {InitialActive, InitialPending}"
    using ho by (cases outcome) (auto simp: spawn_handoff_def)
  note f3 = initial_pass_fence [OF f2 r2 p out]
  obtain sch4 rn4 where l: "claim_loop ?f sch3 rn3 = Inr ((), sch4, rn4)" and al: "fb_alive (fiber_at rn4 ?f)"
    and h: "h = ?f" and rn': "rn' = update_fiber ?f (set_creation_pending False) (put_slot ?f abandon rn4)"
    using ho out by (auto simp: spawn_handoff_def Let_def is_alive_def split: sum.splits if_splits)
  have "guarded {} {} {?f} {} rn3" using f3 by (simp add: guarded_only)
  from fence_walk(1) [OF this f3(3)] have "fence ?f rn4" unfolding l by (auto dest: keepsD)
  then have f4: "fence ?f (put_slot ?f abandon rn4)" by (rule fence_slot)
  then have life: "life_inv ?f (put_slot ?f abandon rn4)" by (simp add: fence_def)
  then have up: "upgrades (put_slot ?f abandon rn4) ?f" unfolding life_inv_def by blast
  have "life_inv ?f rn'" unfolding rn' by (rule life_keep [OF up life]) (simp_all add: set_creation_pending_def)
  with f4 up show ?thesis
    unfolding h fence_def by (simp add: rn' update_fiber_same [OF up] set_creation_pending_def claimed_def update_fiber_rest)
qed

section \<open>Disposal\<close>

lemma wait_dispose_done:
  "wait_dispose_complete f sch rn = Inr ((), sch', rn') \<Longrightarrow> fb_dispose_complete (fiber_at rn' f)"
proof (induction sch arbitrary: rn)
  case Nil
  then show ?case by (auto simp: wait_dispose_complete.simps [of f "[]"] split: if_splits)
next
  case (Cons k sch)
  then show ?case by (auto simp: wait_dispose_complete.simps [of f "k # sch"] split: if_splits)
qed

lemma fence_buried: "fence f rn \<Longrightarrow> fb_dispose_complete (fiber_at rn f) \<Longrightarrow> buried f rn"
  by (simp add: fence_def buried_def)

lemma disposal_buries:
  assumes f: "fence f rn" and ok: "world_ok rn" and ts: "allowed turns N sch"
    and run: "fiber_dispose env f (sch, rn) = Inr ((), sch', rn')"
  shows "buried f rn'"
proof (cases "fb_dispose_complete (fiber_at rn f)")
  case True
  with run have "rn' = rn" by (simp add: fiber_dispose_def)
  with fence_buried [OF f True] show ?thesis by simp
next
  case False
  obtain sch1 rn1 where c: "claim_loop f sch rn = Inr ((), sch1, rn1)"
    using run False by (auto simp: fiber_dispose_def split: sum.splits)
  have "guarded {} {} {f} {} rn" using f ok by (simp add: guarded_only)
  from fence_walk(1) [OF this ts] have f1: "fence f rn1" "world_ok rn1" "allowed turns N sch1" unfolding c by (auto dest: keepsD)
  show ?thesis
  proof (cases "fb_dispose_complete (fiber_at rn1 f) \<or> fb_disposing (fiber_at rn1 f)")
    case True
    let ?rn2 = "put_slot f abandon rn1"
    have w: "wait_dispose_complete f sch1 ?rn2 = Inr ((), sch', rn')"
      using run False c True by (auto simp: fiber_dispose_def dispose_claimed_def claim_terminal_def split: if_splits)
    have "guarded {} {} {f} {} ?rn2" using f1 by (intro guarded.P_slot) (simp add: guarded_only)
    from guarded.run_wait_dispose [OF this f1(3), of f] have "fence f rn'" by (simp add: w run_keeps_def guarded_only)
    then show ?thesis by (rule fence_buried [OF _ wait_dispose_done [OF w]])
  next
    case owner: False
    let ?rn2 = "update_fiber f mark_terminal rn1"
    have al: "fb_alive (fiber_at rn1 f)" "room 2 f rn1" "life_inv f rn1" using f1(1) owner by (auto simp: fence_def)
    then have up: "upgrades rn1 f" by (simp add: life_inv_def)
    have same: "update_fiber f (\<lambda>_. snd (claim_terminal (fiber_at rn1 f))) rn1 = ?rn2"
      using up by (auto simp: update_fiber_def claim_terminal_def mark_terminal_def fiber_at_def upgrades_def)
    have rn': "rn' = complete_claimed_dispose env f ?rn2"
      using run False c owner same by (auto simp: fiber_dispose_def dispose_claimed_def claim_terminal_def)
    have "life_inv f ?rn2" by (rule life_keep [OF up al(3)]) simp_all
    moreover have "world_ok ?rn2" by (rule world_touches [OF touches_update up f1(2)])
    ultimately have "holds {f} {} rn'"
      unfolding rn' by (intro source_disposed) (use al up in \<open>simp_all add: update_fiber_same\<close>)
    then show ?thesis by (simp add: holds_def)
  qed
qed

lemma handle_disposal_buries:
  assumes g: "guarded U A (insert f L) {} rn" and new: "f \<notin> A" "f \<notin> L" and ts: "allowed turns N sch"
    and task: "at_scopes st t = []" and run: "handle_dispose t st env f (sch, rn) = Inr (v, sch', rn')"
  shows "guarded U (insert f A) L {} rn' \<and> allowed turns N sch'"
proof -
  have f: "fence f rn" "world_ok rn" using g by (auto simp: guarded_def holds_def)
  have run: "fiber_dispose env f (sch, rn) = Inr ((), sch', rn')"
    using run task by (auto simp: handle_dispose_def refuse_recursion_def is_doomed_def split: sum.splits)
  have "guarded U A L {f} rn" using g new f(1) by (auto simp: guarded_def holds_def fence_def life_inv_def)
  from tended.run_dispose [of U A L f "(sch, rn)" N] this ts run
  have "guarded U A L {f} rn'" "allowed turns N sch'" by (simp_all add: run_keeps_def)
  with disposal_buries [OF f ts run] show ?thesis by (simp add: guarded_def holds_def)
qed

end

section \<open>A ledger of spawns\<close>

text \<open>What the Loader asks of the spawner it calls: a record of the spawns so far that every spawn extends.\<close>

locale spawn_ledger =
  fixes spawn :: "('p, 'h, 'e, 'w) spawner" and ledger :: "('e + 'h) list \<Rightarrow> 'w \<Rightarrow> bool"
  assumes entered: "ledger rs w \<Longrightarrow> spawn cx p (sn, w) = (r, sn', w') \<Longrightarrow> ledger (rs @ [r]) w'"

text \<open>The spawns behind the rows.\<close>

fun spawn_result :: "('h, 'e) entry_outcome \<Rightarrow> ('e + 'h) option" where
  "spawn_result (OutSpawned _ _ h) = Some (Inr h)"
| "spawn_result (OutFailed _ _ (SpawnFailed e)) = Some (Inl e)"
| "spawn_result _ = None"

definition spawn_results :: "('h, 'e) entry_outcome list \<Rightarrow> ('e + 'h) list" where
  "spawn_results outs = List.map_filter spawn_result outs"

definition delivered :: "('e + 'h) list \<Rightarrow> 'h list" where
  "delivered rs = List.map_filter (case_sum (\<lambda>_. None) Some) rs"

lemma results_append: "spawn_results (outs @ [out]) = spawn_results outs @ (case spawn_result out of None \<Rightarrow> [] | Some r \<Rightarrow> [r])"
  by (simp add: spawn_results_def map_filter_append List.map_filter_simps split: option.split)

lemma delivered_results: "List.map_filter outcome_handle outs = delivered (spawn_results outs)"
proof (induction outs)
  case (Cons out outs)
  have "outcome_handle out = Option.bind (spawn_result out) (case_sum (\<lambda>_. None) Some)"
    by (cases out rule: spawn_result.cases) simp_all
  with Cons show ?case
    by (cases "spawn_result out") (auto simp: spawn_results_def delivered_def List.map_filter_simps split: sum.split)
qed (simp add: spawn_results_def delivered_def List.map_filter_simps)

context spawn_ledger
begin

lemma load_node_ledger:
  assumes "load_node cx resolver spawn node st = Inr (out, st')" and "ledger (spawn_results outs) (ls_world st)"
  shows "ls_handoff st' = ls_handoff st" and "ledger (spawn_results (outs @ [out])) (ls_world st')"
proof -
  consider (quiet) "spawn_result out = None" "ls_world st' = ls_world st" "ls_handoff st' = ls_handoff st"
    | (spawned) placed prepared sn r sn' where "spawn placed prepared (sn, ls_world st) = (r, sn', ls_world st')"
      "spawn_result out = Some r" "ls_handoff st' = ls_handoff st"
    using assms(1)
    by (auto simp: load_node_def load_plugin_def split: option.splits plan_entry.splits if_splits sum.splits prod.splits)
  then have "ls_handoff st' = ls_handoff st \<and> ledger (spawn_results (outs @ [out])) (ls_world st')"
    by cases (use assms(2) entered in \<open>auto simp: results_append\<close>)
  then show "ls_handoff st' = ls_handoff st" "ledger (spawn_results (outs @ [out])) (ls_world st')" by blast+
qed

lemma load_nodes_ledger:
  assumes "load_nodes cx resolver spawn nodes st = Inr st'" and "rh_entries (ls_handoff st) = Some outs"
    and "ledger (spawn_results outs) (ls_world st)"
  shows "\<exists>outs'. rh_entries (ls_handoff st') = Some outs' \<and> ledger (spawn_results outs') (ls_world st')"
  using assms
proof (induction nodes arbitrary: st outs)
  case (Cons node nodes)
  obtain out st1 h where n: "load_node cx resolver spawn node st = Inr (out, st1)" "handoff_push out (ls_handoff st1) = Some h"
    "load_nodes cx resolver spawn nodes (st1\<lparr>ls_handoff := h\<rparr>) = Inr st'"
    using Cons.prems(1) by (auto split: sum.splits prod.splits option.splits)
  note l = load_node_ledger [OF n(1) Cons.prems(3)]
  have "rh_entries h = Some (outs @ [out])" using n(2) l(1) Cons.prems(2) by (auto simp: handoff_push_def)
  from Cons.IH [OF n(3), of "outs @ [out]"] this l(2) show ?case by simp
qed auto

text \<open>A finished execution and an abandoned one.\<close>

lemma load_ledger:
  assumes "load cx resolver spawn plan root w = Some (Inr (outcome, st))" and "ledger [] w"
  shows "ledger (spawn_results (lo_entries outcome)) (ls_world st)"
proof -
  obtain order st1 where o: "load_nodes cx resolver spawn (map ((!) (lp_nodes plan)) order) (load_state_new root w) = Inr st1"
    and f: "handoff_finish (ls_handoff st1) = Some (outcome, ls_handoff st)" "ls_world st = ls_world st1"
    using assms(1) by (auto simp: load_def split: option.splits sum.splits prod.splits)
  from load_nodes_ledger [OF o, of "[]"] assms(2) f show ?thesis
    by (auto simp: load_state_new_def handoff_new_def spawn_results_def List.map_filter_simps handoff_finish_def)
qed

lemma abandoned_ledger:
  assumes "load_abandoned cx resolver spawn rollback_fiber k plan root w = Some (Inr w')" and "ledger [] w"
  shows "\<exists>rs w1. ledger rs w1 \<and> w' = fold rollback_fiber (rev (delivered rs)) w1"
proof -
  obtain order st1 where o: "load_nodes cx resolver spawn (take k (map ((!) (lp_nodes plan)) order)) (load_state_new root w) = Inr st1"
    and f: "w' = handoff_drop rollback_fiber (ls_handoff st1) (ls_world st1)"
    using assms(1) by (auto simp: load_abandoned_def split: option.splits sum.splits)
  from load_nodes_ledger [OF o, of "[]"] assms(2)
  obtain outs where "rh_entries (ls_handoff st1) = Some outs" "ledger (spawn_results outs) (ls_world st1)"
    by (auto simp: load_state_new_def handoff_new_def spawn_results_def List.map_filter_simps)
  with f show ?thesis
    by (auto simp: handoff_drop_def rollback_def rollback_handles_def map_filter_rev delivered_results)
qed

end

section \<open>The Runtime as the Loader sees it\<close>

text \<open>
  The world of an execution: the store of seals, the turns of the other tasks still to come, the
  Runtime, and, for the account only, the Fibers its spawns have committed.  An execution whose
  spawn never answers stays there: \<open>lw_stop\<close> says why, and no row after it is reached.
\<close>

record load_world =
  lw_seals :: seals
  lw_turns :: schedule
  lw_runtime :: runtime
  lw_attempts :: "fid list"
  lw_stop :: "pass_stop option"

definition load_world_new :: "seals \<Rightarrow> world \<Rightarrow> load_world" where
  "load_world_new seals w = \<lparr>lw_seals = seals, lw_turns = fst w, lw_runtime = snd w, lw_attempts = [], lw_stop = None\<rparr>"

type_synonym load_spawn_error = "pass_stop + spawn_error"

definition committed_attempt :: "load_spawn_error + fid \<Rightarrow> bool" where
  "committed_attempt r \<longleftrightarrow> r \<noteq> Inl (Inr InactiveContext)"

text \<open>\<open>Context::spawn\<close>; \<open>realms\<close> is what everybody else draws from the realm counter meanwhile.\<close>

definition runtime_spawn ::
  "nat \<Rightarrow> lifecycle_env \<Rightarrow> (runtime \<Rightarrow> sn_counters \<Rightarrow> sn_counters) \<Rightarrow> (prepared_plugin, fid, load_spawn_error, load_world) spawner"
where
  "runtime_spawn n env realms cx prepared sw =
     (case sw of (sn, w) \<Rightarrow>
        case lw_stop w of
          Some stop \<Rightarrow> (Inl (Inl stop), sn, w)
        | None \<Rightarrow>
            (case interfere (lw_turns w, lw_runtime w) of (sch, rn) \<Rightarrow>
               (case spawn_prepared n env cx prepared (lw_seals w) (sch, rn) of
                  (seals, Inl stop) \<Rightarrow> (Inl (Inl stop), sn, w\<lparr>lw_seals := seals, lw_stop := Some stop\<rparr>)
                | (seals, Inr (result, sch', rn')) \<Rightarrow>
                    (let r = map_sum Inr id result
                     in (r, realms rn' sn,
                         w\<lparr>lw_seals := seals, lw_turns := sch', lw_runtime := rn',
                           lw_attempts := lw_attempts w @ (if committed_attempt r then [rn_next rn] else [])\<rparr>)))))"

text \<open>\<open>rollback_fiber\<close> on the detached task \<open>t\<close>: the refusal is ignored, the drop of the handle contained.\<close>

definition rollback_fiber :: "ident \<Rightarrow> att \<Rightarrow> lifecycle_env \<Rightarrow> fid \<Rightarrow> load_world \<Rightarrow> load_world" where
  "rollback_fiber t st env h w =
     (case lw_stop w of
        Some stop \<Rightarrow> w
      | None \<Rightarrow>
          (case handle_dispose t st env h (interfere (lw_turns w, lw_runtime w)) of
             Inl stop \<Rightarrow> w\<lparr>lw_stop := Some stop\<rparr>
           | Inr (_, sch, rn) \<Rightarrow> w\<lparr>lw_turns := sch, lw_runtime := rn\<rparr>))"

section \<open>The account\<close>

definition attempt_fate :: "runtime \<Rightarrow> (fid \<Rightarrow> bool) \<Rightarrow> load_spawn_error + fid \<Rightarrow> fid \<Rightarrow> bool" where
  "attempt_fate rn0 lost r a \<longleftrightarrow> \<not> upgrades rn0 a \<and> (case r of Inl _ \<Rightarrow> lost a | Inr h \<Rightarrow> h = a)"

definition stop_ok :: "load_world \<Rightarrow> bool" where
  "stop_ok w \<longleftrightarrow> lw_stop w \<noteq> Some PassPanic"

definition books ::
  "(runtime \<Rightarrow> runtime) set \<Rightarrow> nat \<Rightarrow> nat \<Rightarrow> runtime \<Rightarrow> (load_spawn_error + fid) list \<Rightarrow> load_world \<Rightarrow> bool"
where
  "books turns n N rn0 rs w \<longleftrightarrow>
     stop_ok w \<and>
     (lw_stop w = None \<longrightarrow>
        8 * N + (4 * n + 2) < 2 ^ 63 \<and> allowed turns N (lw_turns w) \<and> distinct (lw_attempts w) \<and>
        (\<exists>A. list_all2 (attempt_fate rn0 (\<lambda>a. a \<in> A)) (filter committed_attempt rs) (lw_attempts w) \<and>
           A \<union> set (delivered rs) = set (lw_attempts w) \<and>
           guarded {h. upgrades rn0 h} A (set (delivered rs)) {} (lw_runtime w)))"

lemma delivered_append: "delivered (rs @ [r]) = delivered rs @ (case r of Inl _ \<Rightarrow> [] | Inr h \<Rightarrow> [h])"
  by (simp add: delivered_def map_filter_append List.map_filter_simps split: sum.split)

lemma guarded_upgrades: "guarded U A L T rn \<Longrightarrow> f \<in> A \<union> L \<Longrightarrow> upgrades rn f"
  by (auto simp: guarded_def holds_def buried_def fence_def life_inv_def)

lemma delivered_set: "set (delivered rs) = {h. Inr h \<in> set rs}"
proof (induction rs)
  case (Cons r rs)
  then show ?case by (cases r) (auto simp: delivered_def List.map_filter_simps)
qed (simp add: delivered_def List.map_filter_simps)

context fenced_world
begin

text \<open>One spawn beside the Fibers of the earlier ones.\<close>

lemma spawn_beside:
  assumes g: "guarded U A L {} rn" and ts: "allowed turns N sch" and n: "8 * N + (4 * n + 2) < 2 ^ 63"
    and run: "spawn_prepared n env cx prepared seals (sch, rn) = (seals', r)"
  shows "case r of Inl stop \<Rightarrow> stop \<noteq> PassPanic
    | Inr (result, sch', rn') \<Rightarrow> allowed turns N sch' \<and>
        (if result = Inl InactiveContext then guarded U A L {} rn'
         else case result of
             Inl _ \<Rightarrow> guarded U (insert (rn_next rn) A) L {} rn'
           | Inr h \<Rightarrow> h = rn_next rn \<and> guarded U A (insert h L) {} rn')"
proof (cases "assert_can_register (fiber_at rn (cx_fiber cx)) = Inr ()")
  case False
  with run g ts show ?thesis by (auto simp: spawn_prepared_def spawn_prepared_inner_def)
next
  case True
  let ?f = "rn_next rn"
  have h: "holds A {} rn" and ok: "world_ok rn" using g by (simp_all add: guarded_def holds_def)
  have new: "?f \<notin> A \<union> L" using guarded_upgrades [OF g] ok by (auto simp: world_ok_def)
  have inner: "spawn_prepared_inner n env cx prepared True seals (sch, rn) = (seals', r)" using run by (simp add: spawn_prepared_def)
  note made = attempt_created [OF h ts n _ inner]
  have keep: "run_keeps turns N (guarded U A L {?f}) r"
  proof (cases "spawn_commit cx prepared seals rn")
    case None
    with inner True show ?thesis by (auto simp: spawn_prepared_inner_def)
  next
    case (Some c)
    obtain d sl rn1 where c: "spawn_commit cx prepared seals rn = Some (d, sl, rn1)" using Some by (cases c) auto
    have "\<forall>f \<in> A. buried f rn" using h by (simp add: holds_def)
    note w = commit_world [OF c ok this]
    have "fence f rn1" if "f \<in> L" for f
    proof -
      have f: "fence f rn" using g that by (simp add: guarded_def)
      then have "upgrades rn f" by (simp add: fence_def life_inv_def)
      from w(3) [OF this] show ?thesis using fence_abides [OF _ _ f] by blast
    qed
    moreover have "upgrades rn1 h" if "h \<in> U" for h
      using w(3) [of h] abides_fields(1) [of h rn rn1] g that by (simp add: guarded_def)
    ultimately have "guarded U A L {?f} rn1" using w(1,2) new by (auto simp: guarded_def)
    moreover have "r = (case initial_spawn_pass n env ?f (interfere (sch, rn1)) of
        Inl stop \<Rightarrow> Inl stop | Inr (outcome, w) \<Rightarrow> spawn_handoff ?f outcome w)"
      using inner True c w(2) by (simp add: spawn_prepared_inner_def)
    ultimately show ?thesis using tended.run_attempt [OF _ ts, of U A L ?f rn1 n] by simp
  qed
  show ?thesis
  proof (cases r)
    case (Inl stop)
    with made True show ?thesis by auto
  next
    case (Inr a)
    obtain result sch' rn' where a: "r = Inr (result, sch', rn')" using Inr by (cases a) auto
    have answer: "spawn_answer env ?f result rn'" and al: "allowed turns N sch'" using made True a by simp_all
    have g': "guarded U A L {?f} rn'" using keep by (simp add: a run_keeps_def)
    show ?thesis
    proof (cases result)
      case (Inl e)
      have "buried ?f rn'" "e \<noteq> InactiveContext"
        using answer Inl by (simp_all add: spawn_answer_def buried_def claimed_def disposed_for_good_def)
      with g' al a Inl new show ?thesis by (auto simp: guarded_def holds_def)
    next
      case (Inr h)
      with answer have "h = ?f" by (simp add: spawn_answer_def)
      moreover have "fence h rn'" using delivered_fence [OF ok ts n, of cx prepared True seals seals' h sch' rn'] inner a Inr by simp
      ultimately show ?thesis using g' al a Inr by (auto simp: guarded_def holds_def)
    qed
  qed
qed

lemma spawn_books:
  assumes "books turns n N rn0 rs w" and run: "runtime_spawn n env realms cx prepared (sn, w) = (r, sn', w')"
  shows "books turns n N rn0 (rs @ [r]) w'"
proof (cases "lw_stop w")
  case (Some stop)
  with assms show ?thesis by (auto simp: runtime_spawn_def books_def stop_ok_def)
next
  case None
  let ?U = "{h. upgrades rn0 h}" and ?L = "set (delivered rs)"
  from assms(1) None obtain A where n: "8 * N + (4 * n + 2) < 2 ^ 63" and ts: "allowed turns N (lw_turns w)"
    and d: "distinct (lw_attempts w)" and fates: "list_all2 (attempt_fate rn0 (\<lambda>a. a \<in> A)) (filter committed_attempt rs) (lw_attempts w)"
    and all: "A \<union> ?L = set (lw_attempts w)" and g: "guarded ?U A ?L {} (lw_runtime w)"
    unfolding books_def by blast
  obtain sch rn where e: "interfere (lw_turns w, lw_runtime w) = (sch, rn)" by force
  note i = guarded.P_interfere [OF g ts e]
  obtain seals q where s: "spawn_prepared n env cx prepared (lw_seals w) (sch, rn) = (seals, q)" by force
  note beside = spawn_beside [OF i n s]
  have fresh: "\<not> upgrades rn0 (rn_next rn)" "rn_next rn \<notin> set (lw_attempts w)"
    using guarded_upgrades [OF i(1)] i(1) all by (auto simp: guarded_def holds_def world_ok_def)
  show ?thesis
  proof (cases q)
    case (Inl stop)
    with run None e s beside show ?thesis by (auto simp: runtime_spawn_def books_def stop_ok_def)
  next
    case (Inr a)
    obtain result sch' rn' where q: "q = Inr (result, sch', rn')" using Inr by (cases a) auto
    have r: "r = map_sum Inr id result" and w': "w' = w\<lparr>lw_seals := seals, lw_turns := sch', lw_runtime := rn',
        lw_attempts := lw_attempts w @ (if committed_attempt r then [rn_next rn] else [])\<rparr>"
      using run None e s q by (auto simp: runtime_spawn_def Let_def)
    show ?thesis
    proof (cases "result = Inl InactiveContext")
      case True
      then have no: "\<not> committed_attempt r" "delivered (rs @ [r]) = delivered rs" by (simp_all add: r committed_attempt_def delivered_append)
      show ?thesis unfolding books_def
        using beside q True no fates all d n None by (auto simp: w' stop_ok_def)
    next
      case False
      then have yes: "committed_attempt r" by (cases result) (simp_all add: r committed_attempt_def)
      let ?A = "case result of Inl _ \<Rightarrow> insert (rn_next rn) A | Inr _ \<Rightarrow> A"
      have old: "list_all2 (attempt_fate rn0 (\<lambda>a. a \<in> ?A)) (filter committed_attempt rs) (lw_attempts w)"
        by (rule list_all2_mono [OF fates]) (auto simp: attempt_fate_def split: sum.splits)
      have "attempt_fate rn0 (\<lambda>a. a \<in> ?A) r (rn_next rn)"
        using beside q False fresh by (cases result) (simp_all add: attempt_fate_def r)
      with old yes have "list_all2 (attempt_fate rn0 (\<lambda>a. a \<in> ?A)) (filter committed_attempt (rs @ [r])) (lw_attempts w')"
        by (simp add: w' list_all2_appendI)
      moreover have "?A \<union> set (delivered (rs @ [r])) = set (lw_attempts w')"
        using beside q False all yes by (cases result) (auto simp: w' r delivered_append)
      moreover have "guarded ?U ?A (set (delivered (rs @ [r]))) {} (lw_runtime w') \<and> allowed turns N (lw_turns w')"
        using beside q False by (cases result) (simp_all add: w' r delivered_append insert_commute)
      ultimately show ?thesis unfolding books_def using d fresh n None yes by (auto simp: w' stop_ok_def)
    qed
  qed
qed

end

sublocale fenced_world \<subseteq> books: spawn_ledger "runtime_spawn n env realms" "books turns n N rn0" for n realms N rn0
  by unfold_locales (rule spawn_books)

section \<open>Rolling back\<close>

lemma claim_loop_stop: "claim_loop f sch rn = Inl stop \<Longrightarrow> stop = StillWaiting"
proof (induction sch arbitrary: rn)
  case Nil
  then show ?case by (auto simp: claim_loop.simps [of f "[]"] split: prod.splits bool.splits)
next
  case (Cons k sch)
  then show ?case by (auto simp: claim_loop.simps [of f "k # sch"] split: prod.splits bool.splits)
qed

lemma wait_dispose_stop: "wait_dispose_complete f sch rn = Inl stop \<Longrightarrow> stop = StillWaiting"
proof (induction sch arbitrary: rn)
  case Nil
  then show ?case by (auto simp: wait_dispose_complete.simps [of f "[]"] split: if_splits)
next
  case (Cons k sch)
  then show ?case by (auto simp: wait_dispose_complete.simps [of f "k # sch"] split: if_splits)
qed

lemma handle_dispose_stop: "handle_dispose t st env f w = Inl stop \<Longrightarrow> stop = StillWaiting"
  using claim_loop_stop wait_dispose_stop
  by (cases w) (fastforce simp: handle_dispose_def fiber_dispose_def split: sum.splits prod.splits bool.splits if_splits)

lemma guarded_mono: "guarded U A L {} rn \<Longrightarrow> A' \<subseteq> A \<Longrightarrow> L' \<subseteq> L \<Longrightarrow> guarded U A' L' {} rn"
  by (auto simp: guarded_def holds_def)

lemma delivered_distinct:
  assumes "list_all2 (attempt_fate rn0 lost) (filter committed_attempt rs) attempts" and "distinct attempts"
  shows "distinct (delivered rs)"
proof -
  have "distinct (delivered qs) \<and> set (delivered qs) \<subseteq> set as" if "list_all2 (attempt_fate rn0 lost) qs as" "distinct as" for qs as
    using that
  proof (induction qs as rule: list_all2_induct)
    case (Cons r qs a as)
    then show ?case by (cases r) (auto simp: delivered_def List.map_filter_simps attempt_fate_def)
  qed (simp add: delivered_def List.map_filter_simps)
  moreover have "delivered (filter committed_attempt rs) = delivered rs"
  proof (induction rs)
    case (Cons r rs)
    then show ?case by (cases r) (auto simp: delivered_def List.map_filter_simps committed_attempt_def)
  qed simp
  ultimately show ?thesis using assms by metis
qed

context fenced_world
begin

lemma rollback_buries:
  assumes "stop_ok w" and "lw_stop w = None \<Longrightarrow> allowed turns N (lw_turns w) \<and> guarded U A (set hs) {} (lw_runtime w)"
    and "distinct hs" and task: "at_scopes st t = []" and "fold (rollback_fiber t st env) hs w = w'"
  shows "stop_ok w' \<and> lw_attempts w' = lw_attempts w \<and>
    (lw_stop w' = None \<longrightarrow> lw_stop w = None \<and> guarded U (A \<union> set hs) {} {} (lw_runtime w'))"
  using assms(1-3,5)
proof (induction hs arbitrary: w A)
  case Nil
  then show ?case by auto
next
  case (Cons h hs)
  let ?w1 = "rollback_fiber t st env h w"
  have rest: "fold (rollback_fiber t st env) hs ?w1 = w'" using Cons.prems(4) by simp
  have step: "stop_ok ?w1 \<and> lw_attempts ?w1 = lw_attempts w \<and>
      (lw_stop ?w1 = None \<longrightarrow> lw_stop w = None \<and> allowed turns N (lw_turns ?w1) \<and> guarded U (insert h A) (set hs) {} (lw_runtime ?w1))"
  proof (cases "lw_stop w")
    case (Some stop)
    with Cons.prems(1) show ?thesis by (simp add: rollback_fiber_def stop_ok_def)
  next
    case None
    with Cons.prems(2) have ts: "allowed turns N (lw_turns w)" and g: "guarded U A (insert h (set hs)) {} (lw_runtime w)" by simp_all
    obtain sch rn where e: "interfere (lw_turns w, lw_runtime w) = (sch, rn)" by force
    note i = guarded.P_interfere [OF g ts e]
    have g': "guarded U (A - {h}) (insert h (set hs)) {} rn" by (rule guarded_mono [OF i(1)]) auto
    show ?thesis
    proof (cases "handle_dispose t st env h (sch, rn)")
      case (Inl stop)
      with handle_dispose_stop [OF Inl] None e show ?thesis by (simp add: rollback_fiber_def stop_ok_def)
    next
      case (Inr a)
      obtain v sch' rn' where a: "handle_dispose t st env h (sch, rn) = Inr (v, sch', rn')" using Inr by (cases a) auto
      from handle_disposal_buries [OF g' _ _ i(2) task a] Cons.prems(3)
      have "guarded U (insert h A) (set hs) {} rn'" "allowed turns N sch'" by simp_all
      with None e a show ?thesis by (simp add: rollback_fiber_def stop_ok_def)
    qed
  qed
  from Cons.IH [of ?w1 "insert h A", OF _ _ _ rest] step Cons.prems(3) show ?case by auto
qed

end

section \<open>What an execution owns\<close>

text \<open>
  Each committed spawn made a Fiber that was not there before: a delivered one is alive and
  settled or disposed for good, a failed one is buried.
\<close>

definition load_owns :: "runtime \<Rightarrow> (load_spawn_error + fid) list \<Rightarrow> load_world \<Rightarrow> bool" where
  "load_owns rn0 rs w \<longleftrightarrow>
     stop_ok w \<and>
     (lw_stop w = None \<longrightarrow>
        distinct (lw_attempts w) \<and>
        list_all2 (\<lambda>r a. \<not> upgrades rn0 a \<and>
            (case r of Inl _ \<Rightarrow> buried a (lw_runtime w) | Inr h \<Rightarrow> h = a \<and> life_inv a (lw_runtime w)))
          (filter committed_attempt rs) (lw_attempts w))"

text \<open>Of an abandoned one nothing is left.\<close>

definition load_undone :: "runtime \<Rightarrow> load_world \<Rightarrow> bool" where
  "load_undone rn0 w \<longleftrightarrow>
     stop_ok w \<and>
     (lw_stop w = None \<longrightarrow> (\<forall>a \<in> set (lw_attempts w). \<not> upgrades rn0 a \<and> buried a (lw_runtime w)))"

lemma books_owned:
  assumes "books turns n N rn0 rs w"
  shows "load_owns rn0 rs w"
proof (cases "lw_stop w")
  case None
  from assms None obtain A where d: "distinct (lw_attempts w)"
    and fates: "list_all2 (attempt_fate rn0 (\<lambda>a. a \<in> A)) (filter committed_attempt rs) (lw_attempts w)"
    and g: "guarded {h. upgrades rn0 h} A (set (delivered rs)) {} (lw_runtime w)"
    unfolding books_def by blast
  have "h \<in> set (delivered rs)" if "Inr h \<in> set (filter committed_attempt rs)" for h
    using that by (simp add: delivered_set)
  with g have "list_all2 (\<lambda>r a. \<not> upgrades rn0 a \<and>
      (case r of Inl _ \<Rightarrow> buried a (lw_runtime w) | Inr h \<Rightarrow> h = a \<and> life_inv a (lw_runtime w))) (filter committed_attempt rs) (lw_attempts w)"
    by (intro list.rel_mono_strong [OF fates]) (auto simp: attempt_fate_def guarded_def holds_def fence_def split: sum.splits)
  with d assms show ?thesis by (simp add: load_owns_def books_def)
qed (use assms in \<open>simp add: books_def load_owns_def\<close>)

lemma owned_alive:
  assumes "load_owns rn0 rs w" and "lw_stop w = None" and "h \<in> set (delivered rs)"
  shows "life_inv h (lw_runtime w)"
proof -
  have "Inr h \<in> set (filter committed_attempt rs)" using assms(3) by (simp add: delivered_set committed_attempt_def)
  then obtain i where i: "i < length (filter committed_attempt rs)" "filter committed_attempt rs ! i = Inr h"
    unfolding in_set_conv_nth by blast
  from assms(1,2) have "list_all2 (\<lambda>r a. \<not> upgrades rn0 a \<and>
      (case r of Inl _ \<Rightarrow> buried a (lw_runtime w) | Inr h \<Rightarrow> h = a \<and> life_inv a (lw_runtime w))) (filter committed_attempt rs) (lw_attempts w)"
    by (simp add: load_owns_def)
  from list_all2_nthD [OF this i(1)] i(2) show ?thesis by simp
qed

text \<open>Executions of frozen plans come to an end, abandoned ones too.\<close>

lemma load_ends:
  assumes "frozen plan"
  obtains result where "load cx resolver spawn plan root w = Some result"
    and "\<And>panic. result = Inl panic \<Longrightarrow> panic = RealmSpaceExhausted (- 1)"
proof -
  obtain order where order: "execution_order plan = Some order"
    and pre: "\<forall>k. case load_nodes cx resolver spawn (take k (map ((!) (lp_nodes plan)) order)) (load_state_new root w) of
       Inl panic \<Rightarrow> panic = RealmSpaceExhausted (- 1)
     | Inr st \<Rightarrow> \<exists>outs. rh_entries (ls_handoff st) = Some outs \<and> list_all2 (row_of_entry (lp_nodes plan)) (take k order) outs"
    using load_prefix_rows [OF assms, of cx resolver spawn root w] by blast
  from pre [THEN spec, of "length order"]
  have "case load_nodes cx resolver spawn (map ((!) (lp_nodes plan)) order) (load_state_new root w) of
      Inl panic \<Rightarrow> panic = RealmSpaceExhausted (- 1) | Inr st \<Rightarrow> \<exists>outs. rh_entries (ls_handoff st) = Some outs"
    unfolding take_map take_all [OF order.refl] by (auto split: sum.splits)
  with order that show ?thesis by (auto simp: load_def handoff_finish_def split: sum.splits)
qed

lemma load_abandoned_ends:
  assumes "frozen plan"
  obtains result where "load_abandoned cx resolver spawn undo k plan root w = Some result"
    and "\<And>panic. result = Inl panic \<Longrightarrow> panic = RealmSpaceExhausted (- 1)"
proof -
  from load_prefix_rows [OF assms, of cx resolver spawn root w] obtain order where order: "execution_order plan = Some order"
    and pre: "case load_nodes cx resolver spawn (take k (map ((!) (lp_nodes plan)) order)) (load_state_new root w) of
       Inl panic \<Rightarrow> panic = RealmSpaceExhausted (- 1) | Inr st \<Rightarrow> True"
    by (fastforce split: sum.splits)
  then show ?thesis using that
    by (cases "load_nodes cx resolver spawn (take k (map ((!) (lp_nodes plan)) order)) (load_state_new root w)")
      (auto simp: load_abandoned_def)
qed

context fenced_world
begin

lemma books_opened:
  assumes "allowed turns N sch" and "8 * N + (4 * n + 2) < 2 ^ 63" and "world_ok rn"
  shows "books turns n N rn [] (load_world_new seals (sch, rn))"
  using assms
  by (auto simp: books_def load_world_new_def stop_ok_def delivered_def List.map_filter_simps guarded_def holds_def)

lemma abandoned_undone:
  assumes b: "books turns n N rn0 rs w1" and task: "at_scopes st t = []"
    and w': "w' = fold (rollback_fiber t st env) (rev (delivered rs)) w1"
  shows "load_undone rn0 w'"
proof (cases "lw_stop w1")
  case (Some stop)
  have "stop_ok w1" using b by (simp add: books_def)
  moreover have "rollback_fiber t st env h w1 = w1" for h using Some by (simp add: rollback_fiber_def)
  then have "fold (rollback_fiber t st env) hs w1 = w1" for hs by (induction hs) simp_all
  ultimately show ?thesis using Some w' by (simp add: load_undone_def)
next
  case None
  from b None obtain A where n: "allowed turns N (lw_turns w1)" and d: "distinct (lw_attempts w1)"
    and fates: "list_all2 (attempt_fate rn0 (\<lambda>a. a \<in> A)) (filter committed_attempt rs) (lw_attempts w1)"
    and all: "A \<union> set (delivered rs) = set (lw_attempts w1)" and ok: "stop_ok w1"
    and g: "guarded {h. upgrades rn0 h} A (set (delivered rs)) {} (lw_runtime w1)"
    unfolding books_def by blast
  have "stop_ok w' \<and> lw_attempts w' = lw_attempts w1 \<and>
      (lw_stop w' = None \<longrightarrow> lw_stop w1 = None \<and> guarded {h. upgrades rn0 h} (A \<union> set (rev (delivered rs))) {} {} (lw_runtime w'))"
    by (rule rollback_buries [OF ok _ _ task w' [symmetric], of N]) (use n g delivered_distinct [OF fates d] in simp_all)
  moreover have "\<not> upgrades rn0 a" if "a \<in> set (lw_attempts w1)" for a
    using fates that by (auto simp: list_all2_conv_all_nth attempt_fate_def in_set_conv_nth)
  ultimately show ?thesis using all by (auto simp: load_undone_def guarded_def holds_def)
qed

end

section \<open>Scripted worlds\<close>

lemma run_act_fence:
  assumes "fence f rn"
  shows "fence f (run_act g a rn)"
proof (cases "f = g")
  case True
  have up: "upgrades rn f" using assms by (simp add: fence_def life_inv_def)
  show ?thesis unfolding True
    by (rule fence_abides [OF run_act_abides _ assms [unfolded True]]) (use up True in \<open>simp_all add: claimed_def run_act_registry\<close>)
qed (rule fence_touches [OF run_act_touches _ assms])

lemma run_acts_fence: "fence f rn \<Longrightarrow> fence f (fold (run_act g) as rn)"
  by (induction as arbitrary: rn) (simp_all add: run_act_fence)

interpretation scripted_world: fenced_world "scripted_env outcome acts report cleanup_acts" world_turns
  for outcome acts report cleanup_acts
proof (rule fenced_world.intro [OF drifting.open_world_axioms], unfold_locales)
  fix k f rn
  assume "k \<in> world_turns" and "fence f rn"
  then show "fence f (k rn)" by (auto simp: world_turns_def intro: run_act_fence)
next
  fix f g rn plugin cx
  assume "fence f rn"
  then show "fence f (snd (le_apply (scripted_env outcome acts report cleanup_acts) g plugin cx rn))"
    by (simp add: scripted_env_def run_acts_fence)
next
  fix f g rn c
  assume "fence f rn"
  then show "fence f (snd (le_cleanup (scripted_env outcome acts report cleanup_acts) g c rn))"
    by (simp add: scripted_env_def run_acts_fence)
qed

lemma demo_fenced_world: "fenced_world demo_env world_turns"
  by (rule scripted_world.fenced_world_axioms)

section \<open>One execution\<close>

abbreviation demo_plugins :: "prepared_plugin resolver" where
  "demo_plugins \<equiv> \<lambda>request. ResolverReturned (Inr (Some demo_plugin))"

abbreviation demo_spawn :: "(prepared_plugin, fid, load_spawn_error, load_world) spawner" where
  "demo_spawn \<equiv> runtime_spawn 1 demo_env (\<lambda>_ sn. sn)"

abbreviation demo_load_world :: load_world where
  "demo_load_world \<equiv> load_world_new (\<lambda>_. None) ([], newborn_runtime)"

lemma demo_nodes_run:
  "map_sum (\<lambda>_. ()) (\<lambda>st. (map_option (\<lambda>outs. delivered (spawn_results outs)) (rh_entries (ls_handoff st)),
       lw_stop (ls_world st), lw_attempts (ls_world st)))
     (load_nodes demo_ctx demo_plugins demo_spawn (map ((!) (lp_nodes demo_plan)) demo_order) (load_state_new loader_root demo_load_world)) =
   Inr (Some [3], None, [3])"
  by code_simp

lemma demo_rollback_run:
  "map_sum (\<lambda>_. ()) (\<lambda>st. (lw_stop (handoff_drop (rollback_fiber 0 att_init demo_env) (ls_handoff st) (ls_world st)),
       lw_attempts (handoff_drop (rollback_fiber 0 att_init demo_env) (ls_handoff st) (ls_world st))))
     (load_nodes demo_ctx demo_plugins demo_spawn (map ((!) (lp_nodes demo_plan)) demo_order) (load_state_new loader_root demo_load_world)) =
   Inr (None, [3])"
  by code_simp

end
