(* ===== verification/Spec2Isabelle.thy ===== *)
theory Spec2Isabelle
  imports Caller_Driven Plugin_Contract Inertia_Protocol Service_Properties Settle_Ctx Event_Dispatch Loader_Realms Update_Properties
    Logger_Properties Timer_Properties Deadline_Scheduler Era_Properties Observation Listener_Properties Drain_Barrier Wait_State Load_Runtime
begin

text \<open>
  A verification development for cordis-rs, an asynchronous plugin runtime in Rust: a Runtime
  holds Fibers (instances of Plugins), each Fiber lives through settled generations that own
  cleanups, services, listeners and timers, and everything registered under a generation is
  withdrawn when the generation ends.  The development models the crates \<open>cordis-core\<close>,
  \<open>cordis-loader\<close> and \<open>cordis-timer\<close> under \<open>src/crates/\<close>; paths below are relative to it.

  \<^bold>\<open>How the parts interact.\<close>  User code and other tasks call in through a \<open>Context\<close> (an
  immutable view: realm, configuration and ownership axes).  Whatever they register - an effect,
  a service, a listener, a log exporter, an observer, an update policy, a timer - goes through
  one gate: the generation must be open before and under the journal lock, and the obligation
  to undo the registration enters the journal of the owning Fiber.  A Fiber is driven by the
  holder of its settle slot, which compares the live target (installed input, missing services,
  replacement mark) with the one it settled against, drains the journal, runs the Plugin's apply
  and publishes the state.  Each change of what a service edge sees commits a recheck to its
  dependents, which a kick turns into a pass.  Spawning, restarting, updating, disposing and
  replacing a Fiber are transactions over the slot, the journal and the Registry.  The Loader
  resolves a plan of declarations and spawns its entries in order, with a rollback of all when
  the caller goes away.

  \<^bold>\<open>Shared vocabulary.\<close>  \<open>Cordis_Prelude\<close>: maps as association lists with distinct keys, wrapping
  counters as words with the checked increment written out, outcomes of user code
  (\<open>Finished\<close> or \<open>Unwound\<close> with the panic payload), and the locales of the library:
  \<^item> \<open>key_store\<close> (lookup after insert and remove), interpreted on the hash map and the tree map;
  \<^item> \<open>id_allocator\<close> (checked counters hand out fresh identities), interpreted on the realm counter;
  \<^item> \<open>exact_claim\<close> (a claim removes one key, once), interpreted on the cleanup journal, explicit and
    once-claims of listeners and the exporters of the log;
  \<^item> \<open>invariant_system\<close> (invariants of step relations), interpreted on the settle protocol, the
    caller-driven work, the recursion attribution and the deadline scheduler;
  \<^item> \<open>gated_step\<close> (\<open>Gated\<close>: what a publish step behind the gate must keep), interpreted on the
    services, listeners, exporters, observers and update policies;
  \<^item> \<open>slot_environment\<close> (\<open>Lifecycle_Laws\<close>: user code may not move the state of a Fiber whose slot is
    held), \<open>foreign_turns\<close> (\<open>Pass_Laws\<close>: what other tasks may do while a pass runs), \<open>steady_turns\<close>
    (\<open>Pass_Properties\<close>: targets that no settle moves), \<open>open_turns\<close> (\<open>Spawn\<close>: what they may do at
    any time), \<open>waiting_world\<close>, \<open>worked_world\<close> and \<open>open_world\<close> (\<open>Era_Laws\<close>: for all Fibers at once, with
    what work on one Fiber keeps), \<open>fenced_world\<close> (\<open>Load_Runtime\<close>: the terminal mark and the completion
    barrier are respected), interpreted on scripted environments that withdraw services, commit
    drifts, kick and return or panic;
  \<^item> \<open>spawn_ledger\<close> (\<open>Load_Runtime\<close>: what the Loader needs of its spawner to keep an account of the
    spawns), given by \<open>fenced_world\<close> for \<open>Context::spawn\<close>.

  \<^bold>\<open>Theories and sources.\<close>
  \<^item> \<open>Context_Axes\<close>: \<open>context.rs\<close> (axes, derivations, realm mappings, configuration resolution).
  \<^item> \<open>Effect_Journal\<close>, \<open>Drain_Barrier\<close>, \<open>Caller_Driven\<close>: \<open>effect.rs\<close> and the drain of \<open>fiber/mod.rs\<close>
    (cleanups, the keyed journal, exact claims, the LIFO drain; the drain as its tasks see it, with
    cancellation at every await; committed work that survives its caller).
  \<^item> \<open>Plugin_Contract\<close>, \<open>Registry_Model\<close>: \<open>plugin.rs\<close>, \<open>fiber/spawn_state.rs\<close>, \<open>registry.rs\<close>.
  \<^item> \<open>Inertia_Slot\<close>, \<open>Inertia_Protocol\<close>: \<open>fiber/inertia.rs\<close>, every atomic access of the slot as a step of
    an interleaving of arbitrarily many passes and kicks.
  \<^item> \<open>Fiber_State\<close>, \<open>Wait_State\<close>, \<open>Gated\<close>: \<open>fiber/mod.rs\<close>, \<open>gated.rs\<close> (state publication, generation gate,
    failure slot, \<open>wait_state\<close> on timelines of publications, gated registration).
  \<^item> \<open>Dependency_Index\<close>, \<open>Service_Store\<close>, \<open>Service_Laws\<close>, \<open>Service_Properties\<close>: \<open>deps.rs\<close>, \<open>service.rs\<close>.
  \<^item> \<open>Settle_Ctx\<close>: \<open>fiber/settle_ctx.rs\<close> (which tasks would wait for themselves).
  \<^item> \<open>Event_Store\<close>, \<open>Event_Dispatch\<close>, \<open>Listener_Adapters\<close>, \<open>Listener_Properties\<close>: \<open>events/*.rs\<close>.
  \<^item> \<open>Lifecycle\<close> with \<open>_Laws\<close>, \<open>_Properties\<close>, \<open>_Contract\<close>: transitions, the settle pass and teardown of
    \<open>fiber/mod.rs\<close>; \<open>Passes\<close>, \<open>Pass_Laws\<close>, \<open>Pass_Properties\<close>, \<open>Pass_Contract\<close>, \<open>Ready_Wait\<close>: the passes of
    \<open>fiber/inertia.rs\<close> as one caller sees them and \<open>ready\<close>, \<open>restart\<close>; \<open>Spawn\<close>: \<open>fiber/spawn.rs\<close>;
    \<open>Era_Model\<close>, \<open>Era_Laws\<close>, \<open>Era_Properties\<close>: \<open>fiber/era.rs\<close> and the waiting disposal.
  \<^item> \<open>Update_Control\<close>, \<open>Update_Properties\<close>: \<open>update.rs\<close> and \<open>FiberHandle::update\<close>.
  \<^item> \<open>Loader_Plan\<close>, \<open>Loader_Order\<close>, \<open>Loader_Run\<close>, \<open>Loader_Properties\<close>, \<open>Loader_Realms\<close>: \<open>plan.rs\<close>,
    \<open>resolver.rs\<close>, \<open>outcome.rs\<close>, \<open>handoff.rs\<close> of \<open>cordis-loader\<close>; \<open>Load_Runtime\<close>: an execution whose
    spawner is \<open>Context::spawn\<close> on the Runtime and whose rollback is the waiting disposal.
  \<^item> \<open>Logger_Model\<close>, \<open>Logger_Properties\<close>: \<open>contained.rs\<close>, \<open>framework_task.rs\<close>, \<open>logger.rs\<close>;
    \<open>Observation\<close>: \<open>observation.rs\<close>, \<open>Context::runtime_snapshot\<close>.
  \<^item> \<open>Timer_Model\<close>, \<open>Timer_Properties\<close>: \<open>cordis-timer\<close>; \<open>Deadline_Scheduler\<close>: \<open>deadline.rs\<close>.

  A struct is a record with the source's fields, an enum a datatype; \<open>Err\<close> and panics are \<open>Inl\<close> and
  \<open>None\<close> branches; every \<open>u64\<close> counter is a word.  Shared allocations (\<open>Arc\<close>) are identities into a
  heap of the record \<open>runtime\<close>; \<open>Weak::upgrade\<close> is \<open>upgrades\<close>.  A critical section under one lock is
  one step; the slot word, which is lock-free, is modelled access by access in \<open>Inertia_Protocol\<close>.
\<close>

text \<open>
  \<^bold>\<open>What the theorems show.\<close>
  \<^item> \<^emph>\<open>Lifecycle.\<close>  A settle pass ends settled whatever user code does; the whole life of a Fiber is a
    path of its state machine; disposal ends it for good.  The slot admits one pass at a time, an idle
    slot without outstanding recheck means settled, no committed recheck is lost.  Initial pass,
    restart, update and ready answer truly, and (where nothing moves the target) do answer.
  \<^item> \<^emph>\<open>Transactions.\<close>  A spawn leaves a settled Fiber with a handle or nothing, also when its caller
    goes away in the middle; an era replacement refuses without effect or disposes the source for
    good before the successor exists.
  \<^item> \<^emph>\<open>Cleanup.\<close>  Registration is atomic against disposal; a drain starts cleanups newest first, one at a
    time and all of them even when its task is dropped and resumed; committed work has one owner.
  \<^item> \<^emph>\<open>Services, Events, Registry.\<close>  Exact publication and control, rechecks for every visibility change,
    the reverse index equals the scan, registrations end once, the order list stays proportional,
    dispatch enters the selected listeners in order, the erased dispatch refines the typed one.
  \<^item> \<^emph>\<open>Loader.\<close>  The traversal ends and is the preorder of the declarations; every entry has its row; an
    abandoned execution rolls back.  On the Runtime (the property of this theory): each committed
    spawn is a new Fiber, its handle is of that Fiber or it is gone, and an abandoned execution
    leaves none.
  \<^item> \<^emph>\<open>Around it.\<close>  Update policies and vetoes, exact refusal of lifecycle recursion, the passive wait,
    log fan-out, snapshots made of true records, timer arbitration, deadlines never missed.

  \<^bold>\<open>Environment.\<close>  User code (apply, cleanups, callbacks, exporters, observers, destructors, the resolver)
  is a parameter: a function on the whole world, so that it may call back into the Runtime.  What
  other tasks do is a schedule, the list of their turns, consumed one by one at every suspension
  point; the locales above state what a turn may do.  The executors, the clock of Tokio, the
  condition variable and \<open>join_all\<close> are step relations or parameters.  JSON values, type identities and
  panic payloads are opaque.

  \<^bold>\<open>Bounds and fuel.\<close>  Passes that may be extended by target changes take a number of rounds and stop
  with \<open>OutOfRounds\<close>; where the target is steady one round more than there are foreign turns is
  enough, and that is proved.  A wait whose schedule ends without the awaited event stops with
  \<open>StillWaiting\<close>: nobody left to wake it.  Both stops are results of the model and never count as an
  answer.  \<open>ready\<close> has no bound in the source and is a partial function, with its one divergence
  proved.  Revision and sequence counters need room: the hypotheses \<open>room\<close> and \<open>2 ^ 63\<close> exclude
  only lives of that many transitions; realm exhaustion is a result, not excluded.

  \<^bold>\<open>Findings.\<close>  \<open>FiberHandle::ready\<close> spins on a disposed Fiber with a committed recheck outstanding
  (\<open>Ready_Wait\<close>).  The closing check of \<open>initial_spawn_pass\<close> can overwrite the claim of a kick
  (\<open>Inertia_Protocol\<close>).  A cleanup outcome sent to a drain that is dropped before its next poll is reported
  by nobody, against the comment (\<open>Drain_Barrier.failure_report_lost\<close>).

  \<^bold>\<open>Not modelled.\<close>  The executor plumbing itself (\<open>completion_runtime\<close>, Tokio tasks, threads of the
  scheduler); the order in which the fields of callback containers are destroyed, which is the
  compiler's; the wire forms \<open>serde\<close> derives for plans and configuration; \<open>Debug\<close> and \<open>Hash\<close>
  implementations, accessors and re-exports of the crate roots; the vocabulary inventories, which
  are tests; the examples under \<open>src/examples\<close>, which only use the crates; last-handle deallocation:
  a Fiber of the model stays in the heap and its death is \<open>fb_alive\<close>.  When an execution
  of a plan is abandoned inside a spawn, the guard completes that creation (\<open>Spawn\<close>) beside the
  rollback of the earlier rows; for these it is one more task with its turns, and the two are
  not run as one interleaving.
\<close>

section \<open>The Loader on the Runtime\<close>



end
